(* ===== verification/Prelude.thy ===== *)
theory Prelude
  imports Main "HOL-Library.Word" "HOL-Library.Char_ord" "HOL-Library.List_Lexorder" "HOL-Library.Product_Lexorder"
begin

text \<open>
  The shared vocabulary of the development: the widths of the Rust integers, the
  \<open>Result\<close> type and its combinators, ordered sets as ascending lists, decimal text, and
  the list lemmas that the components use.

  Conventions. A Rust \<open>u64\<close> or \<open>u32\<close> is a \<open>nat\<close> whose bound is a hypothesis or an
  invariant where it matters; every saturating operation of the source is written out with
  the bound of its width. An \<open>i64\<close> is an \<open>int\<close>. A 32-byte hash is a \<open>256 word\<close> and a
  20-byte address a \<open>160 word\<close>, whose numeric order is the byte order that
  \<open>BTreeSet\<close> uses. A \<open>BTreeSet\<close> is its ascending list of elements, a \<open>BTreeMap\<close> its
  ascending association list.
\<close>

section \<open>Collections of facts\<close>

named_theorems result_simps \<open>unfolding of the Result combinators\<close>
named_theorems range_simps \<open>accessors and constructors of block ranges\<close>
named_theorems step_inv \<open>operations that keep a component's invariant\<close>

section \<open>Machine integers\<close>

type_synonym u64 = nat
type_synonym u32 = nat
type_synonym usize = nat
type_synonym i64 = int
type_synonym i32 = int
type_synonym i16 = int

type_synonym b256 = "256 word"
type_synonym address = "160 word"
type_synonym bytes = "8 word list"

definition u64_max :: u64 where "u64_max = 18446744073709551615"
definition u32_max :: u32 where "u32_max = 4294967295"
definition i64_max :: i64 where "i64_max = 9223372036854775807"
definition i32_max :: i32 where "i32_max = 2147483647"

text \<open>\<open>u64::saturating_add\<close>, \<open>u64::saturating_mul\<close>; \<open>u64::saturating_sub\<close> is \<open>nat\<close>
  subtraction.\<close>

definition sat_add :: "u64 \<Rightarrow> u64 \<Rightarrow> u64" where
  "sat_add a b = min (a + b) u64_max"

definition sat_mul :: "u64 \<Rightarrow> u64 \<Rightarrow> u64" where
  "sat_mul a b = min (a * b) u64_max"

lemma sat_add_le [simp]: "sat_add a b \<le> u64_max"
  by (simp add: sat_add_def)

lemma sat_mul_le [simp]: "sat_mul a b \<le> u64_max"
  by (simp add: sat_mul_def)

lemma sat_add_exact: "a + b \<le> u64_max \<Longrightarrow> sat_add a b = a + b"
  by (simp add: sat_add_def)

lemma sat_mul_exact: "a * b \<le> u64_max \<Longrightarrow> sat_mul a b = a * b"
  by (simp add: sat_mul_def)

text \<open>\<open>i64::try_from(u64)\<close> and \<open>u64::try_from(i64)\<close>.\<close>

definition i64_of_u64 :: "u64 \<Rightarrow> i64 option" where
  "i64_of_u64 n = (if int n \<le> i64_max then Some (int n) else None)"

definition u64_of_i64 :: "i64 \<Rightarrow> u64 option" where
  "u64_of_i64 i = (if 0 \<le> i then Some (nat i) else None)"

lemma u64_of_i64_Some [simp]: "u64_of_i64 i = Some n \<longleftrightarrow> 0 \<le> i \<and> n = nat i"
  by (auto simp: u64_of_i64_def)

lemma i64_of_u64_Some [simp]: "i64_of_u64 n = Some i \<longleftrightarrow> int n \<le> i64_max \<and> i = int n"
  by (auto simp: i64_of_u64_def)

section \<open>Results\<close>

text \<open>\<open>Result<T, E>\<close> is \<open>'e + 'a\<close> with the error on the left, as in the library.\<close>

type_synonym ('a, 'e) result = "'e + 'a"

abbreviation Ok :: "'a \<Rightarrow> ('a, 'e) result" where "Ok \<equiv> Inr"
abbreviation Err :: "'e \<Rightarrow> ('a, 'e) result" where "Err \<equiv> Inl"

text \<open>The \<open>?\<close> operator followed by the rest of the function.\<close>

definition and_then :: "('a, 'e) result \<Rightarrow> ('a \<Rightarrow> ('b, 'e) result) \<Rightarrow> ('b, 'e) result" where
  "and_then r f = (case r of Inl e \<Rightarrow> Err e | Inr x \<Rightarrow> f x)"

definition map_ok :: "('a \<Rightarrow> 'b) \<Rightarrow> ('a, 'e) result \<Rightarrow> ('b, 'e) result" where
  "map_ok f r = (case r of Inl e \<Rightarrow> Err e | Inr x \<Rightarrow> Ok (f x))"

definition map_err :: "('e \<Rightarrow> 'f) \<Rightarrow> ('a, 'e) result \<Rightarrow> ('a, 'f) result" where
  "map_err f r = (case r of Inl e \<Rightarrow> Err (f e) | Inr x \<Rightarrow> Ok x)"

definition ok_or :: "'e \<Rightarrow> 'a option \<Rightarrow> ('a, 'e) result" where
  "ok_or e x = (case x of None \<Rightarrow> Err e | Some y \<Rightarrow> Ok y)"

definition ok :: "('a, 'e) result \<Rightarrow> 'a option" where
  "ok r = (case r of Inl e \<Rightarrow> None | Inr x \<Rightarrow> Some x)"

definition is_ok :: "('a, 'e) result \<Rightarrow> bool" where
  "is_ok r = (case r of Inl e \<Rightarrow> False | Inr x \<Rightarrow> True)"

text \<open>Collecting an iterator of results stops at the first error.\<close>

fun try_map :: "('a \<Rightarrow> ('b, 'e) result) \<Rightarrow> 'a list \<Rightarrow> ('b list, 'e) result" where
  "try_map f [] = Ok []"
| "try_map f (x # xs) =
     (case f x of Inl e \<Rightarrow> Err e
      | Inr y \<Rightarrow> (case try_map f xs of Inl e \<Rightarrow> Err e | Inr ys \<Rightarrow> Ok (y # ys)))"

lemma and_then_simps [simp]:
  "and_then (Err e) f = Err e"
  "and_then (Ok x) f = f x"
  by (simp_all add: and_then_def)

lemma and_then_Ok_iff [simp]: "and_then r f = Ok y \<longleftrightarrow> (\<exists>x. r = Ok x \<and> f x = Ok y)"
  by (cases r) simp_all

lemma map_ok_simps [simp]:
  "map_ok f (Err e) = Err e"
  "map_ok f (Ok x) = Ok (f x)"
  by (simp_all add: map_ok_def)

lemma map_err_simps [simp]:
  "map_err f (Err e) = Err (f e)"
  "map_err f (Ok x) = Ok x"
  by (simp_all add: map_err_def)

lemma ok_or_simps [simp]:
  "ok_or e None = Err e"
  "ok_or e (Some x) = Ok x"
  by (simp_all add: ok_or_def)

lemma ok_or_Ok_iff [simp]: "ok_or e x = Ok y \<longleftrightarrow> x = Some y"
  by (cases x) simp_all

lemma ok_simps [simp]:
  "ok (Err e) = None"
  "ok (Ok x) = Some x"
  by (simp_all add: ok_def)

lemma ok_Some_iff [simp]: "ok r = Some x \<longleftrightarrow> r = Ok x"
  by (cases r) simp_all

lemma is_ok_simps [simp]:
  "is_ok (Err e) = False"
  "is_ok (Ok x) = True"
  by (simp_all add: is_ok_def)

lemma is_ok_iff: "is_ok r \<longleftrightarrow> (\<exists>x. r = Ok x)"
  by (cases r) simp_all

lemma try_map_Ok_iff:
  "try_map f xs = Ok ys \<longleftrightarrow> list_all2 (\<lambda>x y. f x = Ok y) xs ys"
proof (induction xs arbitrary: ys)
  case Nil
  then show ?case by auto
next
  case (Cons x xs)
  show ?case
    by (cases "f x"; cases "try_map f xs"; cases ys) (auto simp: Cons.IH [symmetric])
qed

lemma try_map_Ok_map: "(\<And>x. x \<in> set xs \<Longrightarrow> f x = Ok (g x)) \<Longrightarrow> try_map f xs = Ok (map g xs)"
  by (induction xs) simp_all

section \<open>Ordered sets and maps as ascending lists\<close>

type_synonym 'a btree_set = "'a list"
type_synonym ('k, 'v) btree_map = "('k \<times> 'v) list"

definition collect_set :: "'a::linorder list \<Rightarrow> 'a btree_set" where
  "collect_set xs = sort (remdups xs)"

definition btree_ok :: "'a::linorder btree_set \<Rightarrow> bool" where
  "btree_ok xs = sorted_wrt (<) xs"

definition is_subset :: "'a btree_set \<Rightarrow> 'a btree_set \<Rightarrow> bool" where
  "is_subset xs ys = list_all (\<lambda>x. x \<in> set ys) xs"

lemma set_collect_set [simp]: "set (collect_set xs) = set xs"
  by (simp add: collect_set_def)

lemma collect_set_eq_Nil [simp]: "collect_set xs = [] \<longleftrightarrow> xs = []"
  by (metis set_collect_set set_empty)

lemma btree_ok_collect_set [simp]: "btree_ok (collect_set xs)"
  by (simp add: btree_ok_def collect_set_def strict_sorted_iff)

lemma is_subset_iff [simp]: "is_subset xs ys \<longleftrightarrow> set xs \<subseteq> set ys"
  by (auto simp: is_subset_def list_all_iff)

lemma btree_ok_unique: "btree_ok xs \<Longrightarrow> btree_ok ys \<Longrightarrow> set xs = set ys \<Longrightarrow> xs = ys"
  by (simp add: btree_ok_def strict_sorted_equal)

fun btree_insert :: "'k::linorder \<Rightarrow> 'v \<Rightarrow> ('k, 'v) btree_map \<Rightarrow> ('k, 'v) btree_map" where
  "btree_insert k v [] = [(k, v)]"
| "btree_insert k v ((k', v') # m) =
     (if k < k' then (k, v) # (k', v') # m
      else if k = k' then (k, v) # m
      else (k', v') # btree_insert k v m)"

lemma map_of_btree_insert:
  "map_of (btree_insert k v m) = (map_of m)(k \<mapsto> v)"
  by (induction m rule: btree_insert.induct) (auto simp: fun_eq_iff)

lemma keys_btree_insert [simp]:
  "fst ` set (btree_insert k v m) = insert k (fst ` set m)"
  by (induction k v m rule: btree_insert.induct) (simp_all add: insert_commute)

lemma sorted_btree_insert [simp]:
  "sorted_wrt (<) (map fst m) \<Longrightarrow> sorted_wrt (<) (map fst (btree_insert k v m))"
proof (induction k v m rule: btree_insert.induct)
  case (2 k v k' v' m)
  have "fst ` set (btree_insert k v m) = insert k (fst ` set m)" by simp
  then have "\<forall>x\<in>set (btree_insert k v m). fst x = k \<or> fst x \<in> fst ` set m"
    by (metis imageI insertE)
  with 2 show ?case by (fastforce simp: neq_iff)
qed simp

section \<open>Decimal text\<close>

text \<open>\<open>u64::to_string\<close> and \<open>str::parse\<close> of an unsigned integer: an optional \<open>+\<close>, at
  least one digit, and no overflow of the width.\<close>

definition digit :: "nat \<Rightarrow> char" where
  "digit n = char_of (48 + n)"

fun dec :: "nat \<Rightarrow> string" where
  "dec n = (if n < 10 then [digit n] else dec (n div 10) @ [digit (n mod 10)])"

declare dec.simps [simp del]

definition digit_value :: "char \<Rightarrow> nat option" where
  "digit_value c = (let n = of_char c in if 48 \<le> n \<and> n \<le> (57::nat) then Some (n - 48) else None)"

fun parse_digits :: "nat \<Rightarrow> string \<Rightarrow> nat option" where
  "parse_digits acc [] = Some acc"
| "parse_digits acc (c # cs) =
     (case digit_value c of None \<Rightarrow> None | Some d \<Rightarrow> parse_digits (acc * 10 + d) cs)"

definition parse_uint :: "nat \<Rightarrow> string \<Rightarrow> nat option" where
  "parse_uint bound s =
     (let ds = (case s of c # cs \<Rightarrow> if c = CHR ''+'' then cs else s | [] \<Rightarrow> s)
      in if ds = [] then None
         else case parse_digits 0 ds of
                None \<Rightarrow> None
              | Some n \<Rightarrow> if n \<le> bound then Some n else None)"

lemma of_char_digit: "d < 10 \<Longrightarrow> (of_char (digit d) :: nat) = 48 + d"
  by (simp add: digit_def)

lemma digit_value_digit [simp]: "d < 10 \<Longrightarrow> digit_value (digit d) = Some d"
  by (simp add: digit_value_def of_char_digit)

lemma parse_digits_append:
  "parse_digits acc (xs @ ys) = (case parse_digits acc xs of None \<Rightarrow> None | Some a \<Rightarrow> parse_digits a ys)"
  by (induction xs arbitrary: acc) (auto split: option.splits)

lemma dec_nonempty [simp]: "dec n \<noteq> []"
  by (subst dec.simps) simp

lemma dec_digits: "c \<in> set (dec n) \<Longrightarrow> \<exists>d<10. c = digit d"
proof (induction n rule: dec.induct)
  case (1 n)
  show ?case
  proof (cases "n < 10")
    case True
    with 1 show ?thesis by (auto simp: dec.simps [of n])
  next
    case False
    with "1.prems" have "c \<in> set (dec (n div 10)) \<or> c = digit (n mod 10)"
      by (auto simp: dec.simps [of n])
    with "1.IH" False show ?thesis by (metis mod_less_divisor zero_less_numeral)
  qed
qed

lemma parse_digits_dec: "parse_digits 0 (dec n) = Some n"
proof (induction n rule: dec.induct)
  case (1 n)
  show ?case
  proof (cases "n < 10")
    case True
    then show ?thesis by (simp add: dec.simps [of n])
  next
    case False
    with "1.IH" have "parse_digits 0 (dec (n div 10)) = Some (n div 10)" by simp
    with False show ?thesis
      by (simp add: dec.simps [of n] parse_digits_append)
  qed
qed

lemma digit_neq: "d < 10 \<Longrightarrow> of_char c < (48::nat) \<or> 57 < (of_char c::nat) \<Longrightarrow> digit d \<noteq> c"
  using of_char_digit [of d] by auto

lemma dec_no_char:
  "of_char c < (48::nat) \<or> 57 < (of_char c::nat) \<Longrightarrow> c \<notin> set (dec n)"
  using dec_digits digit_neq by blast

lemma parse_uint_dec [simp]: "n \<le> bound \<Longrightarrow> parse_uint bound (dec n) = Some n"
proof -
  assume n: "n \<le> bound"
  obtain c cs where d: "dec n = c # cs" by (meson dec_nonempty neq_Nil_conv)
  have "CHR ''+'' \<notin> set (dec n)" by (rule dec_no_char) simp
  with d have "c \<noteq> CHR ''+''" by auto
  with n d show ?thesis
    using parse_digits_dec [of n] by (simp add: parse_uint_def)
qed

lemma dec_inj: "dec m = dec n \<Longrightarrow> m = n"
  by (metis parse_digits_dec option.inject)

text \<open>\<open>{:?}\<close> of a string: quotes, with the escapes of \<open>char::escape_debug\<close> for ASCII.\<close>

definition hex_digit :: "nat \<Rightarrow> char" where
  "hex_digit n = char_of (if n < 10 then 48 + n else 87 + n)"

fun hex_nat :: "nat \<Rightarrow> string" where
  "hex_nat n = (if n < 16 then [hex_digit n] else hex_nat (n div 16) @ [hex_digit (n mod 16)])"

declare hex_nat.simps [simp del]

definition escape_debug :: "char \<Rightarrow> string" where
  "escape_debug c = (let n = of_char c :: nat in
     if n = 0 then [char_of (92::nat), CHR ''0'']
     else if n = 9 then [char_of (92::nat), CHR ''t'']
     else if n = 10 then [char_of (92::nat), CHR ''n'']
     else if n = 13 then [char_of (92::nat), CHR ''r'']
     else if n = 34 \<or> n = 92 then [char_of (92::nat), c]
     else if n < 32 \<or> n = 127 then char_of (92::nat) # ''u{'' @ hex_nat n @ ''}''
     else [c])"

definition debug_str :: "string \<Rightarrow> string" where
  "debug_str s = [char_of (34::nat)] @ concat (map escape_debug s) @ [char_of (34::nat)]"

text \<open>\<open>str::contains\<close>, \<open>strip_prefix\<close> and \<open>split_once\<close> with a one-character separator.\<close>

fun starts_with :: "string \<Rightarrow> string \<Rightarrow> bool" where
  "starts_with [] s = True"
| "starts_with (p # ps) [] = False"
| "starts_with (p # ps) (c # cs) = (p = c \<and> starts_with ps cs)"

fun str_contains :: "string \<Rightarrow> string \<Rightarrow> bool" where
  "str_contains pat [] = (pat = [])"
| "str_contains pat (c # cs) = (starts_with pat (c # cs) \<or> str_contains pat cs)"

definition strip_prefix :: "string \<Rightarrow> string \<Rightarrow> string option" where
  "strip_prefix p s = (if starts_with p s then Some (drop (length p) s) else None)"

fun split_once :: "char \<Rightarrow> string \<Rightarrow> (string \<times> string) option" where
  "split_once c [] = None"
| "split_once c (x # xs) =
     (if x = c then Some ([], xs)
      else case split_once c xs of None \<Rightarrow> None | Some (a, b) \<Rightarrow> Some (x # a, b))"

lemma split_once_append: "c \<notin> set xs \<Longrightarrow> split_once c (xs @ c # ys) = Some (xs, ys)"
  by (induction xs) auto

lemma starts_with_append [simp]: "starts_with p (p @ s)"
  by (induction p) auto

lemma starts_with_iff: "starts_with p s \<longleftrightarrow> (\<exists>t. s = p @ t)"
  by (induction p s rule: starts_with.induct) auto

lemma str_contains_iff: "str_contains pat s \<longleftrightarrow> (\<exists>a b. s = a @ pat @ b)"
proof (induction s)
  case Nil
  then show ?case by auto
next
  case (Cons c cs)
  have "(\<exists>a b. c # cs = a @ pat @ b) \<longleftrightarrow> (\<exists>b. c # cs = pat @ b) \<or> (\<exists>a b. cs = a @ pat @ b)"
    by (auto simp: Cons_eq_append_conv)
  with Cons show ?case by (simp add: starts_with_iff)
qed

section \<open>Lists\<close>

lemma find_Some_in: "find P xs = Some x \<Longrightarrow> x \<in> set xs \<and> P x"
  by (induction xs) (auto split: if_splits)

lemma find_None_notin: "find P xs = None \<longleftrightarrow> (\<forall>x\<in>set xs. \<not> P x)"
  by (induction xs) auto

lemma find_append_case: "find P (xs @ ys) = (case find P xs of None \<Rightarrow> find P ys | Some x \<Rightarrow> Some x)"
  by (induction xs) auto

lemma find_map_option: "find P (map f xs) = map_option f (find (\<lambda>x. P (f x)) xs)"
  by (induction xs) auto

lemma find_filter_implied: "(\<And>x. P x \<Longrightarrow> Q x) \<Longrightarrow> find P (filter Q xs) = find P xs"
  by (induction xs) auto

text \<open>\<open>iter().max()\<close> and \<open>iter().min()\<close>: \<open>None\<close> on an empty iterator.\<close>

definition list_min :: "'a::linorder list \<Rightarrow> 'a option" where
  "list_min xs = (if xs = [] then None else Some (fold min (tl xs) (hd xs)))"

definition list_max :: "'a::linorder list \<Rightarrow> 'a option" where
  "list_max xs = (if xs = [] then None else Some (fold max (tl xs) (hd xs)))"

lemma fold_min_eq: "fold min xs (a::'a::linorder) = Min (insert a (set xs))"
  by (simp flip: Min.set_eq_fold)

lemma fold_max_eq: "fold max xs (a::'a::linorder) = Max (insert a (set xs))"
  by (simp flip: Max.set_eq_fold)

lemma list_min_Some: "list_min xs = Some m \<longleftrightarrow> m \<in> set xs \<and> (\<forall>x\<in>set xs. m \<le> x)"
proof (cases xs)
  case (Cons a ys)
  have "list_min xs = Some (Min (set xs))"
    by (simp add: list_min_def Cons fold_min_eq)
  moreover have "m = Min (set xs) \<longleftrightarrow> m \<in> set xs \<and> (\<forall>x\<in>set xs. m \<le> x)"
    using Cons by (metis List.finite_set Min_eqI Min_in Min_le list.set_intros(1) empty_iff)
  ultimately show ?thesis by auto
qed (simp add: list_min_def)

lemma list_max_Some: "list_max xs = Some m \<longleftrightarrow> m \<in> set xs \<and> (\<forall>x\<in>set xs. x \<le> m)"
proof (cases xs)
  case (Cons a ys)
  have "list_max xs = Some (Max (set xs))"
    by (simp add: list_max_def Cons fold_max_eq)
  moreover have "m = Max (set xs) \<longleftrightarrow> m \<in> set xs \<and> (\<forall>x\<in>set xs. x \<le> m)"
    using Cons by (metis List.finite_set Max_eqI Max_in Max_ge list.set_intros(1) empty_iff)
  ultimately show ?thesis by auto
qed (simp add: list_max_def)

lemma list_min_None [simp]: "list_min xs = None \<longleftrightarrow> xs = []"
  by (simp add: list_min_def)

lemma list_max_None [simp]: "list_max xs = None \<longleftrightarrow> xs = []"
  by (simp add: list_max_def)

lemma sorted_wrt_nth_mono:
  "sorted_wrt (<) (xs :: 'a::linorder list) \<Longrightarrow> i \<le> j \<Longrightarrow> j < length xs \<Longrightarrow> xs ! i \<le> xs ! j"
  by (metis le_neq_implies_less order_refl less_imp_le sorted_wrt_nth_less)

lemma strict_sorted_le_last: "sorted_wrt (<) (xs :: 'a::linorder list) \<Longrightarrow> x \<in> set xs \<Longrightarrow> x \<le> last xs"
  by (induction xs) (auto intro: less_imp_le)

end
