(* ===== verification/Core_Types.thy ===== *)
theory Core_Types
  imports Prelude
begin

text \<open>
  The domain vocabulary of \<open>crates/core\<close> apart from ranges and selectors: the error kinds
  (\<open>error.rs\<close>), chain names and ids (\<open>chain.rs\<close>), datasets (\<open>dataset.rs\<close>), finality
  (\<open>finality.rs\<close>) and the stored rows (\<open>rows.rs\<close>). Error messages are the source's
  texts; a \<open>serde_json::Value\<close> header is an association list of its fields.
\<close>

section \<open>Errors\<close>

datatype error =
    Unauthorized string
  | Forbidden string
  | InvalidInput string
  | QuotaExceeded string
  | Unsupported string
  | Internal string

fun error_kind :: "error \<Rightarrow> string" where
  "error_kind (Unauthorized _) = ''unauthorized''"
| "error_kind (Forbidden _) = ''forbidden''"
| "error_kind (InvalidInput _) = ''invalid_input''"
| "error_kind (QuotaExceeded _) = ''quota_exceeded''"
| "error_kind (Unsupported _) = ''unsupported''"
| "error_kind (Internal _) = ''internal''"

text \<open>\<open>Display\<close>, as \<open>thiserror\<close> derives it from the attributes.\<close>

fun show_error :: "error \<Rightarrow> string" where
  "show_error (Unauthorized m) = ''unauthorized: '' @ m"
| "show_error (Forbidden m) = ''forbidden: '' @ m"
| "show_error (InvalidInput m) = ''invalid input: '' @ m"
| "show_error (QuotaExceeded m) = ''quota exceeded: '' @ m"
| "show_error (Unsupported m) = ''unsupported: '' @ m"
| "show_error (Internal m) = ''internal: '' @ m"

section \<open>Chains\<close>

type_synonym chain_name = string
type_synonym chain_id = i32

definition chain_name_byte :: "char \<Rightarrow> bool" where
  "chain_name_byte c = (let b = of_char c :: nat in
     (97 \<le> b \<and> b \<le> 122) \<or> (48 \<le> b \<and> b \<le> 57) \<or> c = CHR ''-'' \<or> c = CHR ''_'')"

definition chain_name_new :: "string \<Rightarrow> (chain_name, error) result" where
  "chain_name_new name =
     (if name \<noteq> [] \<and> list_all chain_name_byte name then Ok name
      else Err (InvalidInput (''chain name '' @ debug_str name @ '' must be non-empty lowercase [a-z0-9_-]'')))"

definition show_int :: "int \<Rightarrow> string" where
  "show_int i = (if i < 0 then CHR ''-'' # dec (nat (- i)) else dec (nat i))"

definition chain_id_new :: "i32 \<Rightarrow> (chain_id, error) result" where
  "chain_id_new cid =
     (if cid > 0 then Ok cid
      else Err (InvalidInput (''chain id '' @ show_int cid @ '' must be positive'')))"

section \<open>Datasets\<close>

datatype dataset = EvmLogs | EvmBlocks

definition dataset_all :: "dataset list" where
  "dataset_all = [EvmLogs, EvmBlocks]"

fun dataset_as_str :: "dataset \<Rightarrow> string" where
  "dataset_as_str EvmLogs = ''evm.logs''"
| "dataset_as_str EvmBlocks = ''evm.blocks''"

definition dataset_from_str :: "string \<Rightarrow> (dataset, error) result" where
  "dataset_from_str s =
     ok_or (InvalidInput (''unknown dataset '' @ debug_str s))
       (find (\<lambda>d. dataset_as_str d = s) dataset_all)"

lemma dataset_as_str_inj: "dataset_as_str a = dataset_as_str b \<Longrightarrow> a = b"
  by (cases a; cases b) simp_all

lemma dataset_from_str_as_str [simp]: "dataset_from_str (dataset_as_str d) = Ok d"
  by (cases d) (simp_all add: dataset_from_str_def dataset_all_def)

section \<open>Finality\<close>

text \<open>Ordered from weakest to strongest, as the derived \<open>Ord\<close> of the source.\<close>

datatype finality = Unsafe | Safe | Finalized

fun finality_as_i16 :: "finality \<Rightarrow> i16" where
  "finality_as_i16 Unsafe = 1"
| "finality_as_i16 Safe = 2"
| "finality_as_i16 Finalized = 3"

definition finality_from_i16 :: "i16 \<Rightarrow> finality option" where
  "finality_from_i16 v =
     (if v = 1 then Some Unsafe else if v = 2 then Some Safe
      else if v = 3 then Some Finalized else None)"

lemma finality_from_as_i16 [simp]: "finality_from_i16 (finality_as_i16 f) = Some f"
  by (cases f) (simp_all add: finality_from_i16_def)

lemma finality_as_i16_inj: "finality_as_i16 a = finality_as_i16 b \<Longrightarrow> a = b"
  by (metis finality_from_as_i16 option.inject)

text \<open>The derived \<open>Ord\<close> compares the discriminants.\<close>

definition finality_le :: "finality \<Rightarrow> finality \<Rightarrow> bool" where
  "finality_le a b = (finality_as_i16 a \<le> finality_as_i16 b)"

definition finality_lt :: "finality \<Rightarrow> finality \<Rightarrow> bool" where
  "finality_lt a b = (finality_as_i16 a < finality_as_i16 b)"

lemmas finality_cmp_defs = finality_le_def finality_lt_def

instantiation finality :: linorder
begin

definition less_eq_finality :: "finality \<Rightarrow> finality \<Rightarrow> bool" where
  "less_eq_finality = finality_le"

definition less_finality :: "finality \<Rightarrow> finality \<Rightarrow> bool" where
  "less_finality = finality_lt"

instance
  by standard (auto simp: less_eq_finality_def less_finality_def finality_cmp_defs intro: finality_as_i16_inj)

end

lemma finality_order [simp]:
  "Unsafe \<le> f"
  "f \<le> Finalized"
  "Safe \<le> f \<longleftrightarrow> f \<noteq> Unsafe"
  "f < Safe \<longleftrightarrow> f = Unsafe"
  "f \<le> Unsafe \<longleftrightarrow> f = Unsafe"
  "Finalized \<le> f \<longleftrightarrow> f = Finalized"
  by (cases f; simp add: less_eq_finality_def less_finality_def finality_cmp_defs)+

datatype query_finality = DurableOnly | SafeToLatest | LatestOnly

fun query_finality_as_str :: "query_finality \<Rightarrow> string" where
  "query_finality_as_str DurableOnly = ''durable_only''"
| "query_finality_as_str SafeToLatest = ''safe_to_latest''"
| "query_finality_as_str LatestOnly = ''latest_only''"

section \<open>Rows\<close>

record log_row =
  log_block_number :: u64
  log_index :: u32
  log_block_hash :: b256
  transaction_index :: u32
  transaction_hash :: b256
  log_address :: address
  log_topics :: "b256 list"
  log_data :: bytes
  log_finality :: finality

record 'h block_row =
  blk_number :: u64
  blk_hash :: b256
  blk_parent_hash :: b256
  blk_timestamp :: u64
  blk_finality :: finality
  blk_header :: 'h

record heads =
  latest :: u64
  latest_hash :: b256
  safe :: u64
  finalized :: u64

definition heads_ok :: "heads \<Rightarrow> bool" where
  "heads_ok h = (finalized h \<le> safe h)"

end
