(* ===== verification/Transition.thy ===== *)
theory Transition
  imports Main
begin

text \<open>
  The contract of a component that changes state in steps: initial states satisfy the
  invariant and every step keeps it, so every reachable state satisfies it. Components
  interpret it on their own step relation; \<open>owned_system\<close> adds resources that only their
  holder may change.
\<close>

locale invariant_system =
  fixes init :: "'s \<Rightarrow> bool" and step :: "'s \<Rightarrow> 's \<Rightarrow> bool" and inv :: "'s \<Rightarrow> bool"
  assumes init_inv: "init s \<Longrightarrow> inv s"
    and step_inv: "inv s \<Longrightarrow> step s t \<Longrightarrow> inv t"
begin

lemma steps_inv: "step\<^sup>*\<^sup>* s t \<Longrightarrow> inv s \<Longrightarrow> inv t"
  by (induction rule: rtranclp_induct) (auto intro: step_inv)

lemma reachable_inv: "init s \<Longrightarrow> step\<^sup>*\<^sup>* s t \<Longrightarrow> inv t"
  using steps_inv init_inv by blast

lemma monotone_along:
  assumes "\<And>s t. inv s \<Longrightarrow> step s t \<Longrightarrow> f s \<le> (f t :: 'a::preorder)"
    and "step\<^sup>*\<^sup>* s t" and "inv s"
  shows "f s \<le> f t"
  using assms(2,3)
proof (induction rule: rtranclp_induct)
  case (step y z)
  then have "inv y" using steps_inv by blast
  with step assms(1) show ?case using order_trans by blast
qed simp

end

locale owned_system = invariant_system init step inv
  for init :: "'s \<Rightarrow> bool" and step :: "'s \<Rightarrow> 's \<Rightarrow> bool" and inv :: "'s \<Rightarrow> bool" +
  fixes foreign :: "'o \<Rightarrow> 's \<Rightarrow> 's \<Rightarrow> bool" and holds :: "'o \<Rightarrow> 's \<Rightarrow> bool"
  assumes foreign_step: "foreign a s t \<Longrightarrow> step s t"
    and foreign_keeps: "inv s \<Longrightarrow> holds a s \<Longrightarrow> foreign a s t \<Longrightarrow> holds a t"
begin

lemma foreign_run_keeps:
  assumes "(foreign a)\<^sup>*\<^sup>* s t" and "inv s" and "holds a s"
  shows "holds a t \<and> inv t"
  using assms
proof (induction rule: rtranclp_induct)
  case (step y z)
  then show ?case using foreign_keeps foreign_step step_inv by blast
qed simp

end

end
