(* ===== verification/Budget.thy ===== *)
theory Budget
  imports Core_Types Transition
begin

text \<open>
  The provider budget (\<open>crates/provider/src/budget.rs\<close>, \<open>purpose.rs\<close>) and the sections in which
  the gateway holds its lock (\<open>gateway.rs\<close>: \<open>acquire\<close>, \<open>wait_turn\<close>, \<open>spawn_refill\<close>). An
  \<open>Instant\<close> is its number of nanoseconds, a \<open>Duration\<close> too; \<open>u128\<close> products stay below their
  bound for run times under two million years. A waiter's channel is its id and whether its
  receiver is still alive; waking returns the id that was signalled.
\<close>

section \<open>Purposes\<close>

datatype purpose = PHead | PReorg | PFollow | PQueryFill | PBackfill

fun purpose_str :: "purpose \<Rightarrow> string" where
  "purpose_str PHead = ''head''"
| "purpose_str PReorg = ''reorg''"
| "purpose_str PFollow = ''follow''"
| "purpose_str PQueryFill = ''query_fill''"
| "purpose_str PBackfill = ''backfill''"

fun purpose_rank :: "purpose \<Rightarrow> usize" where
  "purpose_rank PHead = 0"
| "purpose_rank PReorg = 1"
| "purpose_rank PFollow = 2"
| "purpose_rank PQueryFill = 3"
| "purpose_rank PBackfill = 4"

type_synonym instant = nat
type_synonym duration_ns = nat

datatype token_wait = UntilToken | WaitFor duration_ns

section \<open>The token bucket\<close>

definition SCALE :: u64 where "SCALE = 1000000"
definition RANKS :: usize where "RANKS = 5"
definition NANOS :: nat where "NANOS = 1000000000"

record waiter =
  w_id :: u64
  w_alive :: bool

datatype acquire_fail = FailDaily | FailThrottled

record budget =
  b_balance :: u64
  b_burst :: u64
  b_rps :: u32
  b_updated :: instant
  b_not_before :: instant
  b_daily_limit :: "u64 option"
  b_daily_used :: u64
  b_daily_day :: u64
  b_next_id :: u64
  b_waiters :: "waiter list list"
  b_armed :: bool

record parked =
  pk_id :: u64
  pk_deadline :: "instant option"

definition budget_new :: "u32 \<Rightarrow> u32 \<Rightarrow> u64 option \<Rightarrow> instant \<Rightarrow> budget" where
  "budget_new rps burst daily now =
     \<lparr>b_balance = burst * SCALE, b_burst = burst * SCALE, b_rps = rps, b_updated = now, b_not_before = now,
      b_daily_limit = daily, b_daily_used = 0, b_daily_day = 0, b_next_id = 1,
      b_waiters = replicate RANKS [], b_armed = False\<rparr>"

definition hold_until :: "budget \<Rightarrow> instant \<Rightarrow> budget" where
  "hold_until b until = (if until > b_not_before b then b\<lparr>b_not_before := until\<rparr> else b)"

definition hold_delay :: "budget \<Rightarrow> instant \<Rightarrow> duration_ns option" where
  "hold_delay b now = (let delay = b_not_before b - now in if delay = 0 then None else Some delay)"

definition refill :: "budget \<Rightarrow> instant \<Rightarrow> budget" where
  "refill b now =
     (if b_balance b \<ge> b_burst b then b\<lparr>b_updated := now\<rparr>
      else let elapsed = now - b_updated b in
        if elapsed = 0 then b
        else let earned = elapsed * b_rps b * SCALE div NANOS in
          if earned = 0 then b
          else let room = b_burst b - b_balance b; add = min earned room;
                   bal = b_balance b + (if add \<le> u64_max then add else 0) in
            if bal \<ge> b_burst b then b\<lparr>b_balance := b_burst b, b_updated := now\<rparr>
            else let consumed = add * NANOS div (b_rps b * SCALE) in
              b\<lparr>b_balance := bal, b_updated := b_updated b + (if consumed \<le> u64_max then consumed else 0)\<rparr>)"

definition roll_day :: "budget \<Rightarrow> u64 \<Rightarrow> budget" where
  "roll_day b today = (if b_daily_day b \<noteq> today then b\<lparr>b_daily_day := today, b_daily_used := 0\<rparr> else b)"

definition daily_exhausted :: "budget \<Rightarrow> bool" where
  "daily_exhausted b = (case b_daily_limit b of None \<Rightarrow> False | Some limit \<Rightarrow> b_daily_used b \<ge> limit)"

definition has_higher :: "budget \<Rightarrow> purpose \<Rightarrow> bool" where
  "has_higher b p = list_ex (\<lambda>q. q \<noteq> []) (take (purpose_rank p) (b_waiters b))"

definition has_same :: "budget \<Rightarrow> purpose \<Rightarrow> bool" where
  "has_same b p = (b_waiters b ! purpose_rank p \<noteq> [])"

definition has_waiters :: "budget \<Rightarrow> bool" where
  "has_waiters b = list_ex (\<lambda>q. q \<noteq> []) (b_waiters b)"

text \<open>\<open>while let Some(waiter) = queue.pop_front()\<close>: a send fails when the receiver is gone.\<close>

fun pop_alive :: "waiter list \<Rightarrow> u64 option \<times> waiter list" where
  "pop_alive [] = (None, [])"
| "pop_alive (w # ws) = (if w_alive w then (Some (w_id w), ws) else pop_alive ws)"

fun wake_queues :: "waiter list list \<Rightarrow> u64 option \<times> waiter list list" where
  "wake_queues [] = (None, [])"
| "wake_queues (q # qs) =
     (case pop_alive q of
        (Some i, q') \<Rightarrow> (Some i, q' # qs)
      | (None, q') \<Rightarrow> (case wake_queues qs of (r, qs') \<Rightarrow> (r, q' # qs')))"

definition wake_highest :: "budget \<Rightarrow> u64 option \<times> budget" where
  "wake_highest b = (case wake_queues (b_waiters b) of (r, qs) \<Rightarrow> (r, b\<lparr>b_waiters := qs\<rparr>))"

definition enqueue_waiter :: "budget \<Rightarrow> purpose \<Rightarrow> instant option \<Rightarrow> parked \<times> budget" where
  "enqueue_waiter b p deadline =
     (\<lparr>pk_id = b_next_id b, pk_deadline = deadline\<rparr>,
      b\<lparr>b_next_id := b_next_id b + 1,
        b_waiters := (b_waiters b)[purpose_rank p := b_waiters b ! purpose_rank p @ [\<lparr>w_id = b_next_id b, w_alive = True\<rparr>]]\<rparr>)"

definition try_acquire ::
  "budget \<Rightarrow> purpose \<Rightarrow> instant option \<Rightarrow> instant \<Rightarrow> u64 \<Rightarrow> bool \<Rightarrow> (parked option, acquire_fail) result \<times> budget" where
  "try_acquire b0 p deadline now today woken =
     (let b = roll_day b0 today in
      if daily_exhausted b then (Err FailDaily, b)
      else
        let higher = has_higher b p; same = has_same b p;
            b1 = (if higher \<and> b_balance b \<ge> SCALE then snd (wake_highest b) else b) in
        if b_balance b1 \<ge> SCALE \<and> \<not> higher \<and> (woken \<or> \<not> same) then
          let b2 = b1\<lparr>b_balance := b_balance b1 - SCALE, b_daily_used := b_daily_used b1 + 1\<rparr> in
          (Ok None, if b_balance b2 \<ge> SCALE then snd (wake_highest b2) else b2)
        else if (case deadline of None \<Rightarrow> False | Some d \<Rightarrow> now \<ge> d) then (Err FailThrottled, b1)
        else (case enqueue_waiter b1 p deadline of (pk, b2) \<Rightarrow> (Ok (Some pk), b2)))"

definition remove_waiter :: "budget \<Rightarrow> purpose \<Rightarrow> u64 \<Rightarrow> bool \<times> budget" where
  "remove_waiter b p i =
     (let q = b_waiters b ! purpose_rank p; q' = filter (\<lambda>w. w_id w \<noteq> i) q in
      (length q' \<noteq> length q, b\<lparr>b_waiters := (b_waiters b)[purpose_rank p := q']\<rparr>))"

definition delay_until_token :: "budget \<Rightarrow> duration_ns" where
  "delay_until_token b =
     (if b_balance b \<ge> sat_mul SCALE 2 then 1000000
      else let need = (if b_balance b \<ge> SCALE then SCALE else SCALE - b_balance b);
               ns = need * NANOS div (b_rps b * SCALE) in
        (if max ns 1000000 \<le> u64_max then max ns 1000000 else u64_max))"

definition arm_delay :: "budget \<Rightarrow> duration_ns option \<times> budget" where
  "arm_delay b =
     (if b_armed b \<or> \<not> has_waiters b then (None, b)
      else (Some (delay_until_token b), b\<lparr>b_armed := True\<rparr>))"

definition refill_fired :: "budget \<Rightarrow> instant \<Rightarrow> duration_ns option \<times> budget" where
  "refill_fired b now = arm_delay (snd (wake_highest (refill (b\<lparr>b_armed := False\<rparr>) now)))"

section \<open>The gateway's locked sections\<close>

datatype turn =
    Held duration_ns
  | Rejected acquire_fail
  | Granted "duration_ns option"
  | Queued parked "duration_ns option"

text \<open>One round of the loop in \<open>acquire\<close>; \<open>now\<close>, \<open>now1\<close> and \<open>now2\<close> are its three readings of the
  clock.\<close>

definition acquire_turn ::
  "budget \<Rightarrow> purpose \<Rightarrow> instant option \<Rightarrow> instant \<Rightarrow> instant \<Rightarrow> instant \<Rightarrow> u64 \<Rightarrow> bool \<Rightarrow> turn \<times> budget" where
  "acquire_turn b p deadline now now1 now2 today prefer_turn =
     (case hold_delay b now of
        Some delay \<Rightarrow> (Held delay, b)
      | None \<Rightarrow>
          (case try_acquire (refill b now1) p deadline now2 today prefer_turn of
             (Inl fail, b') \<Rightarrow> (Rejected fail, b')
           | (Inr None, b') \<Rightarrow> (case arm_delay b' of (delay, b'') \<Rightarrow> (Granted delay, b''))
           | (Inr (Some pk), b') \<Rightarrow> (case arm_delay b' of (delay, b'') \<Rightarrow> (Queued pk delay, b''))))"

text \<open>The deadline branch of \<open>wait_turn\<close>: a waiter that was already woken hands its turn on.\<close>

definition wait_timeout :: "budget \<Rightarrow> purpose \<Rightarrow> u64 \<Rightarrow> duration_ns option \<times> budget" where
  "wait_timeout b p i =
     (case remove_waiter b p i of
        (True, b') \<Rightarrow> (None, b')
      | (False, b') \<Rightarrow> arm_delay (snd (wake_highest b')))"

definition drop_receiver :: "budget \<Rightarrow> u64 \<Rightarrow> budget" where
  "drop_receiver b i =
     b\<lparr>b_waiters := map (map (\<lambda>w. if w_id w = i then w\<lparr>w_alive := False\<rparr> else w)) (b_waiters b)\<rparr>"

definition hold_for :: "budget \<Rightarrow> instant \<Rightarrow> duration_ns \<Rightarrow> budget" where
  "hold_for b now delay = (if delay = 0 then b else hold_until b (now + delay))"

section \<open>What each operation changes\<close>

definition bucket :: "budget \<Rightarrow> u64 \<times> u64 \<times> u32 \<times> instant" where
  "bucket b = (b_balance b, b_burst b, b_rps b, b_updated b)"

definition daily :: "budget \<Rightarrow> u64 option \<times> u64 \<times> u64" where
  "daily b = (b_daily_limit b, b_daily_used b, b_daily_day b)"

lemma wake_queues_length: "length (snd (wake_queues qs)) = length qs"
  by (induction qs rule: wake_queues.induct) (auto split: prod.splits option.splits)

lemma pop_alive_shrinks: "q = [] \<Longrightarrow> snd (pop_alive q) = []"
  by simp

lemma wake_queues_waiting:
  "list_ex (\<lambda>q. q \<noteq> []) (snd (wake_queues qs)) \<Longrightarrow> list_ex (\<lambda>q. q \<noteq> []) qs"
  by (induction qs rule: wake_queues.induct)
     (auto split: prod.splits option.splits dest: arg_cong [where f = snd])

lemma wake_highest_frame [simp]:
  "bucket (snd (wake_highest b)) = bucket b" "daily (snd (wake_highest b)) = daily b"
  "length (b_waiters (snd (wake_highest b))) = length (b_waiters b)"
  "b_armed (snd (wake_highest b)) = b_armed b" "b_balance (snd (wake_highest b)) = b_balance b"
  "b_next_id (snd (wake_highest b)) = b_next_id b"
  using wake_queues_length [of "b_waiters b"]
  by (auto simp: wake_highest_def bucket_def daily_def split: prod.splits)

lemma wake_highest_waiting: "has_waiters (snd (wake_highest b)) \<Longrightarrow> has_waiters b"
  using wake_queues_waiting [of "b_waiters b"] by (auto simp: wake_highest_def has_waiters_def split: prod.splits)

lemma arm_delay_frame [simp]:
  "bucket (snd (arm_delay b)) = bucket b" "daily (snd (arm_delay b)) = daily b"
  "b_waiters (snd (arm_delay b)) = b_waiters b"
  by (auto simp: arm_delay_def bucket_def daily_def)

lemma arm_delay_armed: "has_waiters (snd (arm_delay b)) \<Longrightarrow> b_armed (snd (arm_delay b))"
  by (auto simp: arm_delay_def has_waiters_def)

lemma refill_frame [simp]:
  "daily (refill b now) = daily b" "b_waiters (refill b now) = b_waiters b" "b_armed (refill b now) = b_armed b"
  by (auto simp: refill_def daily_def Let_def)

lemma roll_day_frame [simp]:
  "bucket (roll_day b d) = bucket b" "b_waiters (roll_day b d) = b_waiters b" "b_armed (roll_day b d) = b_armed b"
  "b_balance (roll_day b d) = b_balance b" "b_daily_day (roll_day b d) = d" "b_daily_limit (roll_day b d) = b_daily_limit b"
  "b_next_id (roll_day b d) = b_next_id b"
  by (auto simp: roll_day_def bucket_def)

section \<open>The rate of a token bucket\<close>

text \<open>The balance is paid for: by the burst, the time up to \<open>updated\<close>, and at most one nanosecond
  more for each refill, which the rounding of \<open>consumed_ns\<close> gives away.\<close>

definition bucket_ok :: "u32 \<Rightarrow> u32 \<Rightarrow> instant \<Rightarrow> nat \<Rightarrow> nat \<Rightarrow> instant \<Rightarrow> u64 \<times> u64 \<times> u32 \<times> instant \<Rightarrow> bool" where
  "bucket_ok rps burst t0 granted refills now k =
     (case k of (balance, cap, rate, updated) \<Rightarrow>
        rate = rps \<and> cap = burst * SCALE \<and> balance \<le> cap \<and> t0 \<le> updated \<and> updated \<le> now \<and>
        NANOS * (balance + SCALE * granted) \<le> NANOS * (burst * SCALE) + rps * SCALE * ((updated - t0) + refills))"

lemma rate_div_bounds:
  fixes a b :: nat
  assumes "0 < b"
  shows "a div b * b \<le> a" and "a < (a div b + 1) * b"
proof -
  show "a div b * b \<le> a" by simp
  show "a < (a div b + 1) * b" using assms by (metis Suc_eq_plus1 dividend_less_div_times mult_Suc add.commute)
qed

lemma partial_refill_pays:
  fixes elapsed rate :: nat
  assumes "0 < rate" and "add \<le> elapsed * rate div NANOS"
  shows "add * NANOS div rate \<le> elapsed" and "NANOS * add \<le> (add * NANOS div rate + 1) * rate"
proof -
  have "add * NANOS \<le> elapsed * rate div NANOS * NANOS" using assms(2) by (rule mult_le_mono1)
  also have "\<dots> \<le> elapsed * rate" by simp
  finally have "add * NANOS div rate \<le> elapsed * rate div rate" by (rule div_le_mono)
  then show "add * NANOS div rate \<le> elapsed" using assms(1) by simp
  have "add * NANOS < (add * NANOS div rate + 1) * rate" by (rule rate_div_bounds [OF assms(1)])
  then have "add * NANOS \<le> (add * NANOS div rate + 1) * rate" by (rule less_imp_le)
  then show "NANOS * add \<le> (add * NANOS div rate + 1) * rate" by (subst mult.commute)
qed

lemma consumed_fits:
  assumes "burst \<le> u32_max" and "add \<le> burst * SCALE" and "1 \<le> rps"
  shows "add * NANOS div (rps * SCALE) \<le> u64_max"
proof -
  have "add * NANOS div (rps * SCALE) \<le> add * NANOS div (1 * SCALE)"
    using assms(3) by (intro div_le_mono2 mult_le_mono1) (simp_all add: SCALE_def)
  also have "\<dots> \<le> burst * SCALE * NANOS div (1 * SCALE)"
    using assms(2) by (intro div_le_mono mult_le_mono1)
  also have "\<dots> = burst * NANOS" by (simp add: SCALE_def)
  also have "\<dots> \<le> u32_max * NANOS" using assms(1) by (rule mult_le_mono1)
  also have "\<dots> \<le> u64_max" by (simp add: u32_max_def NANOS_def u64_max_def)
  finally show ?thesis .
qed

lemma bucket_ok_later:
  "bucket_ok rps burst t0 g r now k \<Longrightarrow> now \<le> now' \<Longrightarrow> r \<le> r' \<Longrightarrow> bucket_ok rps burst t0 g r' now' k"
proof (cases k)
  case (fields balance cap rate updated)
  assume ok: "bucket_ok rps burst t0 g r now k" and le: "now \<le> now'" "r \<le> r'"
  have "rps * SCALE * ((updated - t0) + r) \<le> rps * SCALE * ((updated - t0) + r')" using le(2) by (intro mult_le_mono2) simp
  with ok le(1) show ?thesis unfolding fields bucket_ok_def prod.case by linarith
qed

lemma refill_pays:
  assumes ok: "bucket_ok rps burst t0 g r now (bucket b)" and "1 \<le> rps" and "burst \<le> u32_max" and now: "now \<le> now'"
  shows "bucket_ok rps burst t0 g (r + 1) now' (bucket (refill b now'))"
proof -
  have f: "b_rps b = rps" "b_burst b = burst * SCALE" "b_balance b \<le> burst * SCALE" "t0 \<le> b_updated b" "b_updated b \<le> now'"
    and pay: "NANOS * (b_balance b + SCALE * g) \<le> NANOS * (burst * SCALE) + rps * SCALE * ((b_updated b - t0) + r)"
    using ok now by (auto simp: bucket_ok_def bucket_def)
  define elapsed where "elapsed = now' - b_updated b"
  define add where "add = min (elapsed * rps * SCALE div NANOS) (burst * SCALE - b_balance b)"
  have add: "add \<le> elapsed * (rps * SCALE) div NANOS" "b_balance b + add \<le> burst * SCALE"
    using f(3) by (auto simp: add_def mult.assoc)
  have cap: "burst * SCALE \<le> u64_max"
    using mult_le_mono1 [OF assms(3), of SCALE] by (simp add: SCALE_def u32_max_def u64_max_def)
  have rate: "0 < rps * SCALE" using assms(2) by (simp add: SCALE_def)
  define consumed where "consumed = add * NANOS div (rps * SCALE)"
  have con: "consumed \<le> elapsed" "NANOS * add \<le> (consumed + 1) * (rps * SCALE)"
    unfolding consumed_def using partial_refill_pays [OF rate add(1)] by auto
  have conf: "consumed \<le> u64_max"
    unfolding consumed_def using assms(2,3) add(2) by (intro consumed_fits) auto
  have wider: "rps * SCALE * ((b_updated b - t0) + r) \<le> rps * SCALE * ((u - t0) + (r + 1))" if "b_updated b \<le> u" for u
    using that by (intro mult_le_mono2) simp
  have full: "bucket_ok rps burst t0 g (r + 1) now' (b_balance b + add, burst * SCALE, rps, u)"
    if u: "b_updated b + consumed \<le> u" "u \<le> now'" for u
  proof -
    have "NANOS * (b_balance b + add + SCALE * g) = NANOS * (b_balance b + SCALE * g) + NANOS * add" by (simp add: distrib_left)
    also have "\<dots> \<le> NANOS * (burst * SCALE) + rps * SCALE * ((b_updated b - t0) + r) + (consumed + 1) * (rps * SCALE)"
      using pay con(2) by (rule add_le_mono)
    also have "\<dots> = NANOS * (burst * SCALE) + rps * SCALE * ((b_updated b - t0) + consumed + (r + 1))" by (simp add: algebra_simps)
    also have "\<dots> \<le> NANOS * (burst * SCALE) + rps * SCALE * ((u - t0) + (r + 1))"
      using u(1) f(4) by (intro add_left_mono mult_le_mono2) simp
    finally show ?thesis using f add(2) u by (simp add: bucket_ok_def)
  qed
  show ?thesis
  proof (cases "b_balance b \<ge> b_burst b")
    case True
    with f pay wider [of now'] show ?thesis by (auto simp: refill_def bucket_ok_def bucket_def)
  next
    case False
    show ?thesis
    proof (cases "elapsed * rps * SCALE div NANOS = 0")
      case True
      with False have "refill b now' = b" by (auto simp: refill_def Let_def elapsed_def f)
      then show ?thesis using f pay wider [of "b_updated b"] by (auto simp: bucket_ok_def bucket_def)
    next
      case earned: False
      then have "refill b now' = (if b_balance b + add \<ge> burst * SCALE then b\<lparr>b_balance := burst * SCALE, b_updated := now'\<rparr>
          else b\<lparr>b_balance := b_balance b + add, b_updated := b_updated b + consumed\<rparr>)"
        using False conf cap add(2) unfolding refill_def Let_def
        by (auto simp: elapsed_def [symmetric] f add_def [symmetric] consumed_def [symmetric])
      then show ?thesis
        using full [of now'] full [of "b_updated b + consumed"] con(1) add(2) f
        by (auto simp: bucket_def elapsed_def)
    qed
  qed
qed

section \<open>Runs of the gateway\<close>

text \<open>A run keeps, next to the budget, the time and day of the last section and what the
  properties count: tokens granted, refills, and tokens granted on each day.\<close>

record budget_run =
  rn_budget :: budget
  rn_now :: instant
  rn_today :: u64
  rn_granted :: nat
  rn_refills :: nat
  rn_by_day :: "u64 \<Rightarrow> nat"

fun is_granted :: "turn \<Rightarrow> bool" where
  "is_granted (Granted _) = True"
| "is_granted _ = False"

inductive budget_step :: "budget_run \<Rightarrow> budget_run \<Rightarrow> bool" where
  s_tick: "rn_now s \<le> n \<Longrightarrow> rn_today s \<le> d \<Longrightarrow> budget_step s (s\<lparr>rn_now := n, rn_today := d\<rparr>)"
| s_held: "acquire_turn (rn_budget s) p deadline n n1 n2 (rn_today s) w = (Held delay, b) \<Longrightarrow>
    budget_step s (s\<lparr>rn_budget := b\<rparr>)"
| s_turn: "acquire_turn (rn_budget s) p deadline n n1 n2 (rn_today s) w = (r, b) \<Longrightarrow> hold_delay (rn_budget s) n = None \<Longrightarrow>
    rn_now s \<le> n \<Longrightarrow> n \<le> n1 \<Longrightarrow> n1 \<le> n2 \<Longrightarrow>
    budget_step s (s\<lparr>rn_budget := b, rn_now := n2, rn_refills := rn_refills s + 1,
      rn_granted := rn_granted s + (if is_granted r then 1 else 0),
      rn_by_day := (if is_granted r then (rn_by_day s)(rn_today s := rn_by_day s (rn_today s) + 1) else rn_by_day s)\<rparr>)"
| s_timeout: "wait_timeout (rn_budget s) p i = (delay, b) \<Longrightarrow> budget_step s (s\<lparr>rn_budget := b\<rparr>)"
| s_drop: "budget_step s (s\<lparr>rn_budget := drop_receiver (rn_budget s) i\<rparr>)"
| s_fired: "refill_fired (rn_budget s) n = (delay, b) \<Longrightarrow> rn_now s \<le> n \<Longrightarrow>
    budget_step s (s\<lparr>rn_budget := b, rn_now := n, rn_refills := rn_refills s + 1\<rparr>)"
| s_hold: "budget_step s (s\<lparr>rn_budget := hold_for (rn_budget s) n delay\<rparr>)"

inductive_cases budget_stepE: "budget_step s t"

definition budget_started :: "u32 \<Rightarrow> u32 \<Rightarrow> u64 option \<Rightarrow> instant \<Rightarrow> budget_run \<Rightarrow> bool" where
  "budget_started rps burst limit t0 s =
     (1 \<le> rps \<and> burst \<le> u32_max \<and>
      (\<exists>d. s = \<lparr>rn_budget = budget_new rps burst limit t0, rn_now = t0, rn_today = d, rn_granted = 0, rn_refills = 0,
                 rn_by_day = (\<lambda>_. 0)\<rparr>))"

definition daily_ok :: "u64 option \<Rightarrow> u64 \<Rightarrow> (u64 \<Rightarrow> nat) \<Rightarrow> u64 option \<times> u64 \<times> u64 \<Rightarrow> bool" where
  "daily_ok limit today by_day k =
     (case k of (lim, used, day) \<Rightarrow>
        lim = limit \<and> day \<le> today \<and> by_day day = used \<and> (\<forall>d>day. by_day d = 0) \<and>
        (\<forall>l. limit = Some l \<longrightarrow> (\<forall>d. by_day d \<le> l)))"

definition queues_ok :: "budget \<Rightarrow> bool" where
  "queues_ok b = (length (b_waiters b) = RANKS \<and> (has_waiters b \<longrightarrow> b_armed b))"

definition budget_inv :: "u32 \<Rightarrow> u32 \<Rightarrow> u64 option \<Rightarrow> instant \<Rightarrow> budget_run \<Rightarrow> bool" where
  "budget_inv rps burst limit t0 s =
     (1 \<le> rps \<and> burst \<le> u32_max \<and> t0 \<le> rn_now s \<and>
      bucket_ok rps burst t0 (rn_granted s) (rn_refills s) (rn_now s) (bucket (rn_budget s)) \<and>
      daily_ok limit (rn_today s) (rn_by_day s) (daily (rn_budget s)) \<and> queues_ok (rn_budget s))"

lemma rank_bound: "purpose_rank p < RANKS"
  by (cases p) (simp_all add: RANKS_def)

lemma queues_after_arm: "length (b_waiters b) = RANKS \<Longrightarrow> queues_ok (snd (arm_delay b))"
  using arm_delay_armed by (auto simp: queues_ok_def)

lemma queues_after_wake: "queues_ok b \<Longrightarrow> queues_ok (snd (wake_highest b))"
  using wake_highest_waiting by (auto simp: queues_ok_def)

text \<open>What a granted and a refused attempt do to the bucket and to the daily count.\<close>

lemma try_acquire_granted:
  assumes "try_acquire b p deadline now today woken = (Ok None, b')"
  shows "SCALE \<le> b_balance b \<and> bucket b' = (b_balance b - SCALE, b_burst b, b_rps b, b_updated b) \<and>
     daily b' = (b_daily_limit b, b_daily_used (roll_day b today) + 1, today) \<and>
     \<not> daily_exhausted (roll_day b today) \<and> length (b_waiters b') = length (b_waiters b)"
proof -
  have "bucket (roll_day b today) = bucket b" by simp
  then show ?thesis
    using assms wake_highest_frame
    by (auto simp: try_acquire_def Let_def bucket_def daily_def enqueue_waiter_def split: if_splits)
qed

lemma try_acquire_refused:
  assumes "try_acquire b p deadline now today woken = (r, b')" and "r \<noteq> Ok None"
  shows "bucket b' = bucket b \<and> daily b' = daily (roll_day b today) \<and> length (b_waiters b') = length (b_waiters b)"
proof -
  have "bucket (roll_day b today) = bucket b" by simp
  then show ?thesis
    using assms wake_highest_frame
    by (auto simp: try_acquire_def Let_def bucket_def daily_def enqueue_waiter_def split: if_splits)
qed

lemma try_acquire_failed_queues:
  assumes "try_acquire b p deadline now today woken = (Err e, b')" and "queues_ok b"
  shows "queues_ok b'"
proof -
  have "queues_ok (roll_day b today)" using assms(2) by (simp add: queues_ok_def has_waiters_def)
  then show ?thesis
    using assms(1) queues_after_wake
    by (auto simp: try_acquire_def Let_def enqueue_waiter_def split: if_splits)
qed

lemma bucket_ok_grant:
  assumes "bucket_ok rps burst t0 g r now (bucket b)" and "SCALE \<le> b_balance b"
  shows "bucket_ok rps burst t0 (g + 1) r now (b_balance b - SCALE, b_burst b, b_rps b, b_updated b)"
proof -
  have eq: "b_balance b - SCALE + SCALE * (g + 1) = b_balance b + SCALE * g" using assms(2) by simp
  have "b_balance b - SCALE \<le> b_balance b" by simp
  then show ?thesis using assms(1) unfolding bucket_ok_def bucket_def prod.case eq by linarith
qed

lemma daily_ok_roll:
  assumes "daily_ok limit today by_day (daily b)"
  shows "daily_ok limit today by_day (daily (roll_day b today))"
  using assms by (cases "b_daily_day b = today") (auto simp: daily_ok_def daily_def roll_day_def)

lemma daily_ok_grant:
  assumes "daily_ok limit today by_day (daily b)" and "\<not> daily_exhausted (roll_day b today)"
  shows "daily_ok limit today (by_day(today := by_day today + 1))
     (b_daily_limit b, b_daily_used (roll_day b today) + 1, today)"
proof -
  have "daily_ok limit today by_day (daily (roll_day b today))" using assms(1) by (rule daily_ok_roll)
  then have "by_day today = b_daily_used (roll_day b today)" "b_daily_limit b = limit" "\<forall>d>today. by_day d = 0"
    "\<forall>l. limit = Some l \<longrightarrow> (\<forall>d. by_day d \<le> l)" by (auto simp: daily_ok_def daily_def)
  with assms(2) show ?thesis by (auto simp: daily_ok_def daily_exhausted_def)
qed

lemma turn_step_inv:
  assumes inv: "budget_inv rps burst limit t0 s" and "hold_delay (rn_budget s) n = None"
    and "acquire_turn (rn_budget s) p deadline n n1 n2 (rn_today s) w = (r, b)"
    and le: "rn_now s \<le> n" "n \<le> n1" "n1 \<le> n2"
  shows "budget_inv rps burst limit t0 (s\<lparr>rn_budget := b, rn_now := n2, rn_refills := rn_refills s + 1,
      rn_granted := rn_granted s + (if is_granted r then 1 else 0),
      rn_by_day := (if is_granted r then (rn_by_day s)(rn_today s := rn_by_day s (rn_today s) + 1) else rn_by_day s)\<rparr>)"
proof -
  let ?b = "refill (rn_budget s) n1"
  have base: "1 \<le> rps" "burst \<le> u32_max" and q: "queues_ok (rn_budget s)"
    and day: "daily_ok limit (rn_today s) (rn_by_day s) (daily ?b)"
    using inv by (auto simp: budget_inv_def)
  have qb: "queues_ok ?b" using q by (simp add: queues_ok_def has_waiters_def)
  have ok: "bucket_ok rps burst t0 (rn_granted s) (rn_refills s + 1) n2 (bucket ?b)"
    using refill_pays [of rps burst t0 "rn_granted s" "rn_refills s" "rn_now s" "rn_budget s" n1] inv le
    by (auto simp: budget_inv_def intro: bucket_ok_later)
  obtain res b' where ta: "try_acquire ?b p deadline n2 (rn_today s) w = (res, b')" by force
  have now: "t0 \<le> n2" using inv le by (simp add: budget_inv_def)
  show ?thesis
  proof (cases "res = Ok None")
    case True
    with ta assms(2,3) have r: "is_granted r" and b: "b = snd (arm_delay b')"
      by (auto simp: acquire_turn_def split: prod.splits)
    note g = try_acquire_granted [OF ta [unfolded True]]
    have "bucket_ok rps burst t0 (rn_granted s + 1) (rn_refills s + 1) n2 (bucket b')"
      using g bucket_ok_grant [OF ok] by simp
    moreover have "daily_ok limit (rn_today s) ((rn_by_day s)(rn_today s := rn_by_day s (rn_today s) + 1)) (daily b')"
      using g daily_ok_grant [OF day] by simp
    moreover have "queues_ok b" unfolding b using g qb by (intro queues_after_arm) (simp add: queues_ok_def)
    ultimately show ?thesis using base now r b by (simp add: budget_inv_def)
  next
    case False
    note f = try_acquire_refused [OF ta False]
    from ta assms(2,3) False have r: "\<not> is_granted r" and b: "(\<exists>e. res = Err e) \<and> b = b' \<or> b = snd (arm_delay b')"
      by (auto simp: acquire_turn_def split: prod.splits sum.splits option.splits)
    have "queues_ok b"
      using b try_acquire_failed_queues [of ?b] ta qb queues_after_arm [of b'] f by (auto simp: queues_ok_def)
    moreover have "bucket b = bucket ?b" "daily b = daily (roll_day ?b (rn_today s))" using b f by auto
    ultimately show ?thesis using base now r ok daily_ok_roll [OF day] by (simp add: budget_inv_def)
  qed
qed

lemma budget_step_inv:
  assumes inv: "budget_inv rps burst limit t0 s" and "budget_step s t"
  shows "budget_inv rps burst limit t0 t"
  using assms(2)
proof (cases rule: budget_step.cases)
  case (s_tick n d)
  with inv show ?thesis by (auto simp: budget_inv_def daily_ok_def intro: bucket_ok_later split: prod.splits)
next
  case (s_held p deadline n n1 n2 w delay b)
  then have "b = rn_budget s" by (auto simp: acquire_turn_def split: option.splits prod.splits sum.splits)
  with s_held inv show ?thesis by simp
next
  case (s_turn p deadline n n1 n2 w r b)
  with turn_step_inv [OF inv] show ?thesis by blast
next
  case (s_timeout p i delay b)
  let ?r = "snd (remove_waiter (rn_budget s) p i)"
  have len: "length (b_waiters ?r) = length (b_waiters (rn_budget s))"
    and fr: "bucket ?r = bucket (rn_budget s)" "daily ?r = daily (rn_budget s)" "b_armed ?r = b_armed (rn_budget s)"
    by (auto simp: remove_waiter_def Let_def bucket_def daily_def)
  have "has_waiters (rn_budget s)" if "has_waiters ?r"
  proof -
    from that obtain q where "q \<in> set (b_waiters ?r)" "q \<noteq> []" by (auto simp: has_waiters_def list_ex_iff)
    moreover have "set (b_waiters ?r) \<subseteq> insert (filter (\<lambda>w. w_id w \<noteq> i) (b_waiters (rn_budget s) ! purpose_rank p)) (set (b_waiters (rn_budget s)))"
      by (auto simp: remove_waiter_def Let_def dest: set_update_subset_insert [THEN subsetD])
    moreover have "b_waiters (rn_budget s) ! purpose_rank p \<in> set (b_waiters (rn_budget s))"
      using inv rank_bound [of p] by (auto simp: budget_inv_def queues_ok_def)
    ultimately have "\<exists>q\<in>set (b_waiters (rn_budget s)). q \<noteq> []" by (metis filter.simps(1) insertE subsetD)
    then show ?thesis by (simp add: has_waiters_def list_ex_iff)
  qed
  then have q: "queues_ok ?r" using inv len fr by (auto simp: budget_inv_def queues_ok_def)
  have "b = ?r \<or> b = snd (arm_delay (snd (wake_highest ?r)))"
    using s_timeout by (auto simp: wait_timeout_def split: prod.splits bool.splits)
  then show ?thesis using s_timeout inv fr q queues_after_arm [of "snd (wake_highest ?r)"] len
    by (auto simp: budget_inv_def queues_ok_def)
next
  case (s_drop i)
  have "has_waiters (drop_receiver (rn_budget s) i) = has_waiters (rn_budget s)"
    by (simp add: has_waiters_def drop_receiver_def list_ex_iff)
  with s_drop inv show ?thesis by (auto simp: budget_inv_def queues_ok_def drop_receiver_def bucket_def daily_def)
next
  case (s_fired n delay b)
  let ?b = "(rn_budget s)\<lparr>b_armed := False\<rparr>"
  have b: "b = snd (arm_delay (snd (wake_highest (refill ?b n))))"
    using s_fired by (simp add: refill_fired_def)
  have "bucket_ok rps burst t0 (rn_granted s) (rn_refills s) (rn_now s) (bucket ?b)"
    and day: "daily_ok limit (rn_today s) (rn_by_day s) (daily ?b)"
    using inv by (auto simp: budget_inv_def bucket_def daily_def)
  then have "bucket_ok rps burst t0 (rn_granted s) (rn_refills s + 1) n (bucket (refill ?b n))"
    using inv s_fired by (intro refill_pays) (auto simp: budget_inv_def)
  moreover have "queues_ok b" unfolding b using inv by (intro queues_after_arm) (simp add: budget_inv_def queues_ok_def)
  moreover have "daily b = daily ?b" "bucket b = bucket (refill ?b n)" unfolding b by simp_all
  ultimately show ?thesis using s_fired inv day unfolding budget_inv_def by simp
next
  case (s_hold n delay)
  with inv show ?thesis
    by (auto simp: budget_inv_def hold_for_def hold_until_def bucket_def daily_def queues_ok_def has_waiters_def)
qed

interpretation token_run: invariant_system "budget_started rps burst limit t0" budget_step "budget_inv rps burst limit t0"
  for rps burst limit t0
proof unfold_locales
  show "budget_inv rps burst limit t0 s" if "budget_started rps burst limit t0 s" for s
    using that by (auto simp: budget_started_def budget_inv_def budget_new_def bucket_ok_def bucket_def daily_ok_def daily_def
        queues_ok_def has_waiters_def list_ex_iff)
  show "budget_inv rps burst limit t0 t" if "budget_inv rps burst limit t0 s" "budget_step s t" for s t
    using that by (rule budget_step_inv)
qed


definition demo_run :: budget_run where
  "demo_run = \<lparr>rn_budget = budget_new 2 1 (Some 10) 100, rn_now = 100, rn_today = 7, rn_granted = 0, rn_refills = 0,
     rn_by_day = (\<lambda>_. 0)\<rparr>"


section \<open>Order and liveness of waiters\<close>

lemma pop_alive_find: "fst (pop_alive q) = map_option w_id (find w_alive q)"
  by (induction q) auto

lemma wake_queues_find: "fst (wake_queues qs) = map_option w_id (find w_alive (concat qs))"
proof (induction qs)
  case (Cons q qs)
  show ?case using Cons pop_alive_find [of q]
    by (cases "pop_alive q") (auto simp: find_append_case split: option.splits prod.splits)
qed simp

lemma grant_empty_queues:
  assumes "try_acquire b p deadline now today woken = (Ok None, b')" and "length (b_waiters b) = RANKS"
  shows "(\<forall>q. purpose_rank q < purpose_rank p \<longrightarrow> b_waiters b ! purpose_rank q = []) \<and> (woken \<or> b_waiters b ! purpose_rank p = [])"
proof -
  have "\<not> has_higher (roll_day b today) p \<and> (woken \<or> \<not> has_same (roll_day b today) p)"
    using assms(1) by (auto simp: try_acquire_def Let_def enqueue_waiter_def split: if_splits)
  moreover have "b_waiters b ! i \<in> set (take (purpose_rank p) (b_waiters b))" if "i < purpose_rank p" for i
    using that rank_bound [of p] assms(2) by (auto simp: in_set_conv_nth intro!: exI [of _ i])
  ultimately show ?thesis by (auto simp: has_higher_def has_same_def list_ex_iff)
qed



end
