(* ===== verification/Provider_Error.thy ===== *)
theory Provider_Error
  imports Core_Types
begin

text \<open>
  Errors of a JSON-RPC provider and the reading of its answers (\<open>crates/provider/src/error.rs\<close>
  and the free functions of \<open>gateway.rs\<close>). Durations are in nanoseconds. A JSON value is its
  tree; parsing text into one is \<open>serde_json\<close>'s, and reading an HTTP date is \<open>chrono\<close>'s: both
  are parameters.
\<close>

section \<open>JSON values\<close>

datatype json =
    JNull
  | JBool bool
  | JInt int
  | JFloat string
  | JString string
  | JArray "json list"
  | JObject "(string \<times> json) list"

fun json_get :: "json \<Rightarrow> string \<Rightarrow> json option" where
  "json_get (JObject obj) k = map_of obj k"
| "json_get _ k = None"

fun json_as_i64 :: "json \<Rightarrow> i64 option" where
  "json_as_i64 (JInt i) = (if - i64_max - 1 \<le> i \<and> i \<le> i64_max then Some i else None)"
| "json_as_i64 _ = None"

fun json_as_str :: "json \<Rightarrow> string option" where
  "json_as_str (JString s) = Some s"
| "json_as_str _ = None"

fun json_is_object :: "json \<Rightarrow> bool" where
  "json_is_object (JObject _) = True"
| "json_is_object _ = False"

fun json_is_array :: "json \<Rightarrow> bool" where
  "json_is_array (JArray _) = True"
| "json_is_array _ = False"

section \<open>Errors\<close>

definition LIMIT_PHRASES :: "string list" where
  "LIMIT_PHRASES =
     [''query returned more than'', ''block range too large'', ''exceed maximum block range'', ''range is too large'',
      ''block range is too wide'', ''eth_getlogs is limited to'', ''maximum block range'', ''response size exceeded'',
      ''log size exceeded'', ''exceeds max results'', ''not supported on free plan'']"

definition BATCH_PHRASES :: "string list" where
  "BATCH_PHRASES = [''batch limit'', ''batch size'']"

definition QUOTA_PHRASES :: "string list" where
  "QUOTA_PHRASES = [''capacity'', ''quota'', ''daily request'', ''compute units'', ''credits'']"

definition NOT_READY_PHRASES :: "string list" where
  "NOT_READY_PHRASES = [''header not found'', ''block not available'', ''unknown block'']"

definition RATE_PHRASES :: "string list" where
  "RATE_PHRASES = [''rate limit'', ''rate-limit'', ''too many requests'', ''requests per second'']"

definition BACKOFF_MS :: u64 where "BACKOFF_MS = 100"

type_synonym duration = nat

definition secs :: "nat \<Rightarrow> duration" where "secs n = n * 1000000000"
definition millis :: "nat \<Rightarrow> duration" where "millis n = n * 1000000"

definition RETRY_AFTER_CAP :: duration where "RETRY_AFTER_CAP = secs 5"

datatype provider_error =
    PeLimit
  | PeNotReady
  | PeRateLimited duration
  | PeTransient "nat option"
  | PeFatal string
  | PeBudgetExhausted
  | PeThrottled
  | PeBatchTooLarge

fun pe_kind :: "provider_error \<Rightarrow> string" where
  "pe_kind PeLimit = ''limit''"
| "pe_kind PeNotReady = ''not_ready''"
| "pe_kind (PeRateLimited _) = ''rate_limited''"
| "pe_kind (PeTransient _) = ''transient''"
| "pe_kind (PeFatal _) = ''fatal''"
| "pe_kind PeBudgetExhausted = ''budget_exhausted''"
| "pe_kind PeThrottled = ''throttled''"
| "pe_kind PeBatchTooLarge = ''batch_too_large''"

fun show_provider_error :: "provider_error \<Rightarrow> string" where
  "show_provider_error PeLimit = ''provider result is too large''"
| "show_provider_error PeNotReady = ''provider block is not ready''"
| "show_provider_error (PeRateLimited _) = ''provider rate limited''"
| "show_provider_error (PeTransient _) = ''transient provider failure''"
| "show_provider_error (PeFatal m) = ''fatal provider failure: '' @ m"
| "show_provider_error PeBudgetExhausted = ''provider daily budget exhausted''"
| "show_provider_error PeThrottled = ''provider token was not available before the deadline''"
| "show_provider_error PeBatchTooLarge = ''provider batch is too large''"

definition pe_fatal :: "string \<Rightarrow> provider_error" where
  "pe_fatal message = PeFatal (if length message > 180 then take 180 message @ ''...'' else message)"

fun pe_retryable :: "provider_error \<Rightarrow> bool" where
  "pe_retryable (PeRateLimited after) = (after \<le> RETRY_AFTER_CAP)"
| "pe_retryable (PeTransient _) = True"
| "pe_retryable _ = False"

definition backoff_delay :: "u32 \<Rightarrow> duration" where
  "backoff_delay failed_attempt = millis (sat_mul BACKOFF_MS (2 ^ (failed_attempt - 1)))"

fun retry_delay :: "provider_error \<Rightarrow> u32 \<Rightarrow> duration" where
  "retry_delay (PeRateLimited after) n = (if after \<noteq> 0 then after else backoff_delay n)"
| "retry_delay _ n = backoff_delay n"

definition to_lower :: "string \<Rightarrow> string" where
  "to_lower s = map (\<lambda>c. if 65 \<le> (of_char c :: nat) \<and> (of_char c :: nat) \<le> 90 then char_of (of_char c + 32 :: nat) else c) s"

definition has_phrase :: "string list \<Rightarrow> string \<Rightarrow> bool" where
  "has_phrase phrases text = list_ex (\<lambda>p. str_contains p text) phrases"

definition classify_rpc_message :: "i64 \<Rightarrow> string \<Rightarrow> provider_error" where
  "classify_rpc_message code message =
     (let lower = to_lower message in
      if has_phrase NOT_READY_PHRASES lower then PeNotReady
      else if has_phrase RATE_PHRASES lower \<or> code = 429 then PeRateLimited 0
      else if has_phrase BATCH_PHRASES lower then PeBatchTooLarge
      else if has_phrase QUOTA_PHRASES lower then PeRateLimited 0
      else if has_phrase LIMIT_PHRASES lower then PeLimit
      else if code = -32005 then PeRateLimited 0
      else pe_fatal message)"

definition http_date_delay :: "(string \<Rightarrow> int option) \<Rightarrow> string \<Rightarrow> duration option" where
  "http_date_delay date_ms value =
     (case date_ms value of
        None \<Rightarrow> None
      | Some ms \<Rightarrow> if ms \<le> 0 then Some 0 else Some (millis (nat ms)))"

definition trim :: "string \<Rightarrow> string" where
  "trim s = (let ws = (\<lambda>c. c = CHR '' '' \<or> c = CHR 0x09 \<or> c = CHR 0x0A \<or> c = CHR 0x0B \<or> c = CHR 0x0C \<or> c = CHR 0x0D) in
     rev (dropWhile ws (rev (dropWhile ws s))))"

definition parse_retry_after :: "(string \<Rightarrow> int option) \<Rightarrow> string \<Rightarrow> duration" where
  "parse_retry_after date_ms value =
     (let text = trim value in
      case parse_uint u64_max text of
        Some seconds \<Rightarrow> secs seconds
      | None \<Rightarrow> (case http_date_delay date_ms text of None \<Rightarrow> RETRY_AFTER_CAP | Some d \<Rightarrow> d))"

section \<open>Reading answers\<close>

definition classify_error_value :: "json \<Rightarrow> provider_error" where
  "classify_error_value e =
     classify_rpc_message
       (case Option.bind (json_get e ''code'') json_as_i64 of None \<Rightarrow> 0 | Some c \<Rightarrow> c)
       (case Option.bind (json_get e ''message'') json_as_str of None \<Rightarrow> ''provider error'' | Some m \<Rightarrow> m)"

definition interpret_object :: "json \<Rightarrow> (json, provider_error) result" where
  "interpret_object value =
     (if \<not> json_is_object value then Err (pe_fatal ''json-rpc response is not an object'')
      else case json_get value ''error'' of
        Some e \<Rightarrow>
          if e \<noteq> JNull then Err (classify_error_value e)
          else ok_or (pe_fatal ''json-rpc response is missing result'') (json_get value ''result'')
      | None \<Rightarrow> ok_or (pe_fatal ''json-rpc response is missing result'') (json_get value ''result''))"

definition batch_id :: "json \<Rightarrow> usize \<Rightarrow> usize option" where
  "batch_id item expected =
     (case Option.bind (json_get item ''id'') json_as_i64 of
        None \<Rightarrow> None
      | Some i \<Rightarrow> if 1 \<le> i \<and> i \<le> int expected then Some (nat i) else None)"

fun batch_slots ::
  "usize \<Rightarrow> json list \<Rightarrow> (json, provider_error) result option list
     \<Rightarrow> ((json, provider_error) result option list, provider_error) result" where
  "batch_slots expected [] ordered = Ok ordered"
| "batch_slots expected (item # items) ordered =
     (case batch_id item expected of
        None \<Rightarrow> Err (pe_fatal ''batch response id is out of range'')
      | Some i \<Rightarrow>
          if ordered ! (i - 1) \<noteq> None then Err (pe_fatal ''duplicate batch response id'')
          else batch_slots expected items (ordered[i - 1 := Some (interpret_object item)]))"

definition interpret_batch :: "json \<Rightarrow> usize \<Rightarrow> ((json, provider_error) result list, provider_error) result" where
  "interpret_batch value expected =
     (if json_get value ''error'' \<noteq> None \<and> \<not> json_is_array value
      then Err (classify_error_value (the (json_get value ''error'')))
      else case value of
        JArray items \<Rightarrow>
          map_ok (map (\<lambda>slot. case slot of None \<Rightarrow> Err (pe_fatal ''missing batch item'') | Some r \<Rightarrow> r))
            (batch_slots expected items (replicate expected None))
      | _ \<Rightarrow> Err (pe_fatal ''json-rpc batch response is not an array''))"

definition classified_http_error :: "(string \<Rightarrow> json option) \<Rightarrow> string \<Rightarrow> provider_error option" where
  "classified_http_error from_str text =
     (case from_str text of
        None \<Rightarrow> None
      | Some value \<Rightarrow>
          (case json_get value ''error'' of
             None \<Rightarrow> None
           | Some e \<Rightarrow>
               (case (if json_is_object e then classify_error_value e
                      else classify_rpc_message 400 (case json_as_str e of None \<Rightarrow> text | Some m \<Rightarrow> m)) of
                  PeFatal _ \<Rightarrow> None
                | other \<Rightarrow> Some other)))"

section \<open>A batch answer is read by its ids\<close>

lemma batch_id_range: "batch_id item n = Some i \<Longrightarrow> 1 \<le> i \<and> i \<le> n"
  by (auto simp: batch_id_def split: option.splits if_splits)

lemma batch_id_slot: "batch_id item n = Some i \<Longrightarrow> i - 1 < n"
  using batch_id_range [of item n i] by linarith

lemma batch_slots_Ok:
  assumes "batch_slots n items ordered = Ok out" and "length ordered = n"
  shows "length out = n \<and> distinct (map (\<lambda>it. batch_id it n) items) \<and>
     (\<forall>it\<in>set items. \<exists>i. batch_id it n = Some i \<and> ordered ! (i - 1) = None \<and> out ! (i - 1) = Some (interpret_object it)) \<and>
     (\<forall>j<n. Some (j + 1) \<notin> (\<lambda>it. batch_id it n) ` set items \<longrightarrow> out ! j = ordered ! j)"
  using assms
proof (induction items arbitrary: ordered)
  case (Cons item items)
  then obtain i where i: "batch_id item n = Some i" and free: "ordered ! (i - 1) = None"
    and rest: "batch_slots n items (ordered[i - 1 := Some (interpret_object item)]) = Ok out"
    by (auto split: option.splits if_splits)
  note r = batch_id_range [OF i]
  let ?o = "ordered[i - 1 := Some (interpret_object item)]"
  from Cons.IH [OF rest] Cons.prems(2) have IH: "length out = n" "distinct (map (\<lambda>it. batch_id it n) items)"
    "\<forall>it\<in>set items. \<exists>j. batch_id it n = Some j \<and> ?o ! (j - 1) = None \<and> out ! (j - 1) = Some (interpret_object it)"
    "\<forall>j<n. Some (j + 1) \<notin> (\<lambda>it. batch_id it n) ` set items \<longrightarrow> out ! j = ?o ! j" by auto
  have other: "batch_id it n \<noteq> Some i" if "it \<in> set items" for it
    using IH(3) that r Cons.prems(2) by (metis length_list_update nth_list_update_eq option.distinct(1) option.inject
        One_nat_def Suc_le_lessD diff_less less_le_trans le_eq_less_or_eq zero_less_one)
  have "out ! (i - 1) = ?o ! (i - 1)" using IH(4) r other by (metis (mono_tags, lifting) Suc_eq_plus1 Suc_pred' imageE less_le_trans diff_less zero_less_one One_nat_def Suc_le_lessD)
  moreover have "i - 1 < length ordered" using r Cons.prems(2) by linarith
  ultimately have mine: "out ! (i - 1) = Some (interpret_object item)" by simp
  have "\<exists>j. batch_id it n = Some j \<and> ordered ! (j - 1) = None \<and> out ! (j - 1) = Some (interpret_object it)" if "it \<in> set items" for it
  proof -
    from IH(3) that obtain j where j: "batch_id it n = Some j" "?o ! (j - 1) = None" "out ! (j - 1) = Some (interpret_object it)" by blast
    have "j - 1 \<noteq> i - 1" using other [OF that] j(1) batch_id_range [OF j(1)] r by auto
    with j show ?thesis by (auto simp: nth_list_update_neq)
  qed
  moreover have "out ! j = ordered ! j" if "j < n" "Some (j + 1) \<notin> (\<lambda>it. batch_id it n) ` set (item # items)" for j
  proof -
    have "j \<noteq> i - 1" using that(2) i r by auto
    with IH(4) that show ?thesis by (simp add: nth_list_update_neq)
  qed
  moreover have "distinct (map (\<lambda>it. batch_id it n) (item # items))" using IH(2) other i by (simp add: image_iff) (metis)
  ultimately show ?case using IH(1) mine i free by (auto simp del: distinct.simps map_eq_conv)
qed auto

lemma batch_slots_Err:
  assumes "batch_slots n items ordered = Err e" and "length ordered = n"
  shows "(\<exists>it\<in>set items. batch_id it n = None) \<or> \<not> distinct (map (\<lambda>it. batch_id it n) items) \<or>
     (\<exists>it\<in>set items. \<exists>i. batch_id it n = Some i \<and> ordered ! (i - 1) \<noteq> None)"
  using assms
proof (induction items arbitrary: ordered)
  case (Cons item items)
  show ?case
  proof (cases "batch_id item n")
    case (Some i)
    show ?thesis
    proof (cases "ordered ! (i - 1) = None")
      case True
      let ?o = "ordered[i - 1 := Some (interpret_object item)]"
      from Cons.prems(1) Some True have "batch_slots n items ?o = Err e" by simp
      from Cons.IH [OF this] Cons.prems(2) consider "\<exists>it\<in>set items. batch_id it n = None"
        | "\<not> distinct (map (\<lambda>it. batch_id it n) items)"
        | it j where "it \<in> set items" "batch_id it n = Some j" "?o ! (j - 1) \<noteq> None" by auto
      then show ?thesis
      proof cases
        case 3
        show ?thesis
        proof (cases "j - 1 = i - 1")
          case True
          then have "j = i" using batch_id_range [OF 3(2)] batch_id_range [OF Some] by auto
          with 3 Some have "batch_id item n \<in> (\<lambda>it. batch_id it n) ` set items" by (metis imageI)
          then show ?thesis by simp
        next
          case False
          with 3 show ?thesis by auto
        qed
      qed auto
    qed (use Some in auto)
  qed auto
qed simp

text \<open>
  A batch answer is read by its ids, in whatever order the provider sends it: when the
  items' ids are distinct and in range, request \<open>i\<close> gets the interpretation of the item with id
  \<open>i\<close> and a request without an item gets its own error; otherwise the whole batch is refused.
\<close>
theorem interpret_batch_by_id:
  "case interpret_batch (JArray items) n of
     Inr rs \<Rightarrow> length rs = n \<and> distinct (map (\<lambda>it. batch_id it n) items) \<and>
       (\<forall>it\<in>set items. \<exists>i. batch_id it n = Some i \<and> rs ! (i - 1) = interpret_object it) \<and>
       (\<forall>j<n. Some (j + 1) \<notin> (\<lambda>it. batch_id it n) ` set items \<longrightarrow> rs ! j = Err (pe_fatal ''missing batch item''))
   | Inl e \<Rightarrow> (\<exists>it\<in>set items. batch_id it n = None) \<or> \<not> distinct (map (\<lambda>it. batch_id it n) items)"
proof (cases "batch_slots n items (replicate n None)")
  case (Inl e)
  have "\<not> (\<exists>it\<in>set items. \<exists>i. batch_id it n = Some i \<and> replicate n None ! (i - 1) \<noteq> (None :: (json, provider_error) result option))"
    by (metis batch_id_slot nth_replicate)
  with batch_slots_Err [OF Inl] Inl show ?thesis by (auto simp: interpret_batch_def)
next
  case (Inr out)
  have "length out = n \<and> distinct (map (\<lambda>it. batch_id it n) items) \<and>
     (\<forall>it\<in>set items. \<exists>i. batch_id it n = Some i \<and> replicate n None ! (i - 1) = (None :: (json, provider_error) result option) \<and>
        out ! (i - 1) = Some (interpret_object it)) \<and>
     (\<forall>j<n. Some (j + 1) \<notin> (\<lambda>it. batch_id it n) ` set items \<longrightarrow> out ! j = replicate n None ! j)"
    using batch_slots_Ok [OF Inr] by simp
  moreover note batch_id_slot [of _ n]
  ultimately show ?thesis using Inr by (fastforce simp: interpret_batch_def)
qed

theorem interpret_batch_by_id_witness:
  "let a = JObject [(''id'', JInt 2), (''result'', JString ''b'')]; b = JObject [(''id'', JInt 1), (''result'', JString ''a'')] in
   interpret_batch (JArray [a, b]) 2 = Ok [Ok (JString ''a''), Ok (JString ''b'')] \<and>
   (\<forall>it\<in>{a, b}. \<exists>i. batch_id it 2 = Some i \<and> [Ok (JString ''a''), Ok (JString ''b'')] ! (i - 1) = interpret_object it)"
proof -
  let ?a = "JObject [(''id'', JInt 2), (''result'', JString ''b'')]" and ?b = "JObject [(''id'', JInt 1), (''result'', JString ''a'')]"
  have r: "interpret_batch (JArray [?a, ?b]) 2 = Ok [Ok (JString ''a''), Ok (JString ''b'')]"
    by (simp add: interpret_batch_def batch_id_def interpret_object_def i64_max_def ok_or_def numeral_2_eq_2)
  with interpret_batch_by_id [of "[?a, ?b]" 2] show ?thesis unfolding Let_def by simp
qed

end
