(* ===== verification/Gateway.thy ===== *)
theory Gateway
  imports Budget Provider_Error
begin

text \<open>
  The JSON-RPC gateway (\<open>crates/provider/src/gateway.rs\<close>) and its adaptive block window
  (\<open>range.rs\<close>). An HTTP exchange is what \<open>reqwest\<close> returned: nothing, or a status, a
  \<open>retry-after\<close> header and a body. A call is run against an environment that says for each
  attempt what acquiring a token and the exchange gave and when the attempt ended. Metrics are
  left out.
\<close>

section \<open>The window of a dataset\<close>

definition SUCCESS_STREAK :: nat where "SUCCESS_STREAK = 8"
definition RANGE_TTL_MS :: u64 where "RANGE_TTL_MS = 10 * 60 * 1000"

record range_state =
  rg_current :: u64
  rg_successes :: nat
  rg_updated_ms :: u64

record range_book =
  bk_max :: u64
  bk_min :: u64
  bk_states :: "dataset \<rightharpoonup> range_state"

definition book_new :: "u64 \<Rightarrow> u64 \<Rightarrow> range_book" where
  "book_new mx mn = \<lparr>bk_max = mx, bk_min = mn, bk_states = Map.empty\<rparr>"

definition book_state :: "range_book \<Rightarrow> dataset \<Rightarrow> u64 \<Rightarrow> range_state" where
  "book_state b ds now =
     (let st = (case bk_states b ds of
                  None \<Rightarrow> \<lparr>rg_current = bk_max b, rg_successes = 0, rg_updated_ms = now\<rparr>
                | Some st \<Rightarrow> st)
      in if now - rg_updated_ms st \<ge> RANGE_TTL_MS
         then \<lparr>rg_current = bk_max b, rg_successes = 0, rg_updated_ms = now\<rparr> else st)"

definition put_state :: "range_book \<Rightarrow> dataset \<Rightarrow> range_state \<Rightarrow> range_book" where
  "put_state b ds st = b\<lparr>bk_states := (bk_states b)(ds \<mapsto> st)\<rparr>"

definition book_current :: "range_book \<Rightarrow> dataset \<Rightarrow> u64 \<Rightarrow> u64 \<times> range_book" where
  "book_current b ds now = (let st = book_state b ds now in (rg_current st, put_state b ds st))"

definition record_success :: "range_book \<Rightarrow> dataset \<Rightarrow> u64 \<Rightarrow> range_book" where
  "record_success b ds now =
     (let st = book_state b ds now; n = min (rg_successes st + 1) 255 in
      put_state b ds
        (if n \<ge> SUCCESS_STREAK
         then \<lparr>rg_current = min (sat_mul (rg_current st) 2) (bk_max b), rg_successes = 0, rg_updated_ms = now\<rparr>
         else st\<lparr>rg_successes := n, rg_updated_ms := now\<rparr>))"

definition record_limit :: "range_book \<Rightarrow> dataset \<Rightarrow> u64 \<Rightarrow> u64 \<Rightarrow> (u64, provider_error) result \<times> range_book" where
  "record_limit b ds failed_len now =
     (let st = book_state b ds now;
          cur = max (min (rg_current st) (failed_len div 2)) (bk_min b);
          b' = put_state b ds \<lparr>rg_current = cur, rg_successes = 0, rg_updated_ms = now\<rparr>
      in (if failed_len \<le> bk_min b then Err PeLimit else Ok cur, b'))"

section \<open>Building a gateway\<close>

record provider_config =
  pc_url :: string
  pc_rps :: u32
  pc_burst :: u32
  pc_daily_calls :: "u64 option"
  pc_max_in_flight :: u32
  pc_min_range_blocks :: u64
  pc_max_get_logs_range_blocks :: u64

datatype build_error = BadUrl | BadRange u64 u64 | BadClient string

record gateway =
  gw_chain :: chain_name
  gw_url :: string
  gw_budget :: budget
  gw_in_flight :: u32
  gw_ranges :: range_book

fun split_scheme :: "string \<Rightarrow> (string \<times> string) option" where
  "split_scheme [] = None"
| "split_scheme (c # cs) =
     (if starts_with ''://'' (c # cs) then Some ([], drop 3 (c # cs))
      else map_option (\<lambda>(a, b). (c # a, b)) (split_scheme cs))"

definition is_http_url :: "string \<Rightarrow> bool" where
  "is_http_url url =
     (case split_scheme url of
        None \<Rightarrow> False
      | Some (scheme, rest) \<Rightarrow> (scheme = ''http'' \<or> scheme = ''https'') \<and> rest \<noteq> [])"

text \<open>\<open>client\<close> is what building the \<open>reqwest\<close> client gave.\<close>

definition gateway_new ::
  "chain_name \<Rightarrow> provider_config \<Rightarrow> (unit, string) result \<Rightarrow> instant \<Rightarrow> (gateway, build_error) result" where
  "gateway_new chain c client now =
     (if \<not> is_http_url (pc_url c) then Err BadUrl
      else let mx = pc_max_get_logs_range_blocks c; mn = pc_min_range_blocks c in
        if mn > mx then Err (BadRange mn mx)
        else case client of
          Inl e \<Rightarrow> Err (BadClient e)
        | Inr _ \<Rightarrow> Ok \<lparr>gw_chain = chain, gw_url = pc_url c,
            gw_budget = budget_new (pc_rps c) (pc_burst c) (pc_daily_calls c) now,
            gw_in_flight = pc_max_in_flight c, gw_ranges = book_new mx mn\<rparr>)"

definition application_label :: "string option \<Rightarrow> string" where
  "application_label app = (case app of None \<Rightarrow> ''none'' | Some v \<Rightarrow> if v \<noteq> [] then v else ''none'')"

fun duration_method :: "string list \<Rightarrow> string" where
  "duration_method (first # rest) = (if list_all (\<lambda>m. m = first) rest then first else ''mixed'')"
| "duration_method [] = ''mixed''"

section \<open>One exchange\<close>

record http_response =
  hr_status :: nat
  hr_retry_after :: "string option"
  hr_body :: "string option"

definition post ::
  "(string \<Rightarrow> json option) \<Rightarrow> (string \<Rightarrow> int option) \<Rightarrow> http_response option \<Rightarrow> (json, provider_error) result" where
  "post from_str date_ms response =
     (case response of
        None \<Rightarrow> Err (PeTransient None)
      | Some r \<Rightarrow>
          let status = hr_status r in
          if status = 413 then Err PeBatchTooLarge
          else if status = 429 then
            Err (PeRateLimited (case hr_retry_after r of None \<Rightarrow> 0 | Some v \<Rightarrow> parse_retry_after date_ms v))
          else if status = 400 then
            (case classified_http_error from_str (case hr_body r of None \<Rightarrow> [] | Some t \<Rightarrow> t) of
               Some e \<Rightarrow> Err e
             | None \<Rightarrow> Err (pe_fatal ''http 400''))
          else if 500 \<le> status \<and> status < 600 \<or> status = 403 then Err (PeTransient (Some status))
          else if \<not> (200 \<le> status \<and> status < 300) then Err (pe_fatal (''http '' @ dec status))
          else ok_or (pe_fatal ''provider response is not json'') (Option.bind (hr_body r) from_str))"

section \<open>Calls with retries\<close>

definition ATTEMPTS :: nat where "ATTEMPTS = 3"

record attempt =
  at_acquire :: "budget \<Rightarrow> (unit, provider_error) result \<times> budget"
  at_response :: "(json, provider_error) result"
  at_now :: instant

text \<open>Whether the attempt is repeated, and the hold that a rate limit puts on the budget.\<close>

definition consider_retry :: "budget \<Rightarrow> provider_error \<Rightarrow> u32 \<Rightarrow> instant \<Rightarrow> bool \<times> budget" where
  "consider_retry b e attempt now =
     (let b' = (case e of PeRateLimited after \<Rightarrow> hold_for b now after | _ \<Rightarrow> b) in
      (case e of
         PeRateLimited after \<Rightarrow> if after > RETRY_AFTER_CAP then False else pe_retryable e \<and> attempt < ATTEMPTS
       | _ \<Rightarrow> pe_retryable e \<and> attempt < ATTEMPTS, b'))"

fun call_loop ::
  "nat \<Rightarrow> u32 \<Rightarrow> (u32 \<Rightarrow> attempt) \<Rightarrow> budget \<Rightarrow> u64 \<Rightarrow> (json \<times> u64, provider_error \<times> u64) result \<times> budget" where
  "call_loop 0 k env b calls = (Err (pe_fatal ''retry loop ended without a result'', calls), b)"
| "call_loop (Suc n) k env b calls =
     (case at_acquire (env k) b of
        (Inl e, b1) \<Rightarrow> (Err (e, calls), b1)
      | (Inr _, b1) \<Rightarrow>
          (case and_then (at_response (env k)) interpret_object of
             Inr v \<Rightarrow> (Ok (v, calls + 1), b1)
           | Inl e \<Rightarrow>
               (case consider_retry b1 e k (at_now (env k)) of
                  (True, b2) \<Rightarrow> call_loop n (k + 1) env b2 (calls + 1)
                | (False, b2) \<Rightarrow> (Err (e, calls + 1), b2))))"

definition call_counted :: "(u32 \<Rightarrow> attempt) \<Rightarrow> budget \<Rightarrow> (json \<times> u64, provider_error \<times> u64) result \<times> budget" where
  "call_counted env b = call_loop ATTEMPTS 1 env b 0"

definition gateway_call :: "(u32 \<Rightarrow> attempt) \<Rightarrow> budget \<Rightarrow> (json, provider_error) result \<times> budget" where
  "gateway_call env b = (case call_counted env b of (r, b') \<Rightarrow> (map_err fst (map_ok fst r), b'))"

fun batch_loop ::
  "nat \<Rightarrow> u32 \<Rightarrow> (u32 \<Rightarrow> attempt) \<Rightarrow> usize \<Rightarrow> budget
     \<Rightarrow> ((json, provider_error) result list, provider_error) result \<times> budget" where
  "batch_loop 0 k env expected b = (Err (pe_fatal ''retry loop ended without a result''), b)"
| "batch_loop (Suc n) k env expected b =
     (case at_acquire (env k) b of
        (Inl e, b1) \<Rightarrow> (Err e, b1)
      | (Inr _, b1) \<Rightarrow>
          (case at_response (env k) of
             Inr v \<Rightarrow> (interpret_batch v expected, b1)
           | Inl e \<Rightarrow>
               (case consider_retry b1 e k (at_now (env k)) of
                  (True, b2) \<Rightarrow> batch_loop n (k + 1) env expected b2
                | (False, b2) \<Rightarrow> (Err e, b2))))"

definition batch_body :: "(string \<times> json) list \<Rightarrow> json" where
  "batch_body requests =
     JArray (map (\<lambda>(index, method, params).
       JObject [(''jsonrpc'', JString ''2.0''), (''id'', JInt (int index + 1)), (''method'', JString method), (''params'', params)])
       (enumerate 0 requests))"

definition gateway_batch ::
  "(u32 \<Rightarrow> attempt) \<Rightarrow> (string \<times> json) list \<Rightarrow> budget
     \<Rightarrow> ((json, provider_error) result list, provider_error) result \<times> budget" where
  "gateway_batch env requests b =
     (if requests = [] then (Ok [], b) else batch_loop ATTEMPTS 1 env (length requests) b)"

section \<open>Outcome of a call\<close>

definition attempt_result :: "attempt \<Rightarrow> (json, provider_error) result" where
  "attempt_result a = and_then (at_response a) interpret_object"

definition retried :: "(u32 \<Rightarrow> attempt) \<Rightarrow> u32 \<Rightarrow> u32 \<Rightarrow> bool" where
  "retried env k j = (\<forall>i\<in>{k..<j}. \<exists>e. attempt_result (env i) = Err e \<and> pe_retryable e)"

text \<open>What a call that starts at attempt \<open>k\<close> may return.\<close>

definition call_outcome :: "(u32 \<Rightarrow> attempt) \<Rightarrow> u32 \<Rightarrow> (json \<times> u64, provider_error \<times> u64) result \<Rightarrow> bool" where
  "call_outcome env k r =
     (case r of
        Inr (v, n) \<Rightarrow> k \<le> n \<and> n \<le> ATTEMPTS \<and> attempt_result (env n) = Ok v \<and> retried env k n
      | Inl (e, n) \<Rightarrow> n \<le> ATTEMPTS \<and> retried env k n \<and>
          (k \<le> n \<and> attempt_result (env n) = Err e \<and> (\<not> pe_retryable e \<or> n = ATTEMPTS) \<or>
           k \<le> n + 1 \<and> retried env k (n + 1) \<and> (\<exists>b. fst (at_acquire (env (n + 1)) b) = Err e)))"

lemma consider_retry_iff: "fst (consider_retry b e k now) \<longleftrightarrow> pe_retryable e \<and> k < ATTEMPTS"
  by (cases e) (auto simp: consider_retry_def Let_def)

lemma retried_step:
  "attempt_result (env k) = Err e \<Longrightarrow> pe_retryable e \<Longrightarrow> retried env (k + 1) n \<Longrightarrow> retried env k n"
  by (auto simp: retried_def) (metis Suc_leI le_neq_implies_less atLeastLessThan_iff)

lemma call_outcome_step:
  assumes "attempt_result (env k) = Err e" and "pe_retryable e" and "call_outcome env (k + 1) r"
  shows "call_outcome env k r"
  using assms(3) retried_step [of env k e, OF assms(1,2)]
  by (auto simp: call_outcome_def split: sum.splits prod.splits)

lemma call_loop_outcome:
  assumes "n + k = ATTEMPTS + 1" and "0 < n" and "1 \<le> k"
  shows "call_outcome env k (fst (call_loop n k env b (k - 1)))"
  using assms
proof (induction n arbitrary: k b)
  case (Suc n)
  have k: "1 \<le> k" "k \<le> ATTEMPTS" using Suc.prems by (auto simp: ATTEMPTS_def)
  obtain a b1 where acq: "at_acquire (env k) b = (a, b1)" by force
  show ?case
  proof (cases a)
    case (Inl e)
    then have "fst (at_acquire (env (k - 1 + 1)) b) = Err e" using acq k by simp
    with Inl acq k show ?thesis by (auto simp: call_outcome_def retried_def intro!: exI [of _ b])
  next
    case (Inr u)
    show ?thesis
    proof (cases "attempt_result (env k)")
      case (Inr v)
      with acq \<open>a = Inr u\<close> k show ?thesis by (simp add: attempt_result_def [symmetric] call_outcome_def retried_def)
    next
      case err: (Inl e)
      obtain go b2 where retry: "consider_retry b1 e k (at_now (env k)) = (go, b2)" by force
      have go: "go \<longleftrightarrow> pe_retryable e \<and> k < ATTEMPTS" using consider_retry_iff [of b1 e k "at_now (env k)"] retry by simp
      show ?thesis
      proof (cases go)
        case True
        then have "0 < n" using go Suc.prems by (cases n) (auto simp: ATTEMPTS_def)
        with Suc.IH [of "k + 1" b2] Suc.prems have "call_outcome env (k + 1) (fst (call_loop n (k + 1) env b2 k))" by simp
        with call_outcome_step [of env k, OF err] go True retry acq err \<open>a = Inr u\<close> k show ?thesis by (simp add: attempt_result_def [symmetric])
      next
        case False
        with go retry acq err \<open>a = Inr u\<close> k show ?thesis by (auto simp: attempt_result_def [symmetric] call_outcome_def retried_def)
      qed
    qed
  qed
qed simp

text \<open>
  C39. A call contacts the provider at most three times and ends with what it met: either the
  answer of the attempt it counts, all earlier attempts having failed in a way that may be
  retried; or the failure of that attempt, final or the third; or the refusal of a token for
  the next attempt. The error for a loop that ran out never comes back as such.
\<close>
theorem call_counted_outcome:
  "case fst (call_counted env b) of
     Inr (v, n) \<Rightarrow> 1 \<le> n \<and> n \<le> 3 \<and> attempt_result (env n) = Ok v \<and> retried env 1 n
   | Inl (e, n) \<Rightarrow> n \<le> 3 \<and> retried env 1 n \<and>
       (1 \<le> n \<and> attempt_result (env n) = Err e \<and> (\<not> pe_retryable e \<or> n = 3) \<or>
        retried env 1 (n + 1) \<and> (\<exists>b'. fst (at_acquire (env (n + 1)) b') = Err e))"
  using call_loop_outcome [of ATTEMPTS 1 env b]
  by (auto simp: call_counted_def call_outcome_def ATTEMPTS_def split: sum.splits prod.splits)

theorem call_counted_outcome_witness:
  "let ok_attempt = \<lparr>at_acquire = Pair (Ok ()), at_response = Ok (JObject [(''result'', JInt 7)]), at_now = 0\<rparr>;
       bad = \<lparr>at_acquire = Pair (Ok ()), at_response = Err (PeTransient None), at_now = 0\<rparr>;
       env = (\<lambda>k. if k = 1 then bad else ok_attempt)
   in fst (call_counted env (budget_new 1 1 None 0)) = Ok (JInt 7, 2) \<and> attempt_result (env 2) = Ok (JInt 7)"
proof -
  let ?ok = "\<lparr>at_acquire = Pair (Ok ()), at_response = Ok (JObject [(''result'', JInt 7)]), at_now = 0\<rparr>"
  let ?bad = "\<lparr>at_acquire = Pair (Ok ()), at_response = Err (PeTransient None), at_now = 0\<rparr>"
  let ?env = "\<lambda>k::nat. if k = 1 then ?bad else ?ok"
  have "fst (call_counted ?env (budget_new 1 1 None 0)) = Ok (JInt 7, 2)"
    by (simp add: call_counted_def ATTEMPTS_def numeral_3_eq_3 interpret_object_def consider_retry_def ok_or_def)
  with call_counted_outcome [of ?env "budget_new 1 1 None 0"] show ?thesis unfolding Let_def by simp
qed

section \<open>The window stays in its bounds\<close>

definition book_ok :: "range_book \<Rightarrow> bool" where
  "book_ok b = (1 \<le> bk_min b \<and> bk_min b \<le> bk_max b \<and> bk_max b \<le> u64_max \<and>
     (\<forall>ds st. bk_states b ds = Some st \<longrightarrow> bk_min b \<le> rg_current st \<and> rg_current st \<le> bk_max b))"

lemma book_new_ok: "1 \<le> mn \<Longrightarrow> mn \<le> mx \<Longrightarrow> mx \<le> u64_max \<Longrightarrow> book_ok (book_new mx mn)"
  by (simp add: book_ok_def book_new_def)

lemma book_state_bounds:
  assumes "book_ok b"
  shows "bk_min b \<le> rg_current (book_state b ds now) \<and> rg_current (book_state b ds now) \<le> bk_max b"
  using assms by (cases "bk_states b ds") (auto simp: book_state_def book_ok_def Let_def)

lemma put_state_ok:
  "book_ok b \<Longrightarrow> bk_min b \<le> rg_current st \<Longrightarrow> rg_current st \<le> bk_max b \<Longrightarrow> book_ok (put_state b ds st)"
  by (auto simp: book_ok_def put_state_def)

lemma put_state_bounds [simp]: "bk_min (put_state b ds st) = bk_min b" "bk_max (put_state b ds st) = bk_max b"
  by (simp_all add: put_state_def)

lemma book_ops_ok:
  assumes "book_ok b"
  shows "book_ok (snd (book_current b ds now))" and "book_ok (record_success b ds now)" and "book_ok (snd (record_limit b ds n now))"
proof -
  note bounds = book_state_bounds [OF assms, of ds now]
  have lim: "bk_max b \<le> u64_max" "bk_min b \<le> bk_max b" using assms by (auto simp: book_ok_def)
  show "book_ok (snd (book_current b ds now))" using bounds assms by (simp add: book_current_def Let_def put_state_ok)
  have "bk_min b \<le> min (sat_mul (rg_current (book_state b ds now)) 2) (bk_max b)"
    using bounds lim by (simp add: sat_mul_def)
  then show "book_ok (record_success b ds now)"
    unfolding record_success_def Let_def using bounds assms lim by (intro put_state_ok) auto
  show "book_ok (snd (record_limit b ds n now))"
    unfolding record_limit_def Let_def snd_conv using bounds assms lim by (intro put_state_ok) auto
qed

end
