(* ===== verification/Selector.thy ===== *)
theory Selector
  imports Core_Types
begin

text \<open>
  Log selectors, \<open>crates/core/src/selector.rs\<close>: topic filters, matching and covering,
  splitting by address, merging selectors for one call, the raw form of the wire and the
  canonical key. Covering is shown to be inclusion of the matched logs, the key to be
  injective. \<open>Sha256::digest\<close> is the parameter \<open>sha256\<close>.
\<close>

section \<open>Topic filters\<close>

type_synonym topic_set = "b256 btree_set"

definition topic_set_new :: "b256 list \<Rightarrow> (topic_set, error) result" where
  "topic_set_new topics =
     (let xs = collect_set topics
      in if xs = [] then Err (InvalidInput ''topic filter must list at least one topic'')
         else Ok xs)"

datatype topic_filter = AnyTopic | OneOf topic_set

definition topic_one_of :: "b256 list \<Rightarrow> (topic_filter, error) result" where
  "topic_one_of topics = map_ok OneOf (topic_set_new topics)"

fun topic_covers :: "topic_filter \<Rightarrow> topic_filter \<Rightarrow> bool" where
  "topic_covers AnyTopic _ = True"
| "topic_covers (OneOf _) AnyTopic = False"
| "topic_covers (OneOf wide) (OneOf narrow) = is_subset narrow wide"

fun topic_matches :: "topic_filter \<Rightarrow> b256 option \<Rightarrow> bool" where
  "topic_matches AnyTopic topic = True"
| "topic_matches (OneOf xs) topic = (case topic of None \<Rightarrow> False | Some t \<Rightarrow> t \<in> set xs)"

fun topic_try_from :: "b256 list option \<Rightarrow> (topic_filter, error) result" where
  "topic_try_from None = Ok AnyTopic"
| "topic_try_from (Some topics) = topic_one_of topics"

fun topic_into :: "topic_filter \<Rightarrow> b256 list option" where
  "topic_into AnyTopic = None"
| "topic_into (OneOf xs) = Some xs"

section \<open>Canonical text\<close>

text \<open>\<open>hex::encode\<close> of a value of \<open>k\<close> nibbles, most significant first.\<close>

fun hex_fixed :: "nat \<Rightarrow> nat \<Rightarrow> string" where
  "hex_fixed 0 n = []"
| "hex_fixed (Suc k) n = hex_fixed k (n div 16) @ [hex_digit (n mod 16)]"

text \<open>\<open>Vec<String>::join\<close> with a one-character separator.\<close>

fun join :: "char \<Rightarrow> string list \<Rightarrow> string" where
  "join c [] = []"
| "join c [x] = x"
| "join c (x # y # ys) = x @ c # join c (y # ys)"

definition join_hex :: "nat \<Rightarrow> nat list \<Rightarrow> string" where
  "join_hex k vs = join (CHR '','') (map (\<lambda>v. ''0x'' @ hex_fixed k v) vs)"

definition sha256_hex :: "(string \<Rightarrow> bytes) \<Rightarrow> string \<Rightarrow> string" where
  "sha256_hex sha256 s = concat (map (\<lambda>b. hex_fixed 2 (unat b)) (sha256 s))"

fun topic_canonical :: "topic_filter \<Rightarrow> string" where
  "topic_canonical AnyTopic = ''*''"
| "topic_canonical (OneOf xs) = join_hex 64 (map unat xs)"

section \<open>Log selectors\<close>

record log_selector =
  sel_addresses :: "address btree_set"
  sel_topics :: "topic_filter list"

text \<open>The array \<open>[TopicFilter; 4]\<close> is a list of length four; sets are ascending lists.\<close>

definition topic_ok :: "topic_filter \<Rightarrow> bool" where
  "topic_ok t = (case t of AnyTopic \<Rightarrow> True | OneOf xs \<Rightarrow> xs \<noteq> [] \<and> btree_ok xs)"

definition sel_ok :: "log_selector \<Rightarrow> bool" where
  "sel_ok s = (btree_ok (sel_addresses s) \<and> length (sel_topics s) = 4 \<and> list_all topic_ok (sel_topics s))"

definition sel_canonical_key :: "log_selector \<Rightarrow> string" where
  "sel_canonical_key s =
     (let addresses = (if sel_addresses s = [] then ''*'' else join_hex 40 (map unat (sel_addresses s)));
          topics = map topic_canonical (sel_topics s)
      in ''addresses='' @ addresses @ '';topics='' @ join (CHR ''|'') topics)"

definition sel_fingerprint :: "(string \<Rightarrow> bytes) \<Rightarrow> log_selector \<Rightarrow> string" where
  "sel_fingerprint sha256 s = sha256_hex sha256 (sel_canonical_key s)"

definition sel_covers :: "log_selector \<Rightarrow> log_selector \<Rightarrow> bool" where
  "sel_covers w n =
     ((sel_addresses w = [] \<or>
       (sel_addresses n \<noteq> [] \<and> is_subset (sel_addresses n) (sel_addresses w))) \<and>
      list_all (\<lambda>(wide, narrow). topic_covers wide narrow) (zip (sel_topics w) (sel_topics n)))"

definition nth_opt :: "'a list \<Rightarrow> nat \<Rightarrow> 'a option" where
  "nth_opt xs i = (if i < length xs then Some (xs ! i) else None)"

definition sel_matches :: "log_selector \<Rightarrow> log_row \<Rightarrow> bool" where
  "sel_matches s log =
     ((sel_addresses s = [] \<or> log_address log \<in> set (sel_addresses s)) \<and>
      list_all (\<lambda>(position, filter). topic_matches filter (nth_opt (log_topics log) position))
        (enumerate 0 (sel_topics s)))"

definition split_by_address :: "log_selector \<Rightarrow> log_selector list" where
  "split_by_address s =
     (if sel_addresses s = [] then [s]
      else map (\<lambda>a. \<lparr>sel_addresses = [a], sel_topics = sel_topics s\<rparr>) (sel_addresses s))"

text \<open>The \<open>collect::<Option<Vec<_>>>\<close> over the first topics of the members.\<close>

fun topic0_sets :: "log_selector list \<Rightarrow> b256 list list option" where
  "topic0_sets [] = Some []"
| "topic0_sets (m # ms) =
     (case sel_topics m ! 0 of
        AnyTopic \<Rightarrow> None
      | OneOf xs \<Rightarrow> (case topic0_sets ms of None \<Rightarrow> None | Some yss \<Rightarrow> Some (xs # yss)))"

definition batch_topic0 :: "log_selector list \<Rightarrow> topic_filter" where
  "batch_topic0 members =
     (case topic0_sets members of None \<Rightarrow> AnyTopic | Some xss \<Rightarrow> OneOf (collect_set (concat xss)))"

definition batch_slot :: "log_selector \<Rightarrow> log_selector list \<Rightarrow> nat \<Rightarrow> topic_filter" where
  "batch_slot first rest position =
     (let shared = sel_topics first ! position
      in if list_all (\<lambda>m. sel_topics m ! position = shared) rest then shared else AnyTopic)"

definition sel_batch :: "log_selector list \<Rightarrow> usize \<Rightarrow> log_selector option" where
  "sel_batch members max_addresses =
     (case members of
        [] \<Rightarrow> None
      | first # rest \<Rightarrow>
          if rest = [] then Some first
          else
            let topics = batch_topic0 members # map (batch_slot first rest) [1, 2, 3];
                union = collect_set (concat (map sel_addresses members))
            in if list_all (\<lambda>m. sel_addresses m = []) members
               then Some \<lparr>sel_addresses = [], sel_topics = topics\<rparr>
               else if list_ex (\<lambda>m. sel_addresses m = []) members then None
               else if length union > max_addresses then None
               else Some \<lparr>sel_addresses = union, sel_topics = topics\<rparr>)"

text \<open>The raw form: trailing \<open>Any\<close> positions are dropped on the way out and filled in on
  the way in.\<close>

record raw_log_selector =
  raw_addresses :: "address btree_set"
  raw_topics :: "topic_filter list"

definition sel_from_raw :: "raw_log_selector \<Rightarrow> (log_selector, error) result" where
  "sel_from_raw raw =
     (if length (raw_topics raw) > 4 then
        Err (InvalidInput (''selector has '' @ dec (length (raw_topics raw)) @
          '' topic positions, at most 4 allowed''))
      else Ok \<lparr>sel_addresses = raw_addresses raw,
               sel_topics = raw_topics raw @ replicate (4 - length (raw_topics raw)) AnyTopic\<rparr>)"

fun pop_any :: "topic_filter list \<Rightarrow> topic_filter list" where
  "pop_any ts = (if ts \<noteq> [] \<and> last ts = AnyTopic then pop_any (butlast ts) else ts)"

declare pop_any.simps [simp del]

definition sel_to_raw :: "log_selector \<Rightarrow> raw_log_selector" where
  "sel_to_raw s = \<lparr>raw_addresses = sel_addresses s, raw_topics = pop_any (sel_topics s)\<rparr>"

datatype selector = SelLogs log_selector | SelBlocks

fun selector_dataset :: "selector \<Rightarrow> dataset" where
  "selector_dataset (SelLogs _) = EvmLogs"
| "selector_dataset SelBlocks = EvmBlocks"

fun selector_canonical_key :: "selector \<Rightarrow> string" where
  "selector_canonical_key (SelLogs s) = sel_canonical_key s"
| "selector_canonical_key SelBlocks = ''all''"

definition selector_fingerprint :: "(string \<Rightarrow> bytes) \<Rightarrow> selector \<Rightarrow> string" where
  "selector_fingerprint sha256 s = sha256_hex sha256 (selector_canonical_key s)"

section \<open>Covering\<close>

text \<open>What a consumer of coverage relies on: a wider selector keeps every row a narrower one
  selects, so rows collected for the wider one answer the narrower one by filtering.\<close>

locale covering =
  fixes good :: "'s \<Rightarrow> bool" and covers :: "'s \<Rightarrow> 's \<Rightarrow> bool" and matches :: "'s \<Rightarrow> 'l \<Rightarrow> bool"
  assumes covers_refl: "good s \<Longrightarrow> covers s s"
    and covers_trans: "good a \<Longrightarrow> good b \<Longrightarrow> good c \<Longrightarrow> covers a b \<Longrightarrow> covers b c \<Longrightarrow> covers a c"
    and covers_sound: "good w \<Longrightarrow> good n \<Longrightarrow> covers w n \<Longrightarrow> matches n l \<Longrightarrow> matches w l"
begin

lemma filter_narrow:
  "good w \<Longrightarrow> good n \<Longrightarrow> covers w n \<Longrightarrow> filter (matches n) (filter (matches w) ls) = filter (matches n) ls"
  by (induction ls) (auto dest: covers_sound)

lemma fill_answers:
  assumes "good w" and "good n" and "covers w n"
    and "set (filter (matches w) chain) \<subseteq> set stored" and "set stored \<subseteq> set chain"
  shows "{l \<in> set stored. matches n l} = {l \<in> set chain. matches n l}"
  using assms covers_sound [OF assms(1-3)] by auto

end

lemma topic_covers_refl: "topic_covers t t"
  by (cases t) auto

lemma topic_covers_trans: "topic_covers a b \<Longrightarrow> topic_covers b c \<Longrightarrow> topic_covers a c"
  by (cases a; cases b; cases c) auto

lemma topic_covers_sound: "topic_covers w n \<Longrightarrow> topic_matches n t \<Longrightarrow> topic_matches w t"
  by (cases w; cases n) (auto split: option.splits)

lemma sel_topics4:
  assumes "sel_ok s"
  obtains a b c d where "sel_topics s = [a, b, c, d]" "topic_ok a" "topic_ok b" "topic_ok c" "topic_ok d"
  using assms by (auto simp: sel_ok_def numeral_eq_Suc length_Suc_conv)

lemma all4: "(\<forall>i<4. P i) \<longleftrightarrow> P 0 \<and> P 1 \<and> P 2 \<and> P (3::nat)"
  by (auto simp: numeral_eq_Suc less_Suc_eq)

lemma sel_covers_iff:
  assumes "sel_ok w" and "sel_ok n"
  shows "sel_covers w n \<longleftrightarrow>
    (sel_addresses w = [] \<or> sel_addresses n \<noteq> [] \<and> set (sel_addresses n) \<subseteq> set (sel_addresses w)) \<and>
    (\<forall>i<4. topic_covers (sel_topics w ! i) (sel_topics n ! i))"
  using assms by (simp add: sel_covers_def sel_ok_def list_all_length)

lemma sel_matches_iff:
  assumes "sel_ok s"
  shows "sel_matches s l \<longleftrightarrow>
    (sel_addresses s = [] \<or> log_address l \<in> set (sel_addresses s)) \<and>
    (\<forall>i<4. topic_matches (sel_topics s ! i) (nth_opt (log_topics l) i))"
  using assms by (simp add: sel_matches_def sel_ok_def list_all_length nth_enumerate_eq)

interpretation sel: covering sel_ok sel_covers sel_matches
proof unfold_locales
  fix a b c :: log_selector and l
  show "sel_ok a \<Longrightarrow> sel_covers a a"
    by (simp add: sel_covers_iff topic_covers_refl)
  show "sel_ok a \<Longrightarrow> sel_ok b \<Longrightarrow> sel_ok c \<Longrightarrow> sel_covers a b \<Longrightarrow> sel_covers b c \<Longrightarrow> sel_covers a c"
    by (simp add: sel_covers_iff) (meson topic_covers_trans subset_trans)
  show "sel_ok a \<Longrightarrow> sel_ok b \<Longrightarrow> sel_covers a b \<Longrightarrow> sel_matches b l \<Longrightarrow> sel_matches a l"
    by (auto simp: sel_covers_iff sel_matches_iff intro: topic_covers_sound)
qed


lemma topic_not_covers:
  assumes "topic_ok n" and "\<not> topic_covers w n" and "\<And>xs. w = OneOf xs \<Longrightarrow> set xs \<noteq> UNIV"
  obtains x where "topic_matches n (Some x)" and "\<not> topic_matches w (Some x)"
  using assms by (cases w; cases n) (auto simp: subset_iff)

lemma topic_some: "topic_ok n \<Longrightarrow> \<exists>x. topic_matches n (Some x)"
  by (cases n) (auto simp: topic_ok_def neq_Nil_conv)

definition bounded_sets :: "log_selector \<Rightarrow> bool" where
  "bounded_sets s =
     (length (sel_addresses s) < 2 ^ 160 \<and>
      list_all (\<lambda>t. case t of AnyTopic \<Rightarrow> True | OneOf xs \<Rightarrow> length xs < 2 ^ 256) (sel_topics s))"

lemma short_list_not_UNIV:
  assumes "length (xs :: 'a::len word list) < 2 ^ LENGTH('a)"
  shows "set xs \<noteq> UNIV"
proof
  assume "set xs = UNIV"
  then have "CARD('a word) \<le> length xs" by (metis card_length)
  with assms show False by (simp add: card_word)
qed

lemma log_with_topics: "\<exists>l :: log_row. log_address l = a \<and> log_topics l = ts"
  by (rule exI [of _ "\<lparr>log_block_number = 0, log_index = 0, log_block_hash = 0, transaction_index = 0,
     transaction_hash = 0, log_address = a, log_topics = ts, log_data = [], log_finality = Unsafe\<rparr>"]) simp

lemma matching_log:
  assumes "sel_ok s" and "\<forall>i<4. topic_matches (sel_topics s ! i) (Some (f i))"
    and "sel_addresses s = [] \<or> a \<in> set (sel_addresses s)"
  obtains l where "sel_matches s l" and "log_address l = a"
    and "\<forall>i<4. nth_opt (log_topics l) i = Some (f i)"
proof -
  obtain l :: log_row where l: "log_address l = a" "log_topics l = map f [0, 1, 2, 3]"
    using log_with_topics by blast
  then have n: "\<forall>i<4. nth_opt (log_topics l) i = Some (f i)"
    by (simp only: all4) (simp add: nth_opt_def)
  with assms l have "sel_matches s l" by (simp add: sel_matches_iff)
  with l n that show thesis by blast
qed

lemma covers_complete:
  assumes "sel_ok w" and "sel_ok n" and "bounded_sets w"
    and all: "\<forall>l. sel_matches n l \<longrightarrow> sel_matches w l"
  shows "sel_covers w n"
proof -
  have n_ok: "topic_ok (sel_topics n ! i)" if "i < 4" for i
    using assms(2) that by (simp add: sel_ok_def list_all_length)
  then obtain f where f: "\<forall>i<4. topic_matches (sel_topics n ! i) (Some (f i))"
    by (meson topic_some)
  obtain a where a: "sel_addresses n = [] \<or> a \<in> set (sel_addresses n)"
    by (metis list.set_intros(1) neq_Nil_conv)
  have "topic_covers (sel_topics w ! i) (sel_topics n ! i)" if i: "i < 4" for i
  proof (rule ccontr)
    assume neg: "\<not> topic_covers (sel_topics w ! i) (sel_topics n ! i)"
    have "set xs \<noteq> UNIV" if "sel_topics w ! i = OneOf xs" for xs
    proof (rule short_list_not_UNIV)
      have "list_all (\<lambda>t. case t of AnyTopic \<Rightarrow> True | OneOf xs \<Rightarrow> length xs < 2 ^ 256) (sel_topics w)"
        using assms(3) by (simp add: bounded_sets_def)
      then show "length xs < 2 ^ LENGTH(256)"
        using that i assms(1) by (auto simp: sel_ok_def list_all_length)
    qed
    with neg n_ok [OF i] obtain x
      where x: "topic_matches (sel_topics n ! i) (Some x)" "\<not> topic_matches (sel_topics w ! i) (Some x)"
      by (metis topic_not_covers)
    then have "\<forall>j<4. topic_matches (sel_topics n ! j) (Some ((f(i := x)) j))" using f by simp
    from matching_log [OF assms(2) this a] obtain l where "sel_matches n l"
      and "\<forall>j<4. nth_opt (log_topics l) j = Some ((f(i := x)) j)" by blast
    with x i all assms(1) show False by (metis fun_upd_same sel_matches_iff)
  qed
  moreover have "sel_addresses w = [] \<or>
    sel_addresses n \<noteq> [] \<and> set (sel_addresses n) \<subseteq> set (sel_addresses w)"
  proof (rule ccontr)
    assume neg: "\<not> ?thesis"
    have "set (sel_addresses w) \<noteq> UNIV"
      using assms(3) by (intro short_list_not_UNIV) (simp add: bounded_sets_def)
    with neg obtain b where b: "sel_addresses n = [] \<or> b \<in> set (sel_addresses n)"
      and "b \<notin> set (sel_addresses w)" and "sel_addresses w \<noteq> []" by blast
    with matching_log [OF assms(2) f b] all assms(1) show False by (metis sel_matches_iff)
  qed
  ultimately show ?thesis using assms by (simp add: sel_covers_iff)
qed

text \<open>
  C26. Covering is inclusion: for well-formed selectors whose sets do not list every value
  of their type, \<open>covers w n\<close> holds exactly when every log matched by \<open>n\<close> is matched by
  \<open>w\<close>, so coverage recorded for \<open>w\<close> proves completeness for \<open>n\<close> and nothing weaker does.
\<close>
theorem sel_covers_inclusion:
  assumes "sel_ok w" and "sel_ok n" and "bounded_sets w"
  shows "sel_covers w n \<longleftrightarrow> (\<forall>l. sel_matches n l \<longrightarrow> sel_matches w l)"
  using assms covers_complete sel.covers_sound by blast

theorem sel_covers_inclusion_witness:
  "let w = \<lparr>sel_addresses = [1, 2], sel_topics = [OneOf [7, 9], AnyTopic, AnyTopic, AnyTopic]\<rparr>;
       n = \<lparr>sel_addresses = [2], sel_topics = [OneOf [9], AnyTopic, OneOf [5], AnyTopic]\<rparr>
   in (\<forall>l. sel_matches n l \<longrightarrow> sel_matches w l) \<and> \<not> (\<forall>l. sel_matches w l \<longrightarrow> sel_matches n l)"
proof -
  let ?w = "\<lparr>sel_addresses = [1, 2], sel_topics = [OneOf [7, 9], AnyTopic, AnyTopic, AnyTopic]\<rparr>"
  let ?n = "\<lparr>sel_addresses = [2], sel_topics = [OneOf [9], AnyTopic, OneOf [5], AnyTopic]\<rparr>"
  have ok: "sel_ok ?w" "sel_ok ?n" "bounded_sets ?w" "bounded_sets ?n"
    by (simp_all add: sel_ok_def bounded_sets_def topic_ok_def btree_ok_def)
  have "sel_covers ?w ?n" and "\<not> sel_covers ?n ?w"
    by (simp_all add: sel_covers_def)
  with sel_covers_inclusion [OF ok(1-3)] sel_covers_inclusion [OF ok(2,1,4)] show ?thesis
    by (simp only: Let_def simp_thms)
qed

section \<open>Splitting and merging\<close>

lemma split_by_address_ok: "sel_ok s \<Longrightarrow> p \<in> set (split_by_address s) \<Longrightarrow> sel_ok p"
  by (auto simp: split_by_address_def sel_ok_def btree_ok_def split: if_splits)

lemma split_matches: "sel_ok s \<Longrightarrow> sel_matches s l \<Longrightarrow> \<exists>p\<in>set (split_by_address s). sel_matches p l"
  using split_by_address_ok [of s]
  by (auto simp: split_by_address_def sel_matches_def split: if_splits)

text \<open>
  Splitting by address partitions the selection: the logs a selector matches are
  exactly those matched by some part, and by at most one part when the selector names
  addresses; every part names one address.
\<close>
theorem split_by_address_partition:
  assumes "sel_ok s"
  shows "(sel_matches s l \<longleftrightarrow> (\<exists>p\<in>set (split_by_address s). sel_matches p l)) \<and>
    (\<forall>p\<in>set (split_by_address s). \<forall>q\<in>set (split_by_address s).
       sel_matches p l \<and> sel_matches q l \<longrightarrow> p = q) \<and>
    (sel_addresses s \<noteq> [] \<longrightarrow>
       map sel_addresses (split_by_address s) = map (\<lambda>a. [a]) (sel_addresses s))"
proof -
  have parts: "sel_matches p l \<longleftrightarrow>
      (sel_addresses p = [] \<or> log_address l \<in> set (sel_addresses p)) \<and>
      (\<forall>i<4. topic_matches (sel_topics s ! i) (nth_opt (log_topics l) i))"
    if "p \<in> set (split_by_address s)" for p
    using split_by_address_ok [OF assms that] that
    by (auto simp: sel_matches_iff split_by_address_def split: if_splits)
  have "sel_matches s l \<longleftrightarrow> (\<exists>p\<in>set (split_by_address s). sel_matches p l)"
    using assms by (simp add: parts sel_matches_iff) (auto simp: split_by_address_def)
  moreover have "p \<in> set (split_by_address s) \<Longrightarrow> q \<in> set (split_by_address s) \<Longrightarrow>
         sel_matches p l \<Longrightarrow> sel_matches q l \<Longrightarrow> p = q" for p q
    by (simp add: parts) (auto simp: split_by_address_def split: if_splits)
  moreover have "sel_addresses s \<noteq> [] \<Longrightarrow>
      map sel_addresses (split_by_address s) = map (\<lambda>a. [a]) (sel_addresses s)"
    by (simp add: split_by_address_def)
  ultimately show ?thesis by blast
qed

theorem split_by_address_partition_witness:
  "let s = \<lparr>sel_addresses = [1, 2], sel_topics = [OneOf [7, 9], AnyTopic, AnyTopic, AnyTopic]\<rparr>
   in (\<forall>l. sel_matches s l \<longleftrightarrow> (\<exists>p\<in>set (split_by_address s). sel_matches p l)) \<and>
      map sel_addresses (split_by_address s) = [[1], [2]]"
  using split_by_address_partition
    [of "\<lparr>sel_addresses = [1, 2], sel_topics = [OneOf [7, 9], AnyTopic, AnyTopic, AnyTopic]\<rparr>"]
  by (simp add: sel_ok_def topic_ok_def btree_ok_def Let_def)

lemma topic0_sets_Some:
  "topic0_sets ms = Some xss \<Longrightarrow> m \<in> set ms \<Longrightarrow> \<exists>xs\<in>set xss. sel_topics m ! 0 = OneOf xs"
  by (induction ms arbitrary: xss) (auto split: topic_filter.splits option.splits)

lemma batch_topic0_covers: "m \<in> set ms \<Longrightarrow> topic_covers (batch_topic0 ms) (sel_topics m ! 0)"
  by (cases "topic0_sets ms") (auto simp: batch_topic0_def dest!: topic0_sets_Some)

lemma batch_topic0_ok:
  assumes "\<And>m. m \<in> set ms \<Longrightarrow> sel_ok m" and "ms \<noteq> []"
  shows "topic_ok (batch_topic0 ms)"
proof (cases "topic0_sets ms")
  case (Some xss)
  obtain m where m: "m \<in> set ms" using assms(2) by (meson list.set_sel(1))
  then obtain xs where "xs \<in> set xss" and "sel_topics m ! 0 = OneOf xs"
    using topic0_sets_Some [OF Some] by blast
  moreover have "topic_ok (sel_topics m ! 0)"
    using assms(1) [OF m] by (simp add: sel_ok_def list_all_length)
  ultimately show ?thesis by (auto simp: batch_topic0_def Some topic_ok_def)
qed (simp add: batch_topic0_def topic_ok_def)

lemma batch_slot_covers:
  "m \<in> set (first # rest) \<Longrightarrow> topic_covers (batch_slot first rest i) (sel_topics m ! i)"
  by (auto simp: batch_slot_def Let_def list_all_iff topic_covers_refl)

lemma batch_slot_ok: "sel_ok first \<Longrightarrow> i < 4 \<Longrightarrow> topic_ok (batch_slot first rest i)"
  by (auto simp: batch_slot_def Let_def sel_ok_def list_all_length topic_ok_def)

lemma sel_batch_cases:
  assumes "sel_batch members n = Some s"
  obtains (one) "members = [s]"
  | (many) first rest where "members = first # rest" "rest \<noteq> []"
      "sel_topics s = batch_topic0 members # map (batch_slot first rest) [1, 2, 3]"
      "(\<forall>m\<in>set members. sel_addresses m = []) \<and> sel_addresses s = [] \<or>
       (\<forall>m\<in>set members. sel_addresses m \<noteq> []) \<and> length (sel_addresses s) \<le> n \<and>
         sel_addresses s = collect_set (concat (map sel_addresses members))"
proof (cases members)
  case Nil
  with assms show thesis by (simp add: sel_batch_def)
next
  case (Cons first rest)
  show thesis
  proof (cases "rest = []")
    case True
    with Cons assms show thesis by (auto simp: sel_batch_def intro: one)
  next
    case False
    show thesis
      by (rule many [OF Cons False])
        (use assms Cons False in \<open>auto simp: sel_batch_def Let_def list_all_iff list_ex_iff split: if_splits\<close>)
  qed
qed

lemma sel_batch_ok:
  assumes "sel_batch members n = Some s" and "\<And>m. m \<in> set members \<Longrightarrow> sel_ok m"
  shows "sel_ok s"
  using assms(1)
proof (cases rule: sel_batch_cases)
  case (many first rest)
  then have "btree_ok (sel_addresses s)" by (auto simp: btree_ok_def [of "[]"])
  moreover have "list_all topic_ok (sel_topics s)"
    using many assms(2) batch_slot_ok [of first] batch_topic0_ok [of members] by simp
  ultimately show ?thesis using many by (simp add: sel_ok_def)
qed (use assms in simp)

lemma sel_batch_spec:
  assumes "sel_batch members max_addresses = Some s" and "\<forall>m\<in>set members. sel_ok m"
  shows "sel_ok s \<and> (\<forall>m\<in>set members. sel_covers s m) \<and>
    set (sel_addresses s) = (\<Union>m\<in>set members. set (sel_addresses m)) \<and>
    (1 < length members \<longrightarrow> length (sel_addresses s) \<le> max_addresses)"
proof (intro conjI)
  show ok: "sel_ok s" using assms by (blast intro: sel_batch_ok)
  show "\<forall>m\<in>set members. sel_covers s m"
    using assms(1)
  proof (cases rule: sel_batch_cases)
    case one
    with assms show ?thesis by (simp add: sel.covers_refl)
  next
    case (many first rest)
    have "sel_covers s m" if m: "m \<in> set members" for m
    proof -
      have "\<forall>i<4. topic_covers (sel_topics s ! i) (sel_topics m ! i)"
        using m many batch_topic0_covers [OF m] batch_slot_covers [of m first rest]
        by (simp only: all4) simp
      moreover have "sel_addresses s = [] \<or> sel_addresses m \<noteq> [] \<and> set (sel_addresses m) \<subseteq> set (sel_addresses s)"
        using many(4) m by auto
      ultimately show ?thesis using assms(2) m ok by (simp add: sel_covers_iff)
    qed
    then show ?thesis by blast
  qed
  show "set (sel_addresses s) = (\<Union>m\<in>set members. set (sel_addresses m))"
    using assms(1) by (cases rule: sel_batch_cases) auto
  show "1 < length members \<longrightarrow> length (sel_addresses s) \<le> max_addresses"
    using assms(1) by (cases rule: sel_batch_cases) auto
qed

text \<open>
  A merged selector serves every member of the batch: it is well formed, covers each
  member, names no address that no member names, and stays within the address bound of one
  call when several members name addresses.
\<close>
theorem sel_batch_covers:
  assumes "sel_batch members max_addresses = Some s" and "\<forall>m\<in>set members. sel_ok m"
  shows "sel_ok s \<and> (\<forall>m\<in>set members. sel_covers s m) \<and>
    set (sel_addresses s) = (\<Union>m\<in>set members. set (sel_addresses m)) \<and>
    (1 < length members \<longrightarrow> length (sel_addresses s) \<le> max_addresses)"
  by (rule sel_batch_spec [OF assms])

theorem sel_batch_covers_witness:
  "let a = \<lparr>sel_addresses = [1], sel_topics = [OneOf [7], OneOf [3], AnyTopic, AnyTopic]\<rparr>;
       b = \<lparr>sel_addresses = [2], sel_topics = [OneOf [9], OneOf [3], OneOf [4], AnyTopic]\<rparr>;
       s = \<lparr>sel_addresses = [1, 2], sel_topics = [OneOf [7, 9], OneOf [3], AnyTopic, AnyTopic]\<rparr>
   in sel_batch [a, b] 2 = Some s \<and> sel_covers s a \<and> sel_covers s b"
proof -
  let ?a = "\<lparr>sel_addresses = [1], sel_topics = [OneOf [7], OneOf [3], AnyTopic, AnyTopic]\<rparr>"
  let ?b = "\<lparr>sel_addresses = [2], sel_topics = [OneOf [9], OneOf [3], OneOf [4], AnyTopic]\<rparr>"
  let ?s = "\<lparr>sel_addresses = [1, 2], sel_topics = [OneOf [7, 9], OneOf [3], AnyTopic, AnyTopic]\<rparr>"
  have eq: "sel_batch [?a, ?b] 2 = Some ?s"
    by (simp add: sel_batch_def batch_topic0_def batch_slot_def collect_set_def)
  moreover have "\<forall>m\<in>set [?a, ?b]. sel_ok m"
    by (simp add: sel_ok_def topic_ok_def btree_ok_def)
  ultimately show ?thesis
    using sel_batch_covers [of "[?a, ?b]" 2 ?s] by (simp add: Let_def)
qed

section \<open>The raw form and the canonical key\<close>

lemma pop_any_snoc [simp]:
  "pop_any [] = []"
  "pop_any (ts @ [AnyTopic]) = pop_any ts"
  "t \<noteq> AnyTopic \<Longrightarrow> pop_any (ts @ [t]) = ts @ [t]"
  by (simp_all add: pop_any.simps [of "[]"] pop_any.simps [of "ts @ [t]"] pop_any.simps [of "ts @ [AnyTopic]"])

lemma pop_any_pad: "pop_any ts @ replicate (length ts - length (pop_any ts)) AnyTopic = ts \<and>
    length (pop_any ts) \<le> length ts"
proof (induction ts rule: rev_induct)
  case (snoc t ts)
  show ?case
  proof (cases "t = AnyTopic")
    case True
    have "Suc (length ts) - length (pop_any ts) = Suc (length ts - length (pop_any ts))"
      using snoc by (metis Suc_diff_le)
    then have "pop_any ts @ replicate (Suc (length ts) - length (pop_any ts)) AnyTopic = ts @ [AnyTopic]"
      using snoc by (simp add: replicate_append_same [symmetric] del: replicate_Suc)
        (metis append.assoc replicate_Suc replicate_append_same)
    with True snoc show ?thesis by simp
  qed simp
qed simp

text \<open>
  C27. The wire form of a selector loses nothing: reading back what was written gives the
  selector, and a topic filter survives its own conversion.
\<close>
theorem sel_raw_roundtrip:
  assumes "sel_ok s"
  shows "sel_from_raw (sel_to_raw s) = Ok s \<and>
    (\<forall>t\<in>set (sel_topics s). topic_try_from (topic_into t) = Ok t)"
proof -
  have "length (sel_topics s) = 4" using assms by (simp add: sel_ok_def)
  then have "sel_from_raw (sel_to_raw s) = Ok s"
    using pop_any_pad [of "sel_topics s"] by (simp add: sel_from_raw_def sel_to_raw_def)
  moreover have "topic_try_from (topic_into t) = Ok t" if "t \<in> set (sel_topics s)" for t
  proof (cases t)
    case (OneOf xs)
    then have "btree_ok xs" and "xs \<noteq> []"
      using that assms by (auto simp: sel_ok_def list_all_iff topic_ok_def)
    moreover from this have "collect_set xs = xs" by (metis btree_ok_collect_set btree_ok_unique set_collect_set)
    ultimately show ?thesis using OneOf by (simp add: topic_one_of_def topic_set_new_def)
  qed simp
  ultimately show ?thesis by blast
qed

theorem sel_raw_roundtrip_witness:
  "let s = \<lparr>sel_addresses = [1], sel_topics = [OneOf [7], AnyTopic, OneOf [3], AnyTopic]\<rparr>
   in sel_from_raw (sel_to_raw s) = Ok s \<and> raw_topics (sel_to_raw s) = [OneOf [7], AnyTopic, OneOf [3]]"
proof -
  have "sel_ok \<lparr>sel_addresses = [1], sel_topics = [OneOf [7], AnyTopic, OneOf [3], AnyTopic]\<rparr>"
    by (simp add: sel_ok_def topic_ok_def btree_ok_def)
  from sel_raw_roundtrip [OF this] show ?thesis
    by (simp add: Let_def sel_to_raw_def pop_any.simps)
qed

lemma hex_digit_inj: "a < 16 \<Longrightarrow> b < 16 \<Longrightarrow> hex_digit a = hex_digit b \<Longrightarrow> a = b"
proof -
  assume ab: "a < 16" "b < 16" and eq: "hex_digit a = hex_digit b"
  have val: "(of_char (hex_digit n) :: nat) = (if n < 10 then 48 + n else 87 + n)" if "n < 16" for n
    using that by (simp add: hex_digit_def)
  from eq have "(of_char (hex_digit a) :: nat) = of_char (hex_digit b)" by simp
  with ab show ?thesis by (simp add: val split: if_splits)
qed

lemma length_hex_fixed [simp]: "length (hex_fixed k n) = k"
  by (induction k arbitrary: n) simp_all

lemma hex_fixed_inj: "m < 16 ^ k \<Longrightarrow> n < 16 ^ k \<Longrightarrow> hex_fixed k m = hex_fixed k n \<Longrightarrow> m = n"
proof (induction k arbitrary: m n)
  case (Suc k)
  have "hex_fixed k (m div 16) = hex_fixed k (n div 16)" and "hex_digit (m mod 16) = hex_digit (n mod 16)"
    using Suc.prems(3) by simp_all
  moreover have "m div 16 < 16 ^ k" and "n div 16 < 16 ^ k"
    using Suc.prems by (simp_all add: less_mult_imp_div_less mult.commute)
  ultimately have "m div 16 = n div 16" and "m mod 16 = n mod 16"
    using Suc.IH hex_digit_inj [of "m mod 16" "n mod 16"] by simp_all
  then show ?case by (metis div_mult_mod_eq)
qed simp

lemma hex_fixed_chars: "c \<in> set (hex_fixed k n) \<Longrightarrow> \<exists>d<16. c = hex_digit d"
  by (induction k arbitrary: n) (auto intro: exI [of _ "_ mod 16"])

lemma join_inj:
  assumes "xs \<noteq> []" and "ys \<noteq> []" and "\<forall>x\<in>set xs. c \<notin> set x" and "\<forall>y\<in>set ys. c \<notin> set y"
    and "join c xs = join c ys"
  shows "xs = ys"
  using assms
proof (induction c xs arbitrary: ys rule: join.induct)
  case (2 c x)
  then show ?case by (cases "(c, ys)" rule: join.cases) auto
next
  case (3 c x x' xs)
  from "3.prems" obtain y y' ys' where ys: "ys = y # y' # ys'"
    by (cases "(c, ys)" rule: join.cases) auto
  with "3.prems"(5) have "x @ c # join c (x' # xs) = y @ c # join c (y' # ys')" by simp
  with "3.prems" ys have "x = y \<and> join c (x' # xs) = join c (y' # ys')"
    by (metis append_same_eq split_once_append option.inject prod.inject list.set_intros(1))
  with "3.IH" [of "y' # ys'"] "3.prems" ys show ?case by simp
qed simp

lemma join_no_char:
  "\<forall>x\<in>set xs. d \<notin> set x \<Longrightarrow> d \<noteq> c \<Longrightarrow> d \<notin> set (join c xs)"
  by (induction c xs rule: join.induct) auto

definition not_hex :: "char \<Rightarrow> bool" where
  "not_hex c = (let n = of_char c :: nat in n < 48 \<or> (57 < n \<and> n < 97) \<or> 102 < n)"

lemma hex_digit_neq:
  "d < 16 \<Longrightarrow> not_hex c \<Longrightarrow> hex_digit d \<noteq> c"
  by (auto simp: hex_digit_def not_hex_def)

lemma hex_fixed_no_char:
  "not_hex c \<Longrightarrow> c \<notin> set (hex_fixed k n)"
  using hex_fixed_chars hex_digit_neq by blast

definition hex_item :: "nat \<Rightarrow> nat \<Rightarrow> string" where
  "hex_item k v = ''0x'' @ hex_fixed k v"

lemma join_hex_item: "join_hex k vs = join (CHR '','') (map (hex_item k) vs)"
  by (simp add: join_hex_def hex_item_def cong: map_cong)

lemma hex_item_no_char:
  "c \<noteq> CHR ''x'' \<Longrightarrow> not_hex c \<Longrightarrow> c \<notin> set (hex_item k v)"
  using hex_fixed_no_char [of c k v] by (auto simp: hex_item_def not_hex_def)

lemma hex_item_inj: "m < 16 ^ k \<Longrightarrow> n < 16 ^ k \<Longrightarrow> hex_item k m = hex_item k n \<Longrightarrow> m = n"
  by (auto simp: hex_item_def dest: hex_fixed_inj)

lemma join_hex_inj:
  assumes "\<forall>v\<in>set vs. v < 16 ^ k" and "\<forall>w\<in>set ws. w < 16 ^ k" and "vs \<noteq> []" and "ws \<noteq> []"
    and "join_hex k vs = join_hex k ws"
  shows "vs = ws"
proof -
  have no: "CHR '','' \<notin> set (hex_item k v)" for v by (rule hex_item_no_char) (simp_all add: not_hex_def)
  have "map (hex_item k) vs = map (hex_item k) ws"
    by (rule join_inj [of _ _ "CHR '',''"]) (use assms(3-5) no in \<open>simp_all add: join_hex_item\<close>)
  moreover have "inj_on (hex_item k) (set vs \<union> set ws)"
    using assms(1,2) by (auto simp: inj_on_def intro: hex_item_inj [of _ k])
  ultimately show ?thesis by (simp add: inj_on_map_eq_map)
qed

lemma join_hex_no_char:
  assumes "c \<noteq> CHR '',''" and "c \<noteq> CHR ''x''" and "not_hex c"
  shows "c \<notin> set (join_hex k vs)"
  unfolding join_hex_item using assms hex_item_no_char by (intro join_no_char) auto

lemma join_hex_words_inj:
  fixes xs ys :: "'a::len word list"
  assumes "LENGTH('a) = 4 * k" and "xs \<noteq> []" and "ys \<noteq> []"
    and "join_hex k (map unat xs) = join_hex k (map unat ys)"
  shows "xs = ys"
proof -
  have "unat w < 16 ^ k" for w :: "'a word"
  proof -
    have "unat w < 2 ^ LENGTH('a)" by (rule unsigned_less)
    then show ?thesis using assms(1) by (simp add: power_mult)
  qed
  then have "map unat xs = map unat ys"
    using assms by (intro join_hex_inj [of _ k]) auto
  then show ?thesis by (metis (mono_tags, lifting) inj_map_eq_map injI unsigned_word_eqI)
qed

lemma join_hd: "xs \<noteq> [] \<Longrightarrow> hd xs \<noteq> [] \<Longrightarrow> hd (join c xs) = hd (hd xs)"
  by (cases "(c, xs)" rule: join.cases) auto

lemma join_hex_not_star: "vs \<noteq> [] \<Longrightarrow> join_hex k vs \<noteq> ''*''"
  using join_hd [of "map (hex_item k) vs" "CHR '',''"]
  by (auto simp: join_hex_item hd_map hex_item_def)

lemma topic_canonical_inj:
  assumes "topic_ok a" and "topic_ok b" and "topic_canonical a = topic_canonical b"
  shows "a = b"
proof (cases a; cases b)
  fix xs ys
  assume "a = OneOf xs" and "b = OneOf ys"
  with assms show ?thesis by (simp add: topic_ok_def join_hex_words_inj)
qed (use assms join_hex_not_star join_hex_not_star [THEN not_sym] in \<open>auto simp: topic_ok_def\<close>)

lemma topic_canonical_no_bar: "CHR ''|'' \<notin> set (topic_canonical t)"
proof (cases t)
  case (OneOf xs)
  have "CHR ''|'' \<notin> set (join_hex 64 (map unat xs))" by (rule join_hex_no_char) (simp_all add: not_hex_def)
  with OneOf show ?thesis by simp
qed simp

definition address_text :: "address btree_set \<Rightarrow> string" where
  "address_text as = (if as = [] then ''*'' else join_hex 40 (map unat as))"

lemma address_text_inj:
  assumes "address_text as = address_text bs"
  shows "as = bs"
proof (cases "as = [] \<or> bs = []")
  case True
  with assms join_hex_not_star show ?thesis
    by (metis address_text_def map_is_Nil_conv)
next
  case False
  with assms have "join_hex 40 (map unat as) = join_hex 40 (map unat bs)" by (simp add: address_text_def)
  with False show ?thesis by (intro join_hex_words_inj [of 40]) simp_all
qed

lemma address_text_no_semi: "CHR '';'' \<notin> set (address_text as)"
proof -
  have "CHR '';'' \<notin> set (join_hex 40 (map unat as))" by (rule join_hex_no_char) (simp_all add: not_hex_def)
  then show ?thesis by (simp add: address_text_def)
qed

lemma split_once_eq:
  fixes c :: char
  assumes "c \<notin> set a" and "c \<notin> set b" and "a @ c # x = b @ c # y"
  shows "a = b \<and> x = y"
proof -
  have "Some (a, x) = split_once c (a @ c # x)" by (simp only: split_once_append [OF assms(1)])
  also have "\<dots> = Some (b, y)" by (simp only: assms(3) split_once_append [OF assms(2)])
  finally show ?thesis by simp
qed

text \<open>
  The canonical key is an identity: two well-formed selectors with the same key are
  equal, so distinct selectors never share a key; the key of the block dataset is no
  selector's key. (The stored fingerprint is the SHA-256 of this text.)
\<close>
theorem canonical_key_inj:
  assumes "sel_ok a" and "sel_ok b"
  shows "(sel_canonical_key a = sel_canonical_key b \<longleftrightarrow> a = b) \<and>
    selector_canonical_key (SelLogs a) \<noteq> selector_canonical_key SelBlocks"
proof -
  have key: "sel_canonical_key s = ''addresses='' @ address_text (sel_addresses s) @ CHR '';'' #
      ''topics='' @ join (CHR ''|'') (map topic_canonical (sel_topics s))" for s
    by (simp add: sel_canonical_key_def address_text_def)
  have "a = b" if eq: "sel_canonical_key a = sel_canonical_key b"
  proof -
    from eq have "address_text (sel_addresses a) = address_text (sel_addresses b) \<and>
        ''topics='' @ join (CHR ''|'') (map topic_canonical (sel_topics a)) =
        ''topics='' @ join (CHR ''|'') (map topic_canonical (sel_topics b))"
      by (intro split_once_eq [of "CHR '';''"] address_text_no_semi) (simp add: key)
    then have addr: "sel_addresses a = sel_addresses b"
      and top: "join (CHR ''|'') (map topic_canonical (sel_topics a)) =
        join (CHR ''|'') (map topic_canonical (sel_topics b))"
      using address_text_inj by auto
    from assms have len: "sel_topics a \<noteq> []" "sel_topics b \<noteq> []" by (auto simp: sel_ok_def)
    have "map topic_canonical (sel_topics a) = map topic_canonical (sel_topics b)"
      by (rule join_inj [OF _ _ _ _ top]) (use len topic_canonical_no_bar in auto)
    moreover have "inj_on topic_canonical (set (sel_topics a) \<union> set (sel_topics b))"
      using assms topic_canonical_inj by (auto simp: inj_on_def sel_ok_def list_all_iff)
    ultimately have "sel_topics a = sel_topics b" by (simp add: inj_on_map_eq_map)
    with addr show ?thesis by simp
  qed
  then show ?thesis by (auto simp: key)
qed

theorem canonical_key_inj_witness:
  "let a = \<lparr>sel_addresses = [1], sel_topics = [OneOf [7], AnyTopic, AnyTopic, AnyTopic]\<rparr>;
       b = \<lparr>sel_addresses = [1], sel_topics = [AnyTopic, OneOf [7], AnyTopic, AnyTopic]\<rparr>
   in sel_canonical_key a \<noteq> sel_canonical_key b"
proof -
  let ?a = "\<lparr>sel_addresses = [1], sel_topics = [OneOf [7], AnyTopic, AnyTopic, AnyTopic]\<rparr>"
  let ?b = "\<lparr>sel_addresses = [1], sel_topics = [AnyTopic, OneOf [7], AnyTopic, AnyTopic]\<rparr>"
  have "sel_ok ?a" and "sel_ok ?b" by (simp_all add: sel_ok_def topic_ok_def btree_ok_def)
  from canonical_key_inj [OF this] show ?thesis by simp
qed

end
