(* ===== verification/Evm_Decode.thy ===== *)
theory Evm_Decode
  imports Provider_Error Selector
begin

text \<open>
  JSON-RPC values of an EVM chain (\<open>crates/evm/src/decode.rs\<close> and \<open>encode.rs\<close>). Reading and
  printing hashes, addresses and byte strings as hex is \<open>alloy\<close>'s and \<open>hex\<close>'s, so those
  conversions are parameters; quantities use the standard library's radix parsing.
\<close>

section \<open>Hex text\<close>

record hex_codec =
  hx_b256 :: "string \<Rightarrow> b256 option"
  hx_address :: "string \<Rightarrow> address option"
  hx_bytes :: "string \<Rightarrow> bytes option"
  hx_show_b256 :: "b256 \<Rightarrow> string"
  hx_show_address :: "address \<Rightarrow> string"

definition hex_value :: "char \<Rightarrow> nat option" where
  "hex_value c =
     (let n = of_char c :: nat in
      if 48 \<le> n \<and> n \<le> 57 then Some (n - 48)
      else if 97 \<le> n \<and> n \<le> 102 then Some (n - 87)
      else if 65 \<le> n \<and> n \<le> 70 then Some (n - 55)
      else None)"

fun parse_hex_digits :: "nat \<Rightarrow> string \<Rightarrow> nat option" where
  "parse_hex_digits acc [] = Some acc"
| "parse_hex_digits acc (c # cs) =
     (case hex_value c of None \<Rightarrow> None | Some d \<Rightarrow> parse_hex_digits (acc * 16 + d) cs)"

definition from_str_radix16 :: "string \<Rightarrow> u64 option" where
  "from_str_radix16 s =
     (let ds = (case s of c # cs \<Rightarrow> if c = CHR ''+'' then cs else s | [] \<Rightarrow> s)
      in if ds = [] then None
         else case parse_hex_digits 0 ds of
                None \<Rightarrow> None
              | Some n \<Rightarrow> if n \<le> u64_max then Some n else None)"

definition show_quantity :: "u64 \<Rightarrow> string" where
  "show_quantity n = ''0x'' @ hex_nat n"

definition strip_0x :: "string \<Rightarrow> string" where
  "strip_0x text = (case strip_prefix ''0x'' text of None \<Rightarrow> text | Some t \<Rightarrow> t)"

section \<open>Decoding\<close>

fun json_as_bool :: "json \<Rightarrow> bool option" where
  "json_as_bool (JBool b) = Some b"
| "json_as_bool _ = None"

fun json_as_array :: "json \<Rightarrow> json list option" where
  "json_as_array (JArray xs) = Some xs"
| "json_as_array _ = None"

definition required_str :: "json \<Rightarrow> string \<Rightarrow> (string, provider_error) result" where
  "required_str v field = ok_or (pe_fatal (''missing '' @ field)) (Option.bind (json_get v field) json_as_str)"

definition parse_quantity :: "string \<Rightarrow> string \<Rightarrow> (u64, provider_error) result" where
  "parse_quantity text field =
     (let hex = strip_0x text in
      if hex = [] then Err (pe_fatal (''invalid '' @ field))
      else ok_or (pe_fatal (''invalid '' @ field)) (from_str_radix16 hex))"

definition parse_u32 :: "string \<Rightarrow> string \<Rightarrow> (u32, provider_error) result" where
  "parse_u32 text field =
     and_then (parse_quantity text field) (\<lambda>n.
       if n \<le> u32_max then Ok n else Err (pe_fatal (field @ '' does not fit u32'')))"

definition parse_b256 :: "hex_codec \<Rightarrow> string \<Rightarrow> string \<Rightarrow> (b256, provider_error) result" where
  "parse_b256 hx text field = ok_or (pe_fatal (''invalid '' @ field)) (hx_b256 hx text)"

definition parse_address :: "hex_codec \<Rightarrow> string \<Rightarrow> (address, provider_error) result" where
  "parse_address hx text = ok_or (pe_fatal ''invalid address'') (hx_address hx text)"

definition parse_bytes :: "hex_codec \<Rightarrow> string \<Rightarrow> (bytes, provider_error) result" where
  "parse_bytes hx text = ok_or (pe_fatal ''invalid data'') (hx_bytes hx (strip_0x text))"

definition parse_topic :: "hex_codec \<Rightarrow> json \<Rightarrow> (b256, provider_error) result" where
  "parse_topic hx topic =
     and_then (ok_or (pe_fatal ''log topic is not a string'') (json_as_str topic)) (\<lambda>text. parse_b256 hx text ''topic'')"

definition parse_log :: "hex_codec \<Rightarrow> json \<Rightarrow> finality \<Rightarrow> (log_row option, provider_error) result" where
  "parse_log hx v fin =
     (if Option.bind (json_get v ''removed'') json_as_bool = Some True then Ok None
      else and_then (ok_or (pe_fatal ''log is missing topics'') (Option.bind (json_get v ''topics'') json_as_array)) (\<lambda>topics.
        if length topics > 4 then Err (pe_fatal ''log has more than 4 topics'')
        else and_then (try_map (parse_topic hx) topics) (\<lambda>parsed.
          and_then (and_then (required_str v ''blockNumber'') (\<lambda>t. parse_quantity t ''blockNumber'')) (\<lambda>number.
          and_then (and_then (required_str v ''logIndex'') (\<lambda>t. parse_u32 t ''logIndex'')) (\<lambda>index.
          and_then (and_then (required_str v ''blockHash'') (\<lambda>t. parse_b256 hx t ''blockHash'')) (\<lambda>hash.
          and_then (and_then (required_str v ''transactionIndex'') (\<lambda>t. parse_u32 t ''transactionIndex'')) (\<lambda>tx_index.
          and_then (and_then (required_str v ''transactionHash'') (\<lambda>t. parse_b256 hx t ''transactionHash'')) (\<lambda>tx_hash.
          and_then (and_then (required_str v ''address'') (parse_address hx)) (\<lambda>addr.
          and_then (and_then (required_str v ''data'') (parse_bytes hx)) (\<lambda>data.
            Ok (Some \<lparr>log_block_number = number, log_index = index, log_block_hash = hash, transaction_index = tx_index,
              transaction_hash = tx_hash, log_address = addr, log_topics = parsed, log_data = data, log_finality = fin\<rparr>))))))))))) "

definition header_dropped :: "string list" where
  "header_dropped = [''number'', ''hash'', ''parentHash'', ''timestamp'', ''transactions'', ''uncles'', ''withdrawals'']"

definition parse_block :: "hex_codec \<Rightarrow> json \<Rightarrow> finality \<Rightarrow> (json block_row, provider_error) result" where
  "parse_block hx v fin =
     (case v of
        JNull \<Rightarrow> Err PeNotReady
      | JObject obj \<Rightarrow>
          and_then (and_then (required_str v ''number'') (\<lambda>t. parse_quantity t ''number'')) (\<lambda>number.
          and_then (and_then (required_str v ''hash'') (\<lambda>t. parse_b256 hx t ''hash'')) (\<lambda>hash.
          and_then (and_then (required_str v ''parentHash'') (\<lambda>t. parse_b256 hx t ''parentHash'')) (\<lambda>parent.
          and_then (and_then (required_str v ''timestamp'') (\<lambda>t. parse_quantity t ''timestamp'')) (\<lambda>time.
            Ok \<lparr>blk_number = number, blk_hash = hash, blk_parent_hash = parent, blk_timestamp = time, blk_finality = fin,
                blk_header = JObject (filter (\<lambda>(k, _). k \<notin> set header_dropped) obj)\<rparr>))))
      | _ \<Rightarrow> Err (pe_fatal ''block is not an object''))"

record tx_sender =
  tx_address :: address
  tx_block_number :: u64
  tx_block_hash :: b256

definition parse_tx :: "hex_codec \<Rightarrow> json \<Rightarrow> (tx_sender option, provider_error) result" where
  "parse_tx hx v =
     (if v = JNull \<or> json_get v ''blockNumber'' = Some JNull then Ok None
      else
        and_then (and_then (required_str v ''from'') (parse_address hx)) (\<lambda>addr.
        and_then (and_then (required_str v ''blockNumber'') (\<lambda>t. parse_quantity t ''blockNumber'')) (\<lambda>number.
        and_then (and_then (required_str v ''blockHash'') (\<lambda>t. parse_b256 hx t ''blockHash'')) (\<lambda>hash.
          Ok (Some \<lparr>tx_address = addr, tx_block_number = number, tx_block_hash = hash\<rparr>)))))"

section \<open>Encoding\<close>

fun topic_value :: "hex_codec \<Rightarrow> topic_filter \<Rightarrow> json" where
  "topic_value hx AnyTopic = JNull"
| "topic_value hx (OneOf xs) = JArray (map (\<lambda>t. JString (hx_show_b256 hx t)) xs)"

definition pop_nulls :: "json list \<Rightarrow> json list" where
  "pop_nulls topics = rev (dropWhile (\<lambda>v. v = JNull) (rev topics))"

definition log_filter :: "hex_codec \<Rightarrow> log_selector \<Rightarrow> u64 \<Rightarrow> u64 \<Rightarrow> json" where
  "log_filter hx s from_block to_block =
     (let addresses = map (\<lambda>a. JString (hx_show_address hx a)) (sel_addresses s);
          topics = pop_nulls (map (topic_value hx) (sel_topics s))
      in JObject (
        [(''fromBlock'', JString (show_quantity from_block)), (''toBlock'', JString (show_quantity to_block))] @
        (case addresses of [] \<Rightarrow> [] | [one] \<Rightarrow> [(''address'', one)] | _ \<Rightarrow> [(''address'', JArray addresses)]) @
        (if topics = [] then [] else [(''topics'', JArray topics)])))"

section \<open>Quantities survive the wire\<close>

lemma hex_value_digit: "d < 16 \<Longrightarrow> hex_value (hex_digit d) = Some d"
  by (auto simp: hex_value_def hex_digit_def Let_def)

lemma parse_hex_append:
  "parse_hex_digits acc (xs @ ys) = (case parse_hex_digits acc xs of None \<Rightarrow> None | Some a \<Rightarrow> parse_hex_digits a ys)"
  by (induction xs arbitrary: acc) (auto split: option.splits)

lemma parse_hex_nat: "parse_hex_digits 0 (hex_nat n) = Some n"
proof (induction n rule: hex_nat.induct)
  case (1 n)
  show ?case
  proof (cases "n < 16")
    case True
    then show ?thesis by (simp add: hex_nat.simps [of n] hex_value_digit)
  next
    case False
    have "hex_nat n = hex_nat (n div 16) @ [hex_digit (n mod 16)]" using False by (simp add: hex_nat.simps [of n])
    moreover have "parse_hex_digits 0 (hex_nat (n div 16)) = Some (n div 16)" using 1 False by simp
    ultimately show ?thesis by (simp add: parse_hex_append hex_value_digit)
  qed
qed

lemma hex_nat_first: "hex_nat n \<noteq> [] \<and> hd (hex_nat n) \<noteq> CHR ''+''"
proof (induction n rule: hex_nat.induct)
  case (1 n)
  have plus: "hex_digit d \<noteq> CHR ''+''" if "d < 16" for d using hex_value_digit [OF that] by (auto simp: hex_value_def)
  show ?case
    using 1 plus [of n] by (cases "n < 16") (auto simp: hex_nat.simps [of n])
qed

lemma parse_quantity_roundtrip: "n \<le> u64_max \<Longrightarrow> parse_quantity (show_quantity n) field = Ok n"
  using hex_nat_first [of n] parse_hex_nat [of n]
  by (cases "hex_nat n") (auto simp: parse_quantity_def show_quantity_def strip_0x_def strip_prefix_def from_str_radix16_def Let_def ok_or_def)

end
