(* ===== verification/Block_Range.thy ===== *)
theory Block_Range
  imports Core_Types
begin

text \<open>
  Inclusive block ranges, \<open>crates/core/src/range.rs\<close>. A range is read as the set of its
  blocks (\<open>blocks\<close>); lists of ranges, as coverage and fill planning use them, as the union
  (\<open>blocks_of\<close>). \<open>align_chunks\<close> is shown equal to the grid cells it names.
\<close>

section \<open>The type and its operations\<close>

record block_range =
  br_start :: u64
  br_end :: u64

abbreviation rng :: "u64 \<Rightarrow> u64 \<Rightarrow> block_range" where
  "rng a b \<equiv> \<lparr>br_start = a, br_end = b\<rparr>"

definition MAX_END :: u64 where
  "MAX_END = nat i64_max - 1"

definition range_new :: "u64 \<Rightarrow> u64 \<Rightarrow> (block_range, error) result" where
  "range_new s e =
     (if s > e then Err (InvalidInput (''block range start '' @ dec s @ '' is after end '' @ dec e))
      else if e > MAX_END then
        Err (InvalidInput (''block range end '' @ dec e @ '' exceeds '' @ dec MAX_END))
      else Ok (rng s e))"

definition range_len :: "block_range \<Rightarrow> u64" where
  "range_len r = br_end r - br_start r + 1"

definition range_contains :: "block_range \<Rightarrow> u64 \<Rightarrow> bool" where
  "range_contains r b = (br_start r \<le> b \<and> b \<le> br_end r)"

definition range_intersect :: "block_range \<Rightarrow> block_range \<Rightarrow> block_range option" where
  "range_intersect a b =
     (let s = max (br_start a) (br_start b); e = min (br_end a) (br_end b)
      in if s \<le> e then Some (rng s e) else None)"

text \<open>
  The loop of \<open>align_chunks\<close>. The source stops at \<open>end >= self.end\<close>; the second
  disjunct never decides for a range and a non-zero chunk (\<open>align_loop_unfold\<close>), and
  makes the recursion total on every argument.
\<close>

definition cell_at :: "u64 \<Rightarrow> u64 \<Rightarrow> block_range" where
  "cell_at chunk cell =
     rng (sat_mul cell chunk) (min (sat_mul (sat_add cell 1) chunk - 1) MAX_END)"

function align_loop :: "u64 \<Rightarrow> u64 \<Rightarrow> u64 \<Rightarrow> block_range list" where
  "align_loop chunk stop cell =
     (if br_end (cell_at chunk cell) \<ge> stop \<or> cell > stop then [cell_at chunk cell]
      else cell_at chunk cell # align_loop chunk stop (cell + 1))"
  by pat_completeness auto
termination
  by (relation "measure (\<lambda>(chunk, stop, cell). Suc stop - cell)") auto

declare align_loop.simps [simp del]

definition align_chunks :: "block_range \<Rightarrow> u64 \<Rightarrow> block_range list" where
  "align_chunks r chunk = align_loop chunk (br_end r) (br_start r div chunk)"

section \<open>Ranges as sets of blocks\<close>

definition blocks :: "block_range \<Rightarrow> u64 set" where
  "blocks r = {br_start r .. br_end r}"

definition blocks_of :: "block_range list \<Rightarrow> u64 set" where
  "blocks_of rs = (\<Union>r\<in>set rs. blocks r)"

definition range_ok :: "block_range \<Rightarrow> bool" where
  "range_ok r = (br_start r \<le> br_end r \<and> br_end r \<le> MAX_END)"

text \<open>Ranges in block order with no overlap, and with no two ranges adjacent.\<close>

definition disjoint_ranges :: "block_range list \<Rightarrow> bool" where
  "disjoint_ranges rs =
     (list_all range_ok rs \<and> sorted_wrt (\<lambda>a b. br_end a < br_start b) rs)"

definition coalesced :: "block_range list \<Rightarrow> bool" where
  "coalesced rs =
     (list_all range_ok rs \<and> sorted_wrt (\<lambda>a b. br_end a + 1 < br_start b) rs)"

lemma mem_blocks [simp]: "b \<in> blocks r \<longleftrightarrow> br_start r \<le> b \<and> b \<le> br_end r"
  by (simp add: blocks_def)

lemma blocks_of_simps [simp]:
  "blocks_of [] = {}"
  "blocks_of (r # rs) = blocks r \<union> blocks_of rs"
  "blocks_of (rs @ rs') = blocks_of rs \<union> blocks_of rs'"
  by (auto simp: blocks_of_def)

lemma mem_blocks_of: "b \<in> blocks_of rs \<longleftrightarrow> (\<exists>r\<in>set rs. br_start r \<le> b \<and> b \<le> br_end r)"
  by (auto simp: blocks_of_def)

lemma MAX_END_value: "MAX_END = 9223372036854775806"
  by (simp add: MAX_END_def i64_max_def)

lemma MAX_END_less: "MAX_END < u64_max"
  by (simp add: MAX_END_value u64_max_def)

lemma range_new_Ok [range_simps]:
  "range_new s e = Ok r \<longleftrightarrow> r = rng s e \<and> s \<le> e \<and> e \<le> MAX_END"
  by (auto simp: range_new_def)

lemma range_new_ok_eq [range_simps]:
  "ok (range_new s e) = (if s \<le> e \<and> e \<le> MAX_END then Some (rng s e) else None)"
  by (auto simp: range_new_def)

lemma range_ok_rng [simp]: "range_ok (rng s e) \<longleftrightarrow> s \<le> e \<and> e \<le> MAX_END"
  by (simp add: range_ok_def)

lemma range_contains_iff: "range_contains r b \<longleftrightarrow> b \<in> blocks r"
  by (simp add: range_contains_def)

lemma range_intersect_Some:
  "range_intersect a b = Some c \<Longrightarrow> blocks c = blocks a \<inter> blocks b \<and> br_start c \<le> br_end c"
  by (auto simp: range_intersect_def Let_def split: if_splits)

lemma range_intersect_None: "range_intersect a b = None \<longleftrightarrow> blocks a \<inter> blocks b = {}"
  by (auto simp: range_intersect_def Let_def blocks_def)

lemma coalesced_disjoint: "coalesced rs \<Longrightarrow> disjoint_ranges rs"
  by (auto simp: coalesced_def disjoint_ranges_def elim: sorted_wrt_mono_rel [rotated])

lemma disjoint_ranges_Cons:
  "disjoint_ranges (r # rs) \<longleftrightarrow>
     range_ok r \<and> disjoint_ranges rs \<and> (\<forall>s\<in>set rs. br_end r < br_start s)"
  by (auto simp: disjoint_ranges_def)

lemma coalesced_Cons:
  "coalesced (r # rs) \<longleftrightarrow>
     range_ok r \<and> coalesced rs \<and> (\<forall>s\<in>set rs. br_end r + 1 < br_start s)"
  by (auto simp: coalesced_def)

section \<open>\<open>align_chunks\<close> is the grid\<close>

lemma cell_at_grid:
  assumes "cell * chunk \<le> MAX_END"
  shows "cell_at chunk cell = rng (cell * chunk) (min ((cell + 1) * chunk - 1) MAX_END)"
proof -
  have start: "sat_mul cell chunk = cell * chunk"
    using assms MAX_END_less by (simp add: sat_mul_def)
  have "min (sat_mul (sat_add cell 1) chunk - 1) MAX_END = min ((cell + 1) * chunk - 1) MAX_END"
  proof (cases "chunk = 0")
    case False
    then have "cell \<le> MAX_END" using assms by (metis le_trans mult_le_mono2 nat_mult_1_right less_one linorder_not_less)
    then have "sat_add cell 1 = cell + 1" using MAX_END_less by (simp add: sat_add_def)
    then show ?thesis using MAX_END_less by (auto simp: sat_mul_def min_def)
  qed (simp add: sat_mul_def)
  with start show ?thesis by (simp add: cell_at_def)
qed

lemma align_loop_unfold:
  assumes "0 < chunk" and "stop \<le> MAX_END"
  shows "align_loop chunk stop cell =
     (if br_end (cell_at chunk cell) \<ge> stop then [cell_at chunk cell]
      else cell_at chunk cell # align_loop chunk stop (cell + 1))"
proof -
  have "br_end (cell_at chunk cell) \<ge> stop" if "cell > stop"
  proof (cases "cell * chunk \<le> MAX_END")
    case True
    have "cell \<le> (cell + 1) * chunk - 1"
      using assms(1) by (metis Suc_eq_plus1 add_diff_cancel_right' diff_le_mono le_add2 mult_le_mono2
        nat_mult_1_right Suc_leI One_nat_def)
    with True that assms show ?thesis by (simp add: cell_at_grid)
  next
    case False
    then have "MAX_END < sat_mul cell chunk" using MAX_END_less by (simp add: sat_mul_def)
    moreover have "sat_mul cell chunk \<le> sat_mul (sat_add cell 1) chunk"
    proof (cases "cell + 1 \<le> u64_max")
      case True
      then show ?thesis by (simp add: sat_mul_def sat_add_def min_le_iff_disj)
    next
      case big: False
      then have "u64_max \<le> u64_max * chunk" using assms(1) by simp
      with big show ?thesis by (simp add: sat_mul_def sat_add_def)
    qed
    ultimately show ?thesis using assms by (simp add: cell_at_def)
  qed
  then show ?thesis by (subst align_loop.simps) auto
qed

definition grid_cell :: "u64 \<Rightarrow> u64 \<Rightarrow> block_range" where
  "grid_cell chunk k = rng (k * chunk) (min ((k + 1) * chunk - 1) MAX_END)"

lemma cell_at_grid_cell: "k * chunk \<le> MAX_END \<Longrightarrow> cell_at chunk k = grid_cell chunk k"
  by (simp add: cell_at_grid grid_cell_def)

lemma div_mult_bounds:
  assumes "0 < (c::nat)"
  shows "b div c * c \<le> b" and "b < (b div c + 1) * c" and "b \<le> (b div c + 1) * c - 1"
proof -
  have "b = b div c * c + b mod c" by simp
  moreover have "b mod c < c" using assms by simp
  ultimately show "b div c * c \<le> b" and "b < (b div c + 1) * c"
    by (linarith, metis Suc_eq_plus1 add.commute add_less_cancel_left mult_Suc)
  then show "b \<le> (b div c + 1) * c - 1" by simp
qed

lemma align_loop_grid:
  assumes "0 < chunk" and "stop \<le> MAX_END" and "cell \<le> stop div chunk"
  shows "align_loop chunk stop cell = map (grid_cell chunk) [cell ..< stop div chunk + 1]"
  using assms(3)
proof (induction "stop div chunk - cell" arbitrary: cell)
  case 0
  then have c: "cell = stop div chunk" by simp
  have "cell * chunk \<le> MAX_END"
    using div_mult_bounds(1) [OF assms(1), of stop] assms(2) by (simp only: c)
  then have "cell_at chunk cell = grid_cell chunk cell" by (rule cell_at_grid_cell)
  moreover have "stop \<le> br_end (grid_cell chunk cell)"
    using div_mult_bounds(3) [OF assms(1), of stop] assms(2) c by (simp add: grid_cell_def)
  ultimately show ?case using c assms by (simp add: align_loop_unfold)
next
  case (Suc d)
  then have less: "cell + 1 \<le> stop div chunk" by simp
  then have "(cell + 1) * chunk \<le> stop"
    using div_mult_bounds(1) [OF assms(1), of stop] by (meson le_trans mult_le_mono1)
  then have "cell * chunk \<le> MAX_END" and "br_end (grid_cell chunk cell) < stop"
    using assms by (auto simp: grid_cell_def min_def)
  then have "align_loop chunk stop cell = grid_cell chunk cell # align_loop chunk stop (cell + 1)"
    using assms by (simp add: align_loop_unfold cell_at_grid_cell)
  also have "align_loop chunk stop (cell + 1) = map (grid_cell chunk) [cell + 1 ..< stop div chunk + 1]"
    using Suc.hyps less by simp
  finally show ?case using less by (simp add: upt_conv_Cons)
qed

text \<open>
  C25. \<open>align_chunks\<close> returns exactly the grid cells \<open>[k * chunk, (k + 1) * chunk - 1]\<close>
  with \<open>k\<close> from \<open>start / chunk\<close> to \<open>end / chunk\<close>, in order and each capped at
  \<open>MAX_END\<close>, whatever the saturating arithmetic does near the end of the range.
\<close>
theorem align_chunks_grid:
  assumes "range_ok r" and "0 < chunk"
  shows "align_chunks r chunk =
    map (grid_cell chunk) [br_start r div chunk ..< br_end r div chunk + 1]"
  using assms by (simp add: align_chunks_def range_ok_def align_loop_grid div_le_mono)

theorem align_chunks_grid_witness:
  "align_chunks (rng 7 22) 10 = [rng 0 9, rng 10 19, rng 20 29]"
  using align_chunks_grid [of "rng 7 22" 10]
  by (simp add: MAX_END_value grid_cell_def upt_rec)

lemma div_image_interval:
  assumes "0 < (c::nat)" and "s \<le> e"
  shows "(\<lambda>b. b div c) ` {s..e} = {s div c..e div c}"
proof
  show "(\<lambda>b. b div c) ` {s..e} \<subseteq> {s div c..e div c}" by (auto simp: div_le_mono)
  show "{s div c..e div c} \<subseteq> (\<lambda>b. b div c) ` {s..e}"
  proof
    fix k
    assume k: "k \<in> {s div c..e div c}"
    show "k \<in> (\<lambda>b. b div c) ` {s..e}"
    proof (cases "k = s div c")
      case True
      with assms show ?thesis by auto
    next
      case False
      with k have "s div c + 1 \<le> k" by simp
      then have "(s div c + 1) * c \<le> k * c" by (rule mult_le_mono1)
      with div_mult_bounds(2) [OF assms(1), of s] have "s \<le> k * c" by linarith
      moreover have "k * c \<le> e div c * c" using k by (intro mult_le_mono1) simp
      with div_mult_bounds(1) [OF assms(1), of e] have "k * c \<le> e" by linarith
      ultimately show ?thesis using assms(1) by (intro image_eqI [of _ _ "k * c"]) auto
    qed
  qed
qed

lemma grid_cell_iff:
  assumes "0 < chunk" and "b \<le> MAX_END"
  shows "b \<in> blocks (grid_cell chunk k) \<longleftrightarrow> b div chunk = k"
proof
  assume "b \<in> blocks (grid_cell chunk k)"
  then have "k * chunk \<le> b" and "b < (k + 1) * chunk"
    using assms by (auto simp: grid_cell_def)
  then show "b div chunk = k"
    by (metis Suc_eq_plus1 add.commute div_nat_eqI mult.commute)
next
  assume "b div chunk = k"
  then show "b \<in> blocks (grid_cell chunk k)"
    using assms div_mult_bounds [of chunk b] by (auto simp only: grid_cell_def mem_blocks block_range.simps min.bounded_iff)
qed

lemma align_chunks_cells:
  "range_ok r \<Longrightarrow> 0 < chunk \<Longrightarrow>
     align_chunks r chunk = map (grid_cell chunk) [br_start r div chunk ..< br_end r div chunk + 1]"
  by (simp only: align_chunks_def range_ok_def align_loop_grid div_le_mono)

lemma align_chunks_blocks:
  assumes "range_ok r" and "0 < chunk"
  shows "blocks r \<subseteq> blocks_of (align_chunks r chunk)"
    and "list_all range_ok (align_chunks r chunk)"
proof -
  let ?ks = "[br_start r div chunk ..< br_end r div chunk + 1]"
  have eq: "align_chunks r chunk = map (grid_cell chunk) ?ks"
    using assms by (rule align_chunks_cells)
  show "blocks r \<subseteq> blocks_of (align_chunks r chunk)"
  proof
    fix b
    assume b: "b \<in> blocks r"
    then have "b \<le> MAX_END" using assms by (simp add: range_ok_def)
    then have "b \<in> blocks (grid_cell chunk (b div chunk))"
      using assms grid_cell_iff by simp
    moreover have "b div chunk \<in> set ?ks"
      using b by (auto simp: div_le_mono less_Suc_eq_le simp del: upt_Suc)
    ultimately show "b \<in> blocks_of (align_chunks r chunk)"
      by (auto simp: eq blocks_of_def simp del: upt_Suc)
  qed
  have "range_ok (grid_cell chunk k)" if "k \<in> set ?ks" for k
  proof -
    have "k \<le> br_end r div chunk" using that by auto
    then have "k * chunk \<le> br_end r"
      using div_mult_bounds(1) [OF assms(2), of "br_end r"] by (meson le_trans mult_le_mono1)
    then show ?thesis using assms by (auto simp: grid_cell_def range_ok_def)
  qed
  then show "list_all range_ok (align_chunks r chunk)"
    by (auto simp: eq list_all_iff simp del: upt_Suc)
qed

end
