(* ===== verification/Evm_Logs.thy ===== *)
theory Evm_Logs
  imports Gateway Evm_Decode Block_Range
begin

text \<open>
  Fetching logs of a block range (\<open>crates/evm/src/logs.rs\<close>). The provider behind the gateway is
  the parameter \<open>rpc\<close>, which may answer each call differently; the clock of the range book is
  \<open>clock\<close>. Both are read at a tick that counts what happened so far. The loops take fuel and
  return \<open>None\<close> when it is spent; \<open>get_logs_exact\<close> shows how much is enough.
\<close>

type_synonym rpc = "nat \<Rightarrow> json \<Rightarrow> (json \<times> u64, provider_error \<times> u64) result"

record logs_page =
  lp_rows :: "log_row list"
  lp_fetched_to :: "u64 option"
  lp_calls :: u64

record window =
  wn_rows :: "log_row list"
  wn_end :: u64
  wn_calls :: u64

function (sequential) chunks :: "usize \<Rightarrow> 'a list \<Rightarrow> 'a list list" where
  "chunks n xs = (if xs = [] \<or> n = 0 then [] else take n xs # chunks n (drop n xs))"
  by pat_completeness auto

termination by (relation "measure (\<lambda>(n, xs). length xs)") auto

declare chunks.simps [simp del]

definition address_groups :: "log_selector \<Rightarrow> usize \<Rightarrow> address list list" where
  "address_groups s max_addresses =
     (if sel_addresses s = [] then [[]] else chunks max_addresses (sel_addresses s))"

fun parse_log_list ::
  "hex_codec \<Rightarrow> json list \<Rightarrow> finality \<Rightarrow> u64 \<Rightarrow> u64 \<Rightarrow> log_selector \<Rightarrow> log_row list \<Rightarrow> (log_row list, provider_error) result" where
  "parse_log_list hx [] fin lo hi s rows = Ok rows"
| "parse_log_list hx (v # vs) fin lo hi s rows =
     and_then (parse_log hx v fin) (\<lambda>parsed.
       case parsed of
         None \<Rightarrow> parse_log_list hx vs fin lo hi s rows
       | Some row \<Rightarrow>
           if log_block_number row < lo \<or> log_block_number row > hi
           then Err (pe_fatal ''log block is outside the requested range'')
           else if sel_addresses s \<noteq> [] \<and> log_address row \<notin> set (sel_addresses s)
           then Err (pe_fatal ''log address does not match the filter'')
           else if \<not> list_all (\<lambda>(i, f). topic_matches f (nth_opt (log_topics row) i)) (enumerate 0 (sel_topics s))
           then Err (pe_fatal ''log topics do not match the filter'')
           else parse_log_list hx vs fin lo hi s (rows @ [row]))"

definition parse_logs ::
  "hex_codec \<Rightarrow> json \<Rightarrow> finality \<Rightarrow> u64 \<Rightarrow> u64 \<Rightarrow> log_selector \<Rightarrow> (log_row list, provider_error) result" where
  "parse_logs hx v fin lo hi s =
     and_then (ok_or (pe_fatal ''eth_getLogs result is not an array'') (json_as_array v)) (\<lambda>logs.
       parse_log_list hx logs fin lo hi s [])"

definition narrowed :: "log_selector \<Rightarrow> address list \<Rightarrow> log_selector" where
  "narrowed s addresses = s\<lparr>sel_addresses := addresses\<rparr>"

fun fetch_groups ::
  "rpc \<Rightarrow> hex_codec \<Rightarrow> log_selector \<Rightarrow> finality \<Rightarrow> u64 \<Rightarrow> u64 \<Rightarrow> address list list \<Rightarrow> log_row list \<Rightarrow> u64 \<Rightarrow> nat
     \<Rightarrow> (log_row list \<times> u64, provider_error \<times> u64) result \<times> nat" where
  "fetch_groups rpc hx s fin lo hi [] rows calls t = (Ok (rows, calls), t)"
| "fetch_groups rpc hx s fin lo hi (g # gs) rows calls t =
     (case rpc t (JArray [log_filter hx (narrowed s g) lo hi]) of
        Inl (e, made) \<Rightarrow> (Err (e, calls + made), t + 1)
      | Inr (v, made) \<Rightarrow>
          (case parse_logs hx v fin lo hi (narrowed s g) of
             Inl e \<Rightarrow> (Err (e, calls + made), t + 1)
           | Inr parsed \<Rightarrow> fetch_groups rpc hx s fin lo hi gs (rows @ parsed) (calls + made) (t + 1)))"

definition window_end :: "u64 \<Rightarrow> u64 \<Rightarrow> u64 \<Rightarrow> u64" where
  "window_end cursor window range_end = min (sat_add cursor (window - 1)) range_end"

fun fetch_window ::
  "nat \<Rightarrow> rpc \<Rightarrow> hex_codec \<Rightarrow> (nat \<Rightarrow> u64) \<Rightarrow> log_selector \<Rightarrow> finality \<Rightarrow> address list list \<Rightarrow> u64 \<Rightarrow> u64 \<Rightarrow> u64 \<Rightarrow> range_book \<Rightarrow> nat
     \<Rightarrow> ((window, provider_error \<times> u64) result \<times> range_book \<times> nat) option" where
  "fetch_window 0 rpc hx clock s fin groups cursor range_end calls book t = None"
| "fetch_window (Suc fuel) rpc hx clock s fin groups cursor range_end calls book t =
     (let (win, book1) = book_current book EvmLogs (clock t);
          hi = window_end cursor win range_end
      in case fetch_groups rpc hx s fin cursor hi groups [] 0 (t + 1) of
        (Inr (rows, made), t1) \<Rightarrow>
          Some (Ok \<lparr>wn_rows = rows, wn_end = hi, wn_calls = calls + made\<rparr>, record_success book1 EvmLogs (clock t1), t1 + 1)
      | (Inl (e, made), t1) \<Rightarrow>
          if e = PeLimit then
            (case record_limit book1 EvmLogs (hi - cursor + 1) (clock t1) of
               (Inl err, book2) \<Rightarrow> Some (Err (err, calls + made), book2, t1 + 1)
             | (Inr _, book2) \<Rightarrow>
                 (case book_current book2 EvmLogs (clock (t1 + 1)) of
                    (shrunk, book3) \<Rightarrow>
                      if window_end cursor shrunk range_end \<ge> hi then Some (Err (PeLimit, calls + made), book3, t1 + 2)
                      else fetch_window fuel rpc hx clock s fin groups cursor range_end (calls + made) book3 (t1 + 2)))
          else Some (Err (e, calls + made), book1, t1))"

fun get_logs_loop ::
  "nat \<Rightarrow> nat \<Rightarrow> rpc \<Rightarrow> hex_codec \<Rightarrow> (nat \<Rightarrow> u64) \<Rightarrow> log_selector \<Rightarrow> finality \<Rightarrow> address list list \<Rightarrow> u64 \<Rightarrow> u64 \<Rightarrow> logs_page
     \<Rightarrow> range_book \<Rightarrow> nat \<Rightarrow> ((logs_page, logs_page \<times> provider_error) result \<times> range_book \<times> nat) option" where
  "get_logs_loop 0 wfuel rpc hx clock s fin groups cursor range_end page book t = None"
| "get_logs_loop (Suc n) wfuel rpc hx clock s fin groups cursor range_end page book t =
     (if cursor > range_end then Some (Ok page, book, t)
      else case fetch_window wfuel rpc hx clock s fin groups cursor range_end 0 book t of
        None \<Rightarrow> None
      | Some (Inr w, book', t') \<Rightarrow>
          (let page' = \<lparr>lp_rows = lp_rows page @ wn_rows w, lp_fetched_to = Some (wn_end w), lp_calls = lp_calls page + wn_calls w\<rparr>
           in if wn_end w = range_end then Some (Ok page', book', t')
              else get_logs_loop n wfuel rpc hx clock s fin groups (wn_end w + 1) range_end page' book' t')
      | Some (Inl (e, made), book', t') \<Rightarrow>
          Some (Err (page\<lparr>lp_calls := lp_calls page + made\<rparr>, e), book', t'))"

definition get_logs ::
  "nat \<Rightarrow> nat \<Rightarrow> rpc \<Rightarrow> hex_codec \<Rightarrow> (nat \<Rightarrow> u64) \<Rightarrow> usize \<Rightarrow> log_selector \<Rightarrow> block_range \<Rightarrow> finality \<Rightarrow> range_book
     \<Rightarrow> ((logs_page, logs_page \<times> provider_error) result \<times> range_book \<times> nat) option" where
  "get_logs n wfuel rpc hx clock max_addresses s r fin book =
     get_logs_loop n wfuel rpc hx clock s fin (address_groups s max_addresses) (br_start r) (br_end r)
       \<lparr>lp_rows = [], lp_fetched_to = None, lp_calls = 0\<rparr> book 0"

section \<open>Groups of addresses\<close>

lemma concat_chunks: "0 < n \<Longrightarrow> concat (chunks n xs) = xs"
  by (induction n xs rule: chunks.induct) (auto simp: chunks.simps [of n xs for n xs])

lemma chunks_nonempty: "g \<in> set (chunks n xs) \<Longrightarrow> g \<noteq> []"
  by (induction n xs rule: chunks.induct) (subst (asm) (2) chunks.simps, auto split: if_splits)

definition topics_match :: "log_selector \<Rightarrow> log_row \<Rightarrow> bool" where
  "topics_match s l = list_all (\<lambda>(i, f). topic_matches f (nth_opt (log_topics l) i)) (enumerate 0 (sel_topics s))"

lemma matches_narrowed:
  "sel_matches (narrowed s g) l \<longleftrightarrow> (g = [] \<or> log_address l \<in> set g) \<and> topics_match s l"
  by (simp add: sel_matches_def narrowed_def topics_match_def)

lemma matches_addresses:
  "sel_matches s l \<longleftrightarrow> (sel_addresses s = [] \<or> log_address l \<in> set (sel_addresses s)) \<and> topics_match s l"
  by (simp add: sel_matches_def topics_match_def)

lemma groups_match:
  assumes "0 < m"
  shows "sel_matches s l \<longleftrightarrow> (\<exists>g\<in>set (address_groups s m). sel_matches (narrowed s g) l)"
proof (cases "sel_addresses s = []")
  case True
  then show ?thesis by (simp add: address_groups_def matches_narrowed) (simp add: matches_addresses)
next
  case False
  have "set (sel_addresses s) = (\<Union>g\<in>set (chunks m (sel_addresses s)). set g)"
    by (metis concat_chunks [OF assms] set_concat)
  moreover have "g \<noteq> []" if "g \<in> set (chunks m (sel_addresses s))" for g using chunks_nonempty [OF that] .
  ultimately show ?thesis using False unfolding address_groups_def by (auto simp: matches_narrowed matches_addresses [of s])
qed

text \<open>No log belongs to two groups.\<close>

definition groups_apart :: "log_selector \<Rightarrow> address list list \<Rightarrow> bool" where
  "groups_apart s gs = sorted_wrt (\<lambda>g h. \<forall>l. \<not> (sel_matches (narrowed s g) l \<and> sel_matches (narrowed s h) l)) gs"

lemma distinct_concat_apart:
  "distinct (concat gs) \<Longrightarrow> \<forall>g\<in>set gs. g \<noteq> [] \<Longrightarrow> groups_apart s gs"
  by (induction gs) (auto simp: groups_apart_def matches_narrowed)

lemma address_groups_apart:
  assumes "0 < m" and "distinct (sel_addresses s)"
  shows "groups_apart s (address_groups s m)"
proof (cases "sel_addresses s = []")
  case True
  then show ?thesis by (simp add: address_groups_def groups_apart_def)
next
  case False
  then show ?thesis using distinct_concat_apart [of "chunks m (sel_addresses s)"] assms chunks_nonempty
    by (auto simp: address_groups_def concat_chunks)
qed

section \<open>What a fetch returns\<close>

definition rows_sound :: "log_selector \<Rightarrow> u64 \<Rightarrow> u64 \<Rightarrow> log_row list \<Rightarrow> bool" where
  "rows_sound s lo hi rows = (\<forall>l\<in>set rows. lo \<le> log_block_number l \<and> log_block_number l \<le> hi \<and> sel_matches s l)"

definition rows_exact :: "log_row set \<Rightarrow> log_selector \<Rightarrow> u64 \<Rightarrow> u64 \<Rightarrow> log_row list \<Rightarrow> bool" where
  "rows_exact logs s lo hi rows =
     (distinct rows \<and> set rows = {l \<in> logs. lo \<le> log_block_number l \<and> log_block_number l \<le> hi \<and> sel_matches s l})"

text \<open>What \<open>eth_getLogs\<close> documents: an answer lists the logs of the chain that the filter selects,
  each once.\<close>

definition honest ::
  "rpc \<Rightarrow> hex_codec \<Rightarrow> finality \<Rightarrow> log_selector \<Rightarrow> address list list \<Rightarrow> u64 \<Rightarrow> u64 \<Rightarrow> log_row set \<Rightarrow> bool" where
  "honest rpc hx fin s gs lo0 hi0 logs =
     (\<forall>t lo hi v made. \<forall>g\<in>set gs. lo0 \<le> lo \<and> lo \<le> hi \<and> hi \<le> hi0 \<and>
        rpc t (JArray [log_filter hx (narrowed s g) lo hi]) = Ok (v, made) \<longrightarrow>
        (\<exists>rows. parse_logs hx v fin lo hi (narrowed s g) = Ok rows \<and> rows_exact logs (narrowed s g) lo hi rows))"

lemma parse_log_list_sound:
  assumes "parse_log_list hx vs fin lo hi s rows = Ok out" and "rows_sound s lo hi rows"
  shows "rows_sound s lo hi out"
  using assms
proof (induction vs arbitrary: rows)
  case (Cons v vs)
  then obtain parsed where parsed: "parse_log hx v fin = Ok parsed" by (auto simp: and_then_Ok_iff)
  show ?case
  proof (cases parsed)
    case (Some row)
    with Cons.prems parsed have row: "lo \<le> log_block_number row" "log_block_number row \<le> hi" "sel_matches s row"
      and rest: "parse_log_list hx vs fin lo hi s (rows @ [row]) = Ok out"
      by (auto simp: sel_matches_def split: if_splits)
    from row Cons.prems(2) have "rows_sound s lo hi (rows @ [row])" by (auto simp: rows_sound_def)
    with Cons.IH rest show ?thesis by blast
  qed (use Cons parsed in auto)
qed simp

lemma parse_logs_sound: "parse_logs hx v fin lo hi s = Ok rows \<Longrightarrow> rows_sound s lo hi rows"
  using parse_log_list_sound [of hx _ fin lo hi s "[]" rows] by (auto simp: parse_logs_def rows_sound_def)

lemma fetch_groups_sound:
  assumes "fetch_groups rpc hx s fin lo hi gs rows calls t = (Ok (out, made), t')"
  shows "\<exists>more. out = rows @ more \<and> (\<forall>l\<in>set more. lo \<le> log_block_number l \<and> log_block_number l \<le> hi \<and>
     (\<exists>g\<in>set gs. sel_matches (narrowed s g) l))"
  using assms
proof (induction gs arbitrary: rows calls t)
  case (Cons g gs)
  then obtain v m parsed where parsed: "parse_logs hx v fin lo hi (narrowed s g) = Ok parsed"
    and rest: "fetch_groups rpc hx s fin lo hi gs (rows @ parsed) (calls + m) (t + 1) = (Ok (out, made), t')"
    by (auto split: sum.splits prod.splits)
  from Cons.IH [OF rest] obtain more where more: "out = (rows @ parsed) @ more" "\<forall>l\<in>set more. lo \<le> log_block_number l \<and>
      log_block_number l \<le> hi \<and> (\<exists>g\<in>set gs. sel_matches (narrowed s g) l)" by blast
  with parse_logs_sound [OF parsed] show ?case by (intro exI [of _ "parsed @ more"]) (auto simp: rows_sound_def)
qed simp

lemma fetch_groups_exact:
  assumes "fetch_groups rpc hx s fin lo hi gs rows calls t = (Ok (out, made), t')"
    and "honest rpc hx fin s gs lo0 hi0 logs" and "lo0 \<le> lo" "lo \<le> hi" "hi \<le> hi0" and "groups_apart s gs"
  shows "\<exists>more. out = rows @ more \<and> distinct more \<and>
     set more = {l \<in> logs. lo \<le> log_block_number l \<and> log_block_number l \<le> hi \<and> (\<exists>g\<in>set gs. sel_matches (narrowed s g) l)}"
  using assms
proof (induction gs arbitrary: rows calls t)
  case (Cons g gs)
  then obtain v m parsed where call: "rpc t (JArray [log_filter hx (narrowed s g) lo hi]) = Ok (v, m)"
    and parsed: "parse_logs hx v fin lo hi (narrowed s g) = Ok parsed"
    and rest: "fetch_groups rpc hx s fin lo hi gs (rows @ parsed) (calls + m) (t + 1) = (Ok (out, made), t')"
    by (auto split: sum.splits prod.splits)
  have ex: "rows_exact logs (narrowed s g) lo hi parsed"
    using Cons.prems(2-5) call parsed unfolding honest_def by fastforce
  have "honest rpc hx fin s gs lo0 hi0 logs" using Cons.prems(2) unfolding honest_def by (meson list.set_intros(2))
  moreover have "groups_apart s gs" using Cons.prems(6) by (simp add: groups_apart_def)
  ultimately obtain more where more: "out = (rows @ parsed) @ more" "distinct more"
    "set more = {l \<in> logs. lo \<le> log_block_number l \<and> log_block_number l \<le> hi \<and> (\<exists>g\<in>set gs. sel_matches (narrowed s g) l)}"
    using Cons.IH [OF rest _ Cons.prems(3-5)] by blast
  moreover have "set parsed \<inter> set more = {}"
    using Cons.prems(6) ex more(3) by (auto simp: groups_apart_def rows_exact_def)
  ultimately show ?case using ex by (intro exI [of _ "parsed @ more"]) (auto simp: rows_exact_def)
qed simp

section \<open>A window is fetched\<close>

definition steady :: "(nat \<Rightarrow> u64) \<Rightarrow> bool" where
  "steady clock = (\<forall>i j. clock j - clock i < RANGE_TTL_MS)"

text \<open>Nothing changes a window between a limit and the next readings of it.\<close>

lemma fresh_reading:
  assumes "steady clock"
  shows "book_current (snd (record_limit b ds n (clock i))) ds (clock j) =
     (max (min (rg_current (book_state b ds (clock i))) (n div 2)) (bk_min b), snd (record_limit b ds n (clock i)))"
proof -
  have "clock j - clock i < RANGE_TTL_MS" using assms by (simp add: steady_def)
  then show ?thesis
    by (simp add: record_limit_def Let_def book_current_def put_state_def book_state_def [of "b\<lparr>bk_states := _\<rparr>"])
qed

lemma window_end_bounds:
  assumes "cursor \<le> range_end" and "range_end \<le> u64_max"
  shows "cursor \<le> window_end cursor w range_end" and "window_end cursor w range_end \<le> range_end"
    and "window_end cursor w range_end - cursor \<le> w - 1"
  using assms by (auto simp: window_end_def sat_add_def)

definition good_window ::
  "rpc \<Rightarrow> hex_codec \<Rightarrow> finality \<Rightarrow> log_selector \<Rightarrow> address list list \<Rightarrow> u64 \<Rightarrow> u64 \<Rightarrow> u64 \<Rightarrow> window \<Rightarrow> bool" where
  "good_window rpc hx fin s gs lo0 cursor range_end w =
     (cursor \<le> wn_end w \<and> wn_end w \<le> range_end \<and> rows_sound s cursor (wn_end w) (wn_rows w) \<and>
      (\<forall>logs. honest rpc hx fin s gs lo0 range_end logs \<longrightarrow> rows_exact logs s cursor (wn_end w) (wn_rows w)))"

lemma fetch_groups_window:
  assumes "fetch_groups rpc hx s fin cursor hi gs [] 0 t = (Ok (rows, made), t')" and "0 < m" and "gs = address_groups s m"
    and "distinct (sel_addresses s)" and "lo0 \<le> cursor" "cursor \<le> hi" "hi \<le> range_end"
  shows "good_window rpc hx fin s gs lo0 cursor range_end \<lparr>wn_rows = rows, wn_end = hi, wn_calls = c\<rparr>"
proof -
  have g: "sel_matches s l \<longleftrightarrow> (\<exists>g\<in>set gs. sel_matches (narrowed s g) l)" for l
    unfolding assms(3) by (rule groups_match [OF assms(2)])
  have "rows_sound s cursor hi rows" using fetch_groups_sound [OF assms(1)] unfolding rows_sound_def g by auto
  moreover have "rows_exact logs s cursor hi rows" if "honest rpc hx fin s gs lo0 range_end logs" for logs
  proof -
    have "groups_apart s gs" using address_groups_apart [OF assms(2,4)] assms(3) by simp
    from fetch_groups_exact [OF assms(1) that assms(5-7) this] show ?thesis
      unfolding rows_exact_def g by auto
  qed
  ultimately show ?thesis using assms(6,7) by (simp add: good_window_def)
qed

lemma fetch_window_done:
  assumes "steady clock" and "0 < m" and "gs = address_groups s m" and "distinct (sel_addresses s)"
    and "lo0 \<le> cursor" "cursor \<le> range_end" "range_end \<le> u64_max"
    and "book_ok book" and "window_end cursor (fst (book_current book EvmLogs (clock t))) range_end - cursor < fuel"
  shows "\<exists>res book' t'. fetch_window fuel rpc hx clock s fin gs cursor range_end calls book t = Some (res, book', t') \<and>
     book_ok book' \<and> bk_max book' = bk_max book \<and> (\<forall>w. res = Ok w \<longrightarrow> good_window rpc hx fin s gs lo0 cursor range_end w)"
  using assms(8,9)
proof (induction fuel arbitrary: book t calls)
  case (Suc fuel)
  obtain win book1 where cur: "book_current book EvmLogs (clock t) = (win, book1)" by force
  have ok1: "book_ok book1" "bk_max book1 = bk_max book"
    using book_ops_ok(1) [OF Suc.prems(1), of EvmLogs "clock t"] cur by (auto simp: book_current_def Let_def)
  define hi where "hi = window_end cursor win range_end"
  have hi: "cursor \<le> hi" "hi \<le> range_end" using window_end_bounds [OF assms(6,7)] by (auto simp: hi_def)
  obtain fr t1 where fg: "fetch_groups rpc hx s fin cursor hi gs [] 0 (t + 1) = (fr, t1)" by force
  show ?case
  proof (cases fr)
    case (Inr ok)
    obtain rows made where okp: "ok = (rows, made)" by force
    have "good_window rpc hx fin s gs lo0 cursor range_end \<lparr>wn_rows = rows, wn_end = hi, wn_calls = calls + made\<rparr>"
      using fetch_groups_window [OF _ assms(2-5) hi] fg Inr okp by blast
    moreover have "bk_max (record_success book1 EvmLogs (clock t1)) = bk_max book1" by (simp add: record_success_def Let_def)
    ultimately show ?thesis
      using fg Inr okp cur ok1 book_ops_ok(2) [OF ok1(1)] by (auto simp: hi_def [symmetric] Let_def)
  next
    case (Inl err)
    obtain e made where errp: "err = (e, made)" by force
    show ?thesis
    proof (cases "e = PeLimit")
      case True
      obtain lr book2 where lim: "record_limit book1 EvmLogs (hi - cursor + 1) (clock t1) = (lr, book2)" by force
      have ok2: "book_ok book2" "bk_max book2 = bk_max book"
        using book_ops_ok(3) [OF ok1(1), of EvmLogs "hi - cursor + 1" "clock t1"] lim ok1(2)
        by (auto simp: record_limit_def Let_def split: if_splits)
      define shrunk where "shrunk = max (min (rg_current (book_state book1 EvmLogs (clock t1))) ((hi - cursor + 1) div 2)) (bk_min book1)"
      have fresh: "book_current book2 EvmLogs (clock j) = (shrunk, book2)" for j
        using fresh_reading [OF assms(1), of book1 EvmLogs "hi - cursor + 1" t1 j] lim by (simp add: shrunk_def)
      show ?thesis
      proof (cases "lr")
        case Inl': (Inl x)
        with fg Inl errp True lim cur ok2 show ?thesis by (auto simp: hi_def [symmetric] Let_def)
      next
        case Inr': (Inr x)
        show ?thesis
        proof (cases "window_end cursor shrunk range_end \<ge> hi")
          case stuck: True
          with fg Inl errp True lim cur ok2 Inr' fresh show ?thesis by (auto simp: hi_def [symmetric] Let_def)
        next
          case False
          have "cursor \<le> window_end cursor shrunk range_end" by (rule window_end_bounds(1) [OF assms(6,7)])
          then have "window_end cursor (fst (book_current book2 EvmLogs (clock (t1 + 2)))) range_end - cursor < fuel"
            using False Suc.prems(2) cur hi by (simp add: fresh hi_def [symmetric])
          from Suc.IH [OF ok2(1) this, of "calls + made"] show ?thesis
            using fg Inl errp True lim cur ok2 Inr' fresh False by (auto simp: hi_def [symmetric] Let_def)
        qed
      qed
    qed (use fg Inl errp cur ok1 in \<open>auto simp: hi_def [symmetric] Let_def\<close>)
  qed
qed simp

section \<open>The whole range\<close>

definition rows_below :: "log_selector \<Rightarrow> u64 \<Rightarrow> u64 \<Rightarrow> log_row list \<Rightarrow> bool" where
  "rows_below s lo bnd rows = (\<forall>l\<in>set rows. lo \<le> log_block_number l \<and> log_block_number l < bnd \<and> sel_matches s l)"

definition exact_below :: "log_row set \<Rightarrow> log_selector \<Rightarrow> u64 \<Rightarrow> u64 \<Rightarrow> log_row list \<Rightarrow> bool" where
  "exact_below logs s lo bnd rows =
     (distinct rows \<and> set rows = {l \<in> logs. lo \<le> log_block_number l \<and> log_block_number l < bnd \<and> sel_matches s l})"

definition page_good ::
  "rpc \<Rightarrow> hex_codec \<Rightarrow> finality \<Rightarrow> log_selector \<Rightarrow> address list list \<Rightarrow> u64 \<Rightarrow> u64 \<Rightarrow> u64 \<Rightarrow> logs_page \<Rightarrow> bool" where
  "page_good rpc hx fin s gs lo hi bnd page =
     (lp_fetched_to page = (if bnd = lo then None else Some (bnd - 1)) \<and> lo \<le> bnd \<and> rows_below s lo bnd (lp_rows page) \<and>
      (\<forall>logs. honest rpc hx fin s gs lo hi logs \<longrightarrow> exact_below logs s lo bnd (lp_rows page)))"

lemma exact_below_extend:
  assumes "exact_below logs s lo cursor xs" and "rows_exact logs s cursor hi ys" and "lo \<le> cursor" and "cursor \<le> hi"
  shows "exact_below logs s lo (hi + 1) (xs @ ys)"
proof -
  have x: "set xs = {l \<in> logs. lo \<le> log_block_number l \<and> log_block_number l < cursor \<and> sel_matches s l}"
    and y: "set ys = {l \<in> logs. cursor \<le> log_block_number l \<and> log_block_number l \<le> hi \<and> sel_matches s l}"
    and d: "distinct xs" "distinct ys" using assms(1,2) by (auto simp: exact_below_def rows_exact_def)
  have "set xs \<inter> set ys = {}" unfolding x y by auto
  moreover have "set (xs @ ys) = {l \<in> logs. lo \<le> log_block_number l \<and> log_block_number l < hi + 1 \<and> sel_matches s l}"
    unfolding set_append x y using assms(3,4) by auto
  ultimately show ?thesis unfolding exact_below_def using d by simp
qed

lemma page_good_extend:
  assumes page: "page_good rpc hx fin s gs lo hi cursor page" and w: "good_window rpc hx fin s gs lo cursor hi w"
  shows "page_good rpc hx fin s gs lo hi (wn_end w + 1)
     \<lparr>lp_rows = lp_rows page @ wn_rows w, lp_fetched_to = Some (wn_end w), lp_calls = c\<rparr>"
proof -
  have le: "lo \<le> cursor" "cursor \<le> wn_end w" and sound: "rows_below s lo cursor (lp_rows page)" "rows_sound s cursor (wn_end w) (wn_rows w)"
    using page w by (auto simp: page_good_def good_window_def)
  have "rows_below s lo (wn_end w + 1) (lp_rows page @ wn_rows w)"
    using sound le by (fastforce simp: rows_below_def rows_sound_def)
  moreover have "exact_below logs s lo (wn_end w + 1) (lp_rows page @ wn_rows w)" if "honest rpc hx fin s gs lo hi logs" for logs
    using page w that le exact_below_extend [of logs s lo cursor "lp_rows page" "wn_end w" "wn_rows w"]
    by (auto simp: page_good_def good_window_def)
  ultimately show ?thesis using le by (simp add: page_good_def)
qed

lemma get_logs_loop_done:
  assumes "steady clock" and "0 < m" and "gs = address_groups s m" and "distinct (sel_addresses s)"
    and "hi \<le> u64_max" and "cursor \<le> hi" and "hi + 1 - cursor < n" and "book_ok book" and "bk_max book \<le> wfuel"
    and "page_good rpc hx fin s gs lo hi cursor page"
  shows "\<exists>res book' t'. get_logs_loop n wfuel rpc hx clock s fin gs cursor hi page book t = Some (res, book', t') \<and>
     (case res of Inr out \<Rightarrow> page_good rpc hx fin s gs lo hi (hi + 1) out
      | Inl (out, e) \<Rightarrow> \<exists>bnd\<le>hi. page_good rpc hx fin s gs lo hi bnd out)"
  using assms(6-10)
proof (induction n arbitrary: cursor page book t)
  case (Suc n)
  have lo: "lo \<le> cursor" using Suc.prems(5) by (simp add: page_good_def)
  have "1 \<le> bk_max book" using Suc.prems(3) by (auto simp: book_ok_def)
  moreover have "fst (book_current book EvmLogs (clock t)) \<le> bk_max book"
    using book_state_bounds [OF Suc.prems(3)] by (simp add: book_current_def Let_def)
  ultimately have "window_end cursor (fst (book_current book EvmLogs (clock t))) hi - cursor < wfuel"
    using window_end_bounds(3) [OF Suc.prems(1) assms(5), of "fst (book_current book EvmLogs (clock t))"] Suc.prems(4) by linarith
  from fetch_window_done [OF assms(1-4) lo Suc.prems(1) assms(5) Suc.prems(3) this, of rpc hx fin 0]
  obtain res book' t' where fw: "fetch_window wfuel rpc hx clock s fin gs cursor hi 0 book t = Some (res, book', t')"
    and ok: "book_ok book'" "bk_max book' = bk_max book"
    and good: "\<forall>w. res = Ok w \<longrightarrow> good_window rpc hx fin s gs lo cursor hi w" by blast
  show ?case
  proof (cases res)
    case (Inl err)
    obtain e made where "err = (e, made)" by force
    moreover have "page_good rpc hx fin s gs lo hi cursor (page\<lparr>lp_calls := lp_calls page + made\<rparr>)"
      using Suc.prems(5) by (simp add: page_good_def)
    ultimately show ?thesis using fw Inl Suc.prems(1) by auto
  next
    case (Inr w)
    define page' where "page' = \<lparr>lp_rows = lp_rows page @ wn_rows w, lp_fetched_to = Some (wn_end w), lp_calls = lp_calls page + wn_calls w\<rparr>"
    have w: "good_window rpc hx fin s gs lo cursor hi w" using good Inr by simp
    then have pg: "page_good rpc hx fin s gs lo hi (wn_end w + 1) page'"
      unfolding page'_def by (rule page_good_extend [OF Suc.prems(5)])
    have bounds: "cursor \<le> wn_end w" "wn_end w \<le> hi" using w by (auto simp: good_window_def)
    show ?thesis
    proof (cases "wn_end w = hi")
      case True
      with fw Inr Suc.prems(1) pg show ?thesis by (auto simp: page'_def)
    next
      case False
      with bounds have "wn_end w + 1 \<le> hi" "hi + 1 - (wn_end w + 1) < n" using Suc.prems(2) by auto
      from Suc.IH [OF this ok(1) _ pg] ok(2) Suc.prems(4) show ?thesis
        using fw Inr Suc.prems(1) False by (simp add: page'_def Let_def)
    qed
  qed
qed simp

lemma get_logs_page:
  assumes "steady clock" and "0 < max_addresses" and "btree_ok (sel_addresses s)" and "range_ok r" and "book_ok book"
    and "bk_max book \<le> wfuel" and "range_len r + 1 < n"
  shows "\<exists>res book' t'. get_logs n wfuel rpc hx clock max_addresses s r fin book = Some (res, book', t') \<and>
     (let page = (case res of Inr out \<Rightarrow> out | Inl (out, e) \<Rightarrow> out);
          bnd = (case lp_fetched_to page of None \<Rightarrow> br_start r | Some b \<Rightarrow> b + 1)
      in (is_ok res \<longrightarrow> lp_fetched_to page = Some (br_end r)) \<and> bnd \<le> br_end r + 1 \<and>
         (\<forall>l\<in>set (lp_rows page). br_start r \<le> log_block_number l \<and> log_block_number l < bnd \<and> sel_matches s l) \<and>
         (\<forall>logs. honest rpc hx fin s (address_groups s max_addresses) (br_start r) (br_end r) logs \<longrightarrow>
            distinct (lp_rows page) \<and>
            set (lp_rows page) = {l \<in> logs. br_start r \<le> log_block_number l \<and> log_block_number l < bnd \<and> sel_matches s l}))"
proof -
  let ?gs = "address_groups s max_addresses"
  have r: "br_start r \<le> br_end r" "br_end r \<le> u64_max" using assms(4) by (auto simp: range_ok_def MAX_END_value u64_max_def)
  have n: "br_end r + 1 - br_start r < n" using assms(7) r by (simp add: range_len_def)
  have dist: "distinct (sel_addresses s)" using assms(3) by (simp add: btree_ok_def strict_sorted_iff)
  have "page_good rpc hx fin s ?gs (br_start r) (br_end r) (br_start r) \<lparr>lp_rows = [], lp_fetched_to = None, lp_calls = 0\<rparr>"
    by (simp add: page_good_def rows_below_def exact_below_def)
  from get_logs_loop_done [OF assms(1,2) refl dist r(2,1) n assms(5,6) this, of 0]
  obtain res book' t' where got: "get_logs n wfuel rpc hx clock max_addresses s r fin book = Some (res, book', t')"
    and res: "case res of Inr out \<Rightarrow> page_good rpc hx fin s ?gs (br_start r) (br_end r) (br_end r + 1) out
      | Inl (out, e) \<Rightarrow> \<exists>bnd\<le>br_end r. page_good rpc hx fin s ?gs (br_start r) (br_end r) bnd out"
    by (auto simp: get_logs_def)
  define page where "page = (case res of Inr out \<Rightarrow> out | Inl (out, e) \<Rightarrow> out)"
  obtain bnd where bnd: "bnd \<le> br_end r + 1" "page_good rpc hx fin s ?gs (br_start r) (br_end r) bnd page"
    and full: "is_ok res \<longrightarrow> bnd = br_end r + 1"
  proof (cases res)
    case (Inl err)
    obtain out e where "err = (out, e)" by force
    with Inl res obtain b where "b \<le> br_end r" "page_good rpc hx fin s ?gs (br_start r) (br_end r) b out" by auto
    with Inl \<open>err = _\<close> that [of b] show ?thesis by (simp add: page_def)
  next
    case (Inr out)
    with res that [of "br_end r + 1"] show ?thesis by (simp add: page_def)
  qed
  have "(case lp_fetched_to page of None \<Rightarrow> br_start r | Some b \<Rightarrow> b + 1) = bnd"
    using bnd(2) by (auto simp: page_good_def split: if_splits)
  moreover have "is_ok res \<longrightarrow> lp_fetched_to page = Some (br_end r)"
    using full bnd(2) r by (auto simp: page_good_def)
  moreover have "rows_below s (br_start r) bnd (lp_rows page)"
    "\<forall>logs. honest rpc hx fin s ?gs (br_start r) (br_end r) logs \<longrightarrow> exact_below logs s (br_start r) bnd (lp_rows page)"
    using bnd(2) by (simp_all add: page_good_def)
  ultimately show ?thesis using got bnd(1)
    unfolding Let_def exact_below_def [symmetric] rows_below_def [symmetric]
    by (intro exI [of _ res] exI [of _ book'] exI [of _ t'] conjI) (simp_all add: page_def [symmetric])
qed


definition demo_hex :: hex_codec where
  "demo_hex = \<lparr>hx_b256 = (\<lambda>_. Some 9), hx_address = (\<lambda>_. Some 7), hx_bytes = (\<lambda>_. Some []), hx_show_b256 = (\<lambda>_. ''h''),
     hx_show_address = (\<lambda>_. ''a'')\<rparr>"

definition demo_log_json :: json where
  "demo_log_json = JObject [(''topics'', JArray []), (''blockNumber'', JString ''0x5''), (''logIndex'', JString ''0x0''),
     (''blockHash'', JString ''h''), (''transactionIndex'', JString ''0x0''), (''transactionHash'', JString ''h''),
     (''address'', JString ''a''), (''data'', JString ''0x'')]"

definition demo_fetched :: log_row where
  "demo_fetched = \<lparr>log_block_number = 5, log_index = 0, log_block_hash = 9, transaction_index = 0, transaction_hash = 9,
     log_address = 7, log_topics = [], log_data = [], log_finality = Safe\<rparr>"

lemma demo_parse: "parse_log demo_hex demo_log_json Safe = Ok (Some demo_fetched)"
  by (simp add: parse_log_def demo_log_json_def demo_hex_def demo_fetched_def required_str_def parse_quantity_def parse_u32_def
      parse_b256_def parse_address_def parse_bytes_def strip_0x_def strip_prefix_def from_str_radix16_def hex_value_def ok_or_def
      u64_max_def u32_max_def Let_def)



end
