(* ===== verification/Evm_Blocks.thy ===== *)
theory Evm_Blocks
  imports Evm_Logs
begin

text \<open>
  Block headers, transaction senders and chain heads (\<open>crates/evm/src/blocks.rs\<close>, \<open>heads.rs\<close>,
  \<open>client.rs\<close>). A batch call of the gateway is the parameter \<open>batch\<close>, read at a tick like \<open>rpc\<close>.
\<close>

section \<open>Client\<close>

definition header_batch_size_ok :: "usize \<Rightarrow> bool" where
  "header_batch_size_ok n = (20 \<le> n \<and> n \<le> 50)"

record evm_client =
  ec_max_addresses :: usize
  ec_rpc_batch :: usize

definition evm_client_new :: "usize \<Rightarrow> usize \<Rightarrow> (evm_client, usize) result" where
  "evm_client_new max_addresses header_batch_size =
     (if \<not> header_batch_size_ok header_batch_size then Err header_batch_size
      else Ok \<lparr>ec_max_addresses = max_addresses, ec_rpc_batch = header_batch_size\<rparr>)"

datatype block_ref = RefNumber u64 | RefLatest | RefSafe | RefFinalized

fun block_ref_param :: "block_ref \<Rightarrow> string" where
  "block_ref_param (RefNumber n) = show_quantity n"
| "block_ref_param RefLatest = ''latest''"
| "block_ref_param RefSafe = ''safe''"
| "block_ref_param RefFinalized = ''finalized''"

datatype head_mode = Lag u64 u64 | Tags

section \<open>Batches\<close>

type_synonym request = "string \<times> json"
type_synonym batch_rpc = "nat \<Rightarrow> request list \<Rightarrow> ((json, provider_error) result list, provider_error) result"

text \<open>The queue of slices; a slice the provider refuses as too large is halved in place.\<close>

function (sequential) batch_queue ::
  "batch_rpc \<Rightarrow> ('t \<Rightarrow> request) \<Rightarrow> 't list list \<Rightarrow> (json, provider_error) result list \<Rightarrow> nat
     \<Rightarrow> ((json, provider_error) result list, provider_error) result \<times> nat" where
  "batch_queue batch build [] out t = (Ok out, t)"
| "batch_queue batch build (chunk # queue) out t =
     (case batch t (map build chunk) of
        Inr results \<Rightarrow>
          if length results \<noteq> length chunk then (Err (pe_fatal ''batch result length mismatch''), t + 1)
          else batch_queue batch build queue (out @ results) (t + 1)
      | Inl e \<Rightarrow>
          if e = PeBatchTooLarge \<and> length chunk > 1 then
            (let mid = length chunk div 2 in batch_queue batch build (take mid chunk # drop mid chunk # queue) out (t + 1))
          else (Err e, t + 1))"
  by pat_completeness auto

termination
proof (relation "measures [\<lambda>(batch, build, queue, out, t). (\<Sum>c\<leftarrow>queue. 2 * length c - 1), \<lambda>(batch, build, queue, out, t). length queue]")
  fix chunk :: "'t list"
  assume "length chunk > 1"
  then have "2 * length (take (length chunk div 2) chunk) - 1 + (2 * length (drop (length chunk div 2) chunk) - 1) < 2 * length chunk - 1"
    by auto
qed auto

definition batch_chunks ::
  "batch_rpc \<Rightarrow> usize \<Rightarrow> ('t \<Rightarrow> request) \<Rightarrow> 't list \<Rightarrow> nat \<Rightarrow> ((json, provider_error) result list, provider_error) result \<times> nat" where
  "batch_chunks batch rpc_batch build items t = batch_queue batch build (chunks rpc_batch items) [] t"

fun parse_each ::
  "('t \<Rightarrow> json \<Rightarrow> ('r, provider_error) result) \<Rightarrow> ('t \<times> (json, provider_error) result) list \<Rightarrow> ('r list, provider_error) result" where
  "parse_each parse [] = Ok []"
| "parse_each parse ((item, result) # rest) =
     and_then result (\<lambda>v. and_then (parse item v) (\<lambda>r. map_ok ((#) r) (parse_each parse rest)))"

definition batch_resilient ::
  "batch_rpc \<Rightarrow> usize \<Rightarrow> ('t \<Rightarrow> request) \<Rightarrow> ('t \<Rightarrow> json \<Rightarrow> ('r, provider_error) result) \<Rightarrow> 't list \<Rightarrow> nat
     \<Rightarrow> ('r list, provider_error) result \<times> nat" where
  "batch_resilient batch rpc_batch build parse items t =
     (case batch_chunks batch rpc_batch build items t of
        (Inl e, t') \<Rightarrow> (Err e, t')
      | (Inr results, t') \<Rightarrow> (parse_each parse (zip items results), t'))"

section \<open>Headers and senders\<close>

definition header_request :: "u64 \<Rightarrow> request" where
  "header_request n = (''eth_getBlockByNumber'', JArray [JString (show_quantity n), JBool False])"

definition parse_header :: "hex_codec \<Rightarrow> finality \<Rightarrow> u64 \<Rightarrow> json \<Rightarrow> (json block_row, provider_error) result" where
  "parse_header hx fin n v =
     and_then (parse_block hx v fin) (\<lambda>row.
       if blk_number row \<noteq> n then Err (pe_fatal ''block number does not match the request'') else Ok row)"

definition block_headers ::
  "batch_rpc \<Rightarrow> hex_codec \<Rightarrow> usize \<Rightarrow> block_range \<Rightarrow> finality \<Rightarrow> nat \<Rightarrow> (json block_row list, provider_error) result \<times> nat" where
  "block_headers batch hx rpc_batch r fin t =
     batch_resilient batch rpc_batch header_request (parse_header hx fin) [br_start r ..< Suc (br_end r)] t"

text \<open>\<open>call\<close> is the answer of the gateway's single call.\<close>

definition block_by_number ::
  "(json \<Rightarrow> (json, provider_error) result) \<Rightarrow> hex_codec \<Rightarrow> block_ref \<Rightarrow> finality \<Rightarrow> (json block_row option, provider_error) result" where
  "block_by_number call hx block fin =
     and_then (call (JArray [JString (block_ref_param block), JBool False])) (\<lambda>v.
       if v = JNull then Ok None
       else and_then (parse_block hx v fin) (\<lambda>row.
         case block of
           RefNumber expected \<Rightarrow>
             if blk_number row \<noteq> expected then Err (pe_fatal ''block number does not match the request'') else Ok (Some row)
         | _ \<Rightarrow> Ok (Some row)))"

record sender_lookup =
  sl_senders :: "b256 \<rightharpoonup> tx_sender"
  sl_failed :: "b256 list"

definition sender_request :: "hex_codec \<Rightarrow> b256 \<Rightarrow> request" where
  "sender_request hx h = (''eth_getTransactionByHash'', JArray [JString (hx_show_b256 hx h)])"

definition sender_batch ::
  "batch_rpc \<Rightarrow> hex_codec \<Rightarrow> usize \<Rightarrow> b256 list \<Rightarrow> nat
     \<Rightarrow> ((b256 \<times> (json, provider_error) result) list, provider_error) result \<times> nat" where
  "sender_batch batch hx rpc_batch hashes t =
     (case batch_chunks batch rpc_batch (sender_request hx) hashes t of
        (Inl e, t') \<Rightarrow> (Err e, t')
      | (Inr results, t') \<Rightarrow> (Ok (zip hashes results), t'))"

fun deduped_loop :: "b256 list \<Rightarrow> b256 list \<Rightarrow> b256 list" where
  "deduped_loop [] unique = unique"
| "deduped_loop (h # hs) unique = deduped_loop hs (if h \<in> set unique then unique else unique @ [h])"

definition deduped :: "b256 list \<Rightarrow> b256 list" where
  "deduped hashes = deduped_loop hashes []"

fun fold_senders ::
  "hex_codec \<Rightarrow> (b256 \<times> (json, provider_error) result) list \<Rightarrow> (b256 \<rightharpoonup> tx_sender) \<Rightarrow> b256 list
     \<Rightarrow> (b256 \<rightharpoonup> tx_sender) \<times> b256 list" where
  "fold_senders hx [] senders failed = (senders, failed)"
| "fold_senders hx ((h, result) # rest) senders failed =
     (case and_then result (parse_tx hx) of
        Inr (Some parsed) \<Rightarrow> fold_senders hx rest (senders(h \<mapsto> parsed)) failed
      | Inr None \<Rightarrow> fold_senders hx rest senders failed
      | Inl _ \<Rightarrow> fold_senders hx rest senders (failed @ [h]))"

definition transaction_senders ::
  "batch_rpc \<Rightarrow> hex_codec \<Rightarrow> usize \<Rightarrow> b256 list \<Rightarrow> nat \<Rightarrow> (sender_lookup, provider_error) result \<times> nat" where
  "transaction_senders batch hx rpc_batch hashes t =
     (case sender_batch batch hx rpc_batch (deduped hashes) t of
        (Inl e, t1) \<Rightarrow> (Err e, t1)
      | (Inr first, t1) \<Rightarrow>
          (case fold_senders hx first Map.empty [] of
             (senders, failed) \<Rightarrow>
               if failed = [] then (Ok \<lparr>sl_senders = senders, sl_failed = failed\<rparr>, t1)
               else (case sender_batch batch hx rpc_batch failed t1 of
                  (Inl _, t2) \<Rightarrow> (Ok \<lparr>sl_senders = senders, sl_failed = failed\<rparr>, t2)
                | (Inr again, t2) \<Rightarrow>
                    (case fold_senders hx again Map.empty [] of
                       (found, still_failed) \<Rightarrow> (Ok \<lparr>sl_senders = senders ++ found, sl_failed = still_failed\<rparr>, t2)))))"

section \<open>Heads\<close>

definition UNSUPPORTED_SAFE :: string where
  "UNSUPPORTED_SAFE = ''chain does not support safe tag; use lag mode''"

definition parse_safe_tag :: "hex_codec \<Rightarrow> (json, provider_error) result \<Rightarrow> (json block_row, provider_error) result" where
  "parse_safe_tag hx value =
     and_then (map_err (\<lambda>_. pe_fatal UNSUPPORTED_SAFE) value) (\<lambda>v.
       map_err (\<lambda>e. case e of PeNotReady \<Rightarrow> pe_fatal UNSUPPORTED_SAFE | other \<Rightarrow> other) (parse_block hx v Safe))"

definition next_item :: "(json, provider_error) result list \<Rightarrow> usize \<Rightarrow> (json, provider_error) result" where
  "next_item results i = (if i < length results then results ! i else Err (pe_fatal ''short head batch''))"

definition tag_request :: "string \<Rightarrow> request" where
  "tag_request tag = (''eth_getBlockByNumber'', JArray [JString tag, JBool False])"

definition fetch_heads ::
  "(json \<Rightarrow> (json, provider_error) result) \<Rightarrow> (request list \<Rightarrow> ((json, provider_error) result list, provider_error) result)
     \<Rightarrow> hex_codec \<Rightarrow> head_mode \<Rightarrow> (heads, provider_error) result" where
  "fetch_heads call batch hx mode =
     (case mode of
        Lag safe_lag finalized_lag \<Rightarrow>
          and_then (call (JArray [JString ''latest'', JBool False])) (\<lambda>v.
            and_then (parse_block hx v Unsafe) (\<lambda>b.
              Ok \<lparr>latest = blk_number b, latest_hash = blk_hash b, safe = blk_number b - safe_lag,
                  finalized = blk_number b - finalized_lag\<rparr>))
      | Tags \<Rightarrow>
          and_then (batch [tag_request ''latest'', tag_request ''safe'', tag_request ''finalized'']) (\<lambda>results.
            and_then (and_then (next_item results 0) (\<lambda>v. parse_block hx v Unsafe)) (\<lambda>l.
            and_then (parse_safe_tag hx (next_item results 1)) (\<lambda>s.
            and_then (and_then (next_item results 2) (\<lambda>v. parse_block hx v Finalized)) (\<lambda>f.
              if blk_number f > blk_number s \<or> blk_number s > blk_number l
              then Err (pe_fatal ''head tags are out of order'')
              else Ok \<lparr>latest = blk_number l, latest_hash = blk_hash l, safe = blk_number s, finalized = blk_number f\<rparr>)))))"

section \<open>Halving keeps the order\<close>

text \<open>What a batch documents: one answer per request, in the order of the requests.\<close>

definition answers :: "batch_rpc \<Rightarrow> (request \<Rightarrow> (json, provider_error) result) \<Rightarrow> bool" where
  "answers batch answer = (\<forall>t reqs results. batch t reqs = Ok results \<longrightarrow> results = map answer reqs)"

lemma batch_queue_length:
  "batch_queue batch build queue out t = (Ok results, t') \<Longrightarrow> length results = length out + length (concat queue)"
  by (induction batch build queue out t rule: batch_queue.induct)
     (auto simp: Let_def split: sum.splits if_splits)

lemma batch_queue_answers:
  assumes "answers batch answer" and "batch_queue batch build queue out t = (Ok results, t')"
  shows "results = out @ map (\<lambda>x. answer (build x)) (concat queue)"
  using assms
proof (induction batch build queue out t rule: batch_queue.induct)
  case (2 batch build chunk queue out t)
  show ?case
  proof (cases "batch t (map build chunk)")
    case (Inr rs)
    then have "rs = map answer (map build chunk)" using "2.prems"(1) unfolding answers_def by blast
    then show ?thesis using 2 Inr by (auto split: if_splits)
  next
    case (Inl e)
    have "map (\<lambda>x. answer (build x)) (take (length chunk div 2) chunk) @ map (\<lambda>x. answer (build x)) (drop (length chunk div 2) chunk) =
        map (\<lambda>x. answer (build x)) chunk" by (simp flip: map_append)
    with 2 Inl show ?thesis by (auto simp: Let_def split: if_splits)
  qed
qed simp

lemma parse_each_Ok:
  "parse_each parse zs = Ok out \<Longrightarrow> length out = length zs \<and>
     (\<forall>i<length zs. \<exists>v. snd (zs ! i) = Ok v \<and> parse (fst (zs ! i)) v = Ok (out ! i))"
proof (induction parse zs arbitrary: out rule: parse_each.induct)
  case (2 parse item result rest)
  then obtain v r rs where "result = Ok v" "parse item v = Ok r" "parse_each parse rest = Ok rs" "out = r # rs"
    by (cases "parse_each parse rest") (auto simp: map_ok_def)
  with 2 show ?case by (auto simp: nth_Cons split: nat.splits)
qed simp

lemma block_headers_rows:
  assumes "range_ok r" and "0 < rpc_batch" and "block_headers batch hx rpc_batch r fin t = (Ok rows, t')"
  shows "map blk_number rows = [br_start r ..< Suc (br_end r)] \<and> (\<forall>b\<in>set rows. blk_finality b = fin) \<and>
     (\<forall>answer. answers batch answer \<longrightarrow>
        (\<forall>i<length rows. and_then (answer (header_request (br_start r + i))) (\<lambda>v. parse_block hx v fin) = Ok (rows ! i)))"
proof -
  let ?ns = "[br_start r ..< Suc (br_end r)]"
  obtain results t1 where q: "batch_queue batch header_request (chunks rpc_batch ?ns) [] t = (Ok results, t1)"
    and parsed: "parse_each (parse_header hx fin) (zip ?ns results) = Ok rows"
    using assms(3) by (auto simp: block_headers_def batch_resilient_def batch_chunks_def split: prod.splits sum.splits)
  have cat: "concat (chunks rpc_batch ?ns) = ?ns" by (rule concat_chunks [OF assms(2)])
  have len: "length results = length ?ns" using batch_queue_length [OF q] cat by simp
  have each: "length rows = length ?ns" "\<And>i. i < length ?ns \<Longrightarrow> \<exists>v. results ! i = Ok v \<and> parse_header hx fin (?ns ! i) v = Ok (rows ! i)"
    using parse_each_Ok [OF parsed] len by auto
  have row: "blk_number (rows ! i) = ?ns ! i \<and> (\<exists>v. results ! i = Ok v \<and> parse_block hx v fin = Ok (rows ! i))" if "i < length ?ns" for i
    using each(2) [OF that] by (auto simp: parse_header_def split: if_splits)
  have fin: "blk_finality b = fin" if "parse_block hx v fin = Ok b" for v b
    using that by (auto simp: parse_block_def split: json.splits)
  have "map blk_number rows = ?ns" using each(1) row by (intro nth_equalityI) auto
  moreover have "blk_finality b = fin" if "b \<in> set rows" for b
    using that each(1) row fin by (metis in_set_conv_nth)
  moreover have "and_then (answer (header_request (br_start r + i))) (\<lambda>v. parse_block hx v fin) = Ok (rows ! i)"
    if "answers batch answer" "i < length rows" for answer i
  proof -
    have i: "i < length ?ns" using that(2) each(1) by simp
    then have "?ns ! i = br_start r + i" by (metis length_upt less_diff_conv add.commute nth_upt)
    moreover have "results ! i = answer (header_request (?ns ! i))"
      using batch_queue_answers [OF that(1) q] unfolding cat using i by (simp only: append_Nil nth_map)
    ultimately have "results ! i = answer (header_request (br_start r + i))" by (simp only:)
    with row [OF i] show ?thesis by (auto simp del: upt_Suc)
  qed
  ultimately show ?thesis by blast
qed

text \<open>
  Headers come back complete and in order however the provider makes the batch be split:
  when \<open>block_headers\<close> succeeds, its rows are those of exactly the blocks of the range, in
  ascending order; and when the provider answers request by request, row \<open>i\<close> is read from the
  answer to the request for block \<open>start + i\<close>.
\<close>
theorem block_headers_in_order:
  assumes "range_ok r" and "0 < rpc_batch" and "block_headers batch hx rpc_batch r fin t = (Ok rows, t')"
  shows "map blk_number rows = [br_start r ..< Suc (br_end r)] \<and> (\<forall>b\<in>set rows. blk_finality b = fin) \<and>
     (\<forall>answer. answers batch answer \<longrightarrow>
        (\<forall>i<length rows. and_then (answer (header_request (br_start r + i))) (\<lambda>v. parse_block hx v fin) = Ok (rows ! i)))"
  by (rule block_headers_rows [OF assms])

definition demo_block_json :: "nat \<Rightarrow> json" where
  "demo_block_json n = JObject [(''number'', JString (show_quantity n)), (''hash'', JString ''h''), (''parentHash'', JString ''h''),
     (''timestamp'', JString ''0x1'')]"

definition demo_answer :: "request \<Rightarrow> (json, provider_error) result" where
  "demo_answer req = Ok (demo_block_json (if req = header_request 5 then 5 else 6))"

theorem block_headers_in_order_witness:
  "\<exists>rows t'. block_headers (\<lambda>t reqs. if length reqs > 1 then Err PeBatchTooLarge else Ok (map demo_answer reqs)) demo_hex 20
     (rng 5 6) Safe 0 = (Ok rows, t') \<and> map blk_number rows = [5, 6]"
proof -
  let ?batch = "\<lambda>(t::nat) reqs. if length reqs > 1 then Err PeBatchTooLarge else Ok (map demo_answer reqs)"
  have ne: "header_request 6 \<noteq> header_request 5"
    by (simp add: header_request_def show_quantity_def hex_nat.simps hex_digit_def)
  have p: "parse_header demo_hex Safe n (demo_block_json n) =
      Ok \<lparr>blk_number = n, blk_hash = 9, blk_parent_hash = 9, blk_timestamp = 1, blk_finality = Safe, blk_header = JObject []\<rparr>"
    if "n \<le> u64_max" for n
    using parse_quantity_roundtrip [OF that]
    by (simp add: parse_header_def parse_block_def demo_block_json_def required_str_def ok_or_def parse_b256_def demo_hex_def
        header_dropped_def parse_quantity_def [of "''0x1''"] strip_0x_def strip_prefix_def from_str_radix16_def hex_value_def u64_max_def)
  have ns: "[br_start (rng 5 6) ..< Suc (br_end (rng 5 6))] = [5, 6]" by (simp add: upt_rec)
  have "block_headers ?batch demo_hex 20 (rng 5 6) Safe 0 =
      (Ok [\<lparr>blk_number = 5, blk_hash = 9, blk_parent_hash = 9, blk_timestamp = 1, blk_finality = Safe, blk_header = JObject []\<rparr>,
           \<lparr>blk_number = 6, blk_hash = 9, blk_parent_hash = 9, blk_timestamp = 1, blk_finality = Safe, blk_header = JObject []\<rparr>], 3)"
    unfolding block_headers_def batch_resilient_def batch_chunks_def ns
    using ne p [of 5] p [of 6] by (simp add: chunks.simps Let_def demo_answer_def u64_max_def)
  moreover have "range_ok (rng 5 6)" by (simp add: range_ok_def MAX_END_value)
  ultimately show ?thesis
    using block_headers_in_order [of "rng 5 6" 20 ?batch demo_hex Safe 0] ns by (metis zero_less_numeral)
qed

section \<open>Heads and senders\<close>

lemma fetch_heads_ordered:
  assumes "fetch_heads call batch hx mode = Ok h" and "\<And>a b. mode = Lag a b \<Longrightarrow> a \<le> b"
  shows "finalized h \<le> safe h \<and> safe h \<le> latest h"
  using assms by (cases mode) (auto simp: fetch_heads_def split: if_splits)

lemma deduped_loop_spec:
  "distinct unique \<Longrightarrow> distinct (deduped_loop hs unique) \<and> set (deduped_loop hs unique) = set hs \<union> set unique"
  by (induction hs arbitrary: unique) auto

lemma deduped_distinct: "distinct (deduped hs) \<and> set (deduped hs) = set hs"
  using deduped_loop_spec [of "[]" hs] by (simp add: deduped_def)

end
