(* ===== verification/Wire.thy ===== *)
theory Wire
  imports Block_Range Selector
begin

text \<open>
  The request and response bodies of \<open>crates/core/src/wire.rs\<close> that the engine and the API
  exchange. JSON text itself is \<open>serde\<close>'s; a header object is the association list of its
  fields, and \<open>None\<close> stands for a header that is not an object.
\<close>

record page_request =
  pg_limit :: "u32 option"
  pg_cursor :: "string option"

record query_request =
  rq_chain :: chain_name
  rq_dataset :: dataset
  rq_selector :: "log_selector option"
  rq_range :: block_range
  rq_finality :: query_finality
  rq_fields :: "string list option"
  rq_page :: "page_request option"
  rq_wait_ms :: "u64 option"

definition page_default :: page_request where
  "page_default = \<lparr>pg_limit = None, pg_cursor = None\<rparr>"

datatype incomplete_reason = Pending | ProviderError | BudgetExhausted | NotFollowedYet | BelowSafe

fun incomplete_reason_as_str :: "incomplete_reason \<Rightarrow> string" where
  "incomplete_reason_as_str Pending = ''pending''"
| "incomplete_reason_as_str ProviderError = ''provider_error''"
| "incomplete_reason_as_str BudgetExhausted = ''budget_exhausted''"
| "incomplete_reason_as_str NotFollowedYet = ''not_followed_yet''"
| "incomplete_reason_as_str BelowSafe = ''below_safe''"

datatype segment_source = Durable | Hot

record anchor =
  an_number :: u64
  an_hash :: b256

record segment =
  seg_start :: u64
  seg_end :: u64
  seg_source :: segment_source
  seg_finality :: finality
  seg_anchor :: "anchor option"

record log_record =
  lr_block_number :: u64
  lr_block_hash :: b256
  lr_block_timestamp :: "u64 option"
  lr_transaction_hash :: b256
  lr_transaction_index :: u32
  lr_log_index :: u32
  lr_address :: address
  lr_topics :: "b256 list"
  lr_data :: bytes
  lr_finality :: finality
  lr_transaction_from :: "address option"

definition log_record_of :: "log_row \<Rightarrow> log_record" where
  "log_record_of row =
     \<lparr>lr_block_number = log_block_number row, lr_block_hash = log_block_hash row, lr_block_timestamp = None,
      lr_transaction_hash = transaction_hash row, lr_transaction_index = transaction_index row,
      lr_log_index = log_index row, lr_address = log_address row, lr_topics = log_topics row,
      lr_data = log_data row, lr_finality = log_finality row, lr_transaction_from = None\<rparr>"

record 'v block_record =
  brc_number :: u64
  brc_hash :: b256
  brc_parent_hash :: b256
  brc_timestamp :: u64
  brc_finality :: finality
  brc_header :: "(string \<times> 'v) list"

definition block_record_of :: "(string \<times> 'v) list option block_row \<Rightarrow> 'v block_record" where
  "block_record_of row =
     \<lparr>brc_number = blk_number row, brc_hash = blk_hash row, brc_parent_hash = blk_parent_hash row,
      brc_timestamp = blk_timestamp row, brc_finality = blk_finality row,
      brc_header = (case blk_header row of Some header \<Rightarrow> header | None \<Rightarrow> [])\<rparr>"

record chain_heads =
  ch_chain :: chain_name
  ch_latest :: u64
  ch_latest_hash :: b256
  ch_safe :: u64
  ch_finalized :: u64

definition chain_heads_new :: "chain_name \<Rightarrow> heads \<Rightarrow> chain_heads" where
  "chain_heads_new chain h =
     \<lparr>ch_chain = chain, ch_latest = latest h, ch_latest_hash = latest_hash h, ch_safe = safe h,
      ch_finalized = finalized h\<rparr>"

record error_info =
  ei_kind :: string
  ei_message :: string

definition error_body :: "error \<Rightarrow> error_info" where
  "error_body e =
     \<lparr>ei_kind = error_kind e,
      ei_message = (case e of Unauthorized m \<Rightarrow> m | Forbidden m \<Rightarrow> m | InvalidInput m \<Rightarrow> m
        | QuotaExceeded m \<Rightarrow> m | Unsupported m \<Rightarrow> m | Internal m \<Rightarrow> m)\<rparr>"

record coverage_span =
  cs_start :: u64
  cs_end :: u64
  cs_finality :: finality

record follow_info =
  fi_from_block :: u64
  fi_head_block :: "u64 option"
  fi_head_hash :: "b256 option"
  fi_promoted_to :: "u64 option"

record page_info =
  pi_next_cursor :: "string option"

record 'v query_response =
  rs_chain :: chain_name
  rs_dataset :: dataset
  rs_requested :: block_range
  rs_served :: "block_range option"
  rs_next_start :: "u64 option"
  rs_incomplete_reason :: "incomplete_reason option"
  rs_incomplete_detail :: "string option"
  rs_segments :: "segment list"
  rs_rows :: "'v list"
  rs_page :: page_info

record backfill_request =
  bf_chain :: chain_name
  bf_dataset :: dataset
  bf_selector :: "log_selector option"
  bf_range :: block_range

record backfill_response =
  bf_selector_id :: i64
  bf_jobs :: "i64 list"

record coverage_response =
  cr_chain_name :: chain_name
  cr_dataset :: dataset
  cr_selector_id :: i64
  cr_spans :: "coverage_span list"
  cr_covered :: "block_range list"
  cr_missing :: "block_range list"
  cr_follow :: "follow_info option"

record watch_request =
  wq_chain :: chain_name
  wq_dataset :: dataset
  wq_selector :: "log_selector option"

record watch_response =
  wr_chain :: chain_name
  wr_dataset :: dataset
  wr_selector_id :: i64
  wr_ttl_ms :: u64
  wr_follow :: follow_info

record follow_resume_response =
  fr_chain :: chain_name
  fr_halt_reason :: "string option"

record 'e job_info =
  ji_id :: i64
  ji_chain_id :: chain_id
  ji_dataset :: dataset
  ji_selector_id :: i64
  ji_range :: block_range
  ji_purpose :: string
  ji_application_id :: string
  ji_status :: string
  ji_attempts :: i32
  ji_last_error :: "'e option"

end
