(* ===== verification/Plan.thy ===== *)
theory Plan
  imports Wire
begin

text \<open>
  The pure planning of \<open>crates/engine/src/plan.rs\<close>: which blocks of a request are not covered,
  which grid cells to fill for them, how the served blocks are labelled, and the page
  cursor. Gaps and cells are shown exact, labels a partition, cursors a round trip.
\<close>

section \<open>The operations\<close>

definition grid_span :: "block_range \<Rightarrow> u64 \<Rightarrow> u64 \<Rightarrow> block_range option" where
  "grid_span r chunk safe_head =
     (let s = br_start r div chunk * chunk;
          e = min (min (sat_mul (sat_add (br_end r div chunk) 1) chunk - 1) safe_head) MAX_END
      in ok (range_new s e))"

fun uncovered_loop :: "block_range \<Rightarrow> block_range list \<Rightarrow> u64 \<Rightarrow> block_range list \<Rightarrow> u64 \<times> block_range list" where
  "uncovered_loop r [] nxt gaps = (nxt, gaps)"
| "uncovered_loop r (sp # cov) nxt gaps =
     (case range_intersect sp r of
        None \<Rightarrow> uncovered_loop r cov nxt gaps
      | Some hit \<Rightarrow>
          uncovered_loop r cov (max nxt (sat_add (br_end hit) 1))
            (if br_start hit > nxt
             then gaps @ (case ok (range_new nxt (br_start hit - 1)) of None \<Rightarrow> [] | Some g \<Rightarrow> [g])
             else gaps))"

definition uncovered :: "block_range \<Rightarrow> block_range list \<Rightarrow> block_range list" where
  "uncovered r cov =
     (case uncovered_loop r cov (br_start r) [] of
        (nxt, gaps) \<Rightarrow>
          if nxt \<le> br_end r
          then gaps @ (case ok (range_new nxt (br_end r)) of None \<Rightarrow> [] | Some g \<Rightarrow> [g])
          else gaps)"

fun push_cells :: "u64 \<Rightarrow> block_range list \<Rightarrow> block_range list \<Rightarrow> block_range list" where
  "push_cells safe_head [] cells = cells"
| "push_cells safe_head (c # cs) cells =
     (case range_new (br_start c) (min (br_end c) safe_head) of
        Inl _ \<Rightarrow> push_cells safe_head cs cells
      | Inr cell \<Rightarrow>
          push_cells safe_head cs (if cells \<noteq> [] \<and> last cells = cell then cells else cells @ [cell]))"

definition fill_chunks :: "block_range \<Rightarrow> block_range list \<Rightarrow> u64 \<Rightarrow> u64 \<Rightarrow> block_range list" where
  "fill_chunks sp cov chunk safe_head =
     push_cells safe_head (concat (map (\<lambda>gap. align_chunks gap chunk) (uncovered sp cov))) []"

definition durable_part :: "block_range \<Rightarrow> u64 \<Rightarrow> block_range option" where
  "durable_part r safe_head = ok (range_new (br_start r) (min (br_end r) safe_head))"

definition durable_segment :: "u64 \<Rightarrow> u64 \<Rightarrow> finality \<Rightarrow> segment" where
  "durable_segment s e f =
     \<lparr>seg_start = s, seg_end = e, seg_source = Durable, seg_finality = f, seg_anchor = None\<rparr>"

definition durable_segments :: "block_range \<Rightarrow> heads \<Rightarrow> segment list" where
  "durable_segments served h =
     (if br_start served \<le> finalized h
      then [durable_segment (br_start served) (min (br_end served) (finalized h)) Finalized] else []) @
     (if br_end served > finalized h
      then [durable_segment (max (br_start served) (finalized h + 1)) (br_end served) Safe] else [])"

definition fill_finality :: "block_range \<Rightarrow> heads \<Rightarrow> finality" where
  "fill_finality blks h = (if br_end blks \<le> finalized h then Finalized else Safe)"

definition row_finality_at :: "u64 \<Rightarrow> heads \<Rightarrow> finality" where
  "row_finality_at b h =
     (if b \<le> finalized h then Finalized else if b \<le> safe h then Safe else Unsafe)"

datatype cursor = CursorLog u64 u32 | CursorBlock u64

fun cursor_encode :: "cursor \<Rightarrow> string" where
  "cursor_encode (CursorLog b i) = ''l'' @ dec b @ ''.'' @ dec i"
| "cursor_encode (CursorBlock n) = ''b'' @ dec n"

definition cursor_decode :: "string \<Rightarrow> (cursor, error) result" where
  "cursor_decode txt =
     (let bad = InvalidInput (''invalid page cursor '' @ debug_str txt) in
      case strip_prefix ''l'' txt of
        Some rest \<Rightarrow>
          and_then (ok_or bad (split_once (CHR ''.'') rest)) (\<lambda>(b, i).
            and_then (ok_or bad (parse_uint u64_max b)) (\<lambda>bn.
              and_then (ok_or bad (parse_uint u32_max i)) (\<lambda>li. Ok (CursorLog bn li))))
      | None \<Rightarrow>
          (case strip_prefix ''b'' txt of
             Some rest \<Rightarrow> and_then (ok_or bad (parse_uint u64_max rest)) (\<lambda>n. Ok (CursorBlock n))
           | None \<Rightarrow> Err bad))"

section \<open>Gaps\<close>

lemma range_intersect_ok:
  "range_intersect a b = Some c \<Longrightarrow> range_ok b \<Longrightarrow> range_ok c \<and> br_start b \<le> br_start c \<and> br_end c \<le> br_end b"
  by (auto simp: range_intersect_def Let_def range_ok_def split: if_splits)

text \<open>The tail of the function, so that the loop has a value to induct on.\<close>

definition finish_gaps :: "block_range \<Rightarrow> u64 \<times> block_range list \<Rightarrow> block_range list" where
  "finish_gaps r st =
     (if fst st \<le> br_end r
      then snd st @ (case ok (range_new (fst st) (br_end r)) of None \<Rightarrow> [] | Some g \<Rightarrow> [g]) else snd st)"

lemma uncovered_finish: "uncovered r cov = finish_gaps r (uncovered_loop r cov (br_start r) [])"
  by (simp add: uncovered_def finish_gaps_def split: prod.splits)

lemma blocks_of_after:
  assumes "disjoint_ranges (sp # cov)" and "b \<in> blocks_of cov"
  shows "br_end sp < b"
  using assms by (fastforce simp: disjoint_ranges_Cons mem_blocks_of)

lemma gap_step_blocks:
  assumes "blocks hit = blocks sp \<inter> blocks r" and "br_start hit \<le> br_end hit" and "br_end hit \<le> br_end r"
    and "nxt \<le> br_start hit" and "br_start r \<le> nxt" and "\<And>b. b \<in> B \<Longrightarrow> br_end sp < b"
    and "br_start hit \<in> blocks sp"
  shows "{nxt..<br_start hit} \<union> ({br_end hit + 1..br_end r} - B) = {nxt..br_end r} - (blocks sp \<union> B)"
proof (rule set_eqI)
  fix b
  have sp: "b \<in> blocks sp \<longleftrightarrow> br_start hit \<le> b \<and> b \<le> br_end hit" if "nxt \<le> b" "b \<le> br_end r"
  proof -
    have "b \<in> blocks r" using that assms(5) by simp
    then have "b \<in> blocks sp \<longleftrightarrow> b \<in> blocks hit" using assms(1) by blast
    then show ?thesis by simp
  qed
  have B: "b \<notin> B" if "b < br_start hit" using assms(6) [of b] assms(7) that by auto
  consider "b < nxt" | "nxt \<le> b" "b < br_start hit" | "br_start hit \<le> b" "b \<le> br_end hit" | "br_end hit < b" by linarith
  then show "b \<in> {nxt..<br_start hit} \<union> ({br_end hit + 1..br_end r} - B) \<longleftrightarrow> b \<in> {nxt..br_end r} - (blocks sp \<union> B)"
    using sp B assms(2-4) by cases (auto simp del: mem_blocks)
qed

lemma uncovered_loop_gaps:
  assumes "range_ok r" and "disjoint_ranges cov" and "br_start r \<le> nxt" and "nxt \<le> br_end r + 1"
    and "\<forall>b\<in>blocks_of cov \<inter> blocks r. nxt \<le> b"
  shows "\<exists>rest. finish_gaps r (uncovered_loop r cov nxt gaps) = gaps @ rest \<and> coalesced rest \<and>
    blocks_of rest = {nxt..br_end r} - blocks_of cov"
  using assms(2-5)
proof (induction cov arbitrary: nxt gaps)
  case Nil
  have "ok (range_new nxt (br_end r)) = Some (rng nxt (br_end r))" if "nxt \<le> br_end r"
    using that assms(1) by (simp add: range_simps range_ok_def)
  then show ?case using assms(1) by (auto simp: finish_gaps_def blocks_def coalesced_def range_ok_def)
next
  case (Cons sp cov)
  have tail: "disjoint_ranges cov" using Cons.prems(1) by (simp add: disjoint_ranges_Cons)
  show ?case
  proof (cases "range_intersect sp r")
    case None
    then have "blocks sp \<inter> blocks r = {}" by (simp add: range_intersect_None)
    then have "{nxt..br_end r} - blocks_of (sp # cov) = {nxt..br_end r} - blocks_of cov"
      using Cons.prems(2) by (auto simp: blocks_def)
    with Cons.IH [OF tail Cons.prems(2,3), of gaps] Cons.prems(4) None show ?thesis by auto
  next
    case (Some hit)
    have hit: "blocks hit = blocks sp \<inter> blocks r" "br_start hit \<le> br_end hit" "range_ok hit"
      "br_start r \<le> br_start hit" "br_end hit \<le> br_end r"
      using range_intersect_Some [OF Some] range_intersect_ok [OF Some assms(1)] by auto
    have "br_start hit \<in> blocks hit" and "br_end hit \<in> blocks hit" using hit(2) by auto
    then have in_sp: "br_start hit \<in> blocks sp" "br_end hit \<in> blocks sp" and "br_start hit \<in> blocks r"
      using hit(1) by auto
    then have low: "nxt \<le> br_start hit" using Cons.prems(4) by auto
    have sat: "sat_add (br_end hit) 1 = br_end hit + 1"
      using hit(3) MAX_END_less by (simp add: range_ok_def sat_add_exact)
    define gap where "gap = (if br_start hit > nxt then [rng nxt (br_start hit - 1)] else [])"
    have gap: "blocks_of gap = {nxt..<br_start hit}" "coalesced gap" "\<forall>g\<in>set gap. br_end g < br_start hit"
      using hit(2,3) by (auto simp: gap_def coalesced_def range_ok_def)
    have step: "uncovered_loop r (sp # cov) nxt gaps = uncovered_loop r cov (br_end hit + 1) (gaps @ gap)"
      using Some sat low hit(2,3) by (auto simp: gap_def range_simps range_ok_def max_def)
    have above: "\<forall>b\<in>blocks_of cov \<inter> blocks r. br_end hit + 1 \<le> b"
      using blocks_of_after [OF Cons.prems(1)] in_sp(2) by fastforce
    obtain rest where rest: "finish_gaps r (uncovered_loop r cov (br_end hit + 1) (gaps @ gap)) = (gaps @ gap) @ rest"
      "coalesced rest" "blocks_of rest = {br_end hit + 1..br_end r} - blocks_of cov"
      using Cons.IH [OF tail _ _ above, of "gaps @ gap"] hit by auto
    have "br_start x > br_end hit" if "x \<in> set rest" for x
    proof -
      have "br_start x \<in> blocks_of rest"
        using that rest(2) by (auto simp: mem_blocks_of coalesced_def list_all_iff range_ok_def)
      with rest(3) show ?thesis by auto
    qed
    then have "coalesced (gap @ rest)"
      using gap rest(2) hit(2) by (fastforce simp: coalesced_def sorted_wrt_append gap_def)
    moreover have "blocks_of (gap @ rest) = {nxt..br_end r} - blocks_of (sp # cov)"
      using gap_step_blocks [OF hit(1,2,5) low Cons.prems(2)] blocks_of_after [OF Cons.prems(1)] in_sp
      by (simp add: gap rest(3))
    ultimately show ?thesis using step rest(1) by auto
  qed
qed

lemma uncovered_blocks:
  assumes "range_ok r" and "disjoint_ranges cov"
  shows "blocks_of (uncovered r cov) = blocks r - blocks_of cov \<and> coalesced (uncovered r cov)"
proof -
  have "br_start r \<le> br_end r + 1" using assms(1) by (simp add: range_ok_def)
  then obtain rest where "finish_gaps r (uncovered_loop r cov (br_start r) []) = [] @ rest" "coalesced rest"
    "blocks_of rest = {br_start r..br_end r} - blocks_of cov"
    using uncovered_loop_gaps [OF assms, of "br_start r" "[]"] by auto
  then show ?thesis by (simp add: uncovered_finish blocks_def)
qed

text \<open>
  \<open>uncovered\<close> returns exactly the blocks of the range that the covered ranges lack, as
  coalesced ascending ranges.
\<close>
theorem uncovered_exact:
  assumes "range_ok r" and "disjoint_ranges cov"
  shows "blocks_of (uncovered r cov) = blocks r - blocks_of cov \<and> coalesced (uncovered r cov)"
  by (rule uncovered_blocks [OF assms])

theorem uncovered_exact_witness:
  "uncovered (rng 5 30) [rng 0 6, rng 10 12, rng 40 50] = [rng 7 9, rng 13 30] \<and>
   blocks_of (uncovered (rng 5 30) [rng 0 6, rng 10 12, rng 40 50]) = {7..9} \<union> {13..30}"
proof -
  have "uncovered (rng 5 30) [rng 0 6, rng 10 12, rng 40 50] = [rng 7 9, rng 13 30]"
    by (simp add: uncovered_def range_intersect_def range_new_def MAX_END_value sat_add_def u64_max_def)
  moreover have "range_ok (rng 5 30)" and "disjoint_ranges [rng 0 6, rng 10 12, rng 40 50]"
    by (simp_all add: disjoint_ranges_def MAX_END_value)
  ultimately show ?thesis
    using uncovered_exact [of "rng 5 30" "[rng 0 6, rng 10 12, rng 40 50]"] by (auto simp: blocks_def)
qed

section \<open>Cells to fill\<close>

text \<open>The planned cell: the grid cell ended at \<open>safe\<close>.\<close>

definition clipped_cell :: "u64 \<Rightarrow> u64 \<Rightarrow> u64 \<Rightarrow> block_range" where
  "clipped_cell chunk safe_head k = rng (k * chunk) (min (br_end (grid_cell chunk k)) safe_head)"

lemma clipped_cell_inj: "0 < chunk \<Longrightarrow> clipped_cell chunk h j = clipped_cell chunk h k \<Longrightarrow> j = k"
  by (simp add: clipped_cell_def)

lemma clip_cell_Ok:
  assumes "0 < chunk" and "k * chunk \<le> safe_head" and "safe_head \<le> MAX_END"
  shows "range_new (br_start (grid_cell chunk k)) (min (br_end (grid_cell chunk k)) safe_head) =
    Ok (clipped_cell chunk safe_head k)"
proof -
  have "k * chunk \<le> (k + 1) * chunk - 1" using assms(1) by simp
  then show ?thesis using assms(2,3) by (auto simp: range_new_def clipped_cell_def grid_cell_def)
qed

lemma push_cells_sorted:
  assumes "0 < chunk" and "safe_head \<le> MAX_END" and "\<forall>k\<in>set ks. k * chunk \<le> safe_head"
    and "sorted ks" and "sorted_wrt (<) js" and "\<forall>j\<in>set js. \<forall>k\<in>set ks. j \<le> k"
  shows "push_cells safe_head (map (grid_cell chunk) ks) (map (clipped_cell chunk safe_head) js) =
    map (clipped_cell chunk safe_head) (sorted_list_of_set (set js \<union> set ks))"
  using assms(3-6)
proof (induction ks arbitrary: js)
  case Nil
  then show ?case by (simp add: sorted_list_of_set.idem_if_sorted_distinct strict_sorted_iff)
next
  case (Cons k ks)
  define js' where "js' = (if js \<noteq> [] \<and> last js = k then js else js @ [k])"
  have last: "last (map (clipped_cell chunk safe_head) js) = clipped_cell chunk safe_head k \<longleftrightarrow> last js = k" if "js \<noteq> []"
    using that clipped_cell_inj [OF assms(1)] by (auto simp: last_map)
  have set: "set js' = insert k (set js)" by (auto simp: js'_def intro: last_in_set)
  have "sorted_wrt (<) js'"
  proof (cases "js \<noteq> [] \<and> last js = k")
    case False
    have "j < k" if "j \<in> set js" for j
    proof -
      have "js \<noteq> []" using that by auto
      with Cons.prems False have "last js < k" by (metis last_in_set le_neq_implies_less list.set_intros(1))
      moreover have "j \<le> last js"
        using Cons.prems(3) that by (rule strict_sorted_le_last)
      ultimately show ?thesis by simp
    qed
    with False Cons.prems(3) show ?thesis by (simp add: js'_def sorted_wrt_append)
  qed (use Cons.prems in \<open>simp add: js'_def\<close>)
  then have "push_cells safe_head (map (grid_cell chunk) ks) (map (clipped_cell chunk safe_head) js') =
      map (clipped_cell chunk safe_head) (sorted_list_of_set (set js' \<union> set ks))"
    using Cons.prems by (intro Cons.IH) (auto simp: set)
  moreover have "push_cells safe_head (map (grid_cell chunk) (k # ks)) (map (clipped_cell chunk safe_head) js) =
      push_cells safe_head (map (grid_cell chunk) ks) (map (clipped_cell chunk safe_head) js')"
    using clip_cell_Ok [OF assms(1) _ assms(2), of k] Cons.prems(1) last by (auto simp: js'_def)
  ultimately show ?case by (simp add: set)
qed

lemma gap_cells_sorted:
  assumes "coalesced gaps" and "0 < chunk"
  defines "ks \<equiv> concat (map (\<lambda>g. [br_start g div chunk ..< br_end g div chunk + 1]) gaps)"
  shows "sorted ks \<and> set ks = (\<lambda>b. b div chunk) ` blocks_of gaps \<and>
    concat (map (\<lambda>gap. align_chunks gap chunk) gaps) = map (grid_cell chunk) ks"
  using assms(1) unfolding ks_def
proof (induction gaps)
  case (Cons g gaps)
  have g: "range_ok g" "coalesced gaps" "\<forall>s\<in>set gaps. br_end g + 1 < br_start s"
    using Cons.prems by (auto simp: coalesced_Cons)
  have img: "(\<lambda>b. b div chunk) ` blocks g = {br_start g div chunk..br_end g div chunk}"
    unfolding blocks_def using g(1) assms(2) by (intro div_image_interval) (auto simp: range_ok_def)
  have later: "br_end g div chunk \<le> k" if "k \<in> (\<lambda>b. b div chunk) ` blocks_of gaps" for k
  proof -
    from that obtain b where b: "k = b div chunk" "b \<in> blocks_of gaps" by blast
    then obtain s where "s \<in> set gaps" "br_start s \<le> b" by (auto simp: mem_blocks_of)
    with g(3) have "br_end g + 1 < b" by (meson order.strict_trans2)
    with b(1) show ?thesis by (simp add: div_le_mono)
  qed
  define L where "L = [br_start g div chunk ..< br_end g div chunk + 1]"
  define ks where "ks = concat (map (\<lambda>g. [br_start g div chunk ..< br_end g div chunk + 1]) gaps)"
  have IH: "sorted ks" "set ks = (\<lambda>b. b div chunk) ` blocks_of gaps"
    "concat (map (\<lambda>gap. align_chunks gap chunk) gaps) = map (grid_cell chunk) ks"
    using Cons.IH [OF g(2)] by (simp_all only: ks_def)
  have setL: "set L = {br_start g div chunk..br_end g div chunk}" by (auto simp: L_def)
  have "x \<le> y" if "x \<in> set L" "y \<in> set ks" for x y
    using that later [of y] IH(2) setL by (simp del: image_iff)
  then have "sorted (L @ ks)" using IH(1) by (simp add: sorted_append L_def del: upt_Suc)
  moreover have "set (L @ ks) = (\<lambda>b. b div chunk) ` blocks_of (g # gaps)"
    using IH(2) by (simp add: setL image_Un flip: img)
  moreover have "align_chunks g chunk @ concat (map (\<lambda>gap. align_chunks gap chunk) gaps) = map (grid_cell chunk) (L @ ks)"
    using IH(3) align_chunks_cells [OF g(1) assms(2)] by (simp add: L_def)
  ultimately show ?case by (simp add: L_def ks_def)
qed simp

lemma fill_chunks_cells:
  assumes "range_ok sp" and "disjoint_ranges cov" and "0 < chunk" and "br_end sp \<le> safe_head" and "safe_head \<le> MAX_END"
  shows "fill_chunks sp cov chunk safe_head =
      map (clipped_cell chunk safe_head) (sorted_list_of_set ((\<lambda>b. b div chunk) ` (blocks sp - blocks_of cov))) \<and>
    blocks sp - blocks_of cov \<subseteq> blocks_of (fill_chunks sp cov chunk safe_head)"
proof -
  obtain gaps where gaps: "uncovered sp cov = gaps" "coalesced gaps" "blocks_of gaps = blocks sp - blocks_of cov"
  proof -
    have "br_start sp \<le> br_end sp + 1" using assms(1) by (simp add: range_ok_def)
    then show thesis
      using uncovered_loop_gaps [OF assms(1,2), of "br_start sp" "[]"] that
      by (auto simp: uncovered_finish blocks_def)
  qed
  define ks where "ks = concat (map (\<lambda>g. [br_start g div chunk ..< br_end g div chunk + 1]) gaps)"
  note ks = gap_cells_sorted [OF gaps(2) assms(3), folded ks_def]
  have low: "k * chunk \<le> safe_head" if "k \<in> set ks" for k
  proof -
    from that ks gaps(3) obtain b where "k = b div chunk" "b \<le> br_end sp" by auto
    moreover from this have "b div chunk * chunk \<le> safe_head"
      using div_mult_bounds(1) [OF assms(3), of b] assms(4) by linarith
    ultimately show ?thesis by (simp only:)
  qed
  have eq: "fill_chunks sp cov chunk safe_head = map (clipped_cell chunk safe_head) (sorted_list_of_set (set ks))"
    using push_cells_sorted [OF assms(3,5) _ _ , of ks "[]"] low ks
    by (simp add: fill_chunks_def gaps(1))
  have "b \<in> blocks_of (fill_chunks sp cov chunk safe_head)" if "b \<in> blocks sp - blocks_of cov" for b
  proof -
    have "b div chunk \<in> set ks" using that ks gaps(3) by auto
    moreover have "b \<in> blocks (grid_cell chunk (b div chunk))"
      using that assms by (intro grid_cell_iff [THEN iffD2]) auto
    then have "b \<in> blocks (clipped_cell chunk safe_head (b div chunk))"
      using that assms(4) by (auto simp: clipped_cell_def grid_cell_def)
    ultimately show ?thesis by (auto simp: eq blocks_of_def)
  qed
  with eq ks gaps(3) show ?thesis by auto
qed

text \<open>
  C30. The cells planned for a span are exactly the grid cells that hold an uncovered block
  of it, each once, in ascending order and ended at the safe head: every caller plans the
  same cells for the same gaps, and no uncovered block is left without a cell.
\<close>
theorem fill_chunks_exact:
  assumes "range_ok sp" and "disjoint_ranges cov" and "0 < chunk" and "br_end sp \<le> safe_head" and "safe_head \<le> MAX_END"
  shows "fill_chunks sp cov chunk safe_head =
      map (clipped_cell chunk safe_head) (sorted_list_of_set ((\<lambda>b. b div chunk) ` (blocks sp - blocks_of cov))) \<and>
    blocks sp - blocks_of cov \<subseteq> blocks_of (fill_chunks sp cov chunk safe_head)"
  by (rule fill_chunks_cells [OF assms])

theorem fill_chunks_exact_witness:
  "fill_chunks (rng 0 34) [rng 3 12, rng 15 19] 10 34 = [rng 0 9, rng 10 19, rng 20 29, rng 30 34] \<and>
   blocks (rng 0 34) - blocks_of [rng 3 12, rng 15 19] \<subseteq> blocks_of (fill_chunks (rng 0 34) [rng 3 12, rng 15 19] 10 34)"
proof -
  have "fill_chunks (rng 0 34) [rng 3 12, rng 15 19] 10 34 = [rng 0 9, rng 10 19, rng 20 29, rng 30 34]"
    by (simp add: fill_chunks_def uncovered_def range_intersect_def range_new_def MAX_END_value sat_add_def u64_max_def
        align_chunks_def align_loop.simps cell_at_def sat_mul_def)
  moreover have "range_ok (rng 0 34)" and "disjoint_ranges [rng 3 12, rng 15 19]"
    and "0 < (10::nat)" and "br_end (rng 0 34) \<le> 34" and "34 \<le> MAX_END"
    by (simp_all add: disjoint_ranges_def MAX_END_value)
  note fill_chunks_exact [OF this]
  ultimately show ?thesis by blast
qed

section \<open>Labels and cursors\<close>

text \<open>
  The durable segments of a served range partition it, in block order, and label every
  block with the finality its row gets from the heads: finalized up to the finalized head,
  safe above it.
\<close>
theorem durable_segments_partition:
  assumes "range_ok served" and "br_end served \<le> safe h"
  shows "(\<Union>sg\<in>set (durable_segments served h). {seg_start sg..seg_end sg}) = blocks served \<and>
    sorted_wrt (\<lambda>a b. seg_end a + 1 = seg_start b) (durable_segments served h) \<and>
    (\<forall>sg\<in>set (durable_segments served h). seg_start sg \<le> seg_end sg \<and>
       (\<forall>b\<in>{seg_start sg..seg_end sg}. row_finality_at b h = seg_finality sg))"
  using assms
  by (auto simp: durable_segments_def durable_segment_def blocks_def range_ok_def row_finality_at_def)

theorem durable_segments_partition_witness:
  "let h = \<lparr>latest = 40, latest_hash = 0, safe = 30, finalized = 20\<rparr> in
   durable_segments (rng 10 25) h = [durable_segment 10 20 Finalized, durable_segment 21 25 Safe] \<and>
   (\<Union>sg\<in>set (durable_segments (rng 10 25) h). {seg_start sg..seg_end sg}) = {10..25}"
  using durable_segments_partition [of "rng 10 25" "\<lparr>latest = 40, latest_hash = 0, safe = 30, finalized = 20\<rparr>"]
  by (simp add: durable_segments_def MAX_END_value blocks_def Let_def)

text \<open>
  The grid span of a request contains all of the request up to the safe head, starts on
  the grid, ends at the safe head or the end of a cell, and is absent only when the
  request's first cell starts above the safe head.
\<close>
theorem grid_span_widens:
  assumes "range_ok r" and "0 < chunk" and "safe_head \<le> MAX_END"
  shows "case grid_span r chunk safe_head of
      None \<Rightarrow> safe_head < br_start r div chunk * chunk
    | Some g \<Rightarrow> br_start g = br_start r div chunk * chunk \<and> range_ok g \<and>
        br_end g = min (br_end (grid_cell chunk (br_end r div chunk))) safe_head \<and>
        blocks r \<inter> {..safe_head} \<subseteq> blocks g"
proof -
  let ?k = "br_end r div chunk"
  have k: "?k * chunk \<le> br_end r" "br_end r \<le> (?k + 1) * chunk - 1"
    using div_mult_bounds [OF assms(2)] by blast+
  from k(1) have "?k * chunk \<le> MAX_END" using assms(1) unfolding range_ok_def by linarith
  then have cell: "min (sat_mul (sat_add ?k 1) chunk - 1) MAX_END = br_end (grid_cell chunk ?k)"
    using cell_at_grid_cell [of ?k chunk] by (simp add: cell_at_def grid_cell_def)
  have end_k: "br_end r \<le> br_end (grid_cell chunk ?k)"
    using k(2) assms(1) by (simp only: grid_cell_def range_ok_def block_range.simps min.bounded_iff)
  define s where "s = br_start r div chunk * chunk"
  have start: "s \<le> br_start r" unfolding s_def by (rule div_mult_bounds(1) [OF assms(2)])
  have g: "grid_span r chunk safe_head = ok (range_new s (min (br_end (grid_cell chunk ?k)) safe_head))"
    by (simp add: grid_span_def Let_def s_def flip: cell) (simp add: min.assoc min.commute min.left_commute)
  show ?thesis
    unfolding s_def [symmetric]
    using assms end_k start by (auto simp: g range_simps range_ok_def min_le_iff_disj split: option.splits)
qed

theorem grid_span_widens_witness:
  "grid_span (rng 7 22) 10 25 = Some (rng 0 25) \<and> blocks (rng 7 22) \<inter> {..25} \<subseteq> blocks (rng 0 25)"
proof -
  have eq: "grid_span (rng 7 22) 10 25 = Some (rng 0 25)"
    by (simp add: grid_span_def range_new_def MAX_END_value sat_add_def sat_mul_def u64_max_def)
  with grid_span_widens [of "rng 7 22" 10 25] show ?thesis by (simp add: MAX_END_value)
qed

definition cursor_ok :: "cursor \<Rightarrow> bool" where
  "cursor_ok c = (case c of CursorLog b i \<Rightarrow> b \<le> u64_max \<and> i \<le> u32_max | CursorBlock n \<Rightarrow> n \<le> u64_max)"

text \<open>
  A page cursor survives encoding: decoding the text of a cursor whose numbers fit
  their widths gives the cursor back, and a text with neither prefix is refused as invalid
  input.
\<close>
theorem cursor_roundtrip:
  assumes "cursor_ok c"
  shows "cursor_decode (cursor_encode c) = Ok c \<and>
    cursor_decode [] = Err (InvalidInput (''invalid page cursor '' @ debug_str []))"
proof (cases c)
  case (CursorLog b i)
  have "CHR ''.'' \<notin> set (dec b)" by (rule dec_no_char) simp
  then have "split_once (CHR ''.'') (dec b @ CHR ''.'' # dec i) = Some (dec b, dec i)" by (rule split_once_append)
  with CursorLog assms show ?thesis
    by (simp add: cursor_decode_def cursor_ok_def strip_prefix_def)
next
  case (CursorBlock n)
  with assms show ?thesis by (simp add: cursor_decode_def cursor_ok_def strip_prefix_def)
qed

theorem cursor_roundtrip_witness: "cursor_decode (cursor_encode (CursorLog 17 4)) = Ok (CursorLog 17 4)"
  using cursor_roundtrip [of "CursorLog 17 4"] by (simp add: cursor_ok_def u64_max_def u32_max_def)

end
