(* ===== verification/Codec.thy ===== *)
theory Codec
  imports Block_Range Selector
begin

text \<open>
  The store's errors (\<open>crates/store/src/error.rs\<close>), row ids (\<open>ids.rs\<close>) and column codecs
  (\<open>codec.rs\<close>). A \<open>bytea\<close> column is a list of bytes, an \<open>int8range\<close> a pair of bounds, a
  \<open>jsonb\<close> topic column the list of its positions (\<open>null\<close> is \<open>None\<close>). A \<open>Duration\<close> is its
  whole number of milliseconds, the unit the codec stores. The driver's own failures
  (\<open>StoreError::Sqlx\<close>) carry the driver's text.
\<close>

section \<open>Errors and ids\<close>

datatype store_error =
    StInvalidInput string
  | StNotFound string
  | StTimeout string
  | StData string
  | StReorg u64
  | StSqlx string

fun store_error_to_core :: "store_error \<Rightarrow> error" where
  "store_error_to_core (StInvalidInput m) = InvalidInput m"
| "store_error_to_core (StNotFound m) = Internal m"
| "store_error_to_core (StTimeout m) = Internal m"
| "store_error_to_core (StData m) = Internal m"
| "store_error_to_core (StReorg b) = Internal (''block hash mismatch at block '' @ dec b)"
| "store_error_to_core (StSqlx m) = Internal m"

type_synonym selector_id = i64
type_synonym job_id = i64

section \<open>Integers\<close>

definition u64_to_i64 :: "u64 \<Rightarrow> string \<Rightarrow> (i64, store_error) result" where
  "u64_to_i64 v what = ok_or (StInvalidInput (what @ '' does not fit int8'')) (i64_of_u64 v)"

definition i64_to_u64 :: "i64 \<Rightarrow> string \<Rightarrow> (u64, store_error) result" where
  "i64_to_u64 v what = ok_or (StData (''negative '' @ what)) (u64_of_i64 v)"

definition u32_to_i32 :: "u32 \<Rightarrow> string \<Rightarrow> (i32, store_error) result" where
  "u32_to_i32 v what =
     (if int v \<le> i32_max then Ok (int v) else Err (StInvalidInput (what @ '' does not fit int4'')))"

definition i32_to_u32 :: "i32 \<Rightarrow> string \<Rightarrow> (u32, store_error) result" where
  "i32_to_u32 v what = (if 0 \<le> v then Ok (nat v) else Err (StData (''negative '' @ what)))"

definition duration_millis :: "nat \<Rightarrow> (i64, store_error) result" where
  "duration_millis ms =
     ok_or (StInvalidInput ''duration does not fit int8 milliseconds'')
       (if int ms \<le> i64_max then Some (int ms) else None)"

section \<open>Enumerations\<close>

definition chain_from_db :: "i32 \<Rightarrow> (chain_id, store_error) result" where
  "chain_from_db v = map_err (\<lambda>e. StData (show_error e)) (chain_id_new v)"

definition dataset_from_db :: "string \<Rightarrow> (dataset, store_error) result" where
  "dataset_from_db v = map_err (\<lambda>e. StData (show_error e)) (dataset_from_str v)"

definition finality_from_db :: "i16 \<Rightarrow> (finality, store_error) result" where
  "finality_from_db v = ok_or (StData (''finality '' @ show_int v)) (finality_from_i16 v)"

section \<open>Byte strings\<close>

text \<open>Big-endian bytes of an unsigned value, \<open>to_vec\<close> of \<open>Address\<close> and \<open>B256\<close>.\<close>

fun to_be :: "nat \<Rightarrow> nat \<Rightarrow> bytes" where
  "to_be 0 n = []"
| "to_be (Suc k) n = to_be k (n div 256) @ [of_nat (n mod 256)]"

definition from_be :: "bytes \<Rightarrow> nat" where
  "from_be bs = foldl (\<lambda>acc b. acc * 256 + unat b) 0 bs"

definition address_to_vec :: "address \<Rightarrow> bytes" where
  "address_to_vec a = to_be 20 (unat a)"

definition b256_to_vec :: "b256 \<Rightarrow> bytes" where
  "b256_to_vec h = to_be 32 (unat h)"

definition address_from_db :: "bytes \<Rightarrow> (address, store_error) result" where
  "address_from_db bs =
     (if length bs = 20 then Ok (of_nat (from_be bs))
      else Err (StData (''address has '' @ dec (length bs) @ '' bytes'')))"

definition b256_from_db :: "bytes \<Rightarrow> (b256, store_error) result" where
  "b256_from_db bs =
     (if length bs = 32 then Ok (of_nat (from_be bs))
      else Err (StData (''hash has '' @ dec (length bs) @ '' bytes'')))"

definition addresses_to_db :: "address btree_set \<Rightarrow> bytes list" where
  "addresses_to_db as = map address_to_vec as"

definition addresses_from_db :: "bytes list \<Rightarrow> (address btree_set, store_error) result" where
  "addresses_from_db raw = map_ok collect_set (try_map address_from_db raw)"

section \<open>Ranges\<close>

datatype bound = Included i64 | Excluded i64 | Unbounded

record pg_range =
  pg_start :: bound
  pg_end :: bound

abbreviation half_open :: "i64 \<Rightarrow> i64 \<Rightarrow> pg_range" where
  "half_open a b \<equiv> \<lparr>pg_start = Included a, pg_end = Excluded b\<rparr>"

definition checked_add1 :: "i64 \<Rightarrow> i64 option" where
  "checked_add1 i = (if i + 1 \<le> i64_max then Some (i + 1) else None)"

definition block_range_to_pg :: "block_range \<Rightarrow> pg_range" where
  "block_range_to_pg r = half_open (int (br_start r)) (int (br_end r) + 1)"

definition block_range_from_pg :: "pg_range \<Rightarrow> (block_range, store_error) result" where
  "block_range_from_pg r =
     and_then
       (case pg_start r of
          Included s \<Rightarrow> Ok s
        | Excluded s \<Rightarrow> ok_or (StData ''range start overflow'') (checked_add1 s)
        | Unbounded \<Rightarrow> Err (StData ''range has no start''))
       (\<lambda>s. and_then
         (case pg_end r of
            Excluded e \<Rightarrow> Ok e
          | Included e \<Rightarrow> ok_or (StData ''range end overflow'') (checked_add1 e)
          | Unbounded \<Rightarrow> Err (StData ''range has no end''))
         (\<lambda>e. if s < 0 \<or> e \<le> s then Err (StData ''range is empty or negative'')
              else map_err (\<lambda>err. StData (show_error err)) (range_new (nat s) (nat (e - 1)))))"

section \<open>Topics\<close>

type_synonym topics_json = "b256 list option list"

definition topics_to_db :: "topic_filter list \<Rightarrow> topics_json" where
  "topics_to_db ts = map topic_into ts"

definition topics_from_db :: "topics_json \<Rightarrow> (topic_filter list, store_error) result" where
  "topics_from_db v =
     (if v = [] then Ok (replicate 4 AnyTopic)
      else case try_map topic_try_from v of
             Inl e \<Rightarrow> Err (StData (''selector topics: '' @ show_error e))
           | Inr parsed \<Rightarrow>
               if length parsed > 4 then Err (StData ''selector has more than 4 topic positions'')
               else Ok (parsed @ replicate (4 - length parsed) AnyTopic))"

fun topics_from_columns_loop ::
  "bytes option list \<Rightarrow> b256 list \<Rightarrow> bool \<Rightarrow> (b256 list, store_error) result" where
  "topics_from_columns_loop [] topics ended = Ok topics"
| "topics_from_columns_loop (Some bs # columns) topics ended =
     (if \<not> ended then
        case b256_from_db bs of
          Inl e \<Rightarrow> Err e
        | Inr t \<Rightarrow> topics_from_columns_loop columns (topics @ [t]) ended
      else Err (StData ''log topics have a hole''))"
| "topics_from_columns_loop (None # columns) topics ended =
     topics_from_columns_loop columns topics True"

definition topics_from_columns :: "bytes option list \<Rightarrow> (b256 list, store_error) result" where
  "topics_from_columns columns = topics_from_columns_loop columns [] False"

definition topic_columns :: "b256 list \<Rightarrow> (bytes option list, store_error) result" where
  "topic_columns topics =
     (if length topics > 4 then Err (StInvalidInput ''log has more than 4 topics'')
      else Ok (map (Some \<circ> b256_to_vec) topics @ replicate (4 - length topics) None))"

section \<open>Round trips\<close>

lemma length_to_be [simp]: "length (to_be k n) = k"
  by (induction k arbitrary: n) simp_all

lemma from_be_to_be: "n < 256 ^ k \<Longrightarrow> from_be (to_be k n) = n"
proof (induction k arbitrary: n)
  case (Suc k)
  then have "n div 256 < 256 ^ k" by (simp add: less_mult_imp_div_less mult.commute)
  then have "from_be (to_be k (n div 256)) = n div 256" by (rule Suc.IH)
  moreover have "unat (of_nat (n mod 256) :: 8 word) = n mod 256"
    by (simp add: unsigned_of_nat take_bit_eq_mod)
  ultimately show ?case by (simp add: from_be_def)
qed (simp add: from_be_def)

lemma word_be: "LENGTH('a::len) = 8 * k \<Longrightarrow> of_nat (from_be (to_be k (unat w))) = (w :: 'a word)"
proof -
  assume k: "LENGTH('a) = 8 * k"
  have "unat w < 2 ^ LENGTH('a)" by (rule unsigned_less)
  then have "unat w < 256 ^ k" by (simp add: k power_mult)
  then show ?thesis by (simp add: from_be_to_be)
qed

lemma address_roundtrip [simp]: "address_from_db (address_to_vec a) = Ok a"
  by (simp add: address_from_db_def address_to_vec_def word_be)

lemma b256_roundtrip [simp]: "b256_from_db (b256_to_vec h) = Ok h"
  by (simp add: b256_from_db_def b256_to_vec_def word_be)

lemma collect_set_id: "btree_ok xs \<Longrightarrow> collect_set xs = xs"
  by (metis btree_ok_collect_set btree_ok_unique set_collect_set)

lemma addresses_roundtrip: "btree_ok as \<Longrightarrow> addresses_from_db (addresses_to_db as) = Ok as"
proof -
  assume "btree_ok as"
  moreover have "try_map address_from_db (map address_to_vec as) = Ok as"
    by (induction as) simp_all
  ultimately show ?thesis by (simp add: addresses_from_db_def addresses_to_db_def collect_set_id)
qed

lemma block_range_roundtrip: "range_ok r \<Longrightarrow> block_range_from_pg (block_range_to_pg r) = Ok r"
  by (simp add: block_range_from_pg_def block_range_to_pg_def range_new_def range_ok_def)

lemma block_range_from_pg_half_open:
  "0 \<le> s \<Longrightarrow> s < e \<Longrightarrow> e \<le> i64_max \<Longrightarrow>
     block_range_from_pg (half_open s e) = Ok (rng (nat s) (nat (e - 1)))"
  by (auto simp: block_range_from_pg_def range_new_def MAX_END_def i64_max_def)

lemma topic_into_roundtrip: "topic_ok t \<Longrightarrow> topic_try_from (topic_into t) = Ok t"
  by (cases t) (simp_all add: topic_ok_def topic_one_of_def topic_set_new_def collect_set_id)

lemma topics_roundtrip:
  assumes "length ts = 4" and "list_all topic_ok ts"
  shows "topics_from_db (topics_to_db ts) = Ok ts"
proof -
  have "try_map topic_try_from (map topic_into ts) = Ok ts"
    using assms(2) by (induction ts) (simp_all add: topic_into_roundtrip)
  moreover have "map topic_into ts \<noteq> []" using assms(1) by auto
  ultimately show ?thesis using assms(1) by (simp add: topics_from_db_def topics_to_db_def)
qed

lemma topics_from_columns_nones:
  "topics_from_columns_loop (replicate n None) topics ended = Ok topics"
  by (induction n arbitrary: ended) simp_all

lemma topics_from_columns_some:
  "topics_from_columns_loop (map (Some \<circ> b256_to_vec) ts @ replicate n None) acc False = Ok (acc @ ts)"
  by (induction ts arbitrary: acc) (simp_all add: topics_from_columns_nones)

text \<open>
  C28. Column codecs lose nothing: a durable range, a selector's address set and topic
  filters, and the up to four topics of a log read back from their columns as they were
  written; a fifth topic is refused.
\<close>
theorem codec_roundtrip:
  assumes "range_ok r" and "sel_ok s"
  shows "block_range_from_pg (block_range_to_pg r) = Ok r \<and>
    addresses_from_db (addresses_to_db (sel_addresses s)) = Ok (sel_addresses s) \<and>
    topics_from_db (topics_to_db (sel_topics s)) = Ok (sel_topics s) \<and>
    and_then (topic_columns topics) topics_from_columns =
      (if length topics \<le> 4 then Ok topics else Err (StInvalidInput ''log has more than 4 topics''))"
  using assms
  by (simp add: block_range_roundtrip addresses_roundtrip topics_roundtrip sel_ok_def
      topic_columns_def topics_from_columns_def topics_from_columns_some)

theorem codec_roundtrip_witness:
  "block_range_from_pg (block_range_to_pg (rng 5 9)) = Ok (rng 5 9) \<and>
   topics_from_db (topics_to_db [OneOf [7], AnyTopic, AnyTopic, AnyTopic]) =
     Ok [OneOf [7], AnyTopic, AnyTopic, AnyTopic]"
  using codec_roundtrip [of "rng 5 9"
      "\<lparr>sel_addresses = [1], sel_topics = [OneOf [7], AnyTopic, AnyTopic, AnyTopic]\<rparr>"]
  by (simp add: sel_ok_def topic_ok_def btree_ok_def MAX_END_value)

end
