(* ===== verification/Selector_Store.thy ===== *)
theory Selector_Store
  imports Codec
begin

text \<open>
  The selectors table, \<open>crates/store/src/selectors.rs\<close>. The table is its list of rows with
  the sequence of its ids; each SQL statement is one function, so an upsert is a lookup that
  another session's insert may follow before its own insert runs. Time is in milliseconds.
\<close>

record selector_row =
  sr_id :: i64
  sr_chain :: chain_id
  sr_dataset :: string
  sr_fingerprint :: string
  sr_canonical_key :: string
  sr_addresses :: "bytes list"
  sr_topics :: topics_json
  sr_last_used_at :: int

record selectors_table =
  st_rows :: "selector_row list"
  st_next_id :: i64

fun selector_columns :: "selector \<Rightarrow> bytes list \<times> topics_json" where
  "selector_columns (SelLogs s) = (addresses_to_db (sel_addresses s), topics_to_db (sel_topics s))"
| "selector_columns SelBlocks = ([], [])"

definition selector_key_eq :: "chain_id \<Rightarrow> string \<Rightarrow> string \<Rightarrow> selector_row \<Rightarrow> bool" where
  "selector_key_eq chain ds fp row = (sr_chain row = chain \<and> sr_dataset row = ds \<and> sr_fingerprint row = fp)"

definition find_selector :: "selectors_table \<Rightarrow> chain_id \<Rightarrow> string \<Rightarrow> string \<Rightarrow> i64 option" where
  "find_selector t chain ds fp = map_option sr_id (find (selector_key_eq chain ds fp) (st_rows t))"

text \<open>The first statement: find the row, and touch it when it was last used over a minute ago.\<close>

definition upsert_lookup ::
  "int \<Rightarrow> selectors_table \<Rightarrow> chain_id \<Rightarrow> string \<Rightarrow> string \<Rightarrow> i64 option \<times> selectors_table" where
  "upsert_lookup now t chain ds fp =
     (let hit = find_selector t chain ds fp
      in (hit, t\<lparr>st_rows := map (\<lambda>row.
            if Some (sr_id row) = hit \<and> sr_last_used_at row < now - 60000
            then row\<lparr>sr_last_used_at := now\<rparr> else row) (st_rows t)\<rparr>))"

text \<open>The second: insert on conflict do nothing, and select the row when there was a conflict.
  A conflicting insert has consumed its sequence value.\<close>

definition upsert_insert ::
  "(string \<Rightarrow> bytes) \<Rightarrow> int \<Rightarrow> selectors_table \<Rightarrow> chain_id \<Rightarrow> selector \<Rightarrow> i64 \<times> selectors_table" where
  "upsert_insert sha256 now t chain s =
     (let ds = dataset_as_str (selector_dataset s);
          fp = selector_fingerprint sha256 s
      in case find_selector t chain ds fp of
           Some i \<Rightarrow> (i, t\<lparr>st_next_id := st_next_id t + 1\<rparr>)
         | None \<Rightarrow>
             (st_next_id t,
              t\<lparr>st_rows := st_rows t @
                  [\<lparr>sr_id = st_next_id t, sr_chain = chain, sr_dataset = ds, sr_fingerprint = fp,
                    sr_canonical_key = selector_canonical_key s,
                    sr_addresses = fst (selector_columns s), sr_topics = snd (selector_columns s),
                    sr_last_used_at = now\<rparr>],
                st_next_id := st_next_id t + 1\<rparr>))"

definition upsert_selector ::
  "(string \<Rightarrow> bytes) \<Rightarrow> int \<Rightarrow> selectors_table \<Rightarrow> chain_id \<Rightarrow> selector \<Rightarrow> selector_id \<times> selectors_table" where
  "upsert_selector sha256 now t chain s =
     (case upsert_lookup now t chain (dataset_as_str (selector_dataset s)) (selector_fingerprint sha256 s) of
        (Some i, t') \<Rightarrow> (i, t')
      | (None, t') \<Rightarrow> upsert_insert sha256 now t' chain s)"

definition selector_of_row :: "selector_row \<Rightarrow> (selector, store_error) result" where
  "selector_of_row row =
     and_then (dataset_from_db (sr_dataset row)) (\<lambda>ds.
       case ds of
         EvmLogs \<Rightarrow>
           and_then (addresses_from_db (sr_addresses row)) (\<lambda>as.
             and_then (topics_from_db (sr_topics row)) (\<lambda>ts.
               Ok (SelLogs \<lparr>sel_addresses = as, sel_topics = ts\<rparr>)))
       | EvmBlocks \<Rightarrow> Ok SelBlocks)"

text \<open>\<open>by_id.remove\<close>: a repeated id is answered once, at its first place.\<close>

fun take_by_id :: "(i64 \<times> selector) list \<Rightarrow> selector_id list \<Rightarrow> (selector_id \<times> selector) list" where
  "take_by_id by_id [] = []"
| "take_by_id by_id (i # ids) =
     (case map_of by_id i of
        None \<Rightarrow> take_by_id by_id ids
      | Some s \<Rightarrow> (i, s) # take_by_id (filter (\<lambda>(j, _). j \<noteq> i) by_id) ids)"

definition selectors_by_id ::
  "selectors_table \<Rightarrow> selector_id list \<Rightarrow> ((selector_id \<times> selector) list, store_error) result" where
  "selectors_by_id t ids =
     (if ids = [] then Ok []
      else map_ok (\<lambda>by_id. take_by_id by_id ids)
        (try_map (\<lambda>row. map_ok (Pair (sr_id row)) (selector_of_row row))
          (filter (\<lambda>row. sr_id row \<in> set ids) (st_rows t))))"

definition candidate_of_row :: "selector_row \<Rightarrow> (selector_id \<times> log_selector, store_error) result" where
  "candidate_of_row row =
     and_then (addresses_from_db (sr_addresses row)) (\<lambda>as.
       and_then (topics_from_db (sr_topics row)) (\<lambda>ts.
         Ok (sr_id row, \<lparr>sel_addresses = as, sel_topics = ts\<rparr>)))"

definition gin_prefilter :: "chain_id \<Rightarrow> bytes list \<Rightarrow> selector_row \<Rightarrow> bool" where
  "gin_prefilter chain query_addresses row =
     (sr_chain row = chain \<and> sr_dataset row = ''evm.logs'' \<and>
      (sr_addresses row = [] \<or> set query_addresses \<subseteq> set (sr_addresses row)))"

definition candidates_covering ::
  "selectors_table \<Rightarrow> chain_id \<Rightarrow> log_selector \<Rightarrow> ((selector_id \<times> log_selector) list, store_error) result" where
  "candidates_covering t chain query =
     map_ok (filter (\<lambda>(_, s). sel_covers s query))
       (try_map candidate_of_row
         (sort_key sr_id (filter (gin_prefilter chain (addresses_to_db (sel_addresses query))) (st_rows t))))"

section \<open>Well-formed tables\<close>

text \<open>Every row was written by an upsert: it carries the columns, key and fingerprint of a
  well-formed selector, ids are below the sequence and distinct, and (chain, dataset,
  fingerprint) is unique.\<close>

definition selector_ok :: "selector \<Rightarrow> bool" where
  "selector_ok s = (case s of SelLogs l \<Rightarrow> sel_ok l | SelBlocks \<Rightarrow> True)"

definition row_of_selector :: "(string \<Rightarrow> bytes) \<Rightarrow> selector_row \<Rightarrow> selector \<Rightarrow> bool" where
  "row_of_selector sha256 row s =
     (selector_ok s \<and> sr_dataset row = dataset_as_str (selector_dataset s) \<and>
      sr_fingerprint row = selector_fingerprint sha256 s \<and> sr_canonical_key row = selector_canonical_key s \<and>
      (sr_addresses row, sr_topics row) = selector_columns s)"

definition selectors_ok :: "(string \<Rightarrow> bytes) \<Rightarrow> selectors_table \<Rightarrow> bool" where
  "selectors_ok sha256 t =
     ((\<forall>row\<in>set (st_rows t). sr_id row < st_next_id t \<and> (\<exists>s. row_of_selector sha256 row s)) \<and>
      distinct (map sr_id (st_rows t)) \<and>
      distinct (map (\<lambda>row. (sr_chain row, sr_dataset row, sr_fingerprint row)) (st_rows t)))"

lemma find_selector_None:
  "find_selector t chain ds fp = None \<longleftrightarrow>
     (chain, ds, fp) \<notin> (\<lambda>row. (sr_chain row, sr_dataset row, sr_fingerprint row)) ` set (st_rows t)"
  by (auto simp: find_selector_def find_None_notin selector_key_eq_def)

lemma find_selector_Some:
  "find_selector t chain ds fp = Some i \<Longrightarrow> \<exists>row\<in>set (st_rows t). selector_key_eq chain ds fp row \<and> sr_id row = i"
  by (auto simp: find_selector_def dest: find_Some_in)

lemma find_selector_unique:
  assumes "selectors_ok sha256 t" and "row \<in> set (st_rows t)" and "selector_key_eq chain ds fp row"
  shows "find_selector t chain ds fp = Some (sr_id row)"
proof -
  have "find_selector t chain ds fp \<noteq> None"
    using assms(2,3) by (auto simp: find_selector_None selector_key_eq_def)
  then obtain i where i: "find_selector t chain ds fp = Some i" by blast
  then obtain row' where "row' \<in> set (st_rows t)" "selector_key_eq chain ds fp row'" "sr_id row' = i"
    using find_selector_Some by blast
  moreover have "inj_on (\<lambda>row. (sr_chain row, sr_dataset row, sr_fingerprint row)) (set (st_rows t))"
    using assms(1) by (auto simp: selectors_ok_def distinct_map)
  ultimately have "row' = row"
    using assms(2,3) by (auto simp: selector_key_eq_def inj_on_def)
  with i \<open>sr_id row' = i\<close> show ?thesis by simp
qed

lemma upsert_lookup_ok:
  assumes "selectors_ok sha256 t"
  shows "selectors_ok sha256 (snd (upsert_lookup now t chain ds fp))"
proof -
  define f :: "selector_row \<Rightarrow> selector_row" where "f = (\<lambda>row. if Some (sr_id row) = find_selector t chain ds fp \<and> sr_last_used_at row < now - 60000
    then row\<lparr>sr_last_used_at := now\<rparr> else row)"
  have eq: "snd (upsert_lookup now t chain ds fp) = t\<lparr>st_rows := map f (st_rows t)\<rparr>"
    by (simp add: upsert_lookup_def f_def Let_def)
  have same: "sr_id (f row) = sr_id row" "sr_chain (f row) = sr_chain row" "sr_dataset (f row) = sr_dataset row"
    "sr_fingerprint (f row) = sr_fingerprint row" "row_of_selector sha256 (f row) = row_of_selector sha256 row"
    for row by (simp_all add: f_def row_of_selector_def fun_eq_iff)
  show ?thesis using assms by (simp add: selectors_ok_def eq comp_def same)
qed

definition new_selector_row ::
  "(string \<Rightarrow> bytes) \<Rightarrow> int \<Rightarrow> i64 \<Rightarrow> chain_id \<Rightarrow> selector \<Rightarrow> selector_row" where
  "new_selector_row sha256 now i chain s =
     \<lparr>sr_id = i, sr_chain = chain, sr_dataset = dataset_as_str (selector_dataset s),
      sr_fingerprint = selector_fingerprint sha256 s, sr_canonical_key = selector_canonical_key s,
      sr_addresses = fst (selector_columns s), sr_topics = snd (selector_columns s), sr_last_used_at = now\<rparr>"

lemma upsert_insert_eq:
  "upsert_insert sha256 now t chain s =
     (case find_selector t chain (dataset_as_str (selector_dataset s)) (selector_fingerprint sha256 s) of
        Some i \<Rightarrow> (i, t\<lparr>st_next_id := st_next_id t + 1\<rparr>)
      | None \<Rightarrow> (st_next_id t, t\<lparr>st_rows := st_rows t @ [new_selector_row sha256 now (st_next_id t) chain s],
                               st_next_id := st_next_id t + 1\<rparr>))"
  by (simp add: upsert_insert_def Let_def new_selector_row_def split: option.split)

lemma new_selector_row_simps [simp]:
  "sr_id (new_selector_row sha256 now i chain s) = i"
  "sr_chain (new_selector_row sha256 now i chain s) = chain"
  "sr_dataset (new_selector_row sha256 now i chain s) = dataset_as_str (selector_dataset s)"
  "sr_fingerprint (new_selector_row sha256 now i chain s) = selector_fingerprint sha256 s"
  "row_of_selector sha256 (new_selector_row sha256 now i chain s) s = selector_ok s"
  by (auto simp: new_selector_row_def row_of_selector_def)

lemma upsert_insert_ok:
  assumes "selectors_ok sha256 t" and "selector_ok s"
  shows "selectors_ok sha256 (snd (upsert_insert sha256 now t chain s))"
proof (cases "find_selector t chain (dataset_as_str (selector_dataset s)) (selector_fingerprint sha256 s)")
  case None
  let ?t' = "t\<lparr>st_rows := st_rows t @ [new_selector_row sha256 now (st_next_id t) chain s],
    st_next_id := st_next_id t + 1\<rparr>"
  have new: "\<exists>s'. row_of_selector sha256 (new_selector_row sha256 now (st_next_id t) chain s) s'"
    using assms(2) new_selector_row_simps(5) by blast
  have "selectors_ok sha256 ?t'"
    using assms(1) None [unfolded find_selector_None] new by (fastforce simp: selectors_ok_def)
  with None show ?thesis by (simp add: upsert_insert_eq)
next
  case (Some i)
  with assms show ?thesis by (fastforce simp: selectors_ok_def upsert_insert_eq)
qed

text \<open>
  The selectors table stays well formed under every upsert, and a selector keeps one
  id: a session whose lookup found nothing and whose insert then meets a row another session
  wrote in between returns that session's id; a later upsert returns the same id.
\<close>
theorem upsert_selector_stable:
  assumes "selectors_ok sha256 t" and "selector_ok s" and "upsert_insert sha256 now t chain s = (i, t')"
  shows "selectors_ok sha256 t' \<and>
    fst (upsert_insert sha256 now' t' chain s) = i \<and>
    fst (upsert_selector sha256 now' t' chain s) = i \<and>
    selectors_ok sha256 (snd (upsert_selector sha256 now' t' chain s)) \<and>
    (\<exists>row\<in>set (st_rows t'). sr_id row = i \<and> sr_chain row = chain \<and> sr_fingerprint row = selector_fingerprint sha256 s)"
proof -
  let ?ds = "dataset_as_str (selector_dataset s)" and ?fp = "selector_fingerprint sha256 s"
  have ok: "selectors_ok sha256 t'" using upsert_insert_ok [OF assms(1,2), of now chain] assms(3) by simp
  have found: "find_selector t' chain ?ds ?fp = Some i"
  proof (cases "find_selector t chain ?ds ?fp")
    case None
    with assms(3) have t': "st_rows t' = st_rows t @ [new_selector_row sha256 now i chain s]"
      by (auto simp: upsert_insert_eq)
    then have "new_selector_row sha256 now i chain s \<in> set (st_rows t')" by simp
    from find_selector_unique [OF ok this, of chain ?ds ?fp] show ?thesis by (simp add: selector_key_eq_def)
  next
    case (Some j)
    with assms(3) show ?thesis by (auto simp: upsert_insert_eq find_selector_def)
  qed
  then have "upsert_lookup now' t' chain ?ds ?fp = (Some i, snd (upsert_lookup now' t' chain ?ds ?fp))"
    by (simp add: upsert_lookup_def Let_def)
  then have "upsert_selector sha256 now' t' chain s = (i, snd (upsert_lookup now' t' chain ?ds ?fp))"
    unfolding upsert_selector_def by (metis (no_types, lifting) case_prod_conv option.simps(5))
  with found ok upsert_lookup_ok [OF ok] find_selector_Some [OF found] show ?thesis
    by (auto simp: upsert_insert_eq selector_key_eq_def)
qed

theorem upsert_selector_stable_witness:
  "let t = \<lparr>st_rows = [], st_next_id = 1\<rparr>; f = (\<lambda>_. [7]) in
   fst (upsert_insert f 5 t 1 SelBlocks) = 1 \<and>
   fst (upsert_selector f 9 (snd (upsert_insert f 5 t 1 SelBlocks)) 1 SelBlocks) = 1"
proof -
  have "selectors_ok (\<lambda>_. [7]) \<lparr>st_rows = [], st_next_id = 1\<rparr>" and "selector_ok SelBlocks"
    by (simp_all add: selectors_ok_def selector_ok_def)
  note this upsert_selector_stable [OF this, of 5 1 1
    "snd (upsert_insert (\<lambda>_. [7]) 5 \<lparr>st_rows = [], st_next_id = 1\<rparr> 1 SelBlocks)" 9]
  moreover have "fst (upsert_insert (\<lambda>_. [7]) 5 \<lparr>st_rows = [], st_next_id = 1\<rparr> 1 SelBlocks) = 1"
    by (simp add: upsert_insert_def Let_def find_selector_def)
  ultimately show ?thesis by (simp only: Let_def prod_eq_iff fst_conv snd_conv simp_thms)
qed

section \<open>Candidates\<close>

definition stored_log_selector :: "selectors_table \<Rightarrow> chain_id \<Rightarrow> i64 \<Rightarrow> log_selector \<Rightarrow> bool" where
  "stored_log_selector t chain i s =
     (sel_ok s \<and> (\<exists>row\<in>set (st_rows t). sr_id row = i \<and> sr_chain row = chain \<and> sr_dataset row = ''evm.logs'' \<and>
        sr_addresses row = addresses_to_db (sel_addresses s) \<and> sr_topics row = topics_to_db (sel_topics s)))"

lemma candidate_of_row_ok:
  assumes "sr_addresses row = addresses_to_db (sel_addresses s)" and "sr_topics row = topics_to_db (sel_topics s)"
    and "sel_ok s"
  shows "candidate_of_row row = Ok (sr_id row, s)"
  using assms by (simp add: candidate_of_row_def addresses_roundtrip topics_roundtrip sel_ok_def)

lemma prefilter_complete:
  "sel_ok s \<Longrightarrow> sel_ok part \<Longrightarrow> sel_covers s part \<Longrightarrow>
     addresses_to_db (sel_addresses s) = [] \<or>
     set (addresses_to_db (sel_addresses part)) \<subseteq> set (addresses_to_db (sel_addresses s))"
  by (auto simp: sel_covers_iff addresses_to_db_def)

lemma logs_row_selector:
  assumes "selectors_ok sha256 t" and "row \<in> set (st_rows t)" and "sr_dataset row = ''evm.logs''"
  obtains s where "sel_ok s" and "sr_addresses row = addresses_to_db (sel_addresses s)"
    and "sr_topics row = topics_to_db (sel_topics s)"
proof -
  obtain s where s: "row_of_selector sha256 row s" using assms(1,2) by (auto simp: selectors_ok_def)
  with assms(3) show thesis
    by (cases s) (auto simp: row_of_selector_def selector_ok_def intro: that)
qed

lemma candidates_covering_exact:
  assumes "selectors_ok sha256 t" and "sel_ok part"
  obtains cands where "candidates_covering t chain part = Ok cands"
    and "set cands = {(i, s). stored_log_selector t chain i s \<and> sel_covers s part}"
proof -
  let ?rows = "sort_key sr_id (filter (gin_prefilter chain (addresses_to_db (sel_addresses part))) (st_rows t))"
  define cand where "cand row = (case candidate_of_row row of Inr c \<Rightarrow> c | Inl _ \<Rightarrow> undefined)" for row
  have each: "candidate_of_row row = Ok (cand row)" if "row \<in> set ?rows" for row
  proof -
    from that have "row \<in> set (st_rows t)" and "sr_dataset row = ''evm.logs''" by (auto simp: gin_prefilter_def)
    then obtain s where "sel_ok s" "sr_addresses row = addresses_to_db (sel_addresses s)"
      "sr_topics row = topics_to_db (sel_topics s)" by (rule logs_row_selector [OF assms(1)])
    then show ?thesis by (simp add: candidate_of_row_ok cand_def)
  qed
  then have "try_map candidate_of_row ?rows = Ok (map cand ?rows)" by (rule try_map_Ok_map)
  then have res: "candidates_covering t chain part = Ok (filter (\<lambda>(_, s). sel_covers s part) (map cand ?rows))"
    by (simp add: candidates_covering_def)
  have "(i, s) \<in> cand ` set ?rows \<and> sel_covers s part \<longleftrightarrow> stored_log_selector t chain i s \<and> sel_covers s part" for i s
  proof
    assume l: "(i, s) \<in> cand ` set ?rows \<and> sel_covers s part"
    then obtain row where row: "row \<in> set ?rows" "(i, s) = cand row" by blast
    then have mem: "row \<in> set (st_rows t)" "sr_dataset row = ''evm.logs''" "sr_chain row = chain"
      by (auto simp: gin_prefilter_def)
    obtain s' where "sel_ok s'" "sr_addresses row = addresses_to_db (sel_addresses s')"
      "sr_topics row = topics_to_db (sel_topics s')" by (rule logs_row_selector [OF assms(1) mem(1,2)])
    moreover from this row(2) have "(i, s) = (sr_id row, s')" by (simp add: candidate_of_row_ok cand_def)
    ultimately show "stored_log_selector t chain i s \<and> sel_covers s part"
      using l mem by (auto simp: stored_log_selector_def)
  next
    assume r: "stored_log_selector t chain i s \<and> sel_covers s part"
    then obtain row where row: "row \<in> set (st_rows t)" "sr_id row = i" "sr_chain row = chain" "sr_dataset row = ''evm.logs''"
      "sr_addresses row = addresses_to_db (sel_addresses s)" "sr_topics row = topics_to_db (sel_topics s)" "sel_ok s"
      by (auto simp: stored_log_selector_def)
    then have "row \<in> set ?rows"
      using r prefilter_complete [OF _ assms(2), of s] by (auto simp: gin_prefilter_def)
    moreover have "cand row = (i, s)" using row by (simp add: cand_def candidate_of_row_ok)
    ultimately show "(i, s) \<in> cand ` set ?rows \<and> sel_covers s part" using r by (metis imageI)
  qed
  then have "set (filter (\<lambda>(_, s). sel_covers s part) (map cand ?rows)) =
      {(i, s). stored_log_selector t chain i s \<and> sel_covers s part}"
    by auto
  with res that show thesis by blast
qed

end
