(* ===== verification/Coverage.thy ===== *)
theory Coverage
  imports Selector_Store
begin

text \<open>
  Coverage, \<open>crates/store/src/coverage.rs\<close>. The table is its list of rows, with the check
  and the exclusion constraint of the schema on every insert; PostgreSQL's \<open>range_agg\<close>, multirange
  intersection and difference are written out on half-open integer spans. \<open>merge_spans\<close>
  is shown to be the pointwise maximum of the old finality and the new one, and to keep the
  rows sorted, disjoint and coalesced; \<open>covered\<close> and \<open>missing\<close> split a range exactly.
\<close>

section \<open>Spans\<close>

record span =
  sp_start :: i64
  sp_end :: i64
  sp_finality :: finality

abbreviation spn :: "i64 \<Rightarrow> i64 \<Rightarrow> finality \<Rightarrow> span" where
  "spn a b f \<equiv> \<lparr>sp_start = a, sp_end = b, sp_finality = f\<rparr>"

definition span_at :: "span list \<Rightarrow> i64 \<Rightarrow> finality option" where
  "span_at spans a = map_option sp_finality (find (\<lambda>sp. sp_start sp \<le> a \<and> a < sp_end sp) spans)"

definition merged_finality :: "finality option \<Rightarrow> bool \<Rightarrow> finality \<Rightarrow> finality option" where
  "merged_finality old in_new fin =
     (case (old, in_new) of
        (None, False) \<Rightarrow> None
      | (Some f, False) \<Rightarrow> Some f
      | (None, True) \<Rightarrow> Some fin
      | (Some f, True) \<Rightarrow> Some (max f fin))"

definition merge_step ::
  "span list \<Rightarrow> i64 \<Rightarrow> i64 \<Rightarrow> finality \<Rightarrow> span list \<Rightarrow> i64 \<times> i64 \<Rightarrow> span list" where
  "merge_step existing s e fin out = (\<lambda>(a, b).
     if a \<ge> b then out
     else case merged_finality (span_at existing a) (s \<le> a \<and> a < e) fin of
            None \<Rightarrow> out
          | Some f \<Rightarrow>
              if out \<noteq> [] \<and> sp_end (last out) = a \<and> sp_finality (last out) = f
              then butlast out @ [(last out)\<lparr>sp_end := b\<rparr>]
              else out @ [spn a b f])"

definition span_bounds :: "span list \<Rightarrow> i64 \<Rightarrow> i64 \<Rightarrow> i64 btree_set" where
  "span_bounds existing s e = collect_set ([s, e] @ concat (map (\<lambda>sp. [sp_start sp, sp_end sp]) existing))"

definition windows2 :: "'a list \<Rightarrow> ('a \<times> 'a) list" where
  "windows2 xs = zip xs (tl xs)"

definition merge_spans :: "span list \<Rightarrow> i64 \<Rightarrow> i64 \<Rightarrow> finality \<Rightarrow> span list" where
  "merge_spans existing s e fin =
     foldl (merge_step existing s e fin) [] (windows2 (span_bounds existing s e))"

definition spans_ok :: "span list \<Rightarrow> bool" where
  "spans_ok spans =
     (list_all (\<lambda>sp. sp_start sp < sp_end sp) spans \<and>
      sorted_wrt (\<lambda>a b. sp_end a \<le> sp_start b) spans)"

text \<open>No two neighbouring rows could be one row.\<close>

definition spans_coalesced :: "span list \<Rightarrow> bool" where
  "spans_coalesced spans =
     (spans_ok spans \<and>
      sorted_wrt (\<lambda>a b. sp_end a = sp_start b \<longrightarrow> sp_finality a \<noteq> sp_finality b) spans)"

subsection \<open>Merging is the pointwise maximum\<close>

lemma span_at_Nil [simp]: "span_at [] x = None"
  by (simp add: span_at_def)

lemma span_at_None: "span_at spans x = None \<longleftrightarrow> (\<forall>sp\<in>set spans. \<not> (sp_start sp \<le> x \<and> x < sp_end sp))"
  by (auto simp: span_at_def find_None_notin)

lemma span_at_append:
  "span_at (xs @ ys) x = (case span_at xs x of None \<Rightarrow> span_at ys x | Some f \<Rightarrow> Some f)"
  by (induction xs) (auto simp: span_at_def)

lemma span_at_single: "span_at [spn a b f] x = (if a \<le> x \<and> x < b then Some f else None)"
  by (simp add: span_at_def)

lemma merged_finality_eq:
  "merged_finality old True fin = Some (case old of None \<Rightarrow> fin | Some f \<Rightarrow> max f fin)"
  "merged_finality old False fin = old"
  by (auto simp: merged_finality_def split: option.splits)

lemma spans_ok_snoc:
  "spans_ok (xs @ [y]) \<longleftrightarrow> spans_ok xs \<and> sp_start y < sp_end y \<and> (\<forall>x\<in>set xs. sp_end x \<le> sp_start y)"
  by (auto simp: spans_ok_def sorted_wrt_append)

lemma spans_coalesced_snoc:
  "spans_coalesced (xs @ [y]) \<longleftrightarrow> spans_coalesced xs \<and> sp_start y < sp_end y \<and>
     (\<forall>x\<in>set xs. sp_end x \<le> sp_start y \<and> (sp_end x = sp_start y \<longrightarrow> sp_finality x \<noteq> sp_finality y))"
  by (auto simp: spans_coalesced_def spans_ok_snoc sorted_wrt_append)

text \<open>The state of the loop when the bounds up to \<open>p\<close> are done: the output is the target
  level below \<open>p\<close> and empty from \<open>p\<close> on.\<close>

definition merge_inv :: "(i64 \<Rightarrow> finality option) \<Rightarrow> span list \<Rightarrow> i64 \<Rightarrow> bool" where
  "merge_inv lvl out p =
     (spans_coalesced out \<and> (\<forall>sp\<in>set out. sp_end sp \<le> p) \<and>
      (\<forall>x. span_at out x = (if x < p then lvl x else None)))"

lemma merge_inv_push:
  assumes inv: "merge_inv lvl out a" and ab: "a < b"
    and const: "\<And>x. a \<le> x \<Longrightarrow> x < b \<Longrightarrow> lvl x = Some f"
    and new: "\<forall>sp\<in>set out. sp_end sp = a \<longrightarrow> sp_finality sp \<noteq> f"
  shows "merge_inv lvl (out @ [spn a b f]) b"
proof -
  have "span_at (out @ [spn a b f]) x = (if x < b then lvl x else None)" for x
    using inv ab const [of x] by (auto simp: merge_inv_def span_at_append span_at_single split: option.splits)
  then show ?thesis
    using inv ab new by (auto simp: merge_inv_def spans_coalesced_snoc)
qed

lemma merge_inv_extend:
  assumes inv: "merge_inv lvl (out @ [spn c a f]) a" and ab: "a < b"
    and const: "\<And>x. a \<le> x \<Longrightarrow> x < b \<Longrightarrow> lvl x = Some f"
  shows "merge_inv lvl (out @ [spn c b f]) b"
proof -
  have before: "\<forall>x. span_at (out @ [spn c a f]) x = (if x < a then lvl x else None)" and ca: "c < a"
    using inv by (auto simp: merge_inv_def spans_coalesced_snoc)
  have low: "span_at out x = None" if "c \<le> x" for x
    using inv that by (force simp: merge_inv_def spans_coalesced_snoc span_at_None)
  have "span_at (out @ [spn c b f]) x = (if x < b then lvl x else None)" for x
    using before [rule_format, of x] low [of x] const [of x] ab ca
    by (auto simp: span_at_append span_at_single split: option.splits if_splits)
  then show ?thesis
    using inv ab by (auto simp: merge_inv_def spans_coalesced_snoc)
qed

lemma last_touches:
  assumes "merge_inv lvl out a" and "sp \<in> set out" and "sp_end sp = a"
  shows "sp = last out"
proof -
  obtain ys y where out: "out = ys @ [y]" using assms(2) by (metis rev_exhaust empty_iff list.set(1))
  have "sp \<notin> set ys"
    using assms out by (force simp: merge_inv_def spans_coalesced_snoc)
  with assms(2) out show ?thesis by simp
qed

definition target :: "span list \<Rightarrow> i64 \<Rightarrow> i64 \<Rightarrow> finality \<Rightarrow> i64 \<Rightarrow> finality option" where
  "target existing s e fin x = merged_finality (span_at existing x) (s \<le> x \<and> x < e) fin"

lemma set_span_bounds:
  "set (span_bounds existing s e) = {s, e} \<union> sp_start ` set existing \<union> sp_end ` set existing"
  by (auto simp: span_bounds_def)

lemma target_const:
  assumes gap: "\<forall>y\<in>set (span_bounds existing s e). y \<le> a \<or> b \<le> y" and x: "a \<le> x" "x < b"
  shows "target existing s e fin x = target existing s e fin a"
proof -
  have "(sp_start sp \<le> x \<and> x < sp_end sp) = (sp_start sp \<le> a \<and> a < sp_end sp)" if "sp \<in> set existing" for sp
  proof -
    have "sp_start sp \<le> a \<or> b \<le> sp_start sp" and "sp_end sp \<le> a \<or> b \<le> sp_end sp"
      using gap that by (simp_all add: set_span_bounds)
    with x show ?thesis by linarith
  qed
  then have "find (\<lambda>sp. sp_start sp \<le> x \<and> x < sp_end sp) existing =
      find (\<lambda>sp. sp_start sp \<le> a \<and> a < sp_end sp) existing"
    by (intro find_cong) auto
  moreover have "s \<le> a \<or> b \<le> s" and "e \<le> a \<or> b \<le> e"
    using gap by (simp_all add: set_span_bounds)
  then have "(s \<le> x \<and> x < e) = (s \<le> a \<and> a < e)" using x by linarith
  ultimately show ?thesis by (simp add: target_def span_at_def)
qed

lemma target_outside:
  assumes "(\<forall>y\<in>set (span_bounds existing s e). x < y) \<or> (\<forall>y\<in>set (span_bounds existing s e). y \<le> x)"
  shows "target existing s e fin x = None"
proof -
  have "\<not> (s \<le> x \<and> x < e)"
    using assms by (force simp: set_span_bounds)
  moreover have "\<not> (sp_start sp \<le> x \<and> x < sp_end sp)" if "sp \<in> set existing" for sp
  proof -
    have "sp_start sp \<in> set (span_bounds existing s e)" and "sp_end sp \<in> set (span_bounds existing s e)"
      using that by (simp_all add: set_span_bounds)
    with assms show ?thesis by force
  qed
  then have "span_at existing x = None" by (simp add: span_at_None)
  ultimately show ?thesis by (simp only: target_def merged_finality_eq)
qed

lemma merge_inv_step:
  assumes inv: "merge_inv (target existing s e fin) out a" and ab: "a < b"
    and gap: "\<forall>y\<in>set (span_bounds existing s e). y \<le> a \<or> b \<le> y"
  shows "merge_inv (target existing s e fin) (merge_step existing s e fin out (a, b)) b"
proof (cases "target existing s e fin a")
  case None
  have "span_at out x = (if x < b then target existing s e fin x else None)" for x
    using inv target_const [OF gap, of x fin] None ab by (cases "x < a") (auto simp: merge_inv_def)
  moreover have "merge_step existing s e fin out (a, b) = out"
    using None by (simp add: merge_step_def target_def)
  ultimately show ?thesis using inv ab by (force simp: merge_inv_def)
next
  case (Some f)
  have const: "target existing s e fin x = Some f" if "a \<le> x" "x < b" for x
    using target_const [OF gap that, of fin] Some by simp
  show ?thesis
  proof (cases "out \<noteq> [] \<and> sp_end (last out) = a \<and> sp_finality (last out) = f")
    case True
    define c where "c = sp_start (last out)"
    have l: "last out = spn c a f" using True by (cases "last out") (simp add: c_def)
    then have out: "out = butlast out @ [spn c a f]" using True by (metis append_butlast_last_id)
    have "merge_step existing s e fin out (a, b) = butlast out @ [spn c b f]"
      using True Some ab l by (simp add: merge_step_def target_def)
    moreover have "merge_inv (target existing s e fin) (butlast out @ [spn c a f]) a"
      using inv by (simp only: out [symmetric])
    ultimately show ?thesis using merge_inv_extend [OF _ ab const] by simp
  next
    case False
    then have new: "\<forall>sp\<in>set out. sp_end sp = a \<longrightarrow> sp_finality sp \<noteq> f"
      using last_touches [OF inv] by (metis length_greater_0_conv length_pos_if_in_set)
    have "merge_step existing s e fin out (a, b) = out @ [spn a b f]"
      using False Some ab by (auto simp: merge_step_def target_def)
    then show ?thesis using merge_inv_push [OF inv ab const new] by simp
  qed
qed

lemma merge_inv_fold:
  assumes "merge_inv (target existing s e fin) out p" and "sorted_wrt (<) (p # bs)"
    and "set (p # bs) \<subseteq> set (span_bounds existing s e)"
    and "\<forall>y\<in>set (span_bounds existing s e). y \<le> p \<or> y \<in> set bs"
  shows "merge_inv (target existing s e fin)
    (foldl (merge_step existing s e fin) out (windows2 (p # bs))) (last (p # bs))"
  using assms
proof (induction bs arbitrary: out p)
  case Nil
  then show ?case by (simp add: windows2_def)
next
  case (Cons b bs)
  have "\<forall>y\<in>set (span_bounds existing s e). y \<le> p \<or> b \<le> y"
    using Cons.prems by fastforce
  then have step: "merge_inv (target existing s e fin) (merge_step existing s e fin out (p, b)) b"
    using Cons.prems by (intro merge_inv_step) auto
  have "\<forall>y\<in>set (span_bounds existing s e). y \<le> b \<or> y \<in> set bs"
    using Cons.prems by fastforce
  with Cons.IH [OF step] Cons.prems show ?case by (simp add: windows2_def)
qed

lemma merge_spans_inv:
  assumes "spans_ok existing" and "s < e"
  shows "spans_coalesced (merge_spans existing s e fin) \<and>
    (\<forall>x. span_at (merge_spans existing s e fin) x = target existing s e fin x)"
proof -
  let ?B = "span_bounds existing s e"
  obtain p bs where B: "?B = p # bs"
    using set_span_bounds [of existing s e] by (cases ?B) auto
  have sorted: "sorted_wrt (<) (p # bs)"
    using btree_ok_collect_set [of "[s, e] @ concat (map (\<lambda>sp. [sp_start sp, sp_end sp]) existing)"] B
    by (simp only: span_bounds_def btree_ok_def)
  have low: "target existing s e fin x = None" if "x < p" for x
  proof -
    have "\<forall>y\<in>set ?B. x < y" using that sorted B by fastforce
    then show ?thesis by (intro target_outside) simp
  qed
  have high: "target existing s e fin x = None" if "last (p # bs) \<le> x" for x
  proof -
    have "\<forall>y\<in>set ?B. y \<le> last (p # bs)"
      using sorted_wrt_nth_mono [OF sorted, of _ "length bs"] unfolding B
      by (metis in_set_conv_nth last_conv_nth length_Cons less_Suc_eq_le list.simps(3) diff_Suc_1 lessI)
    then show ?thesis using that by (intro target_outside) fastforce
  qed
  have "merge_inv (target existing s e fin) [] p"
    using low by (simp add: merge_inv_def spans_coalesced_def spans_ok_def)
  then have "merge_inv (target existing s e fin) (merge_spans existing s e fin) (last (p # bs))"
    unfolding merge_spans_def B by (rule merge_inv_fold) (use sorted B in auto)
  with high show ?thesis by (auto simp: merge_inv_def linorder_not_less)
qed

section \<open>Multiranges\<close>

text \<open>\<open>range_agg\<close>: the union of half-open spans as ascending spans that neither overlap nor
  touch; \<open>mr_clip\<close> is the product with one span, \<open>mr_gaps\<close> one span minus a multirange.\<close>

type_synonym hspan = "i64 \<times> i64"

fun mr_merge :: "hspan list \<Rightarrow> hspan list" where
  "mr_merge ((a, b) # (c, d) # xs) =
     (if c \<le> b then mr_merge ((a, max b d) # xs) else (a, b) # mr_merge ((c, d) # xs))"
| "mr_merge xs = xs"

definition range_agg :: "hspan list \<Rightarrow> hspan list" where
  "range_agg xs = mr_merge (sort_key fst xs)"

definition mr_clip :: "i64 \<Rightarrow> i64 \<Rightarrow> hspan list \<Rightarrow> hspan list" where
  "mr_clip lo hi ms =
     filter (\<lambda>(a, b). a < b) (map (\<lambda>(a, b). (max a lo, min b hi)) ms)"

fun mr_gaps :: "i64 \<Rightarrow> i64 \<Rightarrow> hspan list \<Rightarrow> hspan list" where
  "mr_gaps lo hi [] = (if lo < hi then [(lo, hi)] else [])"
| "mr_gaps lo hi ((a, b) # ms) =
     (if lo < min a hi then [(lo, min a hi)] else []) @ mr_gaps (max lo b) hi ms"

definition hset :: "hspan list \<Rightarrow> i64 set" where
  "hset ms = (\<Union>(a, b)\<in>set ms. {a..<b})"

definition mr_ok :: "hspan list \<Rightarrow> bool" where
  "mr_ok ms = (list_all (\<lambda>(a, b). a < b) ms \<and> sorted_wrt (\<lambda>x y. snd x < fst y) ms)"

lemma hset_simps [simp]:
  "hset [] = {}"
  "hset ((a, b) # ms) = {a..<b} \<union> hset ms"
  "hset (ms @ ns) = hset ms \<union> hset ns"
  by (auto simp: hset_def)

lemma mem_hset: "x \<in> hset ms \<longleftrightarrow> (\<exists>h\<in>set ms. fst h \<le> x \<and> x < snd h)"
  by (force simp: hset_def)

lemma hset_sort [simp]: "hset (sort_key f ms) = hset ms"
  by (simp add: hset_def)

lemma mr_merge_hset:
  "sorted (map fst xs) \<Longrightarrow> hset (mr_merge xs) = hset xs"
  by (induction xs rule: mr_merge.induct) auto

lemma mr_merge_fst: "x \<in> set (mr_merge xs) \<Longrightarrow> sorted (map fst xs) \<Longrightarrow> fst (hd xs) \<le> fst x"
  by (induction xs rule: mr_merge.induct) (auto split: if_splits)

lemma mr_merge_ok:
  "sorted (map fst xs) \<Longrightarrow> list_all (\<lambda>(a, b). a < b) xs \<Longrightarrow> mr_ok (mr_merge xs)"
proof (induction xs rule: mr_merge.induct)
  case (1 a b c d xs)
  show ?case
  proof (cases "c \<le> b")
    case True
    with 1 show ?thesis by (auto simp: max_def)
  next
    case False
    have "mr_ok (mr_merge ((c, d) # xs))" using 1 False by simp
    moreover have "\<forall>x\<in>set (mr_merge ((c, d) # xs)). c \<le> fst x"
      using mr_merge_fst [of _ "(c, d) # xs"] "1.prems" by fastforce
    ultimately show ?thesis using False "1.prems" by (auto simp: mr_ok_def)
  qed
qed (auto simp: mr_ok_def)

lemma range_agg_ok: "list_all (\<lambda>(a, b). a < b) xs \<Longrightarrow> mr_ok (range_agg xs) \<and> hset (range_agg xs) = hset xs"
  by (simp add: range_agg_def mr_merge_hset mr_merge_ok list_all_iff)

lemma mr_clip_Cons:
  "mr_clip lo hi ((a, b) # ms) =
     (if max a lo < min b hi then [(max a lo, min b hi)] else []) @ mr_clip lo hi ms"
  by (simp add: mr_clip_def)

lemma mr_clip_hset: "hset (mr_clip lo hi ms) = hset ms \<inter> {lo..<hi}"
proof (induction ms)
  case (Cons x ms)
  obtain a b where x: "x = (a, b)" by (cases x)
  have "{a..<b} \<inter> {lo..<hi} = hset (if max a lo < min b hi then [(max a lo, min b hi)] else [])" by auto
  then show ?case using Cons by (simp only: x mr_clip_Cons hset_simps Int_Un_distrib2)
qed (simp add: mr_clip_def)

lemma mr_ok_Cons: "mr_ok ((a, b) # ms) \<longleftrightarrow> a < b \<and> (\<forall>y\<in>set ms. b < fst y) \<and> mr_ok ms"
  by (auto simp: mr_ok_def)

lemma mr_clip_ok: "mr_ok ms \<Longrightarrow> mr_ok (mr_clip lo hi ms)"
proof (induction ms)
  case (Cons x ms)
  obtain a b where x: "x = (a, b)" by (cases x)
  have "\<forall>y\<in>set (mr_clip lo hi ms). b < fst y"
    using Cons.prems x by (fastforce simp: mr_clip_def mr_ok_def)
  then have "\<forall>y\<in>set (mr_clip lo hi ms). min b hi < fst y" by (meson min_less_iff_disj)
  with Cons x show ?case by (auto simp: mr_clip_Cons mr_ok_Cons)
qed (simp add: mr_clip_def mr_ok_def)

lemma mr_gaps_hset: "mr_ok ms \<Longrightarrow> hset (mr_gaps lo hi ms) = {lo..<hi} - hset ms"
proof (induction lo hi ms rule: mr_gaps.induct)
  case (2 lo hi a b ms)
  have "\<forall>x\<in>hset ms. b < x" using "2.prems" by (fastforce simp: mr_ok_def hset_def)
  with 2 show ?case by (force simp: mr_ok_def)
qed auto

lemma mr_gaps_low: "x \<in> set (mr_gaps lo hi ms) \<Longrightarrow> lo \<le> fst x"
  by (induction lo hi ms rule: mr_gaps.induct) (auto split: if_splits)

lemma mr_gaps_ok: "mr_ok ms \<Longrightarrow> mr_ok (mr_gaps lo hi ms)"
proof (induction lo hi ms rule: mr_gaps.induct)
  case (2 lo hi a b ms)
  have "mr_ok (mr_gaps (max lo b) hi ms)" using 2 by (simp add: mr_ok_def)
  moreover have "\<forall>x\<in>set (mr_gaps (max lo b) hi ms). b \<le> fst x" using mr_gaps_low by fastforce
  moreover have "a < b" using "2.prems" by (simp add: mr_ok_def)
  ultimately show ?case by (fastforce simp: mr_ok_def)
qed (simp add: mr_ok_def)

text \<open>A span lies in a multirange exactly when one of its spans contains it.\<close>

lemma mr_contains_iff:
  assumes "mr_ok ms" and "lo < hi"
  shows "(\<exists>(a, b)\<in>set ms. a \<le> lo \<and> hi \<le> b) \<longleftrightarrow> {lo..<hi} \<subseteq> hset ms"
proof
  assume "\<exists>(a, b)\<in>set ms. a \<le> lo \<and> hi \<le> b"
  then obtain h where "h \<in> set ms" "fst h \<le> lo" "hi \<le> snd h" by auto
  then show "{lo..<hi} \<subseteq> hset ms" by (auto simp: mem_hset intro!: bexI [of _ h])
next
  assume sub: "{lo..<hi} \<subseteq> hset ms"
  then have "lo \<in> hset ms" using assms(2) by auto
  then obtain h where h: "h \<in> set ms" "fst h \<le> lo" "lo < snd h" by (auto simp: mem_hset)
  have "hi \<le> snd h"
  proof (rule ccontr)
    assume "\<not> hi \<le> snd h"
    with h sub have "snd h \<in> hset ms" by auto
    then obtain g where "g \<in> set ms" "fst g \<le> snd h" "snd h < snd g" by (auto simp: mem_hset)
    moreover have "fst h < snd h" using h by simp
    ultimately show False using h(1) assms(1) by (induction ms) (auto simp: mr_ok_def)
  qed
  with h show "\<exists>(a, b)\<in>set ms. a \<le> lo \<and> hi \<le> b" by (intro bexI [OF _ h(1)]) auto
qed

section \<open>The coverage table\<close>

text \<open>PostgreSQL keeps an \<open>int8range\<close> in its canonical half-open form, so the column is the
  pair of its bounds; \<open>order by blocks\<close> is their lexicographic order.\<close>

record coverage_row =
  cv_chain :: chain_id
  cv_dataset :: string
  cv_selector :: i64
  cv_blocks :: hspan
  cv_finality :: i16

definition cv_key :: "chain_id \<Rightarrow> dataset \<Rightarrow> i64 \<Rightarrow> coverage_row \<Rightarrow> bool" where
  "cv_key chain ds sel row =
     (cv_chain row = chain \<and> cv_dataset row = dataset_as_str ds \<and> cv_selector row = sel)"

definition overlaps :: "hspan \<Rightarrow> hspan \<Rightarrow> bool" where
  "overlaps x y = (max (fst x) (fst y) < min (snd x) (snd y))"

definition cv_conflict :: "coverage_row \<Rightarrow> coverage_row \<Rightarrow> bool" where
  "cv_conflict x y =
     (cv_chain x = cv_chain y \<and> cv_dataset x = cv_dataset y \<and> cv_selector x = cv_selector y \<and>
      overlaps (cv_blocks x) (cv_blocks y))"

definition insert_coverage :: "coverage_row list \<Rightarrow> coverage_row \<Rightarrow> (coverage_row list, store_error) result" where
  "insert_coverage rows row =
     (if cv_finality row \<noteq> 2 \<and> cv_finality row \<noteq> 3 then Err (StSqlx ''check constraint: finality'')
      else if list_ex (cv_conflict row) rows then Err (StSqlx ''exclusion constraint: blocks'')
      else Ok (rows @ [row]))"

fun insert_all :: "coverage_row list \<Rightarrow> coverage_row list \<Rightarrow> (coverage_row list, store_error) result" where
  "insert_all rows [] = Ok rows"
| "insert_all rows (r # rs) = and_then (insert_coverage rows r) (\<lambda>rows'. insert_all rows' rs)"

definition select_spans :: "coverage_row list \<Rightarrow> chain_id \<Rightarrow> dataset \<Rightarrow> i64 \<Rightarrow> coverage_row list" where
  "select_spans rows chain ds sel = sort_key cv_blocks (filter (cv_key chain ds sel) rows)"

definition row_range :: "hspan \<Rightarrow> (block_range, store_error) result" where
  "row_range h = block_range_from_pg (half_open (fst h) (snd h))"

definition span_of_row :: "coverage_row \<Rightarrow> (span, store_error) result" where
  "span_of_row row =
     and_then (row_range (cv_blocks row)) (\<lambda>r.
       and_then (finality_from_db (cv_finality row)) (\<lambda>f.
         Ok (spn (int (br_start r)) (int (br_end r) + 1) f)))"

definition row_of_span :: "chain_id \<Rightarrow> dataset \<Rightarrow> i64 \<Rightarrow> span \<Rightarrow> coverage_row" where
  "row_of_span chain ds sel sp =
     \<lparr>cv_chain = chain, cv_dataset = dataset_as_str ds, cv_selector = sel,
      cv_blocks = (sp_start sp, sp_end sp), cv_finality = finality_as_i16 (sp_finality sp)\<rparr>"

definition merge_coverage ::
  "coverage_row list \<Rightarrow> chain_id \<Rightarrow> dataset \<Rightarrow> i64 \<Rightarrow> block_range \<Rightarrow> finality
     \<Rightarrow> (coverage_row list, store_error) result" where
  "merge_coverage rows chain ds sel blks fin =
     and_then (try_map span_of_row (select_spans rows chain ds sel)) (\<lambda>existing.
       insert_all (filter (\<lambda>r. \<not> cv_key chain ds sel r) rows)
         (map (row_of_span chain ds sel)
           (merge_spans existing (int (br_start blks)) (int (br_end blks) + 1) fin)))"

fun merge_each ::
  "coverage_row list \<Rightarrow> chain_id \<Rightarrow> dataset \<Rightarrow> i64 list \<Rightarrow> block_range \<Rightarrow> finality
     \<Rightarrow> (coverage_row list, store_error) result" where
  "merge_each rows chain ds [] blks fin = Ok rows"
| "merge_each rows chain ds (i # ids) blks fin =
     and_then (merge_coverage rows chain ds i blks fin) (\<lambda>rows'. merge_each rows' chain ds ids blks fin)"

text \<open>\<open>sort_unstable\<close> and \<open>dedup\<close> give the ascending list of the distinct ids.\<close>

definition add_coverage_many ::
  "selectors_table \<Rightarrow> coverage_row list \<Rightarrow> chain_id \<Rightarrow> dataset \<Rightarrow> selector_id list \<Rightarrow> block_range \<Rightarrow> finality
     \<Rightarrow> (coverage_row list, store_error) result" where
  "add_coverage_many t rows chain ds selector_ids blks fin =
     (if fin < Safe then Err (StInvalidInput ''coverage records durable finality only'')
      else
        let ids = collect_set selector_ids;
            locked = sort_key sr_id (filter (\<lambda>row. sr_id row \<in> set ids) (st_rows t))
        in if ids = [] then Ok rows
           else case find (\<lambda>i. \<not> list_ex (\<lambda>row. sr_id row = i) locked) ids of
             Some missing \<Rightarrow> Err (StNotFound (''selector '' @ show_int missing @ '' not found''))
           | None \<Rightarrow>
               if list_ex (\<lambda>row. sr_chain row \<noteq> chain \<or> sr_dataset row \<noteq> dataset_as_str ds) locked
               then Err (StInvalidInput ''coverage chain and dataset must match the selector'')
               else merge_each rows chain ds ids blks fin)"

definition add_coverage ::
  "selectors_table \<Rightarrow> coverage_row list \<Rightarrow> chain_id \<Rightarrow> dataset \<Rightarrow> selector_id \<Rightarrow> block_range \<Rightarrow> finality
     \<Rightarrow> (coverage_row list, store_error) result" where
  "add_coverage t rows chain ds sel blks fin = add_coverage_many t rows chain ds [sel] blks fin"

definition coverage_spans ::
  "coverage_row list \<Rightarrow> chain_id \<Rightarrow> dataset \<Rightarrow> selector_id \<Rightarrow> ((block_range \<times> finality) list, store_error) result" where
  "coverage_spans rows chain ds sel =
     try_map (\<lambda>row. and_then (row_range (cv_blocks row)) (\<lambda>r.
         and_then (finality_from_db (cv_finality row)) (\<lambda>f. Ok (r, f))))
       (select_spans rows chain ds sel)"

datatype range_op = CoveredOp | MissingOp

definition range_op_spans ::
  "coverage_row list \<Rightarrow> chain_id \<Rightarrow> dataset \<Rightarrow> selector_id list \<Rightarrow> block_range \<Rightarrow> range_op \<Rightarrow> hspan list" where
  "range_op_spans rows chain ds ids q op =
     (let lo = int (br_start q); hi = int (br_end q) + 1;
          agg = range_agg (map cv_blocks
            (filter (\<lambda>row. cv_chain row = chain \<and> cv_dataset row = dataset_as_str ds \<and>
               cv_selector row \<in> set ids \<and> overlaps (cv_blocks row) (lo, hi)) rows))
      in case op of CoveredOp \<Rightarrow> mr_clip lo hi agg | MissingOp \<Rightarrow> mr_gaps lo hi agg)"

definition range_op_rows ::
  "coverage_row list \<Rightarrow> chain_id \<Rightarrow> dataset \<Rightarrow> selector_id list \<Rightarrow> block_range \<Rightarrow> range_op
     \<Rightarrow> (block_range list, store_error) result" where
  "range_op_rows rows chain ds ids q op =
     map_ok (sort_key br_start) (try_map row_range (range_op_spans rows chain ds ids q op))"

definition covered ::
  "coverage_row list \<Rightarrow> chain_id \<Rightarrow> dataset \<Rightarrow> selector_id list \<Rightarrow> block_range
     \<Rightarrow> (block_range list, store_error) result" where
  "covered rows chain ds ids q = range_op_rows rows chain ds ids q CoveredOp"

definition missing ::
  "coverage_row list \<Rightarrow> chain_id \<Rightarrow> dataset \<Rightarrow> selector_id list \<Rightarrow> block_range
     \<Rightarrow> (block_range list, store_error) result" where
  "missing rows chain ds ids q = range_op_rows rows chain ds ids q MissingOp"

definition intersect_ranges :: "block_range list \<Rightarrow> block_range list \<Rightarrow> block_range list" where
  "intersect_ranges left right = concat (map (\<lambda>a. List.map_filter (\<lambda>b. range_intersect a b) right) left)"

definition covered_part ::
  "selectors_table \<Rightarrow> coverage_row list \<Rightarrow> chain_id \<Rightarrow> log_selector \<Rightarrow> block_range
     \<Rightarrow> (block_range list, store_error) result" where
  "covered_part t rows chain part q =
     and_then (candidates_covering t chain part) (\<lambda>cands. covered rows chain EvmLogs (map fst cands) q)"

fun covered_parts ::
  "selectors_table \<Rightarrow> coverage_row list \<Rightarrow> chain_id \<Rightarrow> log_selector list \<Rightarrow> block_range \<Rightarrow> block_range list option
     \<Rightarrow> (block_range list option, store_error) result" where
  "covered_parts t rows chain [] q acc = Ok acc"
| "covered_parts t rows chain (p # ps) q acc =
     and_then (covered_part t rows chain p q) (\<lambda>cov.
       covered_parts t rows chain ps q
         (Some (case acc of None \<Rightarrow> cov | Some previous \<Rightarrow> intersect_ranges previous cov)))"

definition covered_for_query ::
  "selectors_table \<Rightarrow> coverage_row list \<Rightarrow> chain_id \<Rightarrow> log_selector \<Rightarrow> block_range
     \<Rightarrow> (block_range list, store_error) result" where
  "covered_for_query t rows chain query q =
     map_ok (\<lambda>acc. case acc of None \<Rightarrow> [] | Some rs \<Rightarrow> rs)
       (covered_parts t rows chain (split_by_address query) q None)"

definition longest_covered_prefix :: "block_range list \<Rightarrow> block_range \<Rightarrow> block_range option" where
  "longest_covered_prefix cov query =
     (case find (\<lambda>r. range_contains r (br_start query)) cov of
        None \<Rightarrow> None
      | Some hit \<Rightarrow> ok (range_new (br_start query) (min (br_end hit) (br_end query))))"

section \<open>Adding coverage\<close>

definition coverage_ok :: "coverage_row list \<Rightarrow> bool" where
  "coverage_ok rows =
     (list_all (\<lambda>row. 0 \<le> fst (cv_blocks row) \<and> fst (cv_blocks row) < snd (cv_blocks row) \<and>
        snd (cv_blocks row) \<le> i64_max \<and> (cv_finality row = 2 \<or> cv_finality row = 3)) rows \<and>
      sorted_wrt (\<lambda>x y. \<not> cv_conflict x y) rows)"

text \<open>The abstract view: the finality a selector has at a block.\<close>

definition cov_level :: "coverage_row list \<Rightarrow> chain_id \<Rightarrow> dataset \<Rightarrow> i64 \<Rightarrow> i64 \<Rightarrow> finality option" where
  "cov_level rows chain ds sel x =
     (case find (\<lambda>row. cv_key chain ds sel row \<and> fst (cv_blocks row) \<le> x \<and> x < snd (cv_blocks row)) rows of
        None \<Rightarrow> None | Some row \<Rightarrow> finality_from_i16 (cv_finality row))"

definition row_good :: "coverage_row \<Rightarrow> bool" where
  "row_good row =
     (0 \<le> fst (cv_blocks row) \<and> fst (cv_blocks row) < snd (cv_blocks row) \<and>
      snd (cv_blocks row) \<le> i64_max \<and> (cv_finality row = 2 \<or> cv_finality row = 3))"

definition row_holds :: "chain_id \<Rightarrow> dataset \<Rightarrow> i64 \<Rightarrow> i64 \<Rightarrow> coverage_row \<Rightarrow> bool" where
  "row_holds chain ds sel x row = (cv_key chain ds sel row \<and> fst (cv_blocks row) \<le> x \<and> x < snd (cv_blocks row))"

definition row_finality :: "coverage_row \<Rightarrow> finality" where
  "row_finality row = (if cv_finality row = 2 then Safe else Finalized)"

lemma sorted_wrt_pairs:
  "distinct xs \<Longrightarrow> (\<And>x y. x \<in> set xs \<Longrightarrow> y \<in> set xs \<Longrightarrow> x \<noteq> y \<Longrightarrow> R x y) \<Longrightarrow> sorted_wrt R xs"
  by (induction xs) auto

lemma cv_conflict_sym: "cv_conflict x y = cv_conflict y x"
  by (auto simp: cv_conflict_def overlaps_def)

lemma cv_conflict_self: "row_good x \<Longrightarrow> cv_conflict x x"
  by (simp add: cv_conflict_def overlaps_def row_good_def)

lemma coverage_ok_iff:
  "coverage_ok rows \<longleftrightarrow>
     (\<forall>x\<in>set rows. row_good x) \<and> distinct rows \<and> (\<forall>x\<in>set rows. \<forall>y\<in>set rows. x \<noteq> y \<longrightarrow> \<not> cv_conflict x y)"
proof -
  have "(\<forall>x\<in>set rows. row_good x) \<Longrightarrow>
    sorted_wrt (\<lambda>x y. \<not> cv_conflict x y) rows \<longleftrightarrow>
      distinct rows \<and> (\<forall>x\<in>set rows. \<forall>y\<in>set rows. x \<noteq> y \<longrightarrow> \<not> cv_conflict x y)"
    by (induction rows) (auto simp: cv_conflict_sym dest: cv_conflict_self)
  then show ?thesis by (auto simp: coverage_ok_def list_all_iff row_good_def)
qed

lemma row_holds_unique:
  assumes "coverage_ok rows" and "x \<in> set rows" and "y \<in> set rows"
    and "row_holds chain ds sel b x" and "row_holds chain ds sel b y"
  shows "x = y"
  using assms by (auto simp: coverage_ok_iff row_holds_def cv_key_def cv_conflict_def overlaps_def) force

lemma row_finality_eq: "row_good row \<Longrightarrow> finality_from_i16 (cv_finality row) = Some (row_finality row)"
  by (auto simp: row_good_def row_finality_def finality_from_i16_def)

lemma cov_level_Some:
  assumes "coverage_ok rows" and "row \<in> set rows" and "row_holds chain ds sel x row"
  shows "cov_level rows chain ds sel x = Some (row_finality row)"
proof -
  obtain r where r: "find (row_holds chain ds sel x) rows = Some r"
    using assms(2,3) by (metis find_None_notin not_None_eq)
  then have "r = row" using find_Some_in [OF r] assms row_holds_unique by blast
  moreover have "row_good row" using assms(1,2) by (simp add: coverage_ok_iff)
  ultimately show ?thesis
    using r row_finality_eq by (simp add: cov_level_def row_holds_def [abs_def])
qed

lemma cov_level_None:
  "(\<And>row. row \<in> set rows \<Longrightarrow> \<not> row_holds chain ds sel x row) \<Longrightarrow> cov_level rows chain ds sel x = None"
  by (simp add: cov_level_def row_holds_def find_None_notin [THEN iffD2])

definition the_span :: "coverage_row \<Rightarrow> span" where
  "the_span row = spn (fst (cv_blocks row)) (snd (cv_blocks row)) (row_finality row)"

lemma span_of_row_good: "row_good row \<Longrightarrow> span_of_row row = Ok (the_span row)"
  by (simp add: span_of_row_def row_range_def row_good_def block_range_from_pg_half_open
      finality_from_db_def row_finality_eq the_span_def)

lemma spans_ok_span_at:
  assumes "spans_ok spans" and "sp \<in> set spans" and "sp_start sp \<le> x" and "x < sp_end sp"
  shows "span_at spans x = Some (sp_finality sp)"
proof -
  have "a = b" if "a \<in> set spans" "b \<in> set spans" "sp_start a \<le> x" "x < sp_end a" "sp_start b \<le> x" "x < sp_end b" for a b
    using assms(1) that by (induction spans) (auto simp: spans_ok_def)
  moreover obtain r where r: "find (\<lambda>sp. sp_start sp \<le> x \<and> x < sp_end sp) spans = Some r"
    using assms(2-4) by (metis (mono_tags, lifting) find_None_notin not_None_eq)
  ultimately show ?thesis using assms find_Some_in [OF r] by (auto simp: span_at_def)
qed

lemma select_spans_ok:
  assumes "coverage_ok rows"
  shows "try_map span_of_row (select_spans rows chain ds sel) = Ok (map the_span (select_spans rows chain ds sel))"
    and "spans_ok (map the_span (select_spans rows chain ds sel))"
    and "span_at (map the_span (select_spans rows chain ds sel)) x = cov_level rows chain ds sel x"
proof -
  let ?rs = "select_spans rows chain ds sel"
  have set: "set ?rs = {row \<in> set rows. cv_key chain ds sel row}" by (auto simp: select_spans_def)
  have good: "row_good row" if "row \<in> set ?rs" for row
    using assms that by (auto simp: set coverage_ok_iff)
  then show "try_map span_of_row ?rs = Ok (map the_span ?rs)"
    by (intro try_map_Ok_map) (simp add: span_of_row_good)
  have dist: "distinct ?rs" using assms by (simp add: select_spans_def coverage_ok_iff)
  have "sorted_wrt (\<lambda>x y. \<not> cv_conflict x y) ?rs"
    using assms by (intro sorted_wrt_pairs [OF dist]) (auto simp: set coverage_ok_iff)
  moreover have "sorted_wrt (\<lambda>x y. cv_blocks x \<le> cv_blocks y) ?rs"
    unfolding select_spans_def using sorted_sort_key [of cv_blocks] by (simp add: sorted_wrt_map)
  ultimately have "sorted_wrt (\<lambda>x y. cv_blocks x \<le> cv_blocks y \<and> \<not> cv_conflict x y) ?rs"
    by (simp add: sorted_wrt_iff_nth_less)
  then have "sorted_wrt (\<lambda>x y. snd (cv_blocks x) \<le> fst (cv_blocks y)) ?rs"
  proof (rule sorted_wrt_mono_rel [rotated])
    fix x y
    assume xy: "x \<in> set ?rs" "y \<in> set ?rs" "cv_blocks x \<le> cv_blocks y \<and> \<not> cv_conflict x y"
    then have "fst (cv_blocks x) \<le> fst (cv_blocks y)" by (auto simp: less_eq_prod_def)
    with xy good [of x] good [of y] show "snd (cv_blocks x) \<le> fst (cv_blocks y)"
      by (auto simp: set cv_key_def cv_conflict_def overlaps_def row_good_def)
  qed
  with good show ok: "spans_ok (map the_span ?rs)"
    by (simp add: spans_ok_def the_span_def sorted_wrt_map list_all_iff row_good_def)
  show "span_at (map the_span ?rs) x = cov_level rows chain ds sel x"
  proof (cases "\<exists>row\<in>set rows. row_holds chain ds sel x row")
    case True
    then obtain row where row: "row \<in> set rows" "row_holds chain ds sel x row" by blast
    then have "the_span row \<in> set (map the_span ?rs)" by (simp add: set row_holds_def)
    from spans_ok_span_at [OF ok this, of x] row show ?thesis
      by (simp add: the_span_def row_holds_def cov_level_Some [OF assms row])
  next
    case False
    then have "span_at (map the_span ?rs) x = None"
      by (auto simp: span_at_None set the_span_def row_holds_def)
    with False show ?thesis by (simp add: cov_level_None)
  qed
qed

lemma insert_all_Ok:
  assumes "\<forall>r\<in>set new. cv_finality r = 2 \<or> cv_finality r = 3"
    and "\<forall>r\<in>set new. \<forall>x\<in>set rows. \<not> cv_conflict r x"
    and "sorted_wrt (\<lambda>x y. \<not> cv_conflict x y) new"
  shows "insert_all rows new = Ok (rows @ new)"
  using assms
proof (induction new arbitrary: rows)
  case (Cons r new)
  have "insert_coverage rows r = Ok (rows @ [r])"
    using Cons.prems by (auto simp: insert_coverage_def list_ex_iff)
  moreover have "insert_all (rows @ [r]) new = Ok ((rows @ [r]) @ new)"
    using Cons.prems by (intro Cons.IH) (auto simp: cv_conflict_sym)
  ultimately show ?case by simp
qed simp

lemma cv_key_row_of_span: "cv_key chain ds sel (row_of_span chain' ds' sel' sp) \<longleftrightarrow>
    chain = chain' \<and> ds = ds' \<and> sel = sel'"
  by (auto simp: cv_key_def row_of_span_def dest: dataset_as_str_inj)

lemma cv_conflict_other: "cv_key chain ds sel x \<Longrightarrow> \<not> cv_key chain ds sel y \<Longrightarrow> \<not> cv_conflict x y"
  by (auto simp: cv_conflict_def cv_key_def)

lemma spans_sorted_disjoint:
  "spans_ok spans \<Longrightarrow> sorted_wrt (\<lambda>x y. \<not> cv_conflict x y) (map (row_of_span chain ds sel) spans)"
  by (induction spans) (auto simp: spans_ok_def row_of_span_def cv_conflict_def overlaps_def)

lemma span_at_member:
  assumes "sp \<in> set spans" and "spans_ok spans"
  shows "sp_start sp < sp_end sp" and "span_at spans (sp_start sp) = Some (sp_finality sp)"
    and "span_at spans (sp_end sp - 1) = Some (sp_finality sp)"
proof -
  show "sp_start sp < sp_end sp" using assms by (auto simp: spans_ok_def list_all_iff)
  then show "span_at spans (sp_start sp) = Some (sp_finality sp)"
    and "span_at spans (sp_end sp - 1) = Some (sp_finality sp)"
    using spans_ok_span_at [OF assms(2,1)] by simp_all
qed

lemma cov_level_bounds:
  assumes "coverage_ok rows" and "cov_level rows chain ds sel x = Some f"
  shows "0 \<le> x \<and> x < i64_max \<and> Safe \<le> f"
proof -
  obtain row where row: "row \<in> set rows" "row_holds chain ds sel x row"
    using assms(2) cov_level_None by fastforce
  then have "row_good row" and "f = row_finality row"
    using assms cov_level_Some [OF assms(1) row] by (auto simp: coverage_ok_iff)
  with row show ?thesis by (auto simp: row_good_def row_holds_def row_finality_def)
qed

text \<open>The level after an add: the stronger of the old finality and the new one on the added
  blocks, unchanged elsewhere.\<close>

definition raised :: "finality option \<Rightarrow> finality \<Rightarrow> finality option" where
  "raised old fin = Some (case old of None \<Rightarrow> fin | Some f \<Rightarrow> max f fin)"

lemma cov_level_replace:
  assumes "\<forall>sp\<in>set new. Safe \<le> sp_finality sp"
  shows "cov_level (filter (\<lambda>r. \<not> cv_key chain ds sel r) rows @ map (row_of_span chain ds sel) new) c d i x =
    (if c = chain \<and> d = ds \<and> i = sel then span_at new x else cov_level rows c d i x)"
proof (cases "c = chain \<and> d = ds \<and> i = sel")
  case True
  have "find (row_holds chain ds sel x) (filter (\<lambda>r. \<not> cv_key chain ds sel r) rows) = None"
    by (auto simp: find_None_notin row_holds_def)
  moreover have "find (row_holds chain ds sel x) (map (row_of_span chain ds sel) new) =
      map_option (row_of_span chain ds sel) (find (\<lambda>sp. sp_start sp \<le> x \<and> x < sp_end sp) new)"
    by (simp add: find_map_option row_holds_def cv_key_row_of_span) (simp add: row_of_span_def)
  ultimately show ?thesis
    using True by (auto simp: cov_level_def row_holds_def [symmetric, abs_def] find_append_case span_at_def
        row_of_span_def split: option.splits)
next
  case False
  then have other: "\<not> cv_key chain ds sel r" if "row_holds c d i x r" for r
    using that by (auto simp: row_holds_def cv_key_def dest: dataset_as_str_inj)
  have "find (row_holds c d i x) (map (row_of_span chain ds sel) new) = None"
    using False by (auto simp: find_None_notin row_holds_def cv_key_row_of_span)
  with other have "find (row_holds c d i x)
      (filter (\<lambda>r. \<not> cv_key chain ds sel r) rows @ map (row_of_span chain ds sel) new) = find (row_holds c d i x) rows"
    by (simp add: find_append_case find_filter_implied split: option.splits)
  with False show ?thesis by (auto simp: cov_level_def row_holds_def [symmetric, abs_def])
qed

lemma merged_rows_ok:
  fixes chain :: chain_id and ds :: dataset and sel :: i64
  assumes "coverage_ok rows" and "spans_ok new"
    and bound: "\<And>x f. span_at new x = Some f \<Longrightarrow> 0 \<le> x \<and> x < i64_max \<and> Safe \<le> f"
  defines "old \<equiv> filter (\<lambda>r. \<not> cv_key chain ds sel r) rows"
    and "ins \<equiv> map (row_of_span chain ds sel) new"
  shows "insert_all old ins = Ok (old @ ins) \<and> coverage_ok (old @ ins)"
proof -
  have good: "row_good r" if "r \<in> set ins" for r
  proof -
    from that obtain sp where sp: "sp \<in> set new" "r = row_of_span chain ds sel sp" by (auto simp: ins_def)
    from span_at_member [OF sp(1) assms(2)] bound
    have "sp_start sp < sp_end sp" and "0 \<le> sp_start sp" and "sp_end sp \<le> i64_max" and "Safe \<le> sp_finality sp"
      by fastforce+
    with sp(2) show ?thesis by (cases "sp_finality sp") (auto simp: row_good_def row_of_span_def)
  qed
  have apart: "\<not> cv_conflict r x" "\<not> cv_conflict x r" if "r \<in> set ins" "x \<in> set old" for r x
    using that cv_conflict_other [of chain ds sel r x] cv_conflict_sym
    by (auto simp: ins_def old_def cv_key_row_of_span)
  have pairs: "sorted_wrt (\<lambda>x y. \<not> cv_conflict x y) ins"
    unfolding ins_def by (rule spans_sorted_disjoint [OF assms(2)])
  have "sorted_wrt (\<lambda>x y. \<not> cv_conflict x y) old" and "list_all row_good old"
    using assms(1) by (auto simp: coverage_ok_def old_def sorted_wrt_filter list_all_iff row_good_def)
  with good apart pairs have "coverage_ok (old @ ins)"
    by (auto simp: coverage_ok_def sorted_wrt_append list_all_iff row_good_def)
  moreover have "insert_all old ins = Ok (old @ ins)"
    using good apart pairs by (intro insert_all_Ok) (auto simp: row_good_def)
  ultimately show ?thesis by blast
qed

lemma merge_coverage_level:
  assumes ok: "coverage_ok rows" and "range_ok blks" and "Safe \<le> fin"
  obtains rows' where "merge_coverage rows chain ds sel blks fin = Ok rows'" and "coverage_ok rows'"
    and "\<And>c d i x. cov_level rows' c d i x =
      (if c = chain \<and> d = ds \<and> i = sel \<and> int (br_start blks) \<le> x \<and> x \<le> int (br_end blks)
       then raised (cov_level rows c d i x) fin else cov_level rows c d i x)"
proof -
  define ex where "ex = map the_span (select_spans rows chain ds sel)"
  define new where "new = merge_spans ex (int (br_start blks)) (int (br_end blks) + 1) fin"
  note ex_ok = select_spans_ok [OF ok, of chain ds sel, folded ex_def]
  have "int (br_start blks) < int (br_end blks) + 1" using assms(2) by (simp add: range_ok_def)
  from merge_spans_inv [OF ex_ok(2) this, of fin]
  have new_ok: "spans_ok new"
    and new_at: "span_at new x = target ex (int (br_start blks)) (int (br_end blks) + 1) fin x" for x
    by (auto simp: new_def spans_coalesced_def)
  have lvl: "span_at new x = (if int (br_start blks) \<le> x \<and> x \<le> int (br_end blks)
      then raised (cov_level rows chain ds sel x) fin else cov_level rows chain ds sel x)" for x
    by (auto simp: new_at target_def ex_ok(3) merged_finality_def raised_def split: option.splits)
  have bound: "0 \<le> x \<and> x < i64_max \<and> Safe \<le> f" if "span_at new x = Some f" for x f
    using that cov_level_bounds [OF ok] assms(2,3)
    by (auto simp: lvl raised_def range_ok_def MAX_END_def i64_max_def max_def split: if_splits option.splits)
  let ?rows = "filter (\<lambda>r. \<not> cv_key chain ds sel r) rows @ map (row_of_span chain ds sel) new"
  note res = merged_rows_ok [OF ok new_ok bound, of chain ds sel]
  show thesis
  proof (rule that [of ?rows])
    show "merge_coverage rows chain ds sel blks fin = Ok ?rows"
      using res by (simp add: merge_coverage_def ex_ok(1) flip: ex_def new_def)
    show "coverage_ok ?rows" using res by blast
    have "\<forall>sp\<in>set new. Safe \<le> sp_finality sp"
      using span_at_member(2) [OF _ new_ok] bound by blast
    then show "cov_level ?rows c d i x =
      (if c = chain \<and> d = ds \<and> i = sel \<and> int (br_start blks) \<le> x \<and> x \<le> int (br_end blks)
       then raised (cov_level rows c d i x) fin else cov_level rows c d i x)" for c d i x
      by (auto simp: cov_level_replace lvl)
  qed
qed

lemma merge_each_level:
  assumes "coverage_ok rows" and "range_ok blks" and "Safe \<le> fin" and "distinct ids"
  shows "\<exists>rows'. merge_each rows chain ds ids blks fin = Ok rows' \<and> coverage_ok rows' \<and>
    (\<forall>c d i x. cov_level rows' c d i x =
      (if c = chain \<and> d = ds \<and> i \<in> set ids \<and> int (br_start blks) \<le> x \<and> x \<le> int (br_end blks)
       then raised (cov_level rows c d i x) fin else cov_level rows c d i x))"
  using assms(1,4)
proof (induction ids arbitrary: rows)
  case (Cons j ids)
  obtain mid where mid: "merge_coverage rows chain ds j blks fin = Ok mid" "coverage_ok mid"
    and mid_lvl: "\<And>c d i x. cov_level mid c d i x =
      (if c = chain \<and> d = ds \<and> i = j \<and> int (br_start blks) \<le> x \<and> x \<le> int (br_end blks)
       then raised (cov_level rows c d i x) fin else cov_level rows c d i x)"
    using merge_coverage_level [OF Cons.prems(1) assms(2,3), of chain ds j] by metis
  obtain rows' where rows': "merge_each mid chain ds ids blks fin = Ok rows'" "coverage_ok rows'"
    and lvl: "\<forall>c d i x. cov_level rows' c d i x =
      (if c = chain \<and> d = ds \<and> i \<in> set ids \<and> int (br_start blks) \<le> x \<and> x \<le> int (br_end blks)
       then raised (cov_level mid c d i x) fin else cov_level mid c d i x)"
    using Cons.IH [OF mid(2)] Cons.prems(2) by auto
  have "cov_level rows' c d i x =
      (if c = chain \<and> d = ds \<and> i \<in> set (j # ids) \<and> int (br_start blks) \<le> x \<and> x \<le> int (br_end blks)
       then raised (cov_level rows c d i x) fin else cov_level rows c d i x)" for c d i x
    using Cons.prems(2) by (auto simp: lvl mid_lvl)
  with mid rows' show ?case by auto
qed simp

definition known_selectors :: "selectors_table \<Rightarrow> chain_id \<Rightarrow> dataset \<Rightarrow> selector_id list \<Rightarrow> bool" where
  "known_selectors t chain ds ids =
     (\<forall>i\<in>set ids. (\<exists>row\<in>set (st_rows t). sr_id row = i) \<and>
        (\<forall>row\<in>set (st_rows t). sr_id row = i \<longrightarrow> sr_chain row = chain \<and> sr_dataset row = dataset_as_str ds))"

lemma add_coverage_many_known:
  assumes "known_selectors t chain ds ids" and "Safe \<le> fin"
  shows "add_coverage_many t rows chain ds ids blks fin = merge_each rows chain ds (collect_set ids) blks fin"
proof -
  have "find (\<lambda>i. \<not> list_ex (\<lambda>row. sr_id row = i)
      (sort_key sr_id (filter (\<lambda>row. sr_id row \<in> set (collect_set ids)) (st_rows t)))) (collect_set ids) = None"
    using assms(1) by (fastforce simp: find_None_notin list_ex_iff known_selectors_def)
  moreover have "\<not> list_ex (\<lambda>row. sr_chain row \<noteq> chain \<or> sr_dataset row \<noteq> dataset_as_str ds)
      (sort_key sr_id (filter (\<lambda>row. sr_id row \<in> set (collect_set ids)) (st_rows t)))"
    using assms(1) by (fastforce simp: list_ex_iff known_selectors_def)
  moreover have "\<not> fin < Safe" using assms(2) by (simp add: linorder_not_less)
  ultimately show ?thesis by (auto simp: add_coverage_many_def Let_def collect_set_def)
qed

lemma distinct_collect_set [simp]: "distinct (collect_set xs)"
  by (simp add: collect_set_def)

text \<open>
  Adding coverage for durable blocks to known selectors always succeeds on a table the
  schema accepts (no insert meets a constraint), keeps the table acceptable, and raises the
  finality of exactly the added blocks of exactly the named selectors to the stronger of the
  recorded and the new one, so a recorded finality is never lowered.
\<close>
theorem add_coverage_many_raises:
  assumes "coverage_ok rows" and "range_ok blks" and "Safe \<le> fin" and "known_selectors t chain ds ids"
  shows "\<exists>rows'. add_coverage_many t rows chain ds ids blks fin = Ok rows' \<and> coverage_ok rows' \<and>
    (\<forall>c d i x. cov_level rows' c d i x =
      (if c = chain \<and> d = ds \<and> i \<in> set ids \<and> int (br_start blks) \<le> x \<and> x \<le> int (br_end blks)
       then raised (cov_level rows c d i x) fin else cov_level rows c d i x))"
  using merge_each_level [OF assms(1-3) distinct_collect_set] assms(4,3)
  by (simp add: add_coverage_many_known)

definition demo_selectors :: selectors_table where
  "demo_selectors = \<lparr>st_rows = [\<lparr>sr_id = 1, sr_chain = 1, sr_dataset = ''evm.logs'', sr_fingerprint = ''f'',
     sr_canonical_key = ''k'', sr_addresses = [], sr_topics = [], sr_last_used_at = 0\<rparr>], st_next_id = 2\<rparr>"

theorem add_coverage_many_raises_witness:
  "\<exists>rows'. add_coverage_many demo_selectors
       [\<lparr>cv_chain = 1, cv_dataset = ''evm.logs'', cv_selector = 1, cv_blocks = (0, 10), cv_finality = 3\<rparr>]
       1 EvmLogs [1] (rng 5 20) Safe = Ok rows' \<and>
     cov_level rows' 1 EvmLogs 1 7 = Some Finalized \<and> cov_level rows' 1 EvmLogs 1 15 = Some Safe"
proof -
  let ?rows = "[\<lparr>cv_chain = 1, cv_dataset = ''evm.logs'', cv_selector = 1, cv_blocks = (0, 10), cv_finality = 3\<rparr>]"
  have "coverage_ok ?rows" and "known_selectors demo_selectors 1 EvmLogs [1]" and "range_ok (rng 5 20)"
    by (simp_all add: coverage_ok_def i64_max_def known_selectors_def demo_selectors_def MAX_END_value)
  from add_coverage_many_raises [OF this(1) this(3) _ this(2), of Safe]
  obtain rows' where "add_coverage_many demo_selectors ?rows 1 EvmLogs [1] (rng 5 20) Safe = Ok rows'"
    and lvl: "\<forall>c d i x. cov_level rows' c d i x =
      (if c = 1 \<and> d = EvmLogs \<and> i \<in> set [1] \<and> int (br_start (rng 5 20)) \<le> x \<and> x \<le> int (br_end (rng 5 20))
       then raised (cov_level ?rows c d i x) Safe else cov_level ?rows c d i x)"
    by auto
  moreover have "cov_level ?rows 1 EvmLogs 1 7 = Some Finalized" and "cov_level ?rows 1 EvmLogs 1 15 = None"
    by (simp_all add: cov_level_def cv_key_def finality_from_i16_def)
  ultimately show ?thesis by (auto simp: raised_def max_def)
qed

text \<open>
  Merging a span into a selector's timeline gives the pointwise maximum of the two, as
  rows in block order that neither overlap nor could be joined.
\<close>
theorem merge_spans_pointwise:
  assumes "spans_ok existing" and "s < e"
  shows "spans_coalesced (merge_spans existing s e fin) \<and>
    (\<forall>x. span_at (merge_spans existing s e fin) x =
       (if s \<le> x \<and> x < e then raised (span_at existing x) fin else span_at existing x))"
  using merge_spans_inv [OF assms, of fin]
  by (auto simp: target_def merged_finality_def raised_def split: option.splits)

theorem merge_spans_pointwise_witness:
  "merge_spans [spn 0 10 Finalized, spn 10 20 Safe] 5 25 Safe = [spn 0 10 Finalized, spn 10 25 Safe] \<and>
   span_at (merge_spans [spn 0 10 Finalized, spn 10 20 Safe] 5 25 Safe) 7 = Some Finalized"
proof -
  have ok: "spans_ok [spn 0 10 Finalized, spn 10 20 Safe]" by (simp add: spans_ok_def)
  have "merge_spans [spn 0 10 Finalized, spn 10 20 Safe] 5 25 Safe = [spn 0 10 Finalized, spn 10 25 Safe]"
    by (simp add: merge_spans_def span_bounds_def collect_set_def windows2_def merge_step_def span_at_def
        merged_finality_def max_def)
  with merge_spans_pointwise [OF ok, of 5 25 Safe] show ?thesis
    by (simp add: raised_def span_at_def max_def)
qed

section \<open>Reading coverage\<close>

definition range_of_hspan :: "hspan \<Rightarrow> block_range" where
  "range_of_hspan h = rng (nat (fst h)) (nat (snd h - 1))"

lemma coalesced_starts_sorted: "coalesced rs \<Longrightarrow> sorted (map br_start rs)"
  by (induction rs) (auto simp: coalesced_Cons range_ok_def intro: less_imp_le order.strict_trans1)

lemma hspans_to_ranges:
  assumes "mr_ok ms" and "\<forall>x\<in>hset ms. 0 \<le> x \<and> x < i64_max"
  shows "map_ok (sort_key br_start) (try_map row_range ms) = Ok (map range_of_hspan ms)"
    and "coalesced (map range_of_hspan ms)"
    and "blocks_of (map range_of_hspan ms) = {b. int b \<in> hset ms}"
proof -
  have each: "0 \<le> fst h \<and> fst h < snd h \<and> snd h \<le> i64_max" if "h \<in> set ms" for h
  proof -
    have "fst h < snd h" using assms(1) that by (force simp: mr_ok_def list_all_iff)
    moreover from this have "fst h \<in> hset ms" and "snd h - 1 \<in> hset ms"
      using that by (auto simp: mem_hset)
    ultimately show ?thesis using assms(2) by force
  qed
  have "sorted_wrt (\<lambda>x y. snd x < fst y) ms" using assms(1) by (simp add: mr_ok_def)
  then have "sorted_wrt (\<lambda>x y. br_end (range_of_hspan x) + 1 < br_start (range_of_hspan y)) ms"
    by (rule sorted_wrt_mono_rel [rotated]) (use each in \<open>force simp: range_of_hspan_def\<close>)
  moreover have "range_ok (range_of_hspan h)" if "h \<in> set ms" for h
    using each [OF that] by (auto simp: range_of_hspan_def MAX_END_def i64_max_def)
  ultimately show co: "coalesced (map range_of_hspan ms)"
    by (auto simp: coalesced_def sorted_wrt_map list_all_iff)
  have "try_map row_range ms = Ok (map range_of_hspan ms)"
    using each by (intro try_map_Ok_map) (simp add: row_range_def range_of_hspan_def block_range_from_pg_half_open)
  then show "map_ok (sort_key br_start) (try_map row_range ms) = Ok (map range_of_hspan ms)"
    using coalesced_starts_sorted [OF co] by (simp add: sort_key_id_if_sorted)
  show "blocks_of (map range_of_hspan ms) = {b. int b \<in> hset ms}"
  proof (rule set_eqI)
    fix b
    have "b \<in> blocks (range_of_hspan h) \<longleftrightarrow> fst h \<le> int b \<and> int b < snd h" if "h \<in> set ms" for h
      using each [OF that] by (auto simp: range_of_hspan_def)
    then show "b \<in> blocks_of (map range_of_hspan ms) \<longleftrightarrow> b \<in> {b. int b \<in> hset ms}"
      by (simp add: blocks_of_def mem_hset)
  qed
qed

definition block_covered :: "coverage_row list \<Rightarrow> chain_id \<Rightarrow> dataset \<Rightarrow> selector_id list \<Rightarrow> u64 \<Rightarrow> bool" where
  "block_covered rows chain ds ids b = (\<exists>i\<in>set ids. cov_level rows chain ds i (int b) \<noteq> None)"

lemma cov_level_iff:
  "coverage_ok rows \<Longrightarrow> cov_level rows chain ds i x \<noteq> None \<longleftrightarrow> (\<exists>row\<in>set rows. row_holds chain ds i x row)"
  by (metis cov_level_None cov_level_Some not_None_eq)

lemma range_op_agg:
  fixes q :: block_range and ids :: "selector_id list" and ds :: dataset and chain :: chain_id
  assumes "coverage_ok rows"
  defines "agg \<equiv> range_agg (map cv_blocks (filter (\<lambda>row. cv_chain row = chain \<and> cv_dataset row = dataset_as_str ds \<and>
      cv_selector row \<in> set ids \<and> overlaps (cv_blocks row) (int (br_start q), int (br_end q) + 1)) rows))"
  shows "mr_ok agg" and "b \<in> blocks q \<Longrightarrow> int b \<in> hset agg \<longleftrightarrow> block_covered rows chain ds ids b"
proof -
  let ?rows = "filter (\<lambda>row. cv_chain row = chain \<and> cv_dataset row = dataset_as_str ds \<and>
      cv_selector row \<in> set ids \<and> overlaps (cv_blocks row) (int (br_start q), int (br_end q) + 1)) rows"
  have "list_all (\<lambda>(a, b). a < b) (map cv_blocks ?rows)"
    using assms(1) by (auto simp: coverage_ok_iff row_good_def list_all_iff case_prod_beta)
  from range_agg_ok [OF this] have agg: "mr_ok agg" "hset agg = hset (map cv_blocks ?rows)"
    by (simp_all only: agg_def)
  show "mr_ok agg" by (rule agg)
  assume b: "b \<in> blocks q"
  have "int b \<in> hset agg \<longleftrightarrow> (\<exists>row\<in>set ?rows. fst (cv_blocks row) \<le> int b \<and> int b < snd (cv_blocks row))"
    by (auto simp: agg mem_hset)
  also have "\<dots> \<longleftrightarrow> (\<exists>i\<in>set ids. \<exists>row\<in>set rows. row_holds chain ds i (int b) row)"
    using b by (force simp: row_holds_def cv_key_def overlaps_def)
  finally show "int b \<in> hset agg \<longleftrightarrow> block_covered rows chain ds ids b"
    by (simp only: block_covered_def cov_level_iff [OF assms(1)])
qed

lemma range_op_correct:
  assumes "coverage_ok rows" and "range_ok q"
  obtains rs where "range_op_rows rows chain ds ids q op = Ok rs" and "coalesced rs"
    and "blocks_of rs = {b \<in> blocks q. block_covered rows chain ds ids b = (op = CoveredOp)}"
proof -
  let ?lo = "int (br_start q)" and ?hi = "int (br_end q) + 1"
  define agg where "agg = range_agg (map cv_blocks (filter (\<lambda>row. cv_chain row = chain \<and>
      cv_dataset row = dataset_as_str ds \<and> cv_selector row \<in> set ids \<and> overlaps (cv_blocks row) (?lo, ?hi)) rows))"
  note agg = range_op_agg [OF assms(1), where chain = chain and ds = ds and ids = ids and q = q, folded agg_def]
  define ms where "ms = range_op_spans rows chain ds ids q op"
  have ms: "ms = (case op of CoveredOp \<Rightarrow> mr_clip ?lo ?hi agg | MissingOp \<Rightarrow> mr_gaps ?lo ?hi agg)"
    by (simp only: ms_def range_op_spans_def agg_def Let_def)
  have "mr_ok ms" using agg(1) by (cases op) (simp_all add: ms mr_clip_ok mr_gaps_ok)
  moreover have set: "hset ms = {x. ?lo \<le> x \<and> x < ?hi \<and> (x \<in> hset agg) = (op = CoveredOp)}"
    using agg(1) by (cases op) (auto simp: ms mr_clip_hset mr_gaps_hset)
  moreover have "\<forall>x\<in>hset ms. 0 \<le> x \<and> x < i64_max"
    using assms(2) by (auto simp: set range_ok_def MAX_END_def i64_max_def)
  moreover have "{b. int b \<in> hset ms} = {b \<in> blocks q. block_covered rows chain ds ids b = (op = CoveredOp)}"
    using agg(2) by (auto simp: set)
  ultimately show thesis
    using hspans_to_ranges [of ms] that by (simp add: range_op_rows_def ms_def)
qed

text \<open>
  Reading a range of a well-formed table always succeeds and splits it exactly: the
  covered and the missing blocks of a query come back as coalesced ascending ranges, a block
  of the query is in one of them and never in both, and it is covered iff some of the given
  selectors has a recorded finality there.
\<close>
theorem covered_missing_split:
  assumes "coverage_ok rows" and "range_ok q"
  shows "\<exists>cs ms. covered rows chain ds ids q = Ok cs \<and> missing rows chain ds ids q = Ok ms \<and>
    coalesced cs \<and> coalesced ms \<and>
    blocks_of cs = {b \<in> blocks q. block_covered rows chain ds ids b} \<and>
    blocks_of ms = blocks q - blocks_of cs"
proof -
  obtain cs where "covered rows chain ds ids q = Ok cs" "coalesced cs"
    "blocks_of cs = {b \<in> blocks q. block_covered rows chain ds ids b}"
    using range_op_correct [OF assms, of chain ds ids CoveredOp] by (auto simp: covered_def)
  moreover obtain ms where "missing rows chain ds ids q = Ok ms" "coalesced ms"
    "blocks_of ms = {b \<in> blocks q. \<not> block_covered rows chain ds ids b}"
    using range_op_correct [OF assms, of chain ds ids MissingOp] by (auto simp: missing_def)
  ultimately show ?thesis by blast
qed

theorem covered_missing_split_witness:
  "covered [\<lparr>cv_chain = 1, cv_dataset = ''evm.logs'', cv_selector = 1, cv_blocks = (3, 10), cv_finality = 3\<rparr>,
     \<lparr>cv_chain = 1, cv_dataset = ''evm.logs'', cv_selector = 2, cv_blocks = (10, 12), cv_finality = 2\<rparr>]
     1 EvmLogs [1, 2] (rng 0 20) = Ok [rng 3 11] \<and>
   (\<exists>ms. missing [\<lparr>cv_chain = 1, cv_dataset = ''evm.logs'', cv_selector = 1, cv_blocks = (3, 10), cv_finality = 3\<rparr>,
     \<lparr>cv_chain = 1, cv_dataset = ''evm.logs'', cv_selector = 2, cv_blocks = (10, 12), cv_finality = 2\<rparr>]
     1 EvmLogs [1, 2] (rng 0 20) = Ok ms \<and> blocks_of ms = {0..20} - {3..11})"
proof -
  let ?rows = "[\<lparr>cv_chain = 1, cv_dataset = ''evm.logs'', cv_selector = 1, cv_blocks = (3, 10), cv_finality = 3\<rparr>,
     \<lparr>cv_chain = 1, cv_dataset = ''evm.logs'', cv_selector = 2, cv_blocks = (10, 12), cv_finality = 2\<rparr>]"
  have ok: "coverage_ok ?rows" and q: "range_ok (rng 0 20)"
    by (simp_all add: coverage_ok_def i64_max_def cv_conflict_def MAX_END_value)
  have "covered ?rows 1 EvmLogs [1, 2] (rng 0 20) = Ok [rng 3 11]"
    by (simp add: covered_def range_op_rows_def range_op_spans_def range_agg_def overlaps_def mr_clip_def
        row_range_def block_range_from_pg_def range_new_def MAX_END_value)
  moreover have "blocks (rng 0 20) = {0..20}" and "blocks_of [rng 3 11] = {3..11}"
    by (auto simp: blocks_def)
  ultimately show ?thesis
    using covered_missing_split [OF ok q, of 1 EvmLogs "[1, 2]"] by (metis Inr_inject)
qed

section \<open>Coverage of a query\<close>

lemma intersect_ranges_simps:
  "intersect_ranges [] right = []"
  "intersect_ranges (a # left) right = List.map_filter (\<lambda>b. range_intersect a b) right @ intersect_ranges left right"
  by (simp_all add: intersect_ranges_def)

lemma map_filter_Cons: "List.map_filter f (x # xs) = (case f x of None \<Rightarrow> [] | Some y \<Rightarrow> [y]) @ List.map_filter f xs"
  by (simp add: List.map_filter_def split: option.splits)

lemma range_intersect_bounds:
  "range_intersect a b = Some c \<Longrightarrow> br_start a \<le> br_start c \<and> br_start b \<le> br_start c \<and>
     br_start c \<le> br_end c \<and> br_end c \<le> br_end a \<and> br_end c \<le> br_end b"
  by (auto simp: range_intersect_def Let_def split: if_splits)

lemma coalesced_append:
  "coalesced (xs @ ys) \<longleftrightarrow> coalesced xs \<and> coalesced ys \<and> (\<forall>x\<in>set xs. \<forall>y\<in>set ys. br_end x + 1 < br_start y)"
  by (auto simp: coalesced_def sorted_wrt_append)

lemma row_intersect:
  assumes "range_ok a" and "coalesced right"
  shows "coalesced (List.map_filter (\<lambda>b. range_intersect a b) right) \<and>
    blocks_of (List.map_filter (\<lambda>b. range_intersect a b) right) = blocks a \<inter> blocks_of right \<and>
    (\<forall>c\<in>set (List.map_filter (\<lambda>b. range_intersect a b) right). br_start a \<le> br_start c \<and> br_end c \<le> br_end a \<and>
       (\<exists>b\<in>set right. br_start b \<le> br_start c))"
  using assms(2)
proof (induction right)
  case (Cons b right)
  let ?tail = "List.map_filter (\<lambda>b. range_intersect a b) right"
  have IH: "coalesced ?tail" "blocks_of ?tail = blocks a \<inter> blocks_of right"
    "\<forall>c\<in>set ?tail. br_start a \<le> br_start c \<and> br_end c \<le> br_end a \<and> (\<exists>b\<in>set right. br_start b \<le> br_start c)"
    using Cons by (auto simp: coalesced_Cons)
  have far: "\<forall>c\<in>set ?tail. br_end b + 1 < br_start c"
    using IH(3) Cons.prems by (fastforce simp: coalesced_Cons)
  show ?case
  proof (cases "range_intersect a b")
    case None
    with IH range_intersect_None [of a b] show ?thesis by (auto simp: map_filter_Cons)
  next
    case (Some c)
    note c = range_intersect_bounds [OF Some] range_intersect_Some [OF Some]
    have "range_ok c" using c assms(1) by (auto simp: range_ok_def)
    moreover have "\<forall>d\<in>set ?tail. br_end c + 1 < br_start d" using far c by fastforce
    ultimately show ?thesis using IH c Some by (auto simp: map_filter_Cons coalesced_Cons)
  qed
qed (simp add: List.map_filter_def coalesced_def)

lemma intersect_ranges_correct:
  assumes "coalesced left" and "coalesced right"
  shows "coalesced (intersect_ranges left right) \<and>
    blocks_of (intersect_ranges left right) = blocks_of left \<inter> blocks_of right \<and>
    (\<forall>c\<in>set (intersect_ranges left right). \<exists>a\<in>set left. br_start a \<le> br_start c)"
  using assms(1)
proof (induction left)
  case (Cons a left)
  have a: "range_ok a" "coalesced left" "\<forall>s\<in>set left. br_end a + 1 < br_start s"
    using Cons.prems by (auto simp: coalesced_Cons)
  note row = row_intersect [OF a(1) assms(2)]
  note IH = Cons.IH [OF a(2)]
  have "\<forall>x\<in>set (List.map_filter (\<lambda>b. range_intersect a b) right).
      \<forall>y\<in>set (intersect_ranges left right). br_end x + 1 < br_start y"
    using row IH a(3) by (meson add_le_cancel_right le_trans order.strict_trans1 order.strict_trans2)
  then show ?case using row IH
    by (auto simp: intersect_ranges_simps coalesced_append)
qed (simp add: intersect_ranges_simps coalesced_def)

definition part_covered :: "selectors_table \<Rightarrow> coverage_row list \<Rightarrow> chain_id \<Rightarrow> log_selector \<Rightarrow> u64 \<Rightarrow> bool" where
  "part_covered t rows chain part b =
     (\<exists>i s. stored_log_selector t chain i s \<and> sel_covers s part \<and> cov_level rows chain EvmLogs i (int b) \<noteq> None)"

lemma covered_part_exact:
  assumes "coverage_ok rows" and "selectors_ok sha256 t" and "sel_ok part" and "range_ok q"
  obtains rs where "covered_part t rows chain part q = Ok rs" and "coalesced rs"
    and "blocks_of rs = {b \<in> blocks q. part_covered t rows chain part b}"
proof -
  obtain cands where c: "candidates_covering t chain part = Ok cands"
    "set cands = {(i, s). stored_log_selector t chain i s \<and> sel_covers s part}"
    by (rule candidates_covering_exact [OF assms(2,3)])
  then have "block_covered rows chain EvmLogs (map fst cands) b \<longleftrightarrow> part_covered t rows chain part b" for b
    by (fastforce simp: block_covered_def part_covered_def)
  moreover obtain rs where "covered rows chain EvmLogs (map fst cands) q = Ok rs" "coalesced rs"
    "blocks_of rs = {b \<in> blocks q. block_covered rows chain EvmLogs (map fst cands) b}"
    using range_op_correct [OF assms(1,4), of chain EvmLogs "map fst cands" CoveredOp] by (auto simp: covered_def)
  ultimately show thesis using that c by (simp add: covered_part_def)
qed

lemma split_by_address_nonempty: "split_by_address s \<noteq> []"
  by (simp add: split_by_address_def)

lemma covered_parts_exact:
  assumes "coverage_ok rows" and "selectors_ok sha256 t" and "range_ok q" and "\<forall>p\<in>set parts. sel_ok p"
    and "coalesced rs0"
  shows "\<exists>rs. covered_parts t rows chain parts q (Some rs0) = Ok (Some rs) \<and> coalesced rs \<and>
    blocks_of rs = {b \<in> blocks_of rs0. \<forall>p\<in>set parts. b \<in> blocks q \<and> part_covered t rows chain p b}"
  using assms(4,5)
proof (induction parts arbitrary: rs0)
  case (Cons p parts)
  obtain cov where cov: "covered_part t rows chain p q = Ok cov" "coalesced cov"
    "blocks_of cov = {b \<in> blocks q. part_covered t rows chain p b}"
    using covered_part_exact [OF assms(1,2) _ assms(3), of p chain] Cons.prems by auto
  note both = intersect_ranges_correct [OF Cons.prems(2) cov(2)]
  then obtain rs where "covered_parts t rows chain parts q (Some (intersect_ranges rs0 cov)) = Ok (Some rs)"
    "coalesced rs" "blocks_of rs = {b \<in> blocks_of (intersect_ranges rs0 cov).
       \<forall>p\<in>set parts. b \<in> blocks q \<and> part_covered t rows chain p b}"
    using Cons.IH [of "intersect_ranges rs0 cov"] Cons.prems(1) by auto
  with cov both show ?case by auto
qed simp

lemma covered_for_query_exact:
  assumes "coverage_ok rows" and "selectors_ok sha256 t" and "sel_ok query" and "range_ok q"
  obtains rs where "covered_for_query t rows chain query q = Ok rs" and "coalesced rs"
    and "blocks_of rs = {b \<in> blocks q. \<forall>p\<in>set (split_by_address query). part_covered t rows chain p b}"
proof -
  obtain p ps where parts: "split_by_address query = p # ps"
    by (metis neq_Nil_conv split_by_address_nonempty)
  then have ok: "sel_ok p" "\<forall>p\<in>set ps. sel_ok p" using split_by_address_ok [OF assms(3)] by auto
  obtain cov where cov: "covered_part t rows chain p q = Ok cov" "coalesced cov"
    "blocks_of cov = {b \<in> blocks q. part_covered t rows chain p b}"
    by (rule covered_part_exact [OF assms(1,2) ok(1) assms(4)])
  obtain rs where "covered_parts t rows chain ps q (Some cov) = Ok (Some rs)" "coalesced rs"
    "blocks_of rs = {b \<in> blocks_of cov. \<forall>p\<in>set ps. b \<in> blocks q \<and> part_covered t rows chain p b}"
    using covered_parts_exact [OF assms(1,2,4) ok(2) cov(2)] by blast
  with cov parts that show thesis by (auto simp: covered_for_query_def)
qed

lemma covered_for_query_logs:
  assumes "coverage_ok rows" and "selectors_ok sha256 t" and "sel_ok query" and "range_ok q"
  shows "\<exists>rs. covered_for_query t rows chain query q = Ok rs \<and> coalesced rs \<and> blocks_of rs \<subseteq> blocks q \<and>
    (\<forall>b\<in>blocks_of rs. \<forall>l. sel_matches query l \<longrightarrow>
       (\<exists>i s. stored_log_selector t chain i s \<and> sel_matches s l \<and> cov_level rows chain EvmLogs i (int b) \<noteq> None))"
proof -
  let ?parts = "split_by_address query"
  have parts: "\<forall>p\<in>set ?parts. sel_ok p" using split_by_address_ok [OF assms(3)] by blast
  obtain rs where rs: "covered_for_query t rows chain query q = Ok rs" "coalesced rs"
    "blocks_of rs = {b \<in> blocks q. \<forall>p\<in>set ?parts. part_covered t rows chain p b}"
    by (rule covered_for_query_exact [OF assms])
  have "\<exists>i s. stored_log_selector t chain i s \<and> sel_matches s l \<and> cov_level rows chain EvmLogs i (int b) \<noteq> None"
    if b: "b \<in> blocks_of rs" and l: "sel_matches query l" for b l
  proof -
    obtain p where p: "p \<in> set ?parts" "sel_matches p l"
      using l assms(3) split_matches by blast
    with b rs(3) obtain i s where "stored_log_selector t chain i s" "sel_covers s p"
      "cov_level rows chain EvmLogs i (int b) \<noteq> None" by (auto simp: part_covered_def)
    moreover from this p parts have "sel_matches s l"
      using sel.covers_sound by (auto simp: stored_log_selector_def)
    ultimately show ?thesis by blast
  qed
  then show ?thesis using rs by auto
qed



text \<open>
  The covered prefix a query may be answered from is the longest one: it starts at the
  query's first block, every block of it is covered, and it ends at the query's end or just
  before a block that is not covered; there is none exactly when the first block is not
  covered.
\<close>
theorem longest_covered_prefix_maximal:
  assumes "coalesced cov" and "range_ok q"
  shows "case longest_covered_prefix cov q of
      None \<Rightarrow> br_start q \<notin> blocks_of cov
    | Some p \<Rightarrow> br_start p = br_start q \<and> range_ok p \<and> blocks p \<subseteq> blocks_of cov \<inter> blocks q \<and>
        (br_end p = br_end q \<or> br_end p + 1 \<notin> blocks_of cov)"
proof (cases "find (\<lambda>r. range_contains r (br_start q)) cov")
  case None
  then have "longest_covered_prefix cov q = None" by (simp add: longest_covered_prefix_def)
  with None show ?thesis by (auto simp: find_None_notin range_contains_def mem_blocks_of)
next
  case (Some hit)
  then have hit: "hit \<in> set cov" "br_start hit \<le> br_start q" "br_start q \<le> br_end hit"
    by (auto dest!: find_Some_in simp: range_contains_def)
  let ?e = "min (br_end hit) (br_end q)"
  have res: "longest_covered_prefix cov q = Some (rng (br_start q) ?e)"
    using Some hit assms(2) by (auto simp: longest_covered_prefix_def range_simps range_ok_def)
  have "br_end hit + 1 \<notin> blocks_of cov"
  proof
    assume "br_end hit + 1 \<in> blocks_of cov"
    then obtain r where "r \<in> set cov" "br_start r \<le> br_end hit + 1" "br_end hit + 1 \<le> br_end r"
      by (auto simp: mem_blocks_of)
    moreover have "br_start hit \<le> br_end hit" using hit by simp
    ultimately show False using hit(1) assms(1) by (induction cov) (fastforce simp: coalesced_Cons)+
  qed
  moreover have "blocks (rng (br_start q) ?e) \<subseteq> blocks_of cov"
    using hit by (auto simp: mem_blocks_of intro!: bexI [of _ hit])
  ultimately show ?thesis using hit assms(2) by (auto simp: res range_ok_def min_def)
qed

theorem longest_covered_prefix_maximal_witness:
  "longest_covered_prefix [rng 0 4, rng 8 20] (rng 9 30) = Some (rng 9 20) \<and> 21 \<notin> blocks_of [rng 0 4, rng 8 20]"
proof -
  have "coalesced [rng 0 4, rng 8 20]" and "range_ok (rng 9 30)" by (simp_all add: coalesced_def MAX_END_value)
  moreover have "longest_covered_prefix [rng 0 4, rng 8 20] (rng 9 30) = Some (rng 9 20)"
    by (simp add: longest_covered_prefix_def range_contains_def range_new_def MAX_END_value)
  ultimately show ?thesis
    using longest_covered_prefix_maximal [of "[rng 0 4, rng 8 20]" "rng 9 30"] by simp
qed

end
