(* ===== verification/Jobs.thy ===== *)
theory Jobs
  imports Coverage Transition
begin

text \<open>
  Fill jobs, \<open>crates/store/src/jobs.rs\<close>. A job row is the \<open>Job\<close> of the source extended with
  the columns it leaves in the table; the table carries its id sequence and the ids it has
  notified on \<open>fill_done\<close>. Each function is one transaction at time \<open>now\<close> (milliseconds);
  \<open>locked\<close> are the rows that other transactions hold and \<open>skip locked\<close> passes over. Leases
  make a running job its worker's: the step relation at the end composes the operations of
  all sessions in any order.
\<close>

section \<open>Data\<close>

datatype job_purpose = JpQuery | JpBackfill

datatype job_status = JsPending | JsRunning | JsDone | JsFailed

fun purpose_as_str :: "job_purpose \<Rightarrow> string" where
  "purpose_as_str JpQuery = ''query''"
| "purpose_as_str JpBackfill = ''backfill''"

definition purpose_parse :: "string \<Rightarrow> (job_purpose, store_error) result" where
  "purpose_parse v =
     (if v = ''query'' then Ok JpQuery else if v = ''backfill'' then Ok JpBackfill
      else Err (StData (''unknown job purpose '' @ v)))"

fun status_as_str :: "job_status \<Rightarrow> string" where
  "status_as_str JsPending = ''pending''"
| "status_as_str JsRunning = ''running''"
| "status_as_str JsDone = ''done''"
| "status_as_str JsFailed = ''failed''"

definition status_parse :: "string \<Rightarrow> (job_status, store_error) result" where
  "status_parse v =
     (if v = ''pending'' then Ok JsPending else if v = ''running'' then Ok JsRunning
      else if v = ''done'' then Ok JsDone else if v = ''failed'' then Ok JsFailed
      else Err (StData (''unknown job status '' @ v)))"

definition status_all :: "job_status list" where
  "status_all = [JsPending, JsRunning, JsDone, JsFailed]"

definition is_terminal :: "job_status \<Rightarrow> bool" where
  "is_terminal s = (s = JsDone \<or> s = JsFailed)"

abbreviation active_status :: "job_status \<Rightarrow> bool" where
  "active_status s \<equiv> s = JsPending \<or> s = JsRunning"

text \<open>\<open>last_error\<close> is the JSON object the worker writes: its \<open>kind\<close> and \<open>message\<close>.\<close>

type_synonym error_json = "(string \<times> string) list"

record job =
  j_id :: job_id
  j_chain :: chain_id
  j_dataset :: dataset
  j_selector :: selector_id
  j_blocks :: block_range
  j_purpose :: job_purpose
  j_application :: string
  j_status :: job_status
  j_attempts :: i32
  j_worker :: "string option"
  j_lease_until :: "int option"

record job_row = job +
  j_next_run_at :: int
  j_last_error :: "error_json option"
  j_updated_at :: int

record jobs_table =
  jt_rows :: "job_row list"
  jt_next_id :: job_id
  jt_notified :: "job_id list"

record job_state =
  js_id :: job_id
  js_status :: job_status
  js_last_error :: "error_json option"

definition job_key :: "chain_id \<Rightarrow> dataset \<Rightarrow> selector_id \<Rightarrow> block_range \<Rightarrow> job_row \<Rightarrow> bool" where
  "job_key chain ds sel blks r =
     (j_chain r = chain \<and> j_dataset r = ds \<and> j_selector r = sel \<and> j_blocks r = blks)"

section \<open>Operations\<close>

definition notify_ids :: "jobs_table \<Rightarrow> job_id list \<Rightarrow> jobs_table" where
  "notify_ids t ids = t\<lparr>jt_notified := jt_notified t @ ids\<rparr>"

definition set_rows :: "jobs_table \<Rightarrow> (job_row \<Rightarrow> job_row) \<Rightarrow> jobs_table" where
  "set_rows t f = t\<lparr>jt_rows := map f (jt_rows t)\<rparr>"

text \<open>\<open>int8multirange(job.blocks) <@ (select range_agg ...)\<close>: the aggregate of no row is null,
  and null keeps the job pending.\<close>

definition chunk_covered :: "coverage_row list \<Rightarrow> job_row \<Rightarrow> bool" where
  "chunk_covered cov r =
     (let lo = int (br_start (j_blocks r)); hi = int (br_end (j_blocks r)) + 1;
          agg = range_agg (map cv_blocks (filter (\<lambda>c. cv_key (j_chain r) (j_dataset r) (j_selector r) c \<and>
            overlaps (cv_blocks c) (lo, hi)) cov))
      in list_ex (\<lambda>(a, b). a \<le> lo \<and> hi \<le> b) agg)"

definition new_job :: "int \<Rightarrow> job_id \<Rightarrow> chain_id \<Rightarrow> dataset \<Rightarrow> selector_id \<Rightarrow> block_range \<Rightarrow> job_purpose \<Rightarrow> string \<Rightarrow> job_row" where
  "new_job now i chain ds sel blks purpose app =
     \<lparr>j_id = i, j_chain = chain, j_dataset = ds, j_selector = sel, j_blocks = blks, j_purpose = purpose,
      j_application = app, j_status = JsPending, j_attempts = 0, j_worker = None, j_lease_until = None,
      j_next_run_at = now, j_last_error = None, j_updated_at = now\<rparr>"

definition has_active :: "jobs_table \<Rightarrow> chain_id \<Rightarrow> dataset \<Rightarrow> selector_id \<Rightarrow> block_range \<Rightarrow> bool" where
  "has_active t chain ds sel blks =
     list_ex (\<lambda>r. job_key chain ds sel blks r \<and> active_status (j_status r)) (jt_rows t)"

text \<open>One round of the retry loop. The sequence advances even when the insert conflicts.\<close>

definition enqueue_try ::
  "int \<Rightarrow> coverage_row list \<Rightarrow> jobs_table \<Rightarrow> chain_id \<Rightarrow> dataset \<Rightarrow> selector_id \<Rightarrow> block_range \<Rightarrow> job_purpose \<Rightarrow> string
     \<Rightarrow> job_id option \<times> jobs_table" where
  "enqueue_try now cov t chain ds sel blks purpose app =
     (let i = jt_next_id t; t1 = t\<lparr>jt_next_id := i + 1\<rparr> in
      if \<not> has_active t chain ds sel blks then
        let row = new_job now i chain ds sel blks purpose app in
        if chunk_covered cov row
        then (Some i, notify_ids (t1\<lparr>jt_rows := jt_rows t @ [row\<lparr>j_status := JsDone\<rparr>]\<rparr>) [i])
        else (Some i, t1\<lparr>jt_rows := jt_rows t @ [row]\<rparr>)
      else (list_max (map j_id (filter (job_key chain ds sel blks) (jt_rows t))), t1))"

fun enqueue_loop ::
  "nat \<Rightarrow> int \<Rightarrow> coverage_row list \<Rightarrow> jobs_table \<Rightarrow> chain_id \<Rightarrow> dataset \<Rightarrow> selector_id \<Rightarrow> block_range \<Rightarrow> job_purpose \<Rightarrow> string
     \<Rightarrow> (job_id, store_error) result \<times> jobs_table" where
  "enqueue_loop 0 now cov t chain ds sel blks purpose app =
     (Err (StNotFound (''fill job for BlockRange { start: '' @ dec (br_start blks) @ '', end: '' @ dec (br_end blks) @
        '' } vanished while enqueueing'')), t)"
| "enqueue_loop (Suc n) now cov t chain ds sel blks purpose app =
     (case enqueue_try now cov t chain ds sel blks purpose app of
        (Some i, t') \<Rightarrow> (Ok i, t')
      | (None, t') \<Rightarrow> enqueue_loop n now cov t' chain ds sel blks purpose app)"

definition enqueue ::
  "int \<Rightarrow> coverage_row list \<Rightarrow> jobs_table \<Rightarrow> chain_id \<Rightarrow> dataset \<Rightarrow> selector_id \<Rightarrow> block_range \<Rightarrow> job_purpose \<Rightarrow> string
     \<Rightarrow> (job_id, store_error) result \<times> jobs_table" where
  "enqueue = enqueue_loop 3"

definition active_job :: "jobs_table \<Rightarrow> chain_id \<Rightarrow> dataset \<Rightarrow> selector_id \<Rightarrow> block_range \<Rightarrow> job_id option" where
  "active_job t chain ds sel blks =
     map_option j_id (find (\<lambda>r. job_key chain ds sel blks r \<and> active_status (j_status r)) (jt_rows t))"

definition claimable :: "int \<Rightarrow> chain_id option \<Rightarrow> job_row \<Rightarrow> bool" where
  "claimable now chain r =
     (((j_status r = JsPending \<and> j_next_run_at r \<le> now) \<or>
       (j_status r = JsRunning \<and> (case j_lease_until r of None \<Rightarrow> False | Some l \<Rightarrow> l \<le> now))) \<and>
      (case chain of None \<Rightarrow> True | Some c \<Rightarrow> j_chain r = c))"

text \<open>\<open>order by (purpose = 'query') desc, next_run_at, id\<close>.\<close>

definition claim_key :: "job_row \<Rightarrow> nat \<times> int \<times> int" where
  "claim_key r = (if j_purpose r = JpQuery then 0 else 1, j_next_run_at r, j_id r)"

definition claim_ids :: "int \<Rightarrow> job_id list \<Rightarrow> u32 \<Rightarrow> chain_id option \<Rightarrow> jobs_table \<Rightarrow> job_id list" where
  "claim_ids now locked limit chain t =
     map j_id (take limit (sort_key claim_key
       (filter (\<lambda>r. claimable now chain r \<and> j_id r \<notin> set locked) (jt_rows t))))"

definition mark_running :: "int \<Rightarrow> string \<Rightarrow> int \<Rightarrow> job_row \<Rightarrow> job_row" where
  "mark_running now worker lease_until r =
     r\<lparr>j_status := JsRunning, j_worker := Some worker, j_lease_until := Some lease_until,
       j_attempts := j_attempts r + 1, j_updated_at := now\<rparr>"

definition update_ids :: "job_id list \<Rightarrow> (job_row \<Rightarrow> job_row) \<Rightarrow> jobs_table \<Rightarrow> jobs_table" where
  "update_ids ids f t = set_rows t (\<lambda>r. if j_id r \<in> set ids then f r else r)"

definition rows_with_ids :: "job_id list \<Rightarrow> jobs_table \<Rightarrow> job_row list" where
  "rows_with_ids ids t = filter (\<lambda>r. j_id r \<in> set ids) (jt_rows t)"

definition claim ::
  "int \<Rightarrow> job_id list \<Rightarrow> jobs_table \<Rightarrow> string \<Rightarrow> nat \<Rightarrow> u32 \<Rightarrow> chain_id option
     \<Rightarrow> (job list, store_error) result \<times> jobs_table" where
  "claim now locked t worker lease limit chain =
     (if limit = 0 then (Ok [], t)
      else case duration_millis lease of
        Inl e \<Rightarrow> (Err e, t)
      | Inr ms \<Rightarrow>
          let ids = claim_ids now locked limit chain t;
              t' = update_ids ids (mark_running now worker (now + ms)) t
          in (Ok (sort_key j_id (map job.truncate (rows_with_ids ids t'))), t'))"

definition sibling_ids :: "int \<Rightarrow> job_id list \<Rightarrow> u32 \<Rightarrow> job \<Rightarrow> jobs_table \<Rightarrow> job_id list" where
  "sibling_ids now locked limit jb t =
     map j_id (take limit (sort_key j_id
       (filter (\<lambda>r. j_chain r = j_chain jb \<and> j_dataset r = j_dataset jb \<and> j_blocks r = j_blocks jb \<and>
          j_status r = JsPending \<and> j_next_run_at r \<le> now \<and> j_id r \<noteq> j_id jb \<and> j_id r \<notin> set locked) (jt_rows t))))"

definition claim_batch_siblings ::
  "int \<Rightarrow> job_id list \<Rightarrow> jobs_table \<Rightarrow> job \<Rightarrow> u32 \<Rightarrow> (job list, store_error) result \<times> jobs_table" where
  "claim_batch_siblings now locked t jb limit =
     (case j_worker jb of
        None \<Rightarrow> (Err (StInvalidInput ''batch siblings are claimed by a running job''), t)
      | Some worker \<Rightarrow>
          (case j_lease_until jb of
             None \<Rightarrow> (Err (StInvalidInput ''running job is missing a lease''), t)
           | Some lease \<Rightarrow>
               if limit = 0 then (Ok [], t)
               else
                 let ids = sibling_ids now locked limit jb t;
                     t' = update_ids ids (mark_running now worker lease) t
                 in (Ok (sort_key (\<lambda>x. (j_selector x, j_id x)) (map job.truncate (rows_with_ids ids t'))), t')))"

definition held_by :: "string \<Rightarrow> job_row \<Rightarrow> bool" where
  "held_by worker r = (j_status r = JsRunning \<and> j_worker r = Some worker)"

definition held_ids :: "string \<Rightarrow> job_id list \<Rightarrow> jobs_table \<Rightarrow> job_id list" where
  "held_ids worker ids t = map j_id (filter (\<lambda>r. j_id r \<in> set ids \<and> held_by worker r) (jt_rows t))"

definition complete_jobs :: "int \<Rightarrow> jobs_table \<Rightarrow> string \<Rightarrow> job_id list \<Rightarrow> job_id list \<times> jobs_table" where
  "complete_jobs now t worker ids =
     (if ids = [] then ([], t)
      else
        let finished = held_ids worker ids t;
            t' = update_ids finished (\<lambda>r. r\<lparr>j_status := JsDone, j_worker := None, j_lease_until := None,
                   j_updated_at := now\<rparr>) t
        in (sort finished, notify_ids t' finished))"

definition fail_job ::
  "int \<Rightarrow> jobs_table \<Rightarrow> job_id \<Rightarrow> string \<Rightarrow> error_json \<Rightarrow> bool \<Rightarrow> nat \<Rightarrow> (bool, store_error) result \<times> jobs_table" where
  "fail_job now t i worker err retryable backoff =
     (case duration_millis backoff of
        Inl e \<Rightarrow> (Err e, t)
      | Inr ms \<Rightarrow>
          let updated = held_ids worker [i] t;
              t' = update_ids updated (\<lambda>r. r\<lparr>j_status := (if retryable then JsPending else JsFailed),
                     j_last_error := Some err, j_worker := None, j_lease_until := None,
                     j_next_run_at := (if retryable then now + ms else j_next_run_at r), j_updated_at := now\<rparr>) t
          in if updated = [] then (Ok False, t)
             else (Ok True, if \<not> retryable then notify_ids t' [i] else t'))"

definition extend_lease ::
  "int \<Rightarrow> jobs_table \<Rightarrow> string \<Rightarrow> job_id list \<Rightarrow> nat \<Rightarrow> (job_id list, store_error) result \<times> jobs_table" where
  "extend_lease now t worker ids lease =
     (if ids = [] then (Ok [], t)
      else case duration_millis lease of
        Inl e \<Rightarrow> (Err e, t)
      | Inr ms \<Rightarrow>
          let kept = held_ids worker ids t
          in (Ok (sort kept),
              update_ids kept (\<lambda>r. r\<lparr>j_lease_until := Some (now + ms), j_updated_at := now\<rparr>) t))"

definition job_status_of :: "jobs_table \<Rightarrow> job_id list \<Rightarrow> job_state list" where
  "job_status_of t ids =
     List.map_filter (\<lambda>i. map_option (\<lambda>r. \<lparr>js_id = i, js_status = j_status r, js_last_error = j_last_error r\<rparr>)
       (find (\<lambda>r. j_id r = i) (jt_rows t))) ids"

text \<open>The reread of \<open>wait_done\<close>: \<open>None\<close> while some job is still active.\<close>

definition wait_done_check :: "jobs_table \<Rightarrow> job_id list \<Rightarrow> (job_state list option, store_error) result" where
  "wait_done_check t ids =
     (let states = job_status_of t ids in
      if length states \<noteq> length ids then Err (StNotFound ''fill job not found'')
      else Ok (if list_all (\<lambda>s. is_terminal (js_status s)) states then Some states else None))"

definition list_jobs :: "jobs_table \<Rightarrow> job_status option \<Rightarrow> u32 \<Rightarrow> (job \<times> error_json option) list" where
  "list_jobs t status limit =
     map (\<lambda>r. (job.truncate r, j_last_error r))
       (take limit (rev (sort_key (\<lambda>r. (j_updated_at r, j_id r))
         (filter (\<lambda>r. case status of None \<Rightarrow> True | Some s \<Rightarrow> j_status r = s) (jt_rows t)))))"

definition job_counts :: "jobs_table \<Rightarrow> (job_status \<times> i64) list" where
  "job_counts t = map (\<lambda>s. (s, int (length (filter (\<lambda>r. j_status r = s) (jt_rows t))))) status_all"

definition prune_status ::
  "int \<Rightarrow> jobs_table \<Rightarrow> job_status \<Rightarrow> nat \<Rightarrow> (u64, store_error) result \<times> jobs_table" where
  "prune_status now t status older_than =
     (case duration_millis older_than of
        Inl e \<Rightarrow> (Err e, t)
      | Inr ms \<Rightarrow>
          let gone = filter (\<lambda>r. j_status r = status \<and> j_updated_at r \<le> now - ms) (jt_rows t)
          in (Ok (length gone),
              t\<lparr>jt_rows := filter (\<lambda>r. \<not> (j_status r = status \<and> j_updated_at r \<le> now - ms)) (jt_rows t)\<rparr>))"

definition prune_done :: "int \<Rightarrow> jobs_table \<Rightarrow> nat \<Rightarrow> (u64, store_error) result \<times> jobs_table" where
  "prune_done now t older_than = prune_status now t JsDone older_than"

definition prune_failed :: "int \<Rightarrow> jobs_table \<Rightarrow> nat \<Rightarrow> (u64, store_error) result \<times> jobs_table" where
  "prune_failed now t older_than = prune_status now t JsFailed older_than"

section \<open>The invariant\<close>

definition row_wf :: "job_row \<Rightarrow> bool" where
  "row_wf r = ((j_worker r \<noteq> None) = (j_status r = JsRunning) \<and> (j_lease_until r \<noteq> None) = (j_status r = JsRunning))"

definition same_chunk :: "job_row \<Rightarrow> job_row \<Rightarrow> bool" where
  "same_chunk a b = job_key (j_chain a) (j_dataset a) (j_selector a) (j_blocks a) b"

text \<open>Ids are distinct and below the sequence, a row has a worker and a lease exactly while it
  runs, and an active job is the youngest job of its chunk, hence its only active one.\<close>

definition jobs_inv :: "jobs_table \<Rightarrow> bool" where
  "jobs_inv t =
     (distinct (map j_id (jt_rows t)) \<and> (\<forall>r\<in>set (jt_rows t). j_id r < jt_next_id t \<and> row_wf r) \<and>
      (\<forall>a\<in>set (jt_rows t). \<forall>b\<in>set (jt_rows t). same_chunk a b \<and> active_status (j_status a) \<longrightarrow> j_id b \<le> j_id a))"

lemma rows_by_id:
  "jobs_inv t \<Longrightarrow> a \<in> set (jt_rows t) \<Longrightarrow> b \<in> set (jt_rows t) \<Longrightarrow> j_id a = j_id b \<Longrightarrow> a = b"
  by (auto simp: jobs_inv_def distinct_map inj_on_def)

lemma same_chunk_sym: "same_chunk a b \<Longrightarrow> same_chunk b a"
  by (simp add: same_chunk_def job_key_def)

lemma active_unique:
  assumes "jobs_inv t" and "a \<in> set (jt_rows t)" and "b \<in> set (jt_rows t)" and "same_chunk a b"
    and "active_status (j_status a)" and "active_status (j_status b)"
  shows "a = b"
proof -
  have "j_id b \<le> j_id a" and "j_id a \<le> j_id b"
    using assms same_chunk_sym [OF assms(4)] by (auto simp: jobs_inv_def)
  then show ?thesis using rows_by_id [OF assms(1-3)] by simp
qed

text \<open>An update of selected rows that keeps their identity, revives none and leaves them well formed.\<close>

definition good_update :: "(job_row \<Rightarrow> job_row) \<Rightarrow> job_row \<Rightarrow> bool" where
  "good_update f r =
     (j_id (f r) = j_id r \<and> same_chunk r (f r) \<and> row_wf (f r) \<and>
      (active_status (j_status (f r)) \<longrightarrow> active_status (j_status r)))"

lemma update_ids_inv:
  assumes inv: "jobs_inv t" and good: "\<And>r. r \<in> set (jt_rows t) \<Longrightarrow> j_id r \<in> set ids \<Longrightarrow> good_update f r"
  shows "jobs_inv (update_ids ids f t)"
proof -
  define g where "g r = (if j_id r \<in> set ids then f r else r)" for r
  have rows: "jt_rows (update_ids ids f t) = map g (jt_rows t)" and nid: "jt_next_id (update_ids ids f t) = jt_next_id t"
    by (simp_all add: update_ids_def set_rows_def g_def [abs_def])
  have g: "good_update g r" if "r \<in> set (jt_rows t)" for r
    using good [OF that] inv that by (auto simp: g_def good_update_def jobs_inv_def same_chunk_def job_key_def)
  then have ids: "map j_id (map g (jt_rows t)) = map j_id (jt_rows t)"
    by (simp add: good_update_def)
  have young: "j_id (g b) \<le> j_id (g a)"
    if "a \<in> set (jt_rows t)" "b \<in> set (jt_rows t)" "same_chunk (g a) (g b)" "active_status (j_status (g a))" for a b
    using inv that g [of a] g [of b] by (auto simp: jobs_inv_def good_update_def same_chunk_def job_key_def)
  show ?thesis
    unfolding jobs_inv_def rows nid ids using inv g young
    by (auto simp: jobs_inv_def good_update_def)
qed

lemma filter_rows_inv: "jobs_inv t \<Longrightarrow> jobs_inv (t\<lparr>jt_rows := filter P (jt_rows t)\<rparr>)"
  by (auto simp: jobs_inv_def distinct_map_filter)

lemma notify_ids_inv [simp]: "jobs_inv (notify_ids t ids) = jobs_inv t"
  by (simp add: jobs_inv_def notify_ids_def)

lemma next_id_inv: "jobs_inv t \<Longrightarrow> jobs_inv (t\<lparr>jt_next_id := jt_next_id t + 1\<rparr>)"
  by (force simp: jobs_inv_def)

lemma insert_row_inv:
  assumes "jobs_inv t" and "j_id row = jt_next_id t" and "row_wf row"
    and none: "\<And>r. r \<in> set (jt_rows t) \<Longrightarrow> same_chunk row r \<Longrightarrow> \<not> active_status (j_status r)"
  shows "jobs_inv (t\<lparr>jt_next_id := jt_next_id t + 1, jt_rows := jt_rows t @ [row]\<rparr>)"
proof -
  have "j_id b \<le> j_id a" if "a \<in> set (jt_rows t @ [row])" "b \<in> set (jt_rows t @ [row])" "same_chunk a b"
      "active_status (j_status a)" for a b
    using assms(1,2) that none [of a] same_chunk_sym [of a b]
    by (force simp: jobs_inv_def)
  moreover have "j_id row \<notin> j_id ` set (jt_rows t)" using assms(1,2) by (auto simp: jobs_inv_def)
  ultimately show ?thesis using assms(1-3) by (fastforce simp: jobs_inv_def)
qed

lemma enqueue_try_inv:
  assumes "jobs_inv t"
  shows "jobs_inv (snd (enqueue_try now cov t chain ds sel blks purpose app))"
proof (cases "has_active t chain ds sel blks")
  case True
  then show ?thesis using next_id_inv [OF assms] by (simp add: enqueue_try_def Let_def)
next
  case False
  define row where "row st = (new_job now (jt_next_id t) chain ds sel blks purpose app)\<lparr>j_status := st\<rparr>" for st
  have none: "\<not> active_status (j_status r)" if "r \<in> set (jt_rows t)" "same_chunk (row st) r" for r st
    using False that by (auto simp: has_active_def list_ex_iff row_def same_chunk_def new_job_def)
  have ins: "jobs_inv (t\<lparr>jt_next_id := jt_next_id t + 1, jt_rows := jt_rows t @ [row st]\<rparr>)" if "st \<noteq> JsRunning" for st
    using that by (intro insert_row_inv [OF assms] none) (auto simp: row_def new_job_def row_wf_def)
  have pend: "row JsPending = new_job now (jt_next_id t) chain ds sel blks purpose app"
    by (simp add: row_def new_job_def)
  show ?thesis
    using False ins [of JsDone] ins [of JsPending, unfolded pend]
    by (simp add: enqueue_try_def Let_def row_def)
qed

lemma active_list_max:
  assumes "has_active t chain ds sel blks"
  shows "\<exists>i. list_max (map j_id (filter (job_key chain ds sel blks) (jt_rows t))) = Some i"
proof -
  have "filter (job_key chain ds sel blks) (jt_rows t) \<noteq> []"
    using assms by (auto simp: has_active_def list_ex_iff filter_empty_conv)
  then show ?thesis by (metis list_max_None map_is_Nil_conv not_None_eq)
qed

lemma enqueue_first_round:
  obtains i t' where "enqueue_try now cov t chain ds sel blks purpose app = (Some i, t')"
    and "enqueue now cov t chain ds sel blks purpose app = (Ok i, t')"
proof (cases "has_active t chain ds sel blks")
  case True
  then obtain i where "list_max (map j_id (filter (job_key chain ds sel blks) (jt_rows t))) = Some i"
    using active_list_max by blast
  with True show thesis
    by (intro that) (auto simp: enqueue_def enqueue_try_def Let_def numeral_3_eq_3)
next
  case False
  then show thesis
    by (cases "chunk_covered cov (new_job now (jt_next_id t) chain ds sel blks purpose app)")
      (auto simp: enqueue_def enqueue_try_def Let_def numeral_3_eq_3 intro: that)
qed

lemma enqueue_inv [step_inv]:
  "jobs_inv t \<Longrightarrow> jobs_inv (snd (enqueue now cov t chain ds sel blks purpose app))"
  by (metis enqueue_first_round enqueue_try_inv snd_conv)

lemma claim_ids_claimable:
  assumes "jobs_inv t" and "r \<in> set (jt_rows t)" and "j_id r \<in> set (claim_ids now locked limit chain t)"
  shows "claimable now chain r \<and> j_id r \<notin> set locked"
proof -
  from assms(3) obtain r' where r': "r' \<in> set (jt_rows t)" "claimable now chain r'" "j_id r' \<notin> set locked" "j_id r' = j_id r"
    by (auto simp: claim_ids_def dest!: in_set_takeD)
  with rows_by_id [OF assms(1) r'(1) assms(2)] show ?thesis by simp
qed

lemma sibling_ids_pending:
  assumes "jobs_inv t" and "r \<in> set (jt_rows t)" and "j_id r \<in> set (sibling_ids now locked limit jb t)"
  shows "j_status r = JsPending \<and> j_next_run_at r \<le> now \<and> j_chain r = j_chain jb \<and> j_dataset r = j_dataset jb \<and>
    j_blocks r = j_blocks jb \<and> j_id r \<noteq> j_id jb"
proof -
  from assms(3) obtain r' where r': "r' \<in> set (jt_rows t)" "j_status r' = JsPending" "j_next_run_at r' \<le> now"
    "j_chain r' = j_chain jb" "j_dataset r' = j_dataset jb" "j_blocks r' = j_blocks jb" "j_id r' \<noteq> j_id jb" "j_id r' = j_id r"
    by (auto simp: sibling_ids_def dest!: in_set_takeD)
  with rows_by_id [OF assms(1) r'(1) assms(2)] show ?thesis by simp
qed

lemma held_ids_held:
  assumes "jobs_inv t" and "r \<in> set (jt_rows t)" and "j_id r \<in> set (held_ids worker ids t)"
  shows "held_by worker r \<and> j_id r \<in> set ids"
proof -
  from assms(3) obtain r' where r': "r' \<in> set (jt_rows t)" "held_by worker r'" "j_id r' \<in> set ids" "j_id r' = j_id r"
    by (auto simp: held_ids_def)
  with rows_by_id [OF assms(1) r'(1) assms(2)] show ?thesis by simp
qed

lemma mark_running_good: "active_status (j_status r) \<Longrightarrow> good_update (mark_running now worker l) r"
  by (auto simp: good_update_def mark_running_def same_chunk_def job_key_def row_wf_def)

lemma claim_inv [step_inv]:
  assumes "jobs_inv t"
  shows "jobs_inv (snd (claim now locked t worker lease limit chain))"
proof -
  have "active_status (j_status r)" if "r \<in> set (jt_rows t)" "j_id r \<in> set (claim_ids now locked limit chain t)" for r
    using claim_ids_claimable [OF assms that] by (auto simp: claimable_def)
  then have "jobs_inv (update_ids (claim_ids now locked limit chain t) (mark_running now worker l) t)" for l
    by (intro update_ids_inv [OF assms] mark_running_good)
  with assms show ?thesis by (auto simp: claim_def Let_def split: sum.splits)
qed

lemma claim_batch_siblings_inv [step_inv]:
  assumes "jobs_inv t"
  shows "jobs_inv (snd (claim_batch_siblings now locked t jb limit))"
proof -
  have "jobs_inv (update_ids (sibling_ids now locked limit jb t) (mark_running now worker l) t)" for worker l
    using sibling_ids_pending [OF assms] by (intro update_ids_inv [OF assms] mark_running_good) blast
  with assms show ?thesis by (auto simp: claim_batch_siblings_def Let_def split: option.splits)
qed

lemma held_update_inv:
  assumes "jobs_inv t" and "\<And>r. held_by worker r \<Longrightarrow> good_update f r"
  shows "jobs_inv (update_ids (held_ids worker ids t) f t)"
  using held_ids_held [OF assms(1)] by (intro update_ids_inv [OF assms(1)] assms(2)) blast

lemmas held_update_defs = good_update_def same_chunk_def job_key_def row_wf_def held_by_def

lemma complete_jobs_inv [step_inv]:
  assumes "jobs_inv t"
  shows "jobs_inv (snd (complete_jobs now t worker ids))"
proof -
  have "jobs_inv (update_ids (held_ids worker ids t)
      (\<lambda>r. r\<lparr>j_status := JsDone, j_worker := None, j_lease_until := None, j_updated_at := now\<rparr>) t)"
    by (rule held_update_inv [OF assms]) (simp add: held_update_defs)
  with assms show ?thesis by (simp add: complete_jobs_def Let_def)
qed

lemma fail_job_inv [step_inv]:
  assumes "jobs_inv t"
  shows "jobs_inv (snd (fail_job now t i worker err retryable backoff))"
proof -
  have "jobs_inv (update_ids (held_ids worker [i] t)
      (\<lambda>r. r\<lparr>j_status := (if retryable then JsPending else JsFailed), j_last_error := Some err, j_worker := None,
        j_lease_until := None, j_next_run_at := (if retryable then now + ms else j_next_run_at r), j_updated_at := now\<rparr>) t)" for ms
    by (rule held_update_inv [OF assms]) (simp add: held_update_defs)
  with assms show ?thesis by (auto simp: fail_job_def Let_def split: sum.splits)
qed

lemma extend_lease_inv [step_inv]:
  assumes "jobs_inv t"
  shows "jobs_inv (snd (extend_lease now t worker ids lease))"
proof -
  have "jobs_inv (update_ids (held_ids worker ids t)
      (\<lambda>r. r\<lparr>j_lease_until := Some (now + ms), j_updated_at := now\<rparr>) t)" for ms
  proof (rule update_ids_inv [OF assms])
    fix r
    assume r: "r \<in> set (jt_rows t)" "j_id r \<in> set (held_ids worker ids t)"
    then have "held_by worker r" and "row_wf r" using held_ids_held [OF assms r] assms by (auto simp: jobs_inv_def)
    then show "good_update (\<lambda>r. r\<lparr>j_lease_until := Some (now + ms), j_updated_at := now\<rparr>) r"
      by (simp add: held_update_defs)
  qed
  with assms show ?thesis by (auto simp: extend_lease_def Let_def split: sum.splits)
qed

lemma prune_status_inv [step_inv]: "jobs_inv t \<Longrightarrow> jobs_inv (snd (prune_status now t status older_than))"
  by (auto simp: prune_status_def Let_def split: sum.splits intro: filter_rows_inv)

section \<open>All sessions in any order\<close>

inductive job_step :: "jobs_table \<Rightarrow> jobs_table \<Rightarrow> bool" where
  s_enq: "job_step t (snd (enqueue now cov t chain ds sel blks purpose app))"
| s_clm: "job_step t (snd (claim now locked t worker lease limit chain_filter))"
| s_sib: "job_step t (snd (claim_batch_siblings now locked t jb limit))"
| s_cmp: "job_step t (snd (complete_jobs now t worker ids))"
| s_fai: "job_step t (snd (fail_job now t i worker err retryable backoff))"
| s_ext: "job_step t (snd (extend_lease now t worker ids lease))"
| s_prd: "job_step t (snd (prune_done now t older_than))"
| s_prf: "job_step t (snd (prune_failed now t older_than))"

inductive_cases job_stepE: "job_step t t'"

definition jobs_empty :: "jobs_table \<Rightarrow> bool" where
  "jobs_empty t = (jt_rows t = [])"

text \<open>The steps of others while a worker's lease on \<open>row\<close> has not expired: any operation at a
  time before the lease ends, with completion, failure and extension by other workers only.\<close>

inductive foreign_step :: "job_row \<Rightarrow> jobs_table \<Rightarrow> jobs_table \<Rightarrow> bool" for row where
  f_enq: "foreign_step row t (snd (enqueue now cov t chain ds sel blks purpose app))"
| f_clm: "j_lease_until row = Some l \<Longrightarrow> now < l \<Longrightarrow>
     foreign_step row t (snd (claim now locked t worker lease limit chain_filter))"
| f_sib: "foreign_step row t (snd (claim_batch_siblings now locked t jb limit))"
| f_cmp: "j_worker row \<noteq> Some worker \<Longrightarrow> foreign_step row t (snd (complete_jobs now t worker ids))"
| f_fai: "j_worker row \<noteq> Some worker \<Longrightarrow> foreign_step row t (snd (fail_job now t i worker err retryable backoff))"
| f_ext: "j_worker row \<noteq> Some worker \<Longrightarrow> foreign_step row t (snd (extend_lease now t worker ids lease))"
| f_prd: "foreign_step row t (snd (prune_done now t older_than))"
| f_prf: "foreign_step row t (snd (prune_failed now t older_than))"

definition leased :: "job_row \<Rightarrow> jobs_table \<Rightarrow> bool" where
  "leased row t = (row \<in> set (jt_rows t) \<and> j_status row = JsRunning)"

lemma update_ids_keeps: "row \<in> set (jt_rows t) \<Longrightarrow> j_id row \<notin> set ids \<Longrightarrow> row \<in> set (jt_rows (update_ids ids f t))"
  by (force simp: update_ids_def set_rows_def)

lemma rows_notify_ids [simp]: "jt_rows (notify_ids t ids) = jt_rows t"
  by (simp add: notify_ids_def)

lemma leased_enqueue: "leased row t \<Longrightarrow> leased row (snd (enqueue now cov t chain ds sel blks purpose app))"
proof -
  assume "leased row t"
  moreover obtain i t' where "enqueue_try now cov t chain ds sel blks purpose app = (Some i, t')"
    "enqueue now cov t chain ds sel blks purpose app = (Ok i, t')" by (rule enqueue_first_round)
  moreover have "set (jt_rows t) \<subseteq> set (jt_rows (snd (enqueue_try now cov t chain ds sel blks purpose app)))"
    by (auto simp: enqueue_try_def Let_def)
  ultimately show ?thesis by (auto simp: leased_def)
qed

lemma leased_prune: "leased row t \<Longrightarrow> status \<noteq> JsRunning \<Longrightarrow> leased row (snd (prune_status now t status older_than))"
  by (auto simp: leased_def prune_status_def Let_def split: sum.splits)

lemma leased_claim:
  assumes "jobs_inv t" and "leased row t" and "j_lease_until row = Some l" and "now < l"
  shows "leased row (snd (claim now locked t worker lease limit chain))"
proof -
  have "\<not> claimable now chain row" using assms(2-4) by (auto simp: claimable_def leased_def)
  then have "j_id row \<notin> set (claim_ids now locked limit chain t)"
    using claim_ids_claimable [OF assms(1)] assms(2) by (auto simp: leased_def)
  then show ?thesis
    using assms(2) by (auto simp: leased_def claim_def Let_def split: sum.splits intro: update_ids_keeps)
qed

lemma leased_siblings:
  assumes "jobs_inv t" and "leased row t"
  shows "leased row (snd (claim_batch_siblings now locked t jb limit))"
proof -
  have "j_id row \<notin> set (sibling_ids now locked limit jb t)"
    using sibling_ids_pending [OF assms(1)] assms(2) by (fastforce simp: leased_def)
  then show ?thesis
    using assms(2) by (auto simp: leased_def claim_batch_siblings_def Let_def split: option.splits intro: update_ids_keeps)
qed

lemma leased_other_worker:
  assumes "jobs_inv t" and "leased row t" and "j_worker row \<noteq> Some worker"
  shows "leased row (snd (complete_jobs now t worker ids))"
    and "leased row (snd (fail_job now t i worker err retryable backoff))"
    and "leased row (snd (extend_lease now t worker ids lease))"
proof -
  have "j_id row \<notin> set (held_ids worker ids t)" for ids
    using held_ids_held [OF assms(1)] assms(2,3) by (auto simp: leased_def held_by_def)
  then show "leased row (snd (complete_jobs now t worker ids))"
    and "leased row (snd (fail_job now t i worker err retryable backoff))"
    and "leased row (snd (extend_lease now t worker ids lease))"
    using assms(2) by (auto simp: leased_def complete_jobs_def fail_job_def extend_lease_def Let_def
        split: sum.splits intro: update_ids_keeps)
qed

interpretation jobs: owned_system jobs_empty job_step jobs_inv foreign_step leased
proof
  fix s t :: jobs_table and row
  show "jobs_empty s \<Longrightarrow> jobs_inv s" by (simp add: jobs_empty_def jobs_inv_def)
  show "jobs_inv s \<Longrightarrow> job_step s t \<Longrightarrow> jobs_inv t"
    by (auto elim!: job_stepE simp: prune_done_def prune_failed_def intro: step_inv)
  show "foreign_step row s t \<Longrightarrow> job_step s t"
    by (cases rule: foreign_step.cases) (auto intro: job_step.intros)
  show "jobs_inv s \<Longrightarrow> leased row s \<Longrightarrow> foreign_step row s t \<Longrightarrow> leased row t"
    by (cases rule: foreign_step.cases)
      (auto simp: prune_done_def prune_failed_def
        intro: leased_enqueue leased_claim leased_siblings leased_other_worker leased_prune)
qed

text \<open>
  C31. In every state the sessions can reach from an empty table, a chunk of a selector has
  at most one pending or running job, ids are unique, and a job has a worker and a lease
  exactly while it runs.
\<close>
theorem one_active_job_per_chunk:
  assumes "jobs_empty s" and "job_step\<^sup>*\<^sup>* s t"
  shows "distinct (map j_id (jt_rows t)) \<and>
    (\<forall>a\<in>set (jt_rows t). \<forall>b\<in>set (jt_rows t).
       same_chunk a b \<and> active_status (j_status a) \<and> active_status (j_status b) \<longrightarrow> a = b) \<and>
    (\<forall>r\<in>set (jt_rows t). (j_worker r \<noteq> None) = (j_status r = JsRunning) \<and>
       (j_lease_until r \<noteq> None) = (j_status r = JsRunning))"
proof -
  have inv: "jobs_inv t" by (rule jobs.reachable_inv [OF assms])
  then have "a = b" if "a \<in> set (jt_rows t)" "b \<in> set (jt_rows t)" "same_chunk a b" "active_status (j_status a)"
      "active_status (j_status b)" for a b
    using that active_unique by blast
  with inv show ?thesis by (auto simp: jobs_inv_def row_wf_def)
qed

definition demo_jobs :: jobs_table where
  "demo_jobs = \<lparr>jt_rows = [], jt_next_id = 1, jt_notified = []\<rparr>"

theorem one_active_job_per_chunk_witness:
  "let t1 = snd (enqueue 0 [] demo_jobs 1 EvmLogs 1 (rng 0 9) JpQuery ''a'');
       t2 = snd (enqueue 5 [] t1 1 EvmLogs 1 (rng 0 9) JpBackfill ''b'')
   in map j_id (jt_rows t2) = [1] \<and> distinct (map j_id (jt_rows t2))"
proof -
  define t1 where "t1 = snd (enqueue 0 [] demo_jobs 1 EvmLogs 1 (rng 0 9) JpQuery ''a'')"
  define t2 where "t2 = snd (enqueue 5 [] t1 1 EvmLogs 1 (rng 0 9) JpBackfill ''b'')"
  have "job_step demo_jobs t1" and "job_step t1 t2" unfolding t1_def t2_def by (rule s_enq)+
  then have "job_step\<^sup>*\<^sup>* demo_jobs t2" by simp
  moreover have "jobs_empty demo_jobs" by (simp add: jobs_empty_def demo_jobs_def)
  ultimately have "distinct (map j_id (jt_rows t2))" using one_active_job_per_chunk [of demo_jobs t2] by blast
  moreover have "map j_id (jt_rows t2) = [1]"
    by (simp add: t2_def t1_def enqueue_def numeral_3_eq_3 enqueue_try_def demo_jobs_def has_active_def new_job_def
        chunk_covered_def range_agg_def job_key_def list_max_def)
  ultimately show ?thesis by (simp add: t1_def t2_def)
qed

text \<open>
  C32. A lease protects its worker: from any reachable state, whatever the other sessions
  do before the lease ends, the running job's row stays exactly as the worker left it; it is
  not claimed again, completed, failed or pruned by anyone else.
\<close>
theorem lease_protects_worker:
  assumes "jobs_empty s0" and "job_step\<^sup>*\<^sup>* s0 s" and "leased row s" and "(foreign_step row)\<^sup>*\<^sup>* s t"
  shows "row \<in> set (jt_rows t)"
  using jobs.foreign_run_keeps [OF assms(4) jobs.reachable_inv [OF assms(1,2)] assms(3)]
  by (simp add: leased_def)

theorem lease_protects_worker_witness:
  "let t1 = snd (enqueue 0 [] demo_jobs 1 EvmLogs 1 (rng 0 9) JpQuery ''a'');
       t2 = snd (claim 10 [] t1 ''w'' 100 5 None);
       row = mark_running 10 ''w'' 110 (new_job 0 1 1 EvmLogs 1 (rng 0 9) JpQuery ''a'')
   in row \<in> set (jt_rows (snd (claim 50 [] t2 ''v'' 100 5 None)))"
proof -
  define t1 where "t1 = snd (enqueue 0 [] demo_jobs 1 EvmLogs 1 (rng 0 9) JpQuery ''a'')"
  define t2 where "t2 = snd (claim 10 [] t1 ''w'' 100 5 None)"
  define row where "row = mark_running 10 ''w'' 110 (new_job 0 1 1 EvmLogs 1 (rng 0 9) JpQuery ''a'')"
  have "job_step demo_jobs t1" and "job_step t1 t2" unfolding t1_def t2_def by (rule s_enq, rule s_clm)
  then have reach: "job_step\<^sup>*\<^sup>* demo_jobs t2" by simp
  have e: "jobs_empty demo_jobs" by (simp add: jobs_empty_def demo_jobs_def)
  have t1: "jt_rows t1 = [new_job 0 1 1 EvmLogs 1 (rng 0 9) JpQuery ''a'']"
    by (simp add: t1_def enqueue_def numeral_3_eq_3 enqueue_try_def demo_jobs_def has_active_def new_job_def
        chunk_covered_def range_agg_def)
  have "jt_rows t2 = [row]"
    by (simp add: t2_def claim_def duration_millis_def i64_max_def claim_ids_def t1 claimable_def new_job_def
        update_ids_def set_rows_def row_def Let_def)
  then have "leased row t2" by (simp add: leased_def row_def mark_running_def)
  moreover have "foreign_step row t2 (snd (claim 50 [] t2 ''v'' 100 5 None))"
    by (rule f_clm [of _ 110]) (simp_all add: row_def mark_running_def)
  ultimately have "row \<in> set (jt_rows (snd (claim 50 [] t2 ''v'' 100 5 None)))"
    by (intro lease_protects_worker [OF e reach, of row]) simp_all
  then show ?thesis by (simp only: t1_def t2_def row_def Let_def)
qed

section \<open>Enqueueing and claiming\<close>

lemma chunk_covered_iff:
  assumes "coverage_ok cov" and "range_ok (j_blocks r)"
  shows "chunk_covered cov r \<longleftrightarrow>
    (\<forall>b\<in>blocks (j_blocks r). cov_level cov (j_chain r) (j_dataset r) (j_selector r) (int b) \<noteq> None)"
proof -
  let ?q = "j_blocks r"
  define agg where "agg = range_agg (map cv_blocks (filter (\<lambda>row. cv_chain row = j_chain r \<and>
      cv_dataset row = dataset_as_str (j_dataset r) \<and> cv_selector row \<in> set [j_selector r] \<and>
      overlaps (cv_blocks row) (int (br_start ?q), int (br_end ?q) + 1)) cov))"
  note agg = range_op_agg [OF assms(1), where chain = "j_chain r" and ds = "j_dataset r" and
      ids = "[j_selector r]" and q = ?q, folded agg_def]
  have "chunk_covered cov r \<longleftrightarrow> (\<exists>(a, b)\<in>set agg. a \<le> int (br_start ?q) \<and> int (br_end ?q) + 1 \<le> b)"
    by (auto simp: chunk_covered_def agg_def cv_key_def list_ex_iff conj_assoc Let_def)
  also have "\<dots> \<longleftrightarrow> {int (br_start ?q)..<int (br_end ?q) + 1} \<subseteq> hset agg"
    using assms(2) by (intro mr_contains_iff [OF agg(1)]) (simp add: range_ok_def)
  also have "\<dots> \<longleftrightarrow> (\<forall>b\<in>blocks ?q. int b \<in> hset agg)"
  proof
    assume "\<forall>b\<in>blocks ?q. int b \<in> hset agg"
    moreover have "\<exists>b\<in>blocks ?q. x = int b" if "x \<in> {int (br_start ?q)..<int (br_end ?q) + 1}" for x
      using that by (intro bexI [of _ "nat x"]) auto
    ultimately show "{int (br_start ?q)..<int (br_end ?q) + 1} \<subseteq> hset agg" by blast
  qed auto
  finally show ?thesis using agg(2) by (simp add: block_covered_def)
qed

text \<open>
  Enqueueing never fails: it joins the active job of the chunk when there is one (that
  job's id, no new row); otherwise it adds one row that is pending, or already done and
  notified when the selector's coverage holds every block of the chunk.
\<close>
theorem enqueue_joins_or_adds:
  assumes "jobs_inv t" and "coverage_ok cov" and "range_ok blks"
  shows "\<exists>i t'. enqueue now cov t chain ds sel blks purpose app = (Ok i, t') \<and> jobs_inv t' \<and>
    (case active_job t chain ds sel blks of
       Some j \<Rightarrow> i = j \<and> jt_rows t' = jt_rows t \<and> jt_notified t' = jt_notified t
     | None \<Rightarrow> i = jt_next_id t \<and>
         (let row = new_job now i chain ds sel blks purpose app in
          if \<forall>b\<in>blocks blks. cov_level cov chain ds sel (int b) \<noteq> None
          then jt_rows t' = jt_rows t @ [row\<lparr>j_status := JsDone\<rparr>] \<and> jt_notified t' = jt_notified t @ [i]
          else jt_rows t' = jt_rows t @ [row] \<and> jt_notified t' = jt_notified t))"
proof -
  obtain i t' where r: "enqueue_try now cov t chain ds sel blks purpose app = (Some i, t')"
    "enqueue now cov t chain ds sel blks purpose app = (Ok i, t')" by (rule enqueue_first_round)
  have inv: "jobs_inv t'" using enqueue_try_inv [OF assms(1), of now cov chain ds sel blks purpose app] r(1) by simp
  show ?thesis
  proof (cases "active_job t chain ds sel blks")
    case None
    then have "\<not> has_active t chain ds sel blks"
      by (auto simp: active_job_def has_active_def find_None_notin list_ex_iff)
    moreover have "chunk_covered cov (new_job now (jt_next_id t) chain ds sel blks purpose app) \<longleftrightarrow>
        (\<forall>b\<in>blocks blks. cov_level cov chain ds sel (int b) \<noteq> None)"
      using chunk_covered_iff [OF assms(2), of "new_job now (jt_next_id t) chain ds sel blks purpose app"] assms(3)
      by (simp add: new_job_def)
    ultimately have "i = jt_next_id t \<and>
         (let row = new_job now i chain ds sel blks purpose app in
          if \<forall>b\<in>blocks blks. cov_level cov chain ds sel (int b) \<noteq> None
          then jt_rows t' = jt_rows t @ [row\<lparr>j_status := JsDone\<rparr>] \<and> jt_notified t' = jt_notified t @ [i]
          else jt_rows t' = jt_rows t @ [row] \<and> jt_notified t' = jt_notified t)"
      using r(1) by (auto simp: enqueue_try_def Let_def notify_ids_def split: if_splits)
    with r(2) inv None show ?thesis by (simp add: Let_def)
  next
    case (Some j)
    then obtain a where a: "a \<in> set (jt_rows t)" "job_key chain ds sel blks a" "active_status (j_status a)" "j = j_id a"
      by (auto simp: active_job_def dest: find_Some_in)
    then have act: "has_active t chain ds sel blks" by (auto simp: has_active_def list_ex_iff)
    have "j_id b \<le> j_id a" if "b \<in> set (jt_rows t)" "job_key chain ds sel blks b" for b
      using assms(1) a that by (auto simp: jobs_inv_def same_chunk_def job_key_def)
    then have "list_max (map j_id (filter (job_key chain ds sel blks) (jt_rows t))) = Some j"
      using a by (auto simp: list_max_Some)
    with act r Some inv show ?thesis by (auto simp: enqueue_try_def Let_def)
  qed
qed

theorem enqueue_joins_or_adds_witness:
  "\<exists>i t'. enqueue 0 [] demo_jobs 1 EvmLogs 1 (rng 0 9) JpQuery ''a'' = (Ok i, t') \<and> i = 1 \<and>
     jt_rows t' = [new_job 0 1 1 EvmLogs 1 (rng 0 9) JpQuery ''a'']"
proof -
  have "jobs_inv demo_jobs" and "coverage_ok []" and "range_ok (rng 0 9)" and "jt_next_id demo_jobs = 1"
    and "jt_rows demo_jobs = []" and none: "active_job demo_jobs 1 EvmLogs 1 (rng 0 9) = None"
    and nocov: "cov_level [] 1 EvmLogs 1 x = None" for x
    by (simp_all add: jobs_inv_def demo_jobs_def coverage_ok_def MAX_END_value active_job_def cov_level_def)
  moreover have "0 \<in> blocks (rng 0 9)" by simp
  ultimately show ?thesis
    using enqueue_joins_or_adds [of demo_jobs "[]" "rng 0 9" 0 1 EvmLogs 1 JpQuery "''a''"]
    by (auto simp: Let_def dest: spec [of _ 0] split: if_splits)
qed

definition claim_pool :: "int \<Rightarrow> job_id list \<Rightarrow> chain_id option \<Rightarrow> jobs_table \<Rightarrow> job_row list" where
  "claim_pool now locked chain t =
     sort_key claim_key (filter (\<lambda>r. claimable now chain r \<and> j_id r \<notin> set locked) (jt_rows t))"

lemma job_truncate_simps [simp]:
  "j_id (job.truncate r) = j_id r" "j_status (job.truncate r) = j_status r" "j_worker (job.truncate r) = j_worker r"
  "j_lease_until (job.truncate r) = j_lease_until r" "j_blocks (job.truncate r) = j_blocks r"
  "j_selector (job.truncate r) = j_selector r" "j_attempts (job.truncate r) = j_attempts r"
  by (simp_all add: job.truncate_def)

lemma mark_running_simps [simp]:
  "j_id (mark_running now w l r) = j_id r" "j_status (mark_running now w l r) = JsRunning"
  "j_worker (mark_running now w l r) = Some w" "j_lease_until (mark_running now w l r) = Some l"
  "j_attempts (mark_running now w l r) = j_attempts r + 1" "j_blocks (mark_running now w l r) = j_blocks r"
  by (simp_all add: mark_running_def)

lemma sorted_distinct_ids:
  "distinct xs \<Longrightarrow> distinct ys \<Longrightarrow> set xs = set ys \<Longrightarrow> sorted xs \<Longrightarrow> xs = sort (ys :: int list)"
  by (metis distinct_sort set_sort sorted_distinct_set_unique sorted_sort)

lemma distinct_map_sort_key: "distinct (map f (sort_key g xs)) = distinct (map f xs)"
  by (simp add: distinct_map)

lemma claimed_rows:
  assumes inv: "jobs_inv t" and sub: "set ids \<subseteq> j_id ` set (jt_rows t)" and dist: "distinct ids"
    and keep: "\<And>r. j_id (f r) = j_id r"
  shows "map j_id (sort_key j_id (map job.truncate (rows_with_ids ids (update_ids ids f t)))) = sort ids"
    and "set (map job.truncate (rows_with_ids ids (update_ids ids f t))) =
      (\<lambda>r. job.truncate (f r)) ` {r \<in> set (jt_rows t). j_id r \<in> set ids}"
proof -
  have rows: "rows_with_ids ids (update_ids ids f t) = map f (filter (\<lambda>r. j_id r \<in> set ids) (jt_rows t))"
    by (simp add: rows_with_ids_def update_ids_def set_rows_def filter_map comp_def keep)
  then show "set (map job.truncate (rows_with_ids ids (update_ids ids f t))) =
      (\<lambda>r. job.truncate (f r)) ` {r \<in> set (jt_rows t). j_id r \<in> set ids}" by auto
  let ?js = "map job.truncate (rows_with_ids ids (update_ids ids f t))"
  have ids: "map j_id ?js = map j_id (filter (\<lambda>r. j_id r \<in> set ids) (jt_rows t))" by (simp add: rows keep comp_def)
  have "distinct (map j_id ?js)" unfolding ids using inv by (simp add: jobs_inv_def distinct_map_filter)
  then have "distinct (map j_id (sort_key j_id ?js))" by (simp only: distinct_map_sort_key)
  moreover have "set (map j_id (sort_key j_id ?js)) = set ids"
  proof -
    have "set (map j_id (sort_key j_id ?js)) = set (map j_id ?js)" by (simp only: set_map set_sort)
    also have "\<dots> = j_id ` {r \<in> set (jt_rows t). j_id r \<in> set ids}" by (simp only: ids set_map set_filter)
    finally show ?thesis using sub by auto
  qed
  ultimately show "map j_id (sort_key j_id ?js) = sort ids"
    using dist by (intro sorted_distinct_ids) auto
qed

lemma sort_take_first:
  assumes "x \<in> set (take n (sort_key k xs))" and "y \<in> set (drop n (sort_key k xs))"
  shows "k x \<le> (k y :: 'a::linorder)"
proof -
  have "sorted (map k (take n (sort_key k xs) @ drop n (sort_key k xs)))" by simp
  with assms show ?thesis by (simp only: map_append sorted_append) auto
qed

text \<open>
  Claiming hands out the first jobs of the queue: at most \<open>limit\<close> jobs, in id order,
  each of which was waiting or had an expired lease and is now running under the worker until
  the new lease ends; waiting query jobs come before backfills, then the longest due and the
  oldest; no other row changes; and fewer than \<open>limit\<close> come back only when no claimable
  unlocked job is left.
\<close>
theorem claim_takes_first:
  assumes inv: "jobs_inv t" and lim: "0 < limit" and ms: "duration_millis lease = Ok ms"
  shows "\<exists>js t'. claim now locked t worker lease limit chain = (Ok js, t') \<and> jobs_inv t' \<and>
    map j_id js = sort (map j_id (take limit (claim_pool now locked chain t))) \<and>
    length js = min limit (length (claim_pool now locked chain t)) \<and>
    (\<forall>x\<in>set (take limit (claim_pool now locked chain t)). claimable now chain x \<and>
       (\<forall>y\<in>set (drop limit (claim_pool now locked chain t)). claim_key x \<le> claim_key y)) \<and>
    (\<forall>j\<in>set js. j_status j = JsRunning \<and> j_worker j = Some worker \<and> j_lease_until j = Some (now + ms)) \<and>
    jt_rows t' = map (\<lambda>r. if j_id r \<in> j_id ` set js then mark_running now worker (now + ms) r else r) (jt_rows t)"
proof -
  define cs where "cs = take limit (claim_pool now locked chain t)"
  define ids where "ids = map j_id cs"
  define t' where "t' = update_ids ids (mark_running now worker (now + ms)) t"
  define js where "js = sort_key j_id (map job.truncate (rows_with_ids ids t'))"
  have ids: "ids = claim_ids now locked limit chain t" by (simp add: ids_def cs_def claim_ids_def claim_pool_def)
  have res: "claim now locked t worker lease limit chain = (Ok js, t')"
    using lim ms by (simp add: claim_def js_def t'_def ids Let_def)
  have pool: "set (claim_pool now locked chain t) = {r \<in> set (jt_rows t). claimable now chain r \<and> j_id r \<notin> set locked}"
    by (simp add: claim_pool_def)
  have cs_sub: "set cs \<subseteq> {r \<in> set (jt_rows t). claimable now chain r}"
    using pool by (auto simp: cs_def dest: in_set_takeD)
  have "distinct (map j_id (claim_pool now locked chain t))"
    using inv by (simp add: claim_pool_def jobs_inv_def distinct_map)
      (auto intro: inj_on_subset)
  then have dist: "distinct ids" by (simp add: ids_def cs_def take_map [symmetric])
  have sub: "set ids \<subseteq> j_id ` set (jt_rows t)" using cs_sub by (auto simp: ids_def)
  note rows = claimed_rows [OF inv sub dist, of "mark_running now worker (now + ms)"]
  have js_ids: "map j_id js = sort ids" unfolding js_def t'_def by (rule rows(1)) simp
  then have "length js = length ids" by (metis length_map length_sort)
  then have len: "length js = min limit (length (claim_pool now locked chain t))" by (simp add: ids_def cs_def min.commute)
  have "set (map j_id js) = set ids" by (simp add: js_ids)
  then have set_ids: "j_id ` set js = set ids" by simp
  have held: "\<forall>j\<in>set js. j_status j = JsRunning \<and> j_worker j = Some worker \<and> j_lease_until j = Some (now + ms)"
    using rows(2) by (auto simp: js_def t'_def)
  have first: "\<forall>x\<in>set cs. claimable now chain x \<and> (\<forall>y\<in>set (drop limit (claim_pool now locked chain t)). claim_key x \<le> claim_key y)"
    using cs_sub sort_take_first [of _ limit claim_key] by (auto simp: cs_def claim_pool_def)
  have "jobs_inv t'" using claim_inv [OF inv, of now locked worker lease limit chain] by (simp add: res)
  with res js_ids len held first set_ids show ?thesis
    by (auto simp: ids_def cs_def t'_def update_ids_def set_rows_def)
qed

theorem claim_takes_first_witness:
  "let q = new_job 3 2 1 EvmLogs 1 (rng 0 9) JpQuery ''a''; b = new_job 0 1 1 EvmLogs 2 (rng 0 9) JpBackfill ''a'';
       t = \<lparr>jt_rows = [b, q], jt_next_id = 3, jt_notified = []\<rparr>
   in \<exists>js t'. claim 10 [] t ''w'' 100 1 None = (Ok js, t') \<and> map j_id js = [2]"
proof -
  let ?q = "new_job 3 2 1 EvmLogs 1 (rng 0 9) JpQuery ''a''" and ?b = "new_job 0 1 1 EvmLogs 2 (rng 0 9) JpBackfill ''a''"
  let ?t = "\<lparr>jt_rows = [?b, ?q], jt_next_id = 3, jt_notified = []\<rparr>"
  have "jobs_inv ?t" by (simp add: jobs_inv_def new_job_def row_wf_def same_chunk_def job_key_def)
  moreover have "duration_millis 100 = Ok 100" by (simp add: duration_millis_def i64_max_def)
  moreover have "claim_pool 10 [] None ?t = [?q, ?b]"
    by (simp add: claim_pool_def claimable_def new_job_def claim_key_def)
  ultimately show ?thesis
    using claim_takes_first [of ?t 1 100 100 10 "[]" "''w''" None] by (auto simp: new_job_def)
qed

end
