(* ===== verification/Heads_Store.thy ===== *)
theory Heads_Store
  imports Codec Transition
begin

text \<open>
  Chain heads, \<open>crates/store/src/heads.rs\<close>. The table is a map from chain to heads; its writes
  are also what is notified on the \<open>heads\<close> channel, kept as the list of notified chains.
\<close>

record heads_table =
  ht_heads :: "chain_id \<rightharpoonup> heads"
  ht_notified :: "chain_id list"

datatype head_kind = HkLatest | HkSafe | HkFinalized

fun head_value :: "head_kind \<Rightarrow> heads \<Rightarrow> u64" where
  "head_value HkLatest h = latest h"
| "head_value HkSafe h = safe h"
| "head_value HkFinalized h = finalized h"

definition heads_merge :: "heads \<Rightarrow> heads \<Rightarrow> heads" where
  "heads_merge old new =
     \<lparr>latest = latest new, latest_hash = latest_hash new, safe = max (safe old) (safe new),
      finalized = max (finalized old) (finalized new)\<rparr>"

definition heads_differ :: "heads \<Rightarrow> heads \<Rightarrow> bool" where
  "heads_differ old new =
     (latest old \<noteq> latest new \<or> latest_hash old \<noteq> latest_hash new \<or> safe old < safe new \<or> finalized old < finalized new)"

definition upsert_heads :: "heads_table \<Rightarrow> chain_id \<Rightarrow> heads \<Rightarrow> (heads_table, store_error) result" where
  "upsert_heads t chain h =
     and_then (u64_to_i64 (latest h) ''latest'') (\<lambda>_.
       and_then (u64_to_i64 (safe h) ''safe'') (\<lambda>_.
         and_then (u64_to_i64 (finalized h) ''finalized'') (\<lambda>_.
           Ok (case ht_heads t chain of
                 None \<Rightarrow> t\<lparr>ht_heads := (ht_heads t)(chain \<mapsto> h), ht_notified := ht_notified t @ [chain]\<rparr>
               | Some old \<Rightarrow>
                   if heads_differ old h
                   then t\<lparr>ht_heads := (ht_heads t)(chain \<mapsto> heads_merge old h), ht_notified := ht_notified t @ [chain]\<rparr>
                   else t))))"

definition store_heads :: "heads_table \<Rightarrow> chain_id \<Rightarrow> heads option" where
  "store_heads t chain = ht_heads t chain"

definition all_heads :: "heads_table \<Rightarrow> (chain_id \<times> heads) list" where
  "all_heads t = map (\<lambda>c. (c, the (ht_heads t c))) (sorted_list_of_set (dom (ht_heads t)))"

text \<open>The reread of \<open>wait_head_change\<close>.\<close>

definition head_change_check :: "heads_table \<Rightarrow> chain_id \<Rightarrow> u64 \<Rightarrow> head_kind \<Rightarrow> heads option" where
  "head_change_check t chain after kind =
     (case store_heads t chain of None \<Rightarrow> None | Some h \<Rightarrow> if head_value kind h > after then Some h else None)"

definition durable_heads :: "heads_table \<Rightarrow> chain_id \<Rightarrow> u64 \<times> u64" where
  "durable_heads t chain = (case ht_heads t chain of None \<Rightarrow> (0, 0) | Some h \<Rightarrow> (safe h, finalized h))"

inductive heads_step :: "heads_table \<Rightarrow> heads_table \<Rightarrow> bool" where
  "upsert_heads t chain h = Ok t' \<Longrightarrow> heads_step t t'"

inductive_cases heads_stepE: "heads_step t t'"

lemma upsert_heads_Ok:
  "upsert_heads t chain h = Ok t' \<Longrightarrow>
     ht_heads t' chain = Some (case ht_heads t chain of None \<Rightarrow> h | Some old \<Rightarrow>
       if heads_differ old h then heads_merge old h else old) \<and>
     (\<forall>c. c \<noteq> chain \<longrightarrow> ht_heads t' c = ht_heads t c)"
  by (auto simp: upsert_heads_def split: option.splits if_splits)

text \<open>Stored heads fit their \<open>bigint\<close> columns.\<close>

definition heads_table_ok :: "heads_table \<Rightarrow> bool" where
  "heads_table_ok t = (\<forall>c h. ht_heads t c = Some h \<longrightarrow>
     int (latest h) \<le> i64_max \<and> int (safe h) \<le> i64_max \<and> int (finalized h) \<le> i64_max)"

lemma upsert_heads_fits:
  "upsert_heads t chain h = Ok t' \<Longrightarrow> int (latest h) \<le> i64_max \<and> int (safe h) \<le> i64_max \<and> int (finalized h) \<le> i64_max"
  by (auto simp: upsert_heads_def u64_to_i64_def)

lemma heads_step_ok: "heads_table_ok t \<Longrightarrow> heads_step t t' \<Longrightarrow> heads_table_ok t'"
proof (elim heads_stepE)
  fix chain h
  assume ok: "heads_table_ok t" and up: "upsert_heads t chain h = Ok t'"
  have "int (latest g) \<le> i64_max \<and> int (safe g) \<le> i64_max \<and> int (finalized g) \<le> i64_max" if "ht_heads t' c = Some g" for c g
    using that ok upsert_heads_Ok [OF up] upsert_heads_fits [OF up]
    by (cases "c = chain") (auto simp: heads_table_ok_def heads_merge_def max_def split: option.splits if_splits)
  then show ?thesis by (simp add: heads_table_ok_def)
qed

interpretation stored_heads: invariant_system "\<lambda>t. ht_heads t = Map.empty" heads_step heads_table_ok
  by unfold_locales (simp add: heads_table_ok_def, rule heads_step_ok)

lemma heads_step_mono:
  assumes "heads_step t t'" and "ht_heads t c = Some h"
  shows "\<exists>h'. ht_heads t' c = Some h' \<and> safe h \<le> safe h' \<and> finalized h \<le> finalized h'"
  using assms(1)
proof (cases rule: heads_step.cases)
  case (1 chain g)
  with assms(2) upsert_heads_Ok [OF 1] show ?thesis
    by (cases "c = chain") (auto simp: heads_merge_def)
qed

lemma durable_heads_mono: "heads_step t t' \<Longrightarrow> fst (durable_heads t c) \<le> fst (durable_heads t' c) \<and>
    snd (durable_heads t c) \<le> snd (durable_heads t' c)"
  by (cases "ht_heads t c") (auto simp: durable_heads_def dest: heads_step_mono)

text \<open>
  C33. Over any sequence of head updates from an empty table, the stored safe and finalized
  heads of a chain never move back, whatever lagging upstreams answer; \<open>latest\<close> is the last
  value written, and every stored head fits its column.
\<close>
theorem durable_heads_never_move_back:
  assumes "ht_heads s0 = Map.empty" and "heads_step\<^sup>*\<^sup>* s0 s" and "heads_step\<^sup>*\<^sup>* s t"
  shows "heads_table_ok t \<and> fst (durable_heads s c) \<le> fst (durable_heads t c) \<and>
    snd (durable_heads s c) \<le> snd (durable_heads t c) \<and>
    (\<forall>h t'. upsert_heads t c h = Ok t' \<longrightarrow> map_option latest (ht_heads t' c) = Some (latest h) \<and>
       map_option latest_hash (ht_heads t' c) = Some (latest_hash h))"
proof -
  have inv: "heads_table_ok s" by (rule stored_heads.reachable_inv [OF assms(1,2)])
  have "fst (durable_heads s c) \<le> fst (durable_heads t c)" and "snd (durable_heads s c) \<le> snd (durable_heads t c)"
    using stored_heads.monotone_along [OF _ assms(3) inv, of "\<lambda>t. fst (durable_heads t c)"]
      stored_heads.monotone_along [OF _ assms(3) inv, of "\<lambda>t. snd (durable_heads t c)"] durable_heads_mono
    by blast+
  moreover have "map_option latest (ht_heads t' c) = Some (latest h) \<and> map_option latest_hash (ht_heads t' c) = Some (latest_hash h)"
    if "upsert_heads t c h = Ok t'" for h t'
    using upsert_heads_Ok [OF that] by (auto simp: heads_merge_def heads_differ_def split: option.splits)
  ultimately show ?thesis using stored_heads.steps_inv [OF assms(3) inv] by blast
qed

theorem durable_heads_never_move_back_witness:
  "let e = \<lparr>ht_heads = Map.empty, ht_notified = []\<rparr>;
       a = \<lparr>latest = 20, latest_hash = 1, safe = 10, finalized = 5\<rparr>;
       b = \<lparr>latest = 18, latest_hash = 2, safe = 8, finalized = 7\<rparr>
   in \<exists>s t. upsert_heads e 1 a = Ok s \<and> upsert_heads s 1 b = Ok t \<and>
        durable_heads s 1 = (10, 5) \<and> durable_heads t 1 = (10, 7) \<and> fst (durable_heads s 1) \<le> fst (durable_heads t 1)"
proof -
  let ?e = "\<lparr>ht_heads = Map.empty, ht_notified = []\<rparr>"
  let ?a = "\<lparr>latest = 20, latest_hash = 1, safe = 10, finalized = 5\<rparr>"
  let ?b = "\<lparr>latest = 18, latest_hash = 2, safe = 8, finalized = 7\<rparr>"
  let ?s = "\<lparr>ht_heads = [1 \<mapsto> ?a], ht_notified = [1]\<rparr>"
  let ?t = "\<lparr>ht_heads = [1 \<mapsto> heads_merge ?a ?b], ht_notified = [1, 1]\<rparr>"
  have s: "upsert_heads ?e 1 ?a = Ok ?s" and t: "upsert_heads ?s 1 ?b = Ok ?t"
    by (simp_all add: upsert_heads_def u64_to_i64_def i64_of_u64_def i64_max_def heads_differ_def)
  then have "heads_step\<^sup>*\<^sup>* ?e ?s" and "heads_step\<^sup>*\<^sup>* ?s ?t" by (auto intro: heads_step.intros)
  with durable_heads_never_move_back [of ?e ?s ?t 1] have "fst (durable_heads ?s 1) \<le> fst (durable_heads ?t 1)" by simp
  moreover have "durable_heads ?s 1 = (10, 5)" and "durable_heads ?t 1 = (10, 7)"
    by (simp_all add: durable_heads_def heads_merge_def)
  ultimately show ?thesis using s t unfolding Let_def by blast
qed

end
