(* ===== verification/Subscriptions.thy ===== *)
theory Subscriptions
  imports Codec
begin

text \<open>
  Subscriptions, \<open>crates/store/src/subscriptions.rs\<close>. A row is the \<open>Subscription\<close> of the source
  extended with the time of its last query; the key is (chain, dataset, selector,
  application). Time is in milliseconds.
\<close>

datatype subscription_source = SubAuto | SubExplicit

fun source_as_str :: "subscription_source \<Rightarrow> string" where
  "source_as_str SubAuto = ''auto''"
| "source_as_str SubExplicit = ''explicit''"

definition source_parse :: "string \<Rightarrow> (subscription_source, store_error) result" where
  "source_parse v =
     (if v = ''auto'' then Ok SubAuto else if v = ''explicit'' then Ok SubExplicit
      else Err (StData (''unknown subscription source '' @ v)))"

record subscription =
  sb_chain :: chain_id
  sb_dataset :: dataset
  sb_selector :: selector_id
  sb_application :: string
  sb_source :: subscription_source
  sb_expires_at :: int

record subscription_row = subscription +
  sb_last_query_at :: int

definition sub_key :: "chain_id \<Rightarrow> dataset \<Rightarrow> selector_id \<Rightarrow> string \<Rightarrow> subscription_row \<Rightarrow> bool" where
  "sub_key chain ds sel app s =
     (sb_chain s = chain \<and> sb_dataset s = ds \<and> sb_selector s = sel \<and> sb_application s = app)"

text \<open>The update of a conflicting row, applied when its \<open>where\<close> clause holds.\<close>

definition renew :: "int \<Rightarrow> subscription_source \<Rightarrow> int \<Rightarrow> subscription_row \<Rightarrow> subscription_row" where
  "renew now source ms s =
     (if source = SubExplicit \<or> sb_last_query_at s < now - 60000
      then s\<lparr>sb_source := (if sb_source s = SubExplicit then SubExplicit else source),
             sb_last_query_at := now, sb_expires_at := max (sb_expires_at s) (now + ms)\<rparr>
      else s)"

definition touch_subscription ::
  "int \<Rightarrow> subscription_row list \<Rightarrow> chain_id \<Rightarrow> dataset \<Rightarrow> selector_id \<Rightarrow> string \<Rightarrow> subscription_source \<Rightarrow> nat
     \<Rightarrow> (subscription_row list, store_error) result" where
  "touch_subscription now subs chain ds sel app source ttl =
     map_ok (\<lambda>ms.
       if list_ex (sub_key chain ds sel app) subs
       then map (\<lambda>s. if sub_key chain ds sel app s then renew now source ms s else s) subs
       else subs @ [\<lparr>sb_chain = chain, sb_dataset = ds, sb_selector = sel, sb_application = app, sb_source = source,
              sb_expires_at = now + ms, sb_last_query_at = now\<rparr>])
       (duration_millis ttl)"

definition active_subscriptions :: "int \<Rightarrow> subscription_row list \<Rightarrow> chain_id \<Rightarrow> subscription list" where
  "active_subscriptions now subs chain =
     map subscription.truncate
       (sort_key (\<lambda>s. (dataset_as_str (sb_dataset s), sb_selector s, sb_application s))
         (filter (\<lambda>s. sb_chain s = chain \<and> now < sb_expires_at s) subs))"

definition application_subscriptions :: "int \<Rightarrow> subscription_row list \<Rightarrow> string \<Rightarrow> subscription list" where
  "application_subscriptions now subs app =
     map subscription.truncate
       (sort_key (\<lambda>s. (sb_chain s, dataset_as_str (sb_dataset s), sb_selector s))
         (filter (\<lambda>s. sb_application s = app \<and> now < sb_expires_at s) subs))"

definition remove_subscription ::
  "subscription_row list \<Rightarrow> chain_id \<Rightarrow> dataset \<Rightarrow> selector_id \<Rightarrow> string \<Rightarrow> subscription_row list" where
  "remove_subscription subs chain ds sel app = filter (\<lambda>s. \<not> sub_key chain ds sel app s) subs"

definition expire_subscriptions :: "int \<Rightarrow> subscription_row list \<Rightarrow> u64 \<times> subscription_row list" where
  "expire_subscriptions now subs =
     (length (filter (\<lambda>s. sb_expires_at s \<le> now) subs), filter (\<lambda>s. \<not> sb_expires_at s \<le> now) subs)"

section \<open>Renewal\<close>

definition find_sub :: "subscription_row list \<Rightarrow> chain_id \<Rightarrow> dataset \<Rightarrow> selector_id \<Rightarrow> string \<Rightarrow> subscription_row option" where
  "find_sub subs chain ds sel app = find (sub_key chain ds sel app) subs"

definition subs_ok :: "subscription_row list \<Rightarrow> bool" where
  "subs_ok subs = distinct (map (\<lambda>s. (sb_chain s, sb_dataset s, sb_selector s, sb_application s)) subs)"

lemma renew_key [simp]: "sub_key c d i a (renew now source ms s) = sub_key c d i a s"
  by (simp add: renew_def sub_key_def)

lemma renew_fields [simp]:
  "sb_chain (renew now source ms s) = sb_chain s" "sb_dataset (renew now source ms s) = sb_dataset s"
  "sb_selector (renew now source ms s) = sb_selector s" "sb_application (renew now source ms s) = sb_application s"
  by (simp_all add: renew_def)

lemma sub_key_unique: "sub_key c d i a s \<Longrightarrow> sub_key c' d' i' a' s \<longleftrightarrow> c' = c \<and> d' = d \<and> i' = i \<and> a' = a"
  by (auto simp: sub_key_def)

lemma find_sub_map:
  "find (sub_key c d i a) (map (\<lambda>s. if sub_key chain ds sel app s then renew now source ms s else s) subs) =
     (if c = chain \<and> d = ds \<and> i = sel \<and> a = app then map_option (renew now source ms) (find (sub_key c d i a) subs)
      else find (sub_key c d i a) subs)"
  by (induction subs) (auto simp: sub_key_unique dest: sub_key_unique [of c d i a, THEN iffD1])

text \<open>
  Touching a subscription keeps the keys unique, leaves every other subscription as it
  is, and afterwards the touched one exists; an explicit one stays explicit, its expiry never
  moves earlier, an explicit renewal lasts at least the given time, and an automatic renewal
  within a minute of the last query changes nothing.
\<close>
theorem touch_subscription_renews:
  assumes "subs_ok subs" and "duration_millis ttl = Ok ms"
  shows "\<exists>subs'. touch_subscription now subs chain ds sel app source ttl = Ok subs' \<and> subs_ok subs' \<and>
    (\<forall>c d i a. (c, d, i, a) \<noteq> (chain, ds, sel, app) \<longrightarrow> find_sub subs' c d i a = find_sub subs c d i a) \<and>
    (\<exists>s'. find_sub subs' chain ds sel app = Some s' \<and>
      (case find_sub subs chain ds sel app of
         None \<Rightarrow> sb_source s' = source \<and> sb_expires_at s' = now + ms
       | Some s \<Rightarrow> (sb_source s = SubExplicit \<longrightarrow> sb_source s' = SubExplicit) \<and> sb_expires_at s \<le> sb_expires_at s' \<and>
           (source = SubExplicit \<longrightarrow> sb_source s' = SubExplicit \<and> now + ms \<le> sb_expires_at s') \<and>
           (source = SubAuto \<and> now - 60000 \<le> sb_last_query_at s \<longrightarrow> s' = s)))"
proof (cases "find_sub subs chain ds sel app")
  case None
  then have none: "\<not> list_ex (sub_key chain ds sel app) subs" and fresh: "\<forall>s\<in>set subs. \<not> sub_key chain ds sel app s"
    by (auto simp: find_sub_def find_None_notin list_ex_iff)
  let ?new = "\<lparr>sb_chain = chain, sb_dataset = ds, sb_selector = sel, sb_application = app, sb_source = source,
      sb_expires_at = now + ms, sb_last_query_at = now\<rparr>"
  have "touch_subscription now subs chain ds sel app source ttl = Ok (subs @ [?new])"
    using none assms(2) by (simp add: touch_subscription_def)
  moreover have "subs_ok (subs @ [?new])"
    using assms(1) fresh by (auto simp: subs_ok_def sub_key_def)
  moreover have "find_sub (subs @ [?new]) c d i a =
      (if (c, d, i, a) = (chain, ds, sel, app) then Some ?new else find_sub subs c d i a)" for c d i a
    using None by (auto simp: find_sub_def find_append_case sub_key_def [of _ _ _ _ ?new] split: option.splits)
  ultimately show ?thesis using None by auto
next
  case (Some s)
  then have some: "list_ex (sub_key chain ds sel app) subs"
    by (auto simp: find_sub_def list_ex_iff dest: find_Some_in)
  define subs' where "subs' = map (\<lambda>s. if sub_key chain ds sel app s then renew now source ms s else s) subs"
  have "touch_subscription now subs chain ds sel app source ttl = Ok subs'"
    using some assms(2) by (simp add: touch_subscription_def subs'_def)
  moreover have "subs_ok subs'"
    using assms(1) by (simp add: subs_ok_def subs'_def comp_def if_distrib cong: if_cong)
  moreover have "find_sub subs' c d i a = (if (c, d, i, a) = (chain, ds, sel, app)
      then map_option (renew now source ms) (find_sub subs c d i a) else find_sub subs c d i a)" for c d i a
    by (simp add: find_sub_def subs'_def find_sub_map)
  ultimately show ?thesis using Some by (auto simp: renew_def)
qed

theorem touch_subscription_renews_witness:
  "\<exists>subs'. touch_subscription 100000
     [\<lparr>sb_chain = 1, sb_dataset = EvmLogs, sb_selector = 1, sb_application = ''a'', sb_source = SubExplicit,
       sb_expires_at = 500000, sb_last_query_at = 0\<rparr>] 1 EvmLogs 1 ''a'' SubAuto 1000 = Ok subs' \<and>
   (\<exists>s'. find_sub subs' 1 EvmLogs 1 ''a'' = Some s' \<and> sb_source s' = SubExplicit \<and> 500000 \<le> sb_expires_at s')"
proof -
  let ?subs = "[\<lparr>sb_chain = 1, sb_dataset = EvmLogs, sb_selector = 1, sb_application = ''a'', sb_source = SubExplicit,
       sb_expires_at = 500000, sb_last_query_at = 0\<rparr>]"
  have "subs_ok ?subs" and "duration_millis 1000 = Ok 1000"
    by (simp_all add: subs_ok_def duration_millis_def i64_max_def)
  moreover have "find_sub ?subs 1 EvmLogs 1 ''a'' = Some (hd ?subs)" by (simp add: find_sub_def sub_key_def)
  ultimately show ?thesis
    using touch_subscription_renews [of ?subs 1000 1000 100000 1 EvmLogs 1 "''a''" SubAuto] by auto
qed

end
