(* ===== verification/Follow_Store.thy ===== *)
theory Follow_Store
  imports Subscriptions Transition
begin

text \<open>
  Follow progress, \<open>crates/store/src/follow.rs\<close>: where the follower of each selector stands
  (\<open>from_block\<close>, \<open>head_block\<close>, \<open>promoted_to\<close>, \<open>finalized_to\<close>), and the halt flag of a chain.
  Each function is one statement or the statements of one transaction; an error returns the
  table unchanged. The invariant orders the four positions; the step relation composes the
  operations of all sessions.
\<close>

record follow_progress =
  fp_chain :: chain_id
  fp_dataset :: dataset
  fp_selector :: selector_id
  fp_from :: u64
  fp_head :: i64
  fp_head_hash :: b256
  fp_promoted :: i64
  fp_finalized :: i64

record chain_row =
  cr_id :: chain_id
  cr_name :: chain_name
  cr_halted_at :: "int option"
  cr_halt_reason :: "string option"

record follow_table =
  ft_rows :: "follow_progress list"
  ft_chains :: "chain_row list"

definition fp_key :: "chain_id \<Rightarrow> dataset \<Rightarrow> selector_id \<Rightarrow> follow_progress \<Rightarrow> bool" where
  "fp_key chain ds sel r = (fp_chain r = chain \<and> fp_dataset r = ds \<and> fp_selector r = sel)"

definition follow_row :: "follow_table \<Rightarrow> chain_id \<Rightarrow> dataset \<Rightarrow> selector_id \<Rightarrow> (follow_progress, store_error) result" where
  "follow_row t chain ds sel =
     ok_or (StNotFound ''follow progress not found'') (find (fp_key chain ds sel) (ft_rows t))"

definition map_follow :: "(follow_progress \<Rightarrow> bool) \<Rightarrow> (follow_progress \<Rightarrow> follow_progress) \<Rightarrow> follow_table \<Rightarrow> follow_table" where
  "map_follow P f t = t\<lparr>ft_rows := map (\<lambda>r. if P r then f r else r) (ft_rows t)\<rparr>"

definition follow_get_or_init ::
  "follow_table \<Rightarrow> chain_id \<Rightarrow> dataset \<Rightarrow> selector_id \<Rightarrow> u64 \<Rightarrow> b256
     \<Rightarrow> (follow_progress, store_error) result \<times> follow_table" where
  "follow_get_or_init t chain ds sel from_block head_hash =
     (case u64_to_i64 from_block ''from block'' of
        Inl e \<Rightarrow> (Err e, t)
      | Inr fb \<Rightarrow>
          let head = fb - 1;
              t' = (if list_ex (fp_key chain ds sel) (ft_rows t) then t
                    else t\<lparr>ft_rows := ft_rows t @ [\<lparr>fp_chain = chain, fp_dataset = ds, fp_selector = sel,
                      fp_from = from_block, fp_head = head, fp_head_hash = head_hash, fp_promoted = head,
                      fp_finalized = head\<rparr>]\<rparr>)
          in (follow_row t' chain ds sel, t'))"

definition advance_follow_head ::
  "follow_table \<Rightarrow> chain_id \<Rightarrow> dataset \<Rightarrow> selector_id \<Rightarrow> u64 \<Rightarrow> b256
     \<Rightarrow> (follow_progress, store_error) result \<times> follow_table" where
  "advance_follow_head t chain ds sel head_block head_hash =
     (case u64_to_i64 head_block ''head block'' of
        Inl e \<Rightarrow> (Err e, t)
      | Inr hb \<Rightarrow>
          if list_ex (\<lambda>r. fp_key chain ds sel r \<and> fp_head r \<le> hb) (ft_rows t)
          then let t' = map_follow (\<lambda>r. fp_key chain ds sel r \<and> fp_head r \<le> hb)
                     (\<lambda>r. r\<lparr>fp_head := hb, fp_head_hash := head_hash\<rparr>) t
               in (follow_row t' chain ds sel, t')
          else (and_then (follow_row t chain ds sel) (\<lambda>cur.
                  if fp_head cur > hb then Err (StInvalidInput ''follow head moves only forward'') else Ok cur), t))"

definition advance_follow_promoted ::
  "follow_table \<Rightarrow> chain_id \<Rightarrow> dataset \<Rightarrow> selector_id \<Rightarrow> u64
     \<Rightarrow> (follow_progress, store_error) result \<times> follow_table" where
  "advance_follow_promoted t chain ds sel promoted_to =
     (case u64_to_i64 promoted_to ''promoted block'' of
        Inl e \<Rightarrow> (Err e, t)
      | Inr pt \<Rightarrow>
          (case follow_row t chain ds sel of
             Inl e \<Rightarrow> (Err e, t)
           | Inr cur \<Rightarrow>
               if pt < fp_promoted cur then (Err (StInvalidInput ''promoted_to moves only forward''), t)
               else if pt > fp_head cur then (Err (StInvalidInput ''promoted_to cannot pass the followed head''), t)
               else let t' = map_follow (fp_key chain ds sel) (\<lambda>r. r\<lparr>fp_promoted := pt\<rparr>) t
                    in (follow_row t' chain ds sel, t')))"

definition rewind_row :: "i64 \<Rightarrow> b256 \<Rightarrow> follow_progress \<Rightarrow> follow_progress" where
  "rewind_row fork head_hash r =
     r\<lparr>fp_head_hash := (if fp_promoted r \<ge> fork then 0 else head_hash),
       fp_head := max (min (fp_head r) (fork - 1)) (fp_promoted r)\<rparr>"

definition rewind_follow ::
  "follow_table \<Rightarrow> chain_id \<Rightarrow> u64 \<Rightarrow> b256 \<Rightarrow> (follow_progress list, store_error) result \<times> follow_table" where
  "rewind_follow t chain from_block head_hash =
     (case u64_to_i64 from_block ''from block'' of
        Inl e \<Rightarrow> (Err e, t)
      | Inr fork \<Rightarrow>
          let hit = (\<lambda>r. fp_chain r = chain \<and> fork \<le> fp_head r)
          in (Ok (map (rewind_row fork head_hash) (filter hit (ft_rows t))),
              map_follow hit (rewind_row fork head_hash) t))"

definition advance_follow_finalized ::
  "follow_table \<Rightarrow> chain_id \<Rightarrow> dataset \<Rightarrow> selector_id \<Rightarrow> u64
     \<Rightarrow> (follow_progress, store_error) result \<times> follow_table" where
  "advance_follow_finalized t chain ds sel finalized_to =
     (case u64_to_i64 finalized_to ''finalized block'' of
        Inl e \<Rightarrow> (Err e, t)
      | Inr ft \<Rightarrow>
          (case follow_row t chain ds sel of
             Inl e \<Rightarrow> (Err e, t)
           | Inr cur \<Rightarrow>
               if ft < fp_finalized cur then (Err (StInvalidInput ''finalized_to moves only forward''), t)
               else if ft > fp_promoted cur then (Err (StInvalidInput ''finalized_to cannot pass promoted_to''), t)
               else let t' = map_follow (fp_key chain ds sel) (\<lambda>r. r\<lparr>fp_finalized := ft\<rparr>) t
                    in (follow_row t' chain ds sel, t')))"

definition get_follow_progress ::
  "follow_table \<Rightarrow> chain_id \<Rightarrow> dataset \<Rightarrow> selector_id \<Rightarrow> (follow_progress option, store_error) result" where
  "get_follow_progress t chain ds sel =
     (case follow_row t chain ds sel of
        Inr row \<Rightarrow> Ok (Some row)
      | Inl e \<Rightarrow> (case e of StNotFound _ \<Rightarrow> Ok None | _ \<Rightarrow> Err e))"

definition coalesce :: "'a option \<Rightarrow> 'a \<Rightarrow> 'a" where
  "coalesce x d = (case x of None \<Rightarrow> d | Some y \<Rightarrow> y)"

definition halt_follow :: "int \<Rightarrow> follow_table \<Rightarrow> chain_id \<Rightarrow> string \<Rightarrow> follow_table" where
  "halt_follow now t chain reason =
     t\<lparr>ft_chains := map (\<lambda>c. if cr_id c = chain
         then c\<lparr>cr_halted_at := Some (coalesce (cr_halted_at c) now),
                cr_halt_reason := Some (coalesce (cr_halt_reason c) reason)\<rparr> else c) (ft_chains t)\<rparr>"

definition halted_row :: "follow_table \<Rightarrow> chain_id \<Rightarrow> chain_row option" where
  "halted_row t chain = find (\<lambda>c. cr_id c = chain \<and> cr_halted_at c \<noteq> None) (ft_chains t)"

definition follow_halt :: "follow_table \<Rightarrow> chain_id \<Rightarrow> string option" where
  "follow_halt t chain = map_option (\<lambda>c. coalesce (cr_halt_reason c) []) (halted_row t chain)"

definition resume_follow :: "follow_table \<Rightarrow> chain_id \<Rightarrow> string option \<times> follow_table" where
  "resume_follow t chain =
     (follow_halt t chain,
      t\<lparr>ft_chains := map (\<lambda>c. if cr_id c = chain \<and> cr_halted_at c \<noteq> None
          then c\<lparr>cr_halted_at := None, cr_halt_reason := None\<rparr> else c) (ft_chains t)\<rparr>)"

definition delete_unwatched_follow :: "int \<Rightarrow> subscription_row list \<Rightarrow> follow_table \<Rightarrow> chain_id \<Rightarrow> u64 \<times> follow_table" where
  "delete_unwatched_follow now subs t chain =
     (let unwatched = (\<lambda>f. fp_chain f = chain \<and>
            \<not> list_ex (\<lambda>s. sb_chain s = fp_chain f \<and> sb_dataset s = fp_dataset f \<and> sb_selector s = fp_selector f \<and>
                now < sb_expires_at s) subs)
      in (length (filter unwatched (ft_rows t)), t\<lparr>ft_rows := filter (\<lambda>f. \<not> unwatched f) (ft_rows t)\<rparr>))"

definition list_follow :: "follow_table \<Rightarrow> chain_id \<Rightarrow> follow_progress list" where
  "list_follow t chain =
     sort_key (\<lambda>r. (dataset_as_str (fp_dataset r), fp_selector r)) (filter (\<lambda>r. fp_chain r = chain) (ft_rows t))"

text \<open>\<open>Store::ensure_chain\<close> registers a chain (\<open>lib.rs\<close>); partitions are storage layout.\<close>

definition ensure_chain :: "follow_table \<Rightarrow> chain_id \<Rightarrow> chain_name \<Rightarrow> follow_table" where
  "ensure_chain t chain name =
     (if list_ex (\<lambda>c. cr_id c = chain) (ft_chains t)
      then t\<lparr>ft_chains := map (\<lambda>c. if cr_id c = chain then c\<lparr>cr_name := name\<rparr> else c) (ft_chains t)\<rparr>
      else t\<lparr>ft_chains := ft_chains t @ [\<lparr>cr_id = chain, cr_name = name, cr_halted_at = None, cr_halt_reason = None\<rparr>]\<rparr>)"

section \<open>The invariant\<close>

definition progress_ok :: "follow_progress \<Rightarrow> bool" where
  "progress_ok r = (int (fp_from r) - 1 \<le> fp_finalized r \<and> fp_finalized r \<le> fp_promoted r \<and> fp_promoted r \<le> fp_head r)"

definition follow_inv :: "follow_table \<Rightarrow> bool" where
  "follow_inv t =
     (list_all progress_ok (ft_rows t) \<and>
      distinct (map (\<lambda>r. (fp_chain r, fp_dataset r, fp_selector r)) (ft_rows t)) \<and>
      distinct (map cr_id (ft_chains t)))"

lemma map_follow_inv:
  assumes "follow_inv t"
    and "\<And>r. r \<in> set (ft_rows t) \<Longrightarrow> P r \<Longrightarrow> progress_ok r \<Longrightarrow> progress_ok (f r)"
    and "\<And>r. fp_chain (f r) = fp_chain r \<and> fp_dataset (f r) = fp_dataset r \<and> fp_selector (f r) = fp_selector r"
  shows "follow_inv (map_follow P f t)"
proof -
  have "map (\<lambda>r. (fp_chain r, fp_dataset r, fp_selector r)) (map (\<lambda>r. if P r then f r else r) (ft_rows t)) =
      map (\<lambda>r. (fp_chain r, fp_dataset r, fp_selector r)) (ft_rows t)"
    using assms(3) by simp
  with assms(1,2) show ?thesis by (auto simp: follow_inv_def map_follow_def list_all_iff simp del: map_map)
qed

lemma follow_row_Ok: "follow_row t chain ds sel = Ok r \<Longrightarrow> r \<in> set (ft_rows t) \<and> fp_key chain ds sel r"
  by (auto simp: follow_row_def dest: find_Some_in)

lemma follow_key_unique:
  assumes "follow_inv t" and "a \<in> set (ft_rows t)" and "b \<in> set (ft_rows t)" and "fp_key chain ds sel a" and "fp_key chain ds sel b"
  shows "a = b"
proof -
  have "inj_on (\<lambda>r. (fp_chain r, fp_dataset r, fp_selector r)) (set (ft_rows t))"
    using assms(1) by (simp add: follow_inv_def distinct_map)
  with assms(2-5) show ?thesis by (auto simp: inj_on_def fp_key_def)
qed

lemma follow_get_or_init_inv [step_inv]: "follow_inv t \<Longrightarrow> follow_inv (snd (follow_get_or_init t chain ds sel fb h))"
  by (auto simp: follow_get_or_init_def u64_to_i64_def Let_def follow_inv_def progress_ok_def list_ex_iff fp_key_def
      split: sum.splits)

lemma advance_follow_head_inv [step_inv]: "follow_inv t \<Longrightarrow> follow_inv (snd (advance_follow_head t chain ds sel hb h))"
  by (auto simp: advance_follow_head_def Let_def progress_ok_def split: sum.splits intro!: map_follow_inv)

lemma update_current_inv:
  assumes "follow_inv t" and cur: "follow_row t chain ds sel = Ok cur" and "progress_ok (f cur)"
    and "\<And>r. fp_chain (f r) = fp_chain r \<and> fp_dataset (f r) = fp_dataset r \<and> fp_selector (f r) = fp_selector r"
  shows "follow_inv (map_follow (fp_key chain ds sel) f t)"
proof (rule map_follow_inv [OF assms(1) _ assms(4)])
  fix r
  assume "r \<in> set (ft_rows t)" and "fp_key chain ds sel r"
  then have "r = cur" using follow_key_unique [OF assms(1)] follow_row_Ok [OF cur] by blast
  with assms(3) show "progress_ok (f r)" by simp
qed

lemma current_ok: "follow_inv t \<Longrightarrow> follow_row t chain ds sel = Ok cur \<Longrightarrow> progress_ok cur"
  by (auto simp: follow_inv_def list_all_iff dest: follow_row_Ok)

lemma advance_follow_promoted_inv [step_inv]:
  assumes "follow_inv t"
  shows "follow_inv (snd (advance_follow_promoted t chain ds sel pt))"
proof -
  have "follow_inv (map_follow (fp_key chain ds sel) (\<lambda>r. r\<lparr>fp_promoted := p\<rparr>) t)"
    if "follow_row t chain ds sel = Ok cur" "fp_promoted cur \<le> p" "p \<le> fp_head cur" for cur p
    using that(2,3) current_ok [OF assms that(1)]
    by (intro update_current_inv [OF assms that(1)]) (auto simp: progress_ok_def)
  with assms show ?thesis
    by (auto simp: advance_follow_promoted_def Let_def not_less split: sum.splits)
qed

lemma advance_follow_finalized_inv [step_inv]:
  assumes "follow_inv t"
  shows "follow_inv (snd (advance_follow_finalized t chain ds sel pt))"
proof -
  have "follow_inv (map_follow (fp_key chain ds sel) (\<lambda>r. r\<lparr>fp_finalized := p\<rparr>) t)"
    if "follow_row t chain ds sel = Ok cur" "fp_finalized cur \<le> p" "p \<le> fp_promoted cur" for cur p
    using that(2,3) current_ok [OF assms that(1)]
    by (intro update_current_inv [OF assms that(1)]) (auto simp: progress_ok_def)
  with assms show ?thesis
    by (auto simp: advance_follow_finalized_def Let_def not_less split: sum.splits)
qed

lemma rewind_follow_inv [step_inv]: "follow_inv t \<Longrightarrow> follow_inv (snd (rewind_follow t chain fb h))"
  by (auto simp: rewind_follow_def Let_def progress_ok_def rewind_row_def split: sum.splits intro!: map_follow_inv)

lemma map_chains_inv:
  "follow_inv t \<Longrightarrow> (\<And>c. cr_id (f c) = cr_id c) \<Longrightarrow> follow_inv (t\<lparr>ft_chains := map f (ft_chains t)\<rparr>)"
  by (simp add: follow_inv_def comp_def)

lemma halt_resume_inv [step_inv]:
  "follow_inv t \<Longrightarrow> follow_inv (halt_follow now t chain reason)"
  "follow_inv t \<Longrightarrow> follow_inv (snd (resume_follow t chain))"
  by (auto simp: halt_follow_def resume_follow_def intro!: map_chains_inv)

lemma delete_unwatched_inv [step_inv]: "follow_inv t \<Longrightarrow> follow_inv (snd (delete_unwatched_follow now subs t chain))"
  by (auto simp: follow_inv_def delete_unwatched_follow_def Let_def list_all_iff distinct_map_filter)

lemma ensure_chain_inv [step_inv]: "follow_inv t \<Longrightarrow> follow_inv (ensure_chain t chain name)"
  by (auto simp: follow_inv_def ensure_chain_def list_ex_iff comp_def if_distrib cong: if_cong)

inductive follow_keep :: "follow_table \<Rightarrow> follow_table \<Rightarrow> bool" where
  k_init: "follow_keep t (snd (follow_get_or_init t chain ds sel fb h))"
| k_head: "follow_keep t (snd (advance_follow_head t chain ds sel hb h))"
| k_promote: "follow_keep t (snd (advance_follow_promoted t chain ds sel pt))"
| k_finalize: "follow_keep t (snd (advance_follow_finalized t chain ds sel ft))"
| k_rewind: "follow_keep t (snd (rewind_follow t chain fb h))"
| k_halt: "follow_keep t (halt_follow now t chain reason)"
| k_resume: "follow_keep t (snd (resume_follow t chain))"
| k_chain: "follow_keep t (ensure_chain t chain name)"

inductive follow_step :: "follow_table \<Rightarrow> follow_table \<Rightarrow> bool" where
  f_keep: "follow_keep t t' \<Longrightarrow> follow_step t t'"
| f_delete: "follow_step t (snd (delete_unwatched_follow now subs t chain))"

definition follow_empty :: "follow_table \<Rightarrow> bool" where
  "follow_empty t = (ft_rows t = [] \<and> ft_chains t = [])"

lemma follow_keep_inv: "follow_inv t \<Longrightarrow> follow_keep t t' \<Longrightarrow> follow_inv t'"
  by (erule follow_keep.cases) (auto intro: step_inv)

interpretation follow: invariant_system follow_empty follow_step follow_inv
proof
  fix s t
  show "follow_empty s \<Longrightarrow> follow_inv s" by (simp add: follow_empty_def follow_inv_def)
  show "follow_inv s \<Longrightarrow> follow_step s t \<Longrightarrow> follow_inv t"
    by (erule follow_step.cases) (auto intro: step_inv follow_keep_inv)
qed

interpretation kept: invariant_system follow_inv follow_keep follow_inv
  by unfold_locales (auto intro: follow_keep_inv)

text \<open>What a selector's durable positions are, \<open>None\<close> when nothing follows it.\<close>

definition durable_to :: "follow_table \<Rightarrow> chain_id \<Rightarrow> dataset \<Rightarrow> selector_id \<Rightarrow> (u64 \<times> i64 \<times> i64) option" where
  "durable_to t chain ds sel =
     map_option (\<lambda>r. (fp_from r, fp_promoted r, fp_finalized r)) (find (fp_key chain ds sel) (ft_rows t))"

definition no_regress :: "(u64 \<times> i64 \<times> i64) option \<Rightarrow> (u64 \<times> i64 \<times> i64) option \<Rightarrow> bool" where
  "no_regress a b =
     (case a of None \<Rightarrow> True
      | Some (f, p, z) \<Rightarrow> (case b of None \<Rightarrow> False | Some (f', p', z') \<Rightarrow> f' = f \<and> p \<le> p' \<and> z \<le> z'))"

lemma no_regress_refl: "no_regress a a"
  by (auto simp: no_regress_def split: option.splits)

lemma no_regress_trans: "no_regress a b \<Longrightarrow> no_regress b c \<Longrightarrow> no_regress a c"
  by (auto simp: no_regress_def split: option.splits)

lemma durable_to_map:
  assumes "\<And>r. r \<in> set (ft_rows t) \<Longrightarrow> P r \<Longrightarrow> fp_key c d i (f r) = fp_key c d i r"
    and "\<And>r. r \<in> set (ft_rows t) \<Longrightarrow> P r \<Longrightarrow> fp_key c d i r \<Longrightarrow>
      fp_from (f r) = fp_from r \<and> fp_promoted r \<le> fp_promoted (f r) \<and> fp_finalized r \<le> fp_finalized (f r)"
  shows "no_regress (durable_to t c d i) (durable_to (map_follow P f t) c d i)"
proof -
  have "find (fp_key c d i) (map (\<lambda>r. if P r then f r else r) rows) =
      map_option (\<lambda>r. if P r then f r else r) (find (fp_key c d i) rows)" if "set rows \<subseteq> set (ft_rows t)" for rows
    using that assms(1) by (induction rows) auto
  then show ?thesis
    using assms(2) find_Some_in [of "fp_key c d i" "ft_rows t"]
    by (auto simp: durable_to_def map_follow_def no_regress_def split: option.splits)
qed

lemma durable_to_promoted:
  assumes "follow_inv t"
  shows "no_regress (durable_to t c d i) (durable_to (snd (advance_follow_promoted t chain ds sel pt)) c d i)"
proof -
  have "no_regress (durable_to t c d i) (durable_to (map_follow (fp_key chain ds sel) (\<lambda>r. r\<lparr>fp_promoted := p\<rparr>) t) c d i)"
    if "follow_row t chain ds sel = Ok cur" "fp_promoted cur \<le> p" for cur p
    using that(2) follow_row_Ok [OF that(1)] follow_key_unique [OF assms, of _ cur chain ds sel]
    by (intro durable_to_map) (auto simp: fp_key_def)
  then show ?thesis
    by (auto simp: advance_follow_promoted_def Let_def no_regress_refl not_less split: sum.splits)
qed

lemma durable_to_finalized:
  assumes "follow_inv t"
  shows "no_regress (durable_to t c d i) (durable_to (snd (advance_follow_finalized t chain ds sel pt)) c d i)"
proof -
  have "no_regress (durable_to t c d i) (durable_to (map_follow (fp_key chain ds sel) (\<lambda>r. r\<lparr>fp_finalized := p\<rparr>) t) c d i)"
    if "follow_row t chain ds sel = Ok cur" "fp_finalized cur \<le> p" for cur p
    using that(2) follow_row_Ok [OF that(1)] follow_key_unique [OF assms, of _ cur chain ds sel]
    by (intro durable_to_map) (auto simp: fp_key_def)
  then show ?thesis
    by (auto simp: advance_follow_finalized_def Let_def no_regress_refl not_less split: sum.splits)
qed

lemma durable_to_chains [simp]:
  "durable_to (halt_follow now t chain reason) = durable_to t"
  "durable_to (snd (resume_follow t chain)) = durable_to t"
  "durable_to (ensure_chain t chain name) = durable_to t"
  by (simp_all add: durable_to_def fun_eq_iff halt_follow_def resume_follow_def ensure_chain_def)

lemma durable_to_init: "no_regress (durable_to t c d i) (durable_to (snd (follow_get_or_init t chain ds sel fb h)) c d i)"
  by (auto simp: follow_get_or_init_def Let_def durable_to_def no_regress_def find_append_case split: sum.splits option.splits)

lemma follow_keep_no_regress:
  assumes "follow_inv t" and "follow_keep t t'"
  shows "no_regress (durable_to t c d i) (durable_to t' c d i)"
  using assms(2)
proof cases
  case (k_head chain ds sel hb h)
  then show ?thesis
    by (auto simp: advance_follow_head_def Let_def no_regress_refl fp_key_def split: sum.splits intro!: durable_to_map)
next
  case (k_rewind chain fb h)
  then show ?thesis
    by (auto simp: rewind_follow_def Let_def no_regress_refl rewind_row_def fp_key_def split: sum.splits intro!: durable_to_map)
qed (auto simp: no_regress_refl intro: durable_to_init durable_to_promoted [OF assms(1)] durable_to_finalized [OF assms(1)])

text \<open>
  C34. In every state that follow sessions can reach, a selector is followed at most once and
  its positions are ordered: \<open>from_block - 1 <= finalized_to <= promoted_to <= head_block\<close>. As
  long as the row is not deleted for want of a subscription, neither reorgs nor any other
  operation moves \<open>promoted_to\<close> or \<open>finalized_to\<close> back or changes \<open>from_block\<close>.
\<close>
theorem follow_positions_ordered:
  assumes "follow_empty s0" and "follow_step\<^sup>*\<^sup>* s0 s" and "follow_keep\<^sup>*\<^sup>* s t"
  shows "(\<forall>r\<in>set (ft_rows t). int (fp_from r) - 1 \<le> fp_finalized r \<and> fp_finalized r \<le> fp_promoted r \<and>
       fp_promoted r \<le> fp_head r) \<and>
    distinct (map (\<lambda>r. (fp_chain r, fp_dataset r, fp_selector r)) (ft_rows t)) \<and>
    no_regress (durable_to s c d i) (durable_to t c d i)"
proof -
  have inv: "follow_inv s" by (rule follow.reachable_inv [OF assms(1,2)])
  have "follow_inv t" by (rule kept.steps_inv [OF assms(3) inv])
  moreover have "no_regress (durable_to s c d i) (durable_to t c d i)"
    using assms(3)
  proof (induction rule: rtranclp_induct)
    case (step y z)
    have "follow_inv y" by (rule kept.steps_inv [OF step.hyps(1) inv])
    with step show ?case using follow_keep_no_regress no_regress_trans by blast
  qed (simp add: no_regress_refl)
  ultimately show ?thesis by (auto simp: follow_inv_def list_all_iff progress_ok_def)
qed

definition demo_follow :: follow_table where
  "demo_follow = \<lparr>ft_rows = [], ft_chains = []\<rparr>"

theorem follow_positions_ordered_witness:
  "let s = snd (follow_get_or_init demo_follow 1 EvmLogs 1 100 0);
       a = snd (advance_follow_head s 1 EvmLogs 1 120 7);
       b = snd (advance_follow_promoted a 1 EvmLogs 1 110);
       t = snd (rewind_follow b 1 105 9)
   in map fp_head (ft_rows t) = [110] \<and> map fp_promoted (ft_rows t) = [110] \<and>
      no_regress (durable_to b 1 EvmLogs 1) (durable_to t 1 EvmLogs 1)"
proof -
  define s where "s = snd (follow_get_or_init demo_follow 1 EvmLogs 1 100 0)"
  define a where "a = snd (advance_follow_head s 1 EvmLogs 1 120 7)"
  define b where "b = snd (advance_follow_promoted a 1 EvmLogs 1 110)"
  define t where "t = snd (rewind_follow b 1 105 9)"
  have "follow_keep demo_follow s" "follow_keep s a" "follow_keep a b" and bt: "follow_keep b t"
    unfolding s_def a_def b_def t_def by (rule k_init k_head k_promote k_rewind)+
  then have "follow_step\<^sup>*\<^sup>* demo_follow b" by (meson f_keep converse_rtranclp_into_rtranclp r_into_rtranclp)
  moreover have "follow_empty demo_follow" by (simp add: follow_empty_def demo_follow_def)
  ultimately have "no_regress (durable_to b 1 EvmLogs 1) (durable_to t 1 EvmLogs 1)"
    using follow_positions_ordered [of demo_follow b t 1 EvmLogs 1] bt by blast
  moreover have "map fp_head (ft_rows t) = [110]" and "map fp_promoted (ft_rows t) = [110]"
    by (simp_all add: t_def b_def a_def s_def demo_follow_def follow_get_or_init_def u64_to_i64_def i64_of_u64_def
        i64_max_def fp_key_def follow_row_def advance_follow_head_def map_follow_def advance_follow_promoted_def
        rewind_follow_def rewind_row_def)
  ultimately show ?thesis by (simp only: Let_def s_def a_def b_def t_def simp_thms)
qed

text \<open>
  A rewind at a fork is exact: a row of the chain whose head reached the fork ends at the
  block before the fork, or at \<open>promoted_to\<close> with an unknown hash when its promotion reached
  the fork; every other row, and every durable position, is unchanged; the rewound rows are
  returned.
\<close>
theorem rewind_follow_exact:
  assumes "follow_inv t" and "int from_block \<le> i64_max"
  shows "\<exists>t'. rewind_follow t chain from_block h =
      (Ok (map (rewind_row (int from_block) h) (filter (\<lambda>r. fp_chain r = chain \<and> int from_block \<le> fp_head r) (ft_rows t))), t') \<and>
    follow_inv t' \<and> ft_chains t' = ft_chains t \<and> length (ft_rows t') = length (ft_rows t) \<and>
    (\<forall>k<length (ft_rows t). let r = ft_rows t ! k; r' = ft_rows t' ! k in
       fp_promoted r' = fp_promoted r \<and> fp_finalized r' = fp_finalized r \<and> fp_from r' = fp_from r \<and>
       (if fp_chain r = chain \<and> int from_block \<le> fp_head r
        then if int from_block \<le> fp_promoted r then fp_head r' = fp_promoted r \<and> fp_head_hash r' = 0
             else fp_head r' = int from_block - 1 \<and> fp_head_hash r' = h
        else r' = r))"
proof -
  define t' where "t' = snd (rewind_follow t chain from_block h)"
  have rows: "ft_rows t' = map (\<lambda>r. if fp_chain r = chain \<and> int from_block \<le> fp_head r
      then rewind_row (int from_block) h r else r) (ft_rows t)" and "ft_chains t' = ft_chains t"
    using assms(2) by (simp_all add: t'_def rewind_follow_def u64_to_i64_def i64_of_u64_def map_follow_def)
  moreover have "fst (rewind_follow t chain from_block h) =
      Ok (map (rewind_row (int from_block) h) (filter (\<lambda>r. fp_chain r = chain \<and> int from_block \<le> fp_head r) (ft_rows t)))"
    using assms(2) by (simp add: rewind_follow_def u64_to_i64_def i64_of_u64_def Let_def)
  moreover have "follow_inv t'" unfolding t'_def by (rule rewind_follow_inv [OF assms(1)])
  moreover have "progress_ok (ft_rows t ! k)" if "k < length (ft_rows t)" for k
    using assms(1) that by (auto simp: follow_inv_def list_all_length)
  ultimately show ?thesis
    by (intro exI [of _ t'] conjI) (auto simp: prod_eq_iff t'_def [symmetric] rewind_row_def progress_ok_def Let_def)
qed

theorem rewind_follow_exact_witness:
  "let t = \<lparr>ft_rows = [\<lparr>fp_chain = 1, fp_dataset = EvmLogs, fp_selector = 1, fp_from = 100, fp_head = 120,
       fp_head_hash = 7, fp_promoted = 110, fp_finalized = 105\<rparr>], ft_chains = []\<rparr>
   in \<exists>t'. snd (rewind_follow t 1 115 9) = t' \<and> fp_head (ft_rows t' ! 0) = 114 \<and> fp_head_hash (ft_rows t' ! 0) = 9"
proof -
  let ?t = "\<lparr>ft_rows = [\<lparr>fp_chain = 1, fp_dataset = EvmLogs, fp_selector = 1, fp_from = 100, fp_head = 120,
       fp_head_hash = 7, fp_promoted = 110, fp_finalized = 105\<rparr>], ft_chains = []\<rparr>"
  have "follow_inv ?t" and "int 115 \<le> i64_max" by (simp_all add: follow_inv_def progress_ok_def i64_max_def)
  from rewind_follow_exact [OF this, of 1 9] show ?thesis by (auto simp: Let_def)
qed

lemma find_map_chains:
  "(\<And>c. cr_id (f c) = cr_id c) \<Longrightarrow>
     find (\<lambda>c. cr_id c = x \<and> Q c) (map f cs) = map_option f (find (\<lambda>c. cr_id c = x \<and> Q (f c)) cs)"
  by (induction cs) auto

lemma find_map_other:
  "(\<And>c. cr_id (f c) = cr_id c) \<Longrightarrow> (\<And>c. cr_id c = y \<Longrightarrow> f c = c) \<Longrightarrow>
     find (\<lambda>c. cr_id c = y \<and> Q c) (map f cs) = find (\<lambda>c. cr_id c = y \<and> Q c) cs"
  by (induction cs) auto

text \<open>
  A halted chain stays halted with the reason it was first halted for until it is
  resumed; resuming returns that reason and clears it; other chains are not affected.
\<close>
theorem halt_keeps_first_reason:
  assumes "follow_inv t" and "c \<in> set (ft_chains t)" and "cr_id c = chain" and "cr_halted_at c = None" and "cr_halt_reason c = None"
  shows "let h = halt_follow n2 (halt_follow n1 t chain r1) chain r2 in
    follow_halt t chain = None \<and> follow_halt h chain = Some r1 \<and>
    fst (resume_follow h chain) = Some r1 \<and> follow_halt (snd (resume_follow h chain)) chain = None \<and>
    (\<forall>x. x \<noteq> chain \<longrightarrow> follow_halt h x = follow_halt t x \<and> follow_halt (snd (resume_follow h chain)) x = follow_halt t x)"
proof -
  have uniq: "x = c" if "x \<in> set (ft_chains t)" "cr_id x = chain" for x
    using assms(1-3) that by (auto simp: follow_inv_def distinct_map inj_on_def)
  define h where "h = halt_follow n2 (halt_follow n1 t chain r1) chain r2"
  let ?f = "\<lambda>c. if cr_id c = chain then c\<lparr>cr_halted_at := Some n1, cr_halt_reason := Some r1\<rparr> else c"
  have chains: "ft_chains h = map ?f (ft_chains t)"
    using uniq assms(4,5) by (auto simp: h_def halt_follow_def coalesce_def)
  have none: "halted_row t chain = None"
    using uniq assms(4) by (auto simp: halted_row_def find_None_notin)
  obtain x where x: "find (\<lambda>c. cr_id c = chain) (ft_chains t) = Some x"
    using assms(2,3) by (metis (mono_tags, lifting) find_None_notin not_None_eq)
  then have "x = c" using find_Some_in [OF x] uniq by blast
  with x have hc: "halted_row h chain = Some (c\<lparr>cr_halted_at := Some n1, cr_halt_reason := Some r1\<rparr>)"
    using assms(3) by (simp add: halted_row_def chains find_map_chains cong: conj_cong)
  have other: "halted_row h y = halted_row t y" if "y \<noteq> chain" for y
    unfolding halted_row_def chains using that by (intro find_map_other) auto
  have res: "ft_chains (snd (resume_follow h chain)) = map (\<lambda>c. if cr_id c = chain
      then c\<lparr>cr_halted_at := None, cr_halt_reason := None\<rparr> else c) (ft_chains t)"
    by (auto simp: resume_follow_def chains)
  have "halted_row (snd (resume_follow h chain)) chain = None"
    unfolding halted_row_def res find_None_notin set_map by (intro ballI, elim imageE) simp
  moreover have "halted_row (snd (resume_follow h chain)) y = halted_row t y" if "y \<noteq> chain" for y
    unfolding halted_row_def res using that by (intro find_map_other) auto
  ultimately show ?thesis
    using none hc other by (auto simp: Let_def h_def [symmetric] follow_halt_def coalesce_def resume_follow_def [of h])
qed

theorem halt_keeps_first_reason_witness:
  "let t = \<lparr>ft_rows = [], ft_chains = [\<lparr>cr_id = 1, cr_name = ''eth'', cr_halted_at = None, cr_halt_reason = None\<rparr>]\<rparr>
   in follow_halt (halt_follow 9 (halt_follow 5 t 1 ''deep'') 1 ''other'') 1 = Some ''deep''"
proof -
  let ?c = "\<lparr>cr_id = 1, cr_name = ''eth'', cr_halted_at = None, cr_halt_reason = None\<rparr>"
  let ?t = "\<lparr>ft_rows = [], ft_chains = [?c]\<rparr>"
  have "follow_inv ?t" by (simp add: follow_inv_def)
  from halt_keeps_first_reason [OF this, of ?c 1 9 5 "''deep''" "''other''"] show ?thesis by (simp add: Let_def)
qed

end
