(* ===== verification/Row_Store.thy ===== *)
theory Row_Store
  imports Codec Transition
begin

text \<open>
  The stored rows: logs (\<open>crates/store/src/logs.rs\<close>), blocks (\<open>blocks.rs\<close>), transaction senders
  (\<open>tx_senders.rs\<close>) and the queries over unsafe rows (\<open>unsafe_rows.rs\<close>). A table is its list of
  (chain, row) pairs. Rows are kept decoded; the column codecs are total on them and their
  round trips are in Codec, so only the conversions that can fail are written out. A write
  runs in the caller's transaction and an error rolls it back, so it leaves the store as it
  was. The header column of a block is the type parameter \<open>'h\<close>.
\<close>

section \<open>Tables\<close>

record sender_row =
  snd_hash :: b256
  snd_block :: u64
  snd_sender :: address
  snd_finality :: finality

record 'h row_store =
  rs_logs :: "(chain_id \<times> log_row) list"
  rs_blocks :: "(chain_id \<times> 'h block_row) list"
  rs_senders :: "(chain_id \<times> sender_row) list"

text \<open>\<open>insert ... on conflict (key) do update ... where\<close>: \<open>can\<close> is the \<open>where\<close> clause on the
  stored and the incoming row, \<open>upd\<close> the assignment. PostgreSQL refuses to insert or update one
  row twice in one command.\<close>

fun upsert_rows ::
  "('r \<Rightarrow> 'k) \<Rightarrow> ('r \<Rightarrow> 'r \<Rightarrow> bool) \<Rightarrow> ('r \<Rightarrow> 'r \<Rightarrow> 'r) \<Rightarrow> 'k list \<Rightarrow> 'r list \<Rightarrow> 'r list
     \<Rightarrow> ('r list, store_error) result" where
  "upsert_rows key can upd touched rows [] = Ok rows"
| "upsert_rows key can upd touched rows (n # ns) =
     (case find (\<lambda>r. key r = key n) rows of
        None \<Rightarrow> upsert_rows key can upd (key n # touched) (rows @ [n]) ns
      | Some old \<Rightarrow>
          if key n \<in> set touched
          then Err (StSqlx ''ON CONFLICT DO UPDATE command cannot affect row a second time'')
          else if can old n
          then upsert_rows key can upd (key n # touched) (map (\<lambda>r. if key r = key n then upd r n else r) rows) ns
          else upsert_rows key can upd touched rows ns)"

definition log_key :: "chain_id \<times> log_row \<Rightarrow> chain_id \<times> u64 \<times> u32" where
  "log_key l = (fst l, log_block_number (snd l), log_index (snd l))"

definition block_key :: "chain_id \<times> 'h block_row \<Rightarrow> chain_id \<times> u64" where
  "block_key b = (fst b, blk_number (snd b))"

definition sender_key :: "chain_id \<times> sender_row \<Rightarrow> chain_id \<times> b256" where
  "sender_key s = (fst s, snd_hash (snd s))"

definition log_can :: "chain_id \<times> log_row \<Rightarrow> chain_id \<times> log_row \<Rightarrow> bool" where
  "log_can old new = (log_finality (snd old) < log_finality (snd new) \<and> log_block_hash (snd old) = log_block_hash (snd new))"

definition log_upd :: "chain_id \<times> log_row \<Rightarrow> chain_id \<times> log_row \<Rightarrow> chain_id \<times> log_row" where
  "log_upd old new = (fst old, (snd old)\<lparr>log_finality := log_finality (snd new)\<rparr>)"

definition block_can :: "chain_id \<times> 'h block_row \<Rightarrow> chain_id \<times> 'h block_row \<Rightarrow> bool" where
  "block_can old new = (blk_finality (snd old) < blk_finality (snd new) \<and> blk_hash (snd old) = blk_hash (snd new))"

definition block_upd :: "chain_id \<times> 'h block_row \<Rightarrow> chain_id \<times> 'h block_row \<Rightarrow> chain_id \<times> 'h block_row" where
  "block_upd old new = (fst old, (snd old)\<lparr>blk_finality := blk_finality (snd new)\<rparr>)"

definition sender_can :: "chain_id \<times> sender_row \<Rightarrow> chain_id \<times> sender_row \<Rightarrow> bool" where
  "sender_can old new = (snd_finality (snd old) < snd_finality (snd new) \<and> snd_block (snd old) = snd_block (snd new) \<and>
     snd_sender (snd old) = snd_sender (snd new))"

definition sender_upd :: "chain_id \<times> sender_row \<Rightarrow> chain_id \<times> sender_row \<Rightarrow> chain_id \<times> sender_row" where
  "sender_upd old new = (fst old, (snd old)\<lparr>snd_finality := snd_finality (snd new)\<rparr>)"

section \<open>Inserts\<close>

definition conflicts :: "'h row_store \<Rightarrow> chain_id \<Rightarrow> (u64 \<times> b256) list \<Rightarrow> u64 list" where
  "conflicts st chain incoming =
     map fst (filter (\<lambda>(n, h).
       list_ex (\<lambda>(c, l). c = chain \<and> log_block_number l = n \<and> log_block_hash l \<noteq> h) (rs_logs st) \<or>
       list_ex (\<lambda>(c, b). c = chain \<and> blk_number b = n \<and> blk_hash b \<noteq> h) (rs_blocks st)) incoming)"

definition hash_conflict :: "'h row_store \<Rightarrow> chain_id \<Rightarrow> (u64 \<times> b256) list \<Rightarrow> u64 option" where
  "hash_conflict st chain incoming = list_min (conflicts st chain incoming)"

definition block_columns :: "'h block_row \<Rightarrow> (unit, store_error) result" where
  "block_columns b =
     and_then (u64_to_i64 (blk_number b) ''block number'') (\<lambda>_.
       and_then (u64_to_i64 (blk_timestamp b) ''timestamp'') (\<lambda>_. Ok ()))"

definition insert_blocks :: "'h row_store \<Rightarrow> chain_id \<Rightarrow> 'h block_row list \<Rightarrow> ('h row_store, store_error) result" where
  "insert_blocks st chain bs =
     (if bs = [] then Ok st
      else and_then (try_map block_columns bs) (\<lambda>_.
        case hash_conflict st chain (map (\<lambda>b. (blk_number b, blk_hash b)) bs) of
          Some b \<Rightarrow> Err (StReorg b)
        | None \<Rightarrow>
            map_ok (\<lambda>rows. st\<lparr>rs_blocks := rows\<rparr>)
              (upsert_rows block_key block_can block_upd [] (rs_blocks st) (map (Pair chain) bs))))"

definition log_columns :: "log_row \<Rightarrow> (unit, store_error) result" where
  "log_columns l =
     and_then (topic_columns (log_topics l)) (\<lambda>_.
       and_then (u64_to_i64 (log_block_number l) ''block number'') (\<lambda>_.
         and_then (u32_to_i32 (log_index l) ''log index'') (\<lambda>_.
           and_then (u32_to_i32 (transaction_index l) ''transaction index'') (\<lambda>_. Ok ()))))"

definition insert_logs :: "'h row_store \<Rightarrow> chain_id \<Rightarrow> log_row list \<Rightarrow> ('h row_store, store_error) result" where
  "insert_logs st chain ls =
     (if ls = [] then Ok st
      else and_then (try_map log_columns ls) (\<lambda>_.
        case hash_conflict st chain (map (\<lambda>l. (log_block_number l, log_block_hash l)) ls) of
          Some b \<Rightarrow> Err (StReorg b)
        | None \<Rightarrow>
            map_ok (\<lambda>rows. st\<lparr>rs_logs := rows\<rparr>)
              (upsert_rows log_key log_can log_upd [] (rs_logs st) (map (Pair chain) ls))))"

definition insert_senders :: "'h row_store \<Rightarrow> chain_id \<Rightarrow> sender_row list \<Rightarrow> ('h row_store, store_error) result" where
  "insert_senders st chain rows =
     (if rows = [] then Ok st
      else and_then (try_map (\<lambda>r. u64_to_i64 (snd_block r) ''block number'') rows) (\<lambda>_.
        map_ok (\<lambda>rs. st\<lparr>rs_senders := rs\<rparr>)
          (upsert_rows sender_key sender_can sender_upd [] (rs_senders st) (map (Pair chain) rows))))"

section \<open>Reads\<close>

text \<open>\<open>push_selector_filter\<close> writes one predicate per constrained position; a null topic column
  satisfies none.\<close>

definition sql_selector_filter :: "log_selector \<Rightarrow> log_row \<Rightarrow> bool" where
  "sql_selector_filter s l =
     ((case sel_addresses s of [] \<Rightarrow> True | [one] \<Rightarrow> log_address l = one | as \<Rightarrow> log_address l \<in> set as) \<and>
      list_all (\<lambda>(position, filter). case filter of AnyTopic \<Rightarrow> True
        | OneOf xs \<Rightarrow> (case nth_opt (log_topics l) position of None \<Rightarrow> False | Some t \<Rightarrow> t \<in> set xs))
        (enumerate 0 (sel_topics s)))"

type_synonym log_cursor = "u64 \<times> u32"

definition log_pos :: "log_row \<Rightarrow> log_cursor" where
  "log_pos l = (log_block_number l, log_index l)"

definition logs_after ::
  "'h row_store \<Rightarrow> chain_id \<Rightarrow> log_selector \<Rightarrow> block_range \<Rightarrow> log_cursor option \<Rightarrow> log_row list" where
  "logs_after st chain s r page =
     sort_key log_pos (map snd (filter (\<lambda>(c, l). c = chain \<and> br_start r \<le> log_block_number l \<and>
         log_block_number l \<le> br_end r \<and> sql_selector_filter s l \<and>
         (case page of None \<Rightarrow> True | Some cur \<Rightarrow> cur < log_pos l)) (rs_logs st)))"

definition cursor_columns :: "log_cursor option \<Rightarrow> (unit, store_error) result" where
  "cursor_columns page =
     (case page of None \<Rightarrow> Ok ()
      | Some cur \<Rightarrow> and_then (u64_to_i64 (fst cur) ''cursor block'') (\<lambda>_.
          and_then (u32_to_i32 (snd cur) ''cursor log index'') (\<lambda>_. Ok ())))"

definition read_logs ::
  "'h row_store \<Rightarrow> chain_id \<Rightarrow> log_selector \<Rightarrow> block_range \<Rightarrow> log_cursor option \<Rightarrow> u32
     \<Rightarrow> (log_row list \<times> log_cursor option, store_error) result" where
  "read_logs st chain s r page limit =
     (if limit = 0 then Err (StInvalidInput ''log page limit must be positive'')
      else and_then (u64_to_i64 (br_start r) ''block start'') (\<lambda>_.
        and_then (u64_to_i64 (br_end r) ''block end'') (\<lambda>_.
          and_then (cursor_columns page) (\<lambda>_.
            let logs = take (limit + 1) (logs_after st chain s r page) in
            if length logs > limit
            then Ok (take limit logs, Some (log_pos (last (take limit logs))))
            else Ok (logs, None)))))"

definition blocks_after :: "'h row_store \<Rightarrow> chain_id \<Rightarrow> block_range \<Rightarrow> u64 option \<Rightarrow> 'h block_row list" where
  "blocks_after st chain r page =
     sort_key blk_number (map snd (filter (\<lambda>(c, b). c = chain \<and> br_start r \<le> blk_number b \<and> blk_number b \<le> br_end r \<and>
         (case page of None \<Rightarrow> True | Some cur \<Rightarrow> cur < blk_number b)) (rs_blocks st)))"

definition read_blocks ::
  "'h row_store \<Rightarrow> chain_id \<Rightarrow> block_range \<Rightarrow> u64 option \<Rightarrow> u32
     \<Rightarrow> ('h block_row list \<times> u64 option, store_error) result" where
  "read_blocks st chain r page limit =
     (if limit = 0 then Err (StInvalidInput ''block page limit must be positive'')
      else and_then (case page of None \<Rightarrow> Ok () | Some n \<Rightarrow> map_ok (\<lambda>_. ()) (u64_to_i64 n ''cursor block'')) (\<lambda>_.
        and_then (u64_to_i64 (br_start r) ''block start'') (\<lambda>_.
          and_then (u64_to_i64 (br_end r) ''block end'') (\<lambda>_.
            let out = take (limit + 1) (blocks_after st chain r page) in
            if length out > limit
            then Ok (take limit out, Some (blk_number (last (take limit out))))
            else Ok (out, None)))))"

definition block_timestamps :: "'h row_store \<Rightarrow> chain_id \<Rightarrow> u64 list \<Rightarrow> (u64 \<rightharpoonup> u64, store_error) result" where
  "block_timestamps st chain numbers =
     (if numbers = [] then Ok Map.empty
      else and_then (try_map (\<lambda>n. u64_to_i64 n ''block number'') numbers) (\<lambda>_.
        Ok (map_of (map (\<lambda>(_, b). (blk_number b, blk_timestamp b))
          (filter (\<lambda>(c, b). c = chain \<and> blk_number b \<in> set numbers) (rs_blocks st))))))"

definition hash_at :: "'h row_store \<Rightarrow> chain_id \<Rightarrow> u64 \<Rightarrow> (b256 option, store_error) result" where
  "hash_at st chain n =
     and_then (u64_to_i64 n ''block number'') (\<lambda>_.
       Ok (map_option (blk_hash \<circ> snd) (find (\<lambda>b. block_key b = (chain, n)) (rs_blocks st))))"

definition missing_hashes :: "'h row_store \<Rightarrow> chain_id \<Rightarrow> b256 list \<Rightarrow> b256 list" where
  "missing_hashes st chain hashes =
     filter (\<lambda>h. \<not> list_ex (\<lambda>s. sender_key s = (chain, h)) (rs_senders st)) (rev (remdups (rev hashes)))"

definition senders_of :: "'h row_store \<Rightarrow> chain_id \<Rightarrow> b256 list \<Rightarrow> (b256 \<rightharpoonup> address)" where
  "senders_of st chain hashes =
     map_of (map (\<lambda>(_, s). (snd_hash s, snd_sender s))
       (filter (\<lambda>(c, s). c = chain \<and> snd_hash s \<in> set hashes) (rs_senders st)))"

definition unsafe_hashes :: "'h row_store \<Rightarrow> chain_id \<Rightarrow> block_range \<Rightarrow> ((u64 \<times> b256) list, store_error) result" where
  "unsafe_hashes st chain r =
     and_then (u64_to_i64 (br_start r) ''block start'') (\<lambda>_.
       and_then (u64_to_i64 (br_end r) ''block end'') (\<lambda>_.
         Ok (collect_set
           (map (\<lambda>(_, l). (log_block_number l, log_block_hash l))
              (filter (\<lambda>(c, l). c = chain \<and> log_finality l = Unsafe \<and> range_contains r (log_block_number l)) (rs_logs st)) @
            map (\<lambda>(_, b). (blk_number b, blk_hash b))
              (filter (\<lambda>(c, b). c = chain \<and> blk_finality b = Unsafe \<and> range_contains r (blk_number b)) (rs_blocks st))))))"

section \<open>Promotion\<close>

definition broken_blocks :: "'h row_store \<Rightarrow> chain_id \<Rightarrow> block_range \<Rightarrow> b256 \<Rightarrow> u64 list" where
  "broken_blocks st chain r end_hash =
     map (\<lambda>(_, b). blk_number b)
       (filter (\<lambda>(c, b). c = chain \<and> blk_number b = br_end r \<and> blk_hash b \<noteq> end_hash) (rs_blocks st)) @
     map (\<lambda>(_, b). blk_number b)
       (filter (\<lambda>(c, b). c = chain \<and> range_contains r (blk_number b) \<and>
          list_ex (\<lambda>(c', p). c' = c \<and> int (blk_number p) = int (blk_number b) - 1 \<and> blk_parent_hash b \<noteq> blk_hash p) (rs_blocks st))
        (rs_blocks st))"

definition promote_blocks ::
  "'h row_store \<Rightarrow> chain_id \<Rightarrow> block_range \<Rightarrow> finality \<Rightarrow> b256 \<Rightarrow> (u64 \<times> 'h row_store, store_error) result" where
  "promote_blocks st chain r fin end_hash =
     (if fin = Unsafe then Err (StInvalidInput ''promote target must be durable'')
      else and_then (u64_to_i64 (br_start r) ''block start'') (\<lambda>_.
        and_then (u64_to_i64 (br_end r) ''block end'') (\<lambda>_.
          case list_min (broken_blocks st chain r end_hash) of
            Some b \<Rightarrow> Err (StReorg b)
          | None \<Rightarrow>
              let hit = (\<lambda>(c, b). c = chain \<and> range_contains r (blk_number b) \<and> blk_finality b < fin)
              in Ok (length (filter hit (rs_blocks st)),
                     st\<lparr>rs_blocks := map (\<lambda>x. if hit x then (fst x, (snd x)\<lparr>blk_finality := fin\<rparr>) else x) (rs_blocks st)\<rparr>))))"

definition broken_logs :: "'h row_store \<Rightarrow> chain_id \<Rightarrow> log_selector \<Rightarrow> block_range \<Rightarrow> b256 \<Rightarrow> u64 list" where
  "broken_logs st chain s r end_hash =
     map (\<lambda>(_, l). log_block_number l)
       (filter (\<lambda>(c, l). c = chain \<and> range_contains r (log_block_number l) \<and> sql_selector_filter s l \<and>
          (list_ex (\<lambda>(c', b). c' = c \<and> blk_number b = log_block_number l \<and> blk_hash b \<noteq> log_block_hash l) (rs_blocks st) \<or>
           (log_block_number l = br_end r \<and> log_block_hash l \<noteq> end_hash))) (rs_logs st))"

definition promote_logs ::
  "'h row_store \<Rightarrow> chain_id \<Rightarrow> log_selector \<Rightarrow> block_range \<Rightarrow> finality \<Rightarrow> b256
     \<Rightarrow> (u64 \<times> 'h row_store, store_error) result" where
  "promote_logs st chain s r fin end_hash =
     (if fin = Unsafe then Err (StInvalidInput ''promote target must be durable'')
      else and_then (u64_to_i64 (br_start r) ''block start'') (\<lambda>_.
        and_then (u64_to_i64 (br_end r) ''block end'') (\<lambda>_.
          case list_min (broken_logs st chain s r end_hash) of
            Some b \<Rightarrow> Err (StReorg b)
          | None \<Rightarrow>
              let hit = (\<lambda>(c, l). c = chain \<and> range_contains r (log_block_number l) \<and> log_finality l < fin \<and>
                    sql_selector_filter s l)
              in Ok (length (filter hit (rs_logs st)),
                     st\<lparr>rs_logs := map (\<lambda>x. if hit x then (fst x, (snd x)\<lparr>log_finality := fin\<rparr>) else x) (rs_logs st)\<rparr>))))"

definition promote_senders ::
  "'h row_store \<Rightarrow> chain_id \<Rightarrow> block_range \<Rightarrow> finality \<Rightarrow> (u64 \<times> 'h row_store, store_error) result" where
  "promote_senders st chain r fin =
     (if fin = Unsafe then Err (StInvalidInput ''promote target must be durable'')
      else and_then (u64_to_i64 (br_start r) ''block start'') (\<lambda>_.
        and_then (u64_to_i64 (br_end r) ''block end'') (\<lambda>_.
          let hit = (\<lambda>(c, s). c = chain \<and> range_contains r (snd_block s) \<and> snd_finality s < fin)
          in Ok (length (filter hit (rs_senders st)),
                 st\<lparr>rs_senders := map (\<lambda>x. if hit x then (fst x, (snd x)\<lparr>snd_finality := fin\<rparr>) else x) (rs_senders st)\<rparr>))))"

section \<open>Deletion of unsafe rows\<close>

definition delete_unsafe_logs_from :: "'h row_store \<Rightarrow> chain_id \<Rightarrow> u64 \<Rightarrow> ('h row_store, store_error) result" where
  "delete_unsafe_logs_from st chain from_block =
     and_then (u64_to_i64 from_block ''from block'') (\<lambda>_.
       Ok (st\<lparr>rs_logs := filter (\<lambda>(c, l). \<not> (c = chain \<and> from_block \<le> log_block_number l \<and> log_finality l = Unsafe)) (rs_logs st)\<rparr>))"

definition delete_unsafe_blocks_from :: "'h row_store \<Rightarrow> chain_id \<Rightarrow> u64 \<Rightarrow> ('h row_store, store_error) result" where
  "delete_unsafe_blocks_from st chain from_block =
     and_then (u64_to_i64 from_block ''from block'') (\<lambda>_.
       Ok (st\<lparr>rs_blocks := filter (\<lambda>(c, b). \<not> (c = chain \<and> from_block \<le> blk_number b \<and> blk_finality b = Unsafe)) (rs_blocks st)\<rparr>))"

definition delete_unsafe_senders_from :: "'h row_store \<Rightarrow> chain_id \<Rightarrow> u64 \<Rightarrow> ('h row_store, store_error) result" where
  "delete_unsafe_senders_from st chain from_block =
     and_then (u64_to_i64 from_block ''from block'') (\<lambda>_.
       Ok (st\<lparr>rs_senders := filter (\<lambda>(c, s). \<not> (c = chain \<and> from_block \<le> snd_block s \<and> snd_finality s = Unsafe)) (rs_senders st)\<rparr>))"

definition delete_unsafe_through :: "'h row_store \<Rightarrow> chain_id \<Rightarrow> u64 \<Rightarrow> (u64 \<times> 'h row_store, store_error) result" where
  "delete_unsafe_through st chain thr =
     and_then (u64_to_i64 thr ''block number'') (\<lambda>_.
       let gl = (\<lambda>(c, l). c = chain \<and> log_finality l = Unsafe \<and> log_block_number l \<le> thr);
           gb = (\<lambda>(c, b). c = chain \<and> blk_finality b = Unsafe \<and> blk_number b \<le> thr);
           gs = (\<lambda>(c, s). c = chain \<and> snd_finality s = Unsafe \<and> snd_block s \<le> thr)
       in Ok (length (filter gl (rs_logs st)) + length (filter gb (rs_blocks st)) + length (filter gs (rs_senders st)),
              st\<lparr>rs_logs := filter (\<lambda>x. \<not> gl x) (rs_logs st), rs_blocks := filter (\<lambda>x. \<not> gb x) (rs_blocks st),
                 rs_senders := filter (\<lambda>x. \<not> gs x) (rs_senders st)\<rparr>))"

section \<open>Durable rows survive\<close>

definition log_le :: "chain_id \<times> log_row \<Rightarrow> chain_id \<times> log_row \<Rightarrow> bool" where
  "log_le a b = (\<exists>f. log_finality (snd a) \<le> f \<and> b = (fst a, (snd a)\<lparr>log_finality := f\<rparr>))"

definition block_le :: "chain_id \<times> 'h block_row \<Rightarrow> chain_id \<times> 'h block_row \<Rightarrow> bool" where
  "block_le a b = (\<exists>f. blk_finality (snd a) \<le> f \<and> b = (fst a, (snd a)\<lparr>blk_finality := f\<rparr>))"

definition sender_le :: "chain_id \<times> sender_row \<Rightarrow> chain_id \<times> sender_row \<Rightarrow> bool" where
  "sender_le a b = (\<exists>f. snd_finality (snd a) \<le> f \<and> b = (fst a, (snd a)\<lparr>snd_finality := f\<rparr>))"

definition rows_unique :: "'h row_store \<Rightarrow> bool" where
  "rows_unique st =
     (distinct (map log_key (rs_logs st)) \<and> distinct (map block_key (rs_blocks st)) \<and> distinct (map sender_key (rs_senders st)))"

text \<open>What a table of rows with a key, a \<open>where\<close> clause and an assignment promises.\<close>

locale keyed_table =
  fixes key :: "'r \<Rightarrow> 'k" and can :: "'r \<Rightarrow> 'r \<Rightarrow> bool" and upd :: "'r \<Rightarrow> 'r \<Rightarrow> 'r" and le :: "'r \<Rightarrow> 'r \<Rightarrow> bool"
  assumes upd_key: "key (upd r n) = key r"
    and upd_le: "can r n \<Longrightarrow> le r (upd r n)"
    and le_refl: "le r r"
    and le_trans: "le a b \<Longrightarrow> le b c \<Longrightarrow> le a c"
begin

lemma map_upd_keys: "map key (map (\<lambda>r. if P r then upd r n else r) rows) = map key rows"
  by (simp add: upd_key)

lemma found_unique:
  assumes "distinct (map key rows)" and "find (\<lambda>r. key r = k) rows = Some old" and "r \<in> set rows" and "key r = k"
  shows "r = old"
  using assms find_Some_in [OF assms(2)] by (auto simp: distinct_map inj_on_def)

lemma upsert_step_keeps:
  assumes "distinct (map key rows)" and "find (\<lambda>r. key r = key n) rows = Some old" and "can old n" and "r \<in> set rows"
  shows "\<exists>r'\<in>set (map (\<lambda>r. if key r = key n then upd r n else r) rows). le r r'"
proof (cases "key r = key n")
  case True
  then have "r = old" using found_unique [OF assms(1,2,4)] by simp
  with True assms(3,4) upd_le show ?thesis by force
next
  case False
  with assms(4) le_refl show ?thesis by force
qed

lemma upsert_keeps:
  assumes "upsert_rows key can upd touched rows ns = Ok rows'" and "distinct (map key rows)"
  shows "distinct (map key rows') \<and> (\<forall>r\<in>set rows. \<exists>r'\<in>set rows'. le r r')"
  using assms
proof (induction ns arbitrary: touched rows)
  case Nil
  then show ?case using le_refl by auto
next
  case (Cons n ns)
  show ?case
  proof (cases "find (\<lambda>r. key r = key n) rows")
    case None
    then have "key n \<notin> key ` set rows" by (auto simp: find_None_notin)
    then have dist: "distinct (map key (rows @ [n]))" using Cons.prems(2) by auto
    from Cons.prems(1) None have "upsert_rows key can upd (key n # touched) (rows @ [n]) ns = Ok rows'" by simp
    from Cons.IH [OF this dist] show ?thesis by auto
  next
    case (Some old)
    show ?thesis
    proof (cases "can old n \<and> key n \<notin> set touched")
      case True
      let ?mid = "map (\<lambda>r. if key r = key n then upd r n else r) rows"
      have "upsert_rows key can upd (key n # touched) ?mid ns = Ok rows'" using Cons.prems(1) Some True by simp
      moreover have "distinct (map key ?mid)" using Cons.prems(2) by (simp only: map_upd_keys)
      ultimately have IH: "distinct (map key rows') \<and> (\<forall>r\<in>set ?mid. \<exists>r'\<in>set rows'. le r r')" by (rule Cons.IH)
      have "\<exists>r'\<in>set rows'. le r r'" if "r \<in> set rows" for r
        using upsert_step_keeps [OF Cons.prems(2) Some _ that] True IH le_trans by blast
      with IH show ?thesis by blast
    next
      case False
      with Cons.prems(1) Some have "upsert_rows key can upd touched rows ns = Ok rows'" by (auto split: if_splits)
      from Cons.IH [OF this Cons.prems(2)] show ?thesis .
    qed
  qed
qed

text \<open>Every row of a batch without repeated keys ends up stored, or merged into the stored row of its
  key.\<close>

lemma upsert_reaches:
  assumes "upsert_rows key can upd touched rows ns = Ok rows'" and "distinct (map key rows)" and "distinct (map key ns)" and "n \<in> set ns"
  shows "\<exists>r'\<in>set rows'. le n r' \<or> (\<exists>old\<in>set rows. key old = key n \<and> le (if can old n then upd old n else old) r')"
  using assms
proof (induction ns arbitrary: touched rows)
  case (Cons m ns)
  have dist: "distinct (map key ns)" using Cons.prems(3) by simp
  have other: "key n \<noteq> key m" if "n \<in> set ns" using that Cons.prems(3) by (metis distinct.simps(2) image_eqI list.set_map list.simps(9))
  show ?case
  proof (cases "find (\<lambda>r. key r = key m) rows")
    case None
    then have dist': "distinct (map key (rows @ [m]))" using Cons.prems(2) by (auto simp: find_None_notin)
    have run: "upsert_rows key can upd (key m # touched) (rows @ [m]) ns = Ok rows'" using Cons.prems(1) None by simp
    show ?thesis
    proof (cases "n = m")
      case True
      with upsert_keeps [OF run dist'] show ?thesis by auto
    next
      case False
      then have "n \<in> set ns" using Cons.prems(4) by simp
      from Cons.IH [OF run dist' dist this] other [OF this] show ?thesis by auto
    qed
  next
    case (Some old)
    note old = find_Some_in [OF Some]
    let ?mid = "if can old m then map (\<lambda>r. if key r = key m then upd r m else r) rows else rows"
    obtain touched' where run: "upsert_rows key can upd touched' ?mid ns = Ok rows'"
      using Cons.prems(1) Some by (auto split: if_splits)
    have dist': "distinct (map key ?mid)" using Cons.prems(2) by (cases "can old m") (simp_all only: if_True if_False map_upd_keys)
    show ?thesis
    proof (cases "n = m")
      case True
      have "(if can old m then upd old m else old) \<in> set ?mid" using old by auto
      with upsert_keeps [OF run dist'] True old show ?thesis by blast
    next
      case False
      then have n: "n \<in> set ns" using Cons.prems(4) by simp
      have "o' \<in> set rows" if "o' \<in> set ?mid" "key o' = key n" for o' using that other [OF n] upd_key by (auto split: if_splits)
      with Cons.IH [OF run dist' dist n] show ?thesis by blast
    qed
  qed
qed simp

text \<open>A batch without repeated keys is never refused, and only stored or incoming rows result.\<close>

lemma upsert_total:
  assumes "distinct (map key ns)" and "\<forall>n\<in>set ns. key n \<notin> set touched"
  shows "\<exists>rows'. upsert_rows key can upd touched rows ns = Ok rows'"
  using assms
proof (induction ns arbitrary: touched rows)
  case (Cons n ns)
  from Cons.prems have dist: "distinct (map key ns)" and old: "\<forall>m\<in>set ns. key m \<notin> set touched" by auto
  have "key m \<noteq> key n" if "m \<in> set ns" for m using Cons.prems(1) that by (metis distinct.simps(2) image_eqI list.set_map list.simps(9))
  with old have "\<forall>m\<in>set ns. key m \<notin> set (key n # touched)" by simp
  with Cons.IH [OF dist] old Cons.prems(2) show ?case by (auto split: option.splits)
qed simp

lemma upsert_from:
  assumes "upsert_rows key can upd touched rows ns = Ok rows'" and "distinct (map key rows)"
  shows "\<forall>r\<in>set rows'. \<exists>r0\<in>set rows \<union> set ns. le r0 r"
  using assms
proof (induction ns arbitrary: touched rows)
  case Nil
  then show ?case using le_refl by auto
next
  case (Cons n ns)
  show ?case
  proof (cases "find (\<lambda>r. key r = key n) rows")
    case None
    then have "key n \<notin> key ` set rows" by (auto simp: find_None_notin)
    then have dist: "distinct (map key (rows @ [n]))" using Cons.prems(2) by auto
    from Cons.prems(1) None have "upsert_rows key can upd (key n # touched) (rows @ [n]) ns = Ok rows'" by simp
    from Cons.IH [OF this dist] show ?thesis by auto
  next
    case (Some old)
    show ?thesis
    proof (cases "can old n \<and> key n \<notin> set touched")
      case True
      let ?mid = "map (\<lambda>r. if key r = key n then upd r n else r) rows"
      have "upsert_rows key can upd (key n # touched) ?mid ns = Ok rows'" using Cons.prems(1) Some True by simp
      moreover have "distinct (map key ?mid)" using Cons.prems(2) by (simp only: map_upd_keys)
      ultimately have IH: "\<forall>r\<in>set rows'. \<exists>r0\<in>set ?mid \<union> set ns. le r0 r" by (rule Cons.IH)
      have "\<exists>r0\<in>set rows. le r0 m" if "m \<in> set ?mid" for m
      proof -
        from that obtain r where r: "r \<in> set rows" "m = (if key r = key n then upd r n else r)" by auto
        with found_unique [OF Cons.prems(2) Some r(1)] True upd_le [of old n] le_refl show ?thesis
          by (cases "key r = key n") auto
      qed
      then have "\<exists>r0\<in>set rows \<union> set (n # ns). le r0 r" if "r0 \<in> set ?mid \<union> set ns" "le r0 r" for r0 r
        using that le_trans by (meson UnE UnI1 UnI2 list.set_intros(2))
      with IH show ?thesis by blast
    next
      case False
      with Cons.prems(1) Some have "upsert_rows key can upd touched rows ns = Ok rows'" by (auto split: if_splits)
      from Cons.IH [OF this Cons.prems(2)] show ?thesis by auto
    qed
  qed
qed

lemma upsert_present:
  assumes "upsert_rows key can upd touched rows ns = Ok rows'"
  shows "key ` set rows' = key ` set rows \<union> key ` set ns"
  using assms
proof (induction ns arbitrary: touched rows)
  case (Cons n ns)
  show ?case
  proof (cases "find (\<lambda>r. key r = key n) rows")
    case None
    with Cons show ?thesis by auto
  next
    case (Some old)
    then have "key n \<in> key ` set rows" using find_Some_in [OF Some] by (metis imageI)
    moreover have "key ` set (map (\<lambda>r. if key r = key n then upd r n else r) rows) = key ` set rows"
      by (metis map_upd_keys set_map)
    ultimately show ?thesis using Cons.prems Some Cons.IH by (auto split: if_splits)
  qed
qed simp

end

lemmas le_defs = log_le_def block_le_def sender_le_def
lemmas key_defs = log_key_def block_key_def sender_key_def
lemmas can_defs = log_can_def block_can_def sender_can_def log_upd_def block_upd_def sender_upd_def

interpretation logs: keyed_table log_key log_can log_upd log_le
proof
  show "log_le a b \<Longrightarrow> log_le b c \<Longrightarrow> log_le a c" for a b c :: "chain_id \<times> log_row"
    by (auto simp: log_le_def) (blast intro: order_trans)
  show "log_le r r" for r :: "chain_id \<times> log_row"
    by (cases r) (auto simp: log_le_def intro!: exI [of _ "log_finality (snd r)"])
qed (auto simp: key_defs can_defs le_defs intro: less_imp_le)

interpretation blks: keyed_table block_key block_can block_upd block_le
proof
  show "block_le a b \<Longrightarrow> block_le b c \<Longrightarrow> block_le a c" for a b c :: "chain_id \<times> 'h block_row"
    by (auto simp: block_le_def) (blast intro: order_trans)
  show "block_le r r" for r :: "chain_id \<times> 'h block_row"
    by (cases r) (auto simp: block_le_def intro!: exI [of _ "blk_finality (snd r)"])
qed (auto simp: key_defs can_defs le_defs intro: less_imp_le)

interpretation sndrs: keyed_table sender_key sender_can sender_upd sender_le
proof
  show "sender_le a b \<Longrightarrow> sender_le b c \<Longrightarrow> sender_le a c" for a b c :: "chain_id \<times> sender_row"
    by (auto simp: sender_le_def) (blast intro: order_trans)
  show "sender_le r r" for r :: "chain_id \<times> sender_row"
    by (cases r) (auto simp: sender_le_def intro!: exI [of _ "snd_finality (snd r)"])
qed (auto simp: key_defs can_defs le_defs intro: less_imp_le)

text \<open>Every durable row of \<open>st\<close> is in \<open>st'\<close>, unchanged but for a finality at least as strong.\<close>

definition durable_kept :: "'h row_store \<Rightarrow> 'h row_store \<Rightarrow> bool" where
  "durable_kept st st' =
     ((\<forall>r\<in>set (rs_logs st). Safe \<le> log_finality (snd r) \<longrightarrow> (\<exists>r'\<in>set (rs_logs st'). log_le r r')) \<and>
      (\<forall>r\<in>set (rs_blocks st). Safe \<le> blk_finality (snd r) \<longrightarrow> (\<exists>r'\<in>set (rs_blocks st'). block_le r r')) \<and>
      (\<forall>r\<in>set (rs_senders st). Safe \<le> snd_finality (snd r) \<longrightarrow> (\<exists>r'\<in>set (rs_senders st'). sender_le r r')))"

lemma durable_kept_refl: "durable_kept st st"
  using logs.le_refl blks.le_refl sndrs.le_refl by (force simp: durable_kept_def)

lemma le_durable:
  "log_le r r' \<Longrightarrow> Safe \<le> log_finality (snd r) \<Longrightarrow> Safe \<le> log_finality (snd r')"
  "block_le q q' \<Longrightarrow> Safe \<le> blk_finality (snd q) \<Longrightarrow> Safe \<le> blk_finality (snd q')"
  "sender_le p p' \<Longrightarrow> Safe \<le> snd_finality (snd p) \<Longrightarrow> Safe \<le> snd_finality (snd p')"
  by (auto simp: le_defs dest: order_trans simp del: finality_order)

lemma durable_kept_trans:
  assumes "durable_kept a b" and "durable_kept b c"
  shows "durable_kept a c"
  unfolding durable_kept_def
proof (intro conjI ballI impI)
  fix r
  assume "r \<in> set (rs_logs a)" and "Safe \<le> log_finality (snd r)"
  then show "\<exists>r'\<in>set (rs_logs c). log_le r r'"
    using assms le_durable(1) logs.le_trans unfolding durable_kept_def by meson
next
  fix r
  assume "r \<in> set (rs_blocks a)" and "Safe \<le> blk_finality (snd r)"
  then show "\<exists>r'\<in>set (rs_blocks c). block_le r r'"
    using assms le_durable(2) blks.le_trans unfolding durable_kept_def by meson
next
  fix r
  assume "r \<in> set (rs_senders a)" and "Safe \<le> snd_finality (snd r)"
  then show "\<exists>r'\<in>set (rs_senders c). sender_le r r'"
    using assms le_durable(3) sndrs.le_trans unfolding durable_kept_def by meson
qed

inductive row_step :: "'h row_store \<Rightarrow> 'h row_store \<Rightarrow> bool" where
  r_blocks: "insert_blocks st chain bs = Ok st' \<Longrightarrow> row_step st st'"
| r_logs: "insert_logs st chain ls = Ok st' \<Longrightarrow> row_step st st'"
| r_senders: "insert_senders st chain ss = Ok st' \<Longrightarrow> row_step st st'"
| r_promote_blocks: "promote_blocks st chain r fin h = Ok (n, st') \<Longrightarrow> row_step st st'"
| r_promote_logs: "promote_logs st chain s r fin h = Ok (n, st') \<Longrightarrow> row_step st st'"
| r_promote_senders: "promote_senders st chain r fin = Ok (n, st') \<Longrightarrow> row_step st st'"
| r_delete_logs: "delete_unsafe_logs_from st chain b = Ok st' \<Longrightarrow> row_step st st'"
| r_delete_blocks: "delete_unsafe_blocks_from st chain b = Ok st' \<Longrightarrow> row_step st st'"
| r_delete_senders: "delete_unsafe_senders_from st chain b = Ok st' \<Longrightarrow> row_step st st'"
| r_delete_through: "delete_unsafe_through st chain b = Ok (n, st') \<Longrightarrow> row_step st st'"

lemma durable_keptI:
  assumes "\<And>r. r \<in> set (rs_logs st) \<Longrightarrow> Safe \<le> log_finality (snd r) \<Longrightarrow> \<exists>r'\<in>set (rs_logs st'). log_le r r'"
    and "\<And>r. r \<in> set (rs_blocks st) \<Longrightarrow> Safe \<le> blk_finality (snd r) \<Longrightarrow> \<exists>r'\<in>set (rs_blocks st'). block_le r r'"
    and "\<And>r. r \<in> set (rs_senders st) \<Longrightarrow> Safe \<le> snd_finality (snd r) \<Longrightarrow> \<exists>r'\<in>set (rs_senders st'). sender_le r r'"
  shows "durable_kept st st'"
  using assms by (simp add: durable_kept_def)

lemma kept_same:
  "x \<in> A \<Longrightarrow> \<exists>y\<in>A. log_le x y"
  "b \<in> B \<Longrightarrow> \<exists>y\<in>B. block_le b y"
  "c \<in> C \<Longrightarrow> \<exists>y\<in>C. sender_le c y"
  using logs.le_refl blks.le_refl sndrs.le_refl by blast+

lemma insert_rows_kept:
  assumes "rows_unique st"
  shows "insert_blocks st chain bs = Ok st' \<Longrightarrow> rows_unique st' \<and> durable_kept st st'"
    and "insert_logs st chain ls = Ok st' \<Longrightarrow> rows_unique st' \<and> durable_kept st st'"
    and "insert_senders st chain ss = Ok st' \<Longrightarrow> rows_unique st' \<and> durable_kept st st'"
proof -
  show "insert_blocks st chain bs = Ok st' \<Longrightarrow> rows_unique st' \<and> durable_kept st st'"
    using assms blks.upsert_keeps [of "[]" "rs_blocks st" "map (Pair chain) bs"]
    by (auto simp: insert_blocks_def map_ok_def rows_unique_def durable_kept_refl
        split: if_splits option.splits sum.splits intro!: durable_keptI intro: kept_same)
  show "insert_logs st chain ls = Ok st' \<Longrightarrow> rows_unique st' \<and> durable_kept st st'"
    using assms logs.upsert_keeps [of "[]" "rs_logs st" "map (Pair chain) ls"]
    by (auto simp: insert_logs_def map_ok_def rows_unique_def durable_kept_refl
        split: if_splits option.splits sum.splits intro!: durable_keptI intro: kept_same)
  show "insert_senders st chain ss = Ok st' \<Longrightarrow> rows_unique st' \<and> durable_kept st st'"
    using assms sndrs.upsert_keeps [of "[]" "rs_senders st" "map (Pair chain) ss"]
    by (auto simp: insert_senders_def map_ok_def rows_unique_def durable_kept_refl
        split: if_splits option.splits sum.splits intro!: durable_keptI intro: kept_same)
qed

text \<open>An update that only raises finality.\<close>

lemma raise_rows_kept:
  assumes "\<And>x. x \<in> set xs \<Longrightarrow> le x (f x)" and "\<And>x. key (f x) = key x"
  shows "map key (map f xs) = map key xs" and "x \<in> set xs \<Longrightarrow> \<exists>y\<in>set (map f xs). le x y"
  using assms by auto

lemma raise_le:
  "log_finality (snd x) < f \<Longrightarrow> log_le x (fst x, (snd x)\<lparr>log_finality := f\<rparr>)"
  "blk_finality (snd y) < f \<Longrightarrow> block_le y (fst y, (snd y)\<lparr>blk_finality := f\<rparr>)"
  "snd_finality (snd z) < f \<Longrightarrow> sender_le z (fst z, (snd z)\<lparr>snd_finality := f\<rparr>)"
  by (auto simp: le_defs intro!: exI [of _ f])

lemma promote_rows_kept:
  assumes "rows_unique st"
  shows "promote_blocks st chain r fin h = Ok (n, st') \<Longrightarrow> rows_unique st' \<and> durable_kept st st'"
    and "promote_logs st chain s r fin h = Ok (n, st') \<Longrightarrow> rows_unique st' \<and> durable_kept st st'"
    and "promote_senders st chain r fin = Ok (n, st') \<Longrightarrow> rows_unique st' \<and> durable_kept st st'"
proof -
  show "rows_unique st' \<and> durable_kept st st'" if "promote_blocks st chain r fin h = Ok (n, st')"
  proof -
    define f where "f x = (if (case x of (c, b) \<Rightarrow> c = chain \<and> range_contains r (blk_number b) \<and> blk_finality b < fin)
      then (fst x, (snd x)\<lparr>blk_finality := fin\<rparr>) else x)" for x :: "chain_id \<times> 'a block_row"
    have "st' = st\<lparr>rs_blocks := map f (rs_blocks st)\<rparr>"
      using that by (auto simp: promote_blocks_def Let_def f_def [abs_def] split: if_splits option.splits)
    moreover have le: "block_le x (f x)" and key: "block_key (f x) = block_key x" for x
      using blks.le_refl raise_le by (auto simp: f_def block_key_def split: prod.splits)
    note raise_rows_kept [of "rs_blocks st" block_le f block_key, OF le key]
    ultimately show ?thesis using assms
      by (auto simp: rows_unique_def simp del: map_map intro!: durable_keptI intro: kept_same)
  qed
  show "rows_unique st' \<and> durable_kept st st'" if "promote_logs st chain s r fin h = Ok (n, st')"
  proof -
    define f where "f x = (if (case x of (c, l) \<Rightarrow> c = chain \<and> range_contains r (log_block_number l) \<and> log_finality l < fin \<and>
        sql_selector_filter s l) then (fst x, (snd x)\<lparr>log_finality := fin\<rparr>) else x)" for x :: "chain_id \<times> log_row"
    have "st' = st\<lparr>rs_logs := map f (rs_logs st)\<rparr>"
      using that by (auto simp: promote_logs_def Let_def f_def [abs_def] split: if_splits option.splits)
    moreover have le: "log_le x (f x)" and key: "log_key (f x) = log_key x" for x
      using logs.le_refl raise_le by (auto simp: f_def log_key_def split: prod.splits)
    note raise_rows_kept [of "rs_logs st" log_le f log_key, OF le key]
    ultimately show ?thesis using assms
      by (auto simp: rows_unique_def simp del: map_map intro!: durable_keptI intro: kept_same)
  qed
  show "rows_unique st' \<and> durable_kept st st'" if "promote_senders st chain r fin = Ok (n, st')"
  proof -
    define f where "f x = (if (case x of (c, s) \<Rightarrow> c = chain \<and> range_contains r (snd_block s) \<and> snd_finality s < fin)
      then (fst x, (snd x)\<lparr>snd_finality := fin\<rparr>) else x)" for x :: "chain_id \<times> sender_row"
    have "st' = st\<lparr>rs_senders := map f (rs_senders st)\<rparr>"
      using that by (auto simp: promote_senders_def Let_def f_def [abs_def] split: if_splits)
    moreover have le: "sender_le x (f x)" and key: "sender_key (f x) = sender_key x" for x
      using sndrs.le_refl raise_le by (auto simp: f_def sender_key_def split: prod.splits)
    note raise_rows_kept [of "rs_senders st" sender_le f sender_key, OF le key]
    ultimately show ?thesis using assms
      by (auto simp: rows_unique_def simp del: map_map intro!: durable_keptI intro: kept_same)
  qed
qed

lemma delete_rows_kept:
  assumes "rows_unique st"
  shows "delete_unsafe_logs_from st chain b = Ok st' \<Longrightarrow> rows_unique st' \<and> durable_kept st st'"
    and "delete_unsafe_blocks_from st chain b = Ok st' \<Longrightarrow> rows_unique st' \<and> durable_kept st st'"
    and "delete_unsafe_senders_from st chain b = Ok st' \<Longrightarrow> rows_unique st' \<and> durable_kept st st'"
    and "delete_unsafe_through st chain b = Ok (n, st') \<Longrightarrow> rows_unique st' \<and> durable_kept st st'"
  using assms
  by (auto simp: delete_unsafe_logs_from_def delete_unsafe_blocks_from_def delete_unsafe_senders_from_def
      delete_unsafe_through_def Let_def rows_unique_def distinct_map_filter intro!: durable_keptI intro!: kept_same)

lemma row_step_kept:
  assumes "rows_unique st" and "row_step st st'"
  shows "rows_unique st' \<and> durable_kept st st'"
  using assms(2)
  by cases (fact insert_rows_kept [OF assms(1)] promote_rows_kept [OF assms(1)] delete_rows_kept [OF assms(1)])+

definition rows_empty :: "'h row_store \<Rightarrow> bool" where
  "rows_empty st = (rs_logs st = [] \<and> rs_blocks st = [] \<and> rs_senders st = [])"

interpretation rows: invariant_system rows_empty row_step rows_unique
proof
  show "rows_empty s \<Longrightarrow> rows_unique s" for s :: "'a row_store" by (simp add: rows_empty_def rows_unique_def)
  show "rows_unique s \<Longrightarrow> row_step s t \<Longrightarrow> rows_unique t" for s t :: "'a row_store" using row_step_kept by blast
qed

text \<open>
  C35. Durable rows survive: from any store that inserts, promotions and deletions of unsafe
  rows can reach, whatever runs next (reorg rollback and retention included) keeps every log,
  block and sender whose finality is safe or finalized, with its content unchanged and its
  finality never lowered; keys stay unique.
\<close>
theorem durable_rows_survive:
  assumes "rows_empty s0" and "row_step\<^sup>*\<^sup>* s0 s" and "row_step\<^sup>*\<^sup>* s t"
  shows "rows_unique t \<and> durable_kept s t"
proof -
  have inv: "rows_unique s" by (rule rows.reachable_inv [OF assms(1,2)])
  have "durable_kept s t"
    using assms(3)
  proof (induction rule: rtranclp_induct)
    case (step y z)
    have "rows_unique y" by (rule rows.steps_inv [OF step.hyps(1) inv])
    with step show ?case using row_step_kept durable_kept_trans by blast
  qed (rule durable_kept_refl)
  with rows.steps_inv [OF assms(3) inv] show ?thesis by blast
qed

definition demo_block :: "u64 \<Rightarrow> finality \<Rightarrow> unit block_row" where
  "demo_block n f = \<lparr>blk_number = n, blk_hash = of_nat n, blk_parent_hash = 0, blk_timestamp = 0, blk_finality = f, blk_header = ()\<rparr>"

theorem durable_rows_survive_witness:
  "let e = \<lparr>rs_logs = [], rs_blocks = [], rs_senders = []\<rparr> in
   \<exists>s t. insert_blocks e 1 [demo_block 5 Safe, demo_block 6 Unsafe] = Ok s \<and> delete_unsafe_blocks_from s 1 0 = Ok t \<and>
     durable_kept s t \<and> rs_blocks t = [(1, demo_block 5 Safe)]"
proof -
  let ?e = "\<lparr>rs_logs = [], rs_blocks = [], rs_senders = []\<rparr> :: unit row_store"
  let ?s = "?e\<lparr>rs_blocks := [(1, demo_block 5 Safe), (1, demo_block 6 Unsafe)]\<rparr>"
  let ?t = "?e\<lparr>rs_blocks := [(1, demo_block 5 Safe)]\<rparr>"
  have s: "insert_blocks ?e 1 [demo_block 5 Safe, demo_block 6 Unsafe] = Ok ?s"
    by (simp add: insert_blocks_def block_columns_def demo_block_def u64_to_i64_def i64_of_u64_def i64_max_def
        hash_conflict_def conflicts_def list_min_def block_key_def)
  have t: "delete_unsafe_blocks_from ?s 1 0 = Ok ?t"
    by (simp add: delete_unsafe_blocks_from_def u64_to_i64_def i64_of_u64_def i64_max_def demo_block_def)
  have "rows_empty ?e" by (simp add: rows_empty_def)
  moreover have "row_step\<^sup>*\<^sup>* ?e ?s" using r_blocks [OF s] by blast
  moreover have "row_step\<^sup>*\<^sup>* ?s ?t" using r_delete_blocks [OF t] by blast
  ultimately have "durable_kept ?s ?t" using durable_rows_survive by blast
  with s t show ?thesis unfolding Let_def by (intro exI [of _ ?s] exI [of _ ?t]) simp
qed

section \<open>Reorg detection on insert\<close>

text \<open>The (chain, number, hash) facts that stored logs and blocks state; a consistent store has
  one hash per height.\<close>

definition hash_points :: "'h row_store \<Rightarrow> (chain_id \<times> u64 \<times> b256) set" where
  "hash_points st =
     (\<lambda>(c, l). (c, log_block_number l, log_block_hash l)) ` set (rs_logs st) \<union>
     (\<lambda>(c, b). (c, blk_number b, blk_hash b)) ` set (rs_blocks st)"

definition hash_consistent :: "'h row_store \<Rightarrow> bool" where
  "hash_consistent st = (\<forall>c n h h'. (c, n, h) \<in> hash_points st \<and> (c, n, h') \<in> hash_points st \<longrightarrow> h = h')"

lemma log_point: "(c, l) \<in> set (rs_logs st) \<Longrightarrow> (c, log_block_number l, log_block_hash l) \<in> hash_points st"
  unfolding hash_points_def by (rule UnI1, rule image_eqI) auto

lemma block_point: "(c, b) \<in> set (rs_blocks st) \<Longrightarrow> (c, blk_number b, blk_hash b) \<in> hash_points st"
  unfolding hash_points_def by (rule UnI2, rule image_eqI) auto

lemma hash_point_cases:
  assumes "(c, n, h) \<in> hash_points st"
  obtains (log) l where "(c, l) \<in> set (rs_logs st)" "n = log_block_number l" "h = log_block_hash l"
    | (block) b where "(c, b) \<in> set (rs_blocks st)" "n = blk_number b" "h = blk_hash b"
  using assms by (auto simp: hash_points_def)

lemma conflicts_iff:
  "n \<in> set (conflicts st chain incoming) \<longleftrightarrow> (\<exists>h h'. (n, h) \<in> set incoming \<and> (chain, n, h') \<in> hash_points st \<and> h' \<noteq> h)"
proof
  assume "n \<in> set (conflicts st chain incoming)"
  then have "\<exists>h. (n, h) \<in> set incoming \<and> (
     (\<exists>l. (chain, l) \<in> set (rs_logs st) \<and> log_block_number l = n \<and> log_block_hash l \<noteq> h) \<or>
     (\<exists>b. (chain, b) \<in> set (rs_blocks st) \<and> blk_number b = n \<and> blk_hash b \<noteq> h))"
    unfolding conflicts_def by (fastforce simp: list_ex_iff)
  then show "\<exists>h h'. (n, h) \<in> set incoming \<and> (chain, n, h') \<in> hash_points st \<and> h' \<noteq> h"
    using log_point block_point by metis
next
  assume "\<exists>h h'. (n, h) \<in> set incoming \<and> (chain, n, h') \<in> hash_points st \<and> h' \<noteq> h"
  then obtain h h' where h: "(n, h) \<in> set incoming" "h' \<noteq> h" and pt: "(chain, n, h') \<in> hash_points st" by blast
  from pt h(2) have "list_ex (\<lambda>(c, l). c = chain \<and> log_block_number l = n \<and> log_block_hash l \<noteq> h) (rs_logs st) \<or>
      list_ex (\<lambda>(c, b). c = chain \<and> blk_number b = n \<and> blk_hash b \<noteq> h) (rs_blocks st)"
    by (elim hash_point_cases) (auto simp: list_ex_iff)
  with h(1) show "n \<in> set (conflicts st chain incoming)" by (force simp: conflicts_def)
qed

lemma no_conflict: "hash_conflict st chain incoming = None \<longleftrightarrow> (\<forall>n. n \<notin> set (conflicts st chain incoming))"
  by (simp add: hash_conflict_def)

lemma points_extend:
  assumes "hash_consistent st" and "hash_conflict st chain incoming = None"
    and "hash_points st' \<subseteq> hash_points st \<union> (\<lambda>(n, h). (chain, n, h)) ` set incoming"
    and "\<And>n h h'. (n, h) \<in> set incoming \<Longrightarrow> (n, h') \<in> set incoming \<Longrightarrow> h = h'"
  shows "hash_consistent st'"
  unfolding hash_consistent_def
proof (intro allI impI, elim conjE)
  fix c n h h'
  assume "(c, n, h) \<in> hash_points st'" and "(c, n, h') \<in> hash_points st'"
  with assms(3) have "(c, n, h) \<in> hash_points st \<or> c = chain \<and> (n, h) \<in> set incoming"
    and "(c, n, h') \<in> hash_points st \<or> c = chain \<and> (n, h') \<in> set incoming" by auto
  with assms(1,2,4) show "h = h'"
    unfolding hash_consistent_def no_conflict conflicts_iff by blast
qed

definition batch_consistent :: "(u64 \<times> b256) list \<Rightarrow> bool" where
  "batch_consistent incoming = (\<forall>n h h'. (n, h) \<in> set incoming \<and> (n, h') \<in> set incoming \<longrightarrow> h = h')"

text \<open>
  Inserting logs of one canonical view detects every reorg and never mixes two forks: if
  some incoming log disagrees with a stored log or block about the hash of its block, the
  insert is refused as a reorg at the lowest such block and nothing is stored; otherwise it
  succeeds, every incoming log is stored, and each height still has one hash.
\<close>
theorem insert_logs_detects_reorg:
  assumes "rows_unique st" and "hash_consistent st" and "try_map log_columns ls = Ok us"
    and "batch_consistent (map (\<lambda>l. (log_block_number l, log_block_hash l)) ls)" and "distinct (map log_pos ls)"
  shows "case hash_conflict st chain (map (\<lambda>l. (log_block_number l, log_block_hash l)) ls) of
      Some b \<Rightarrow> insert_logs st chain ls = Err (StReorg b) \<and>
        (\<exists>l\<in>set ls. log_block_number l = b \<and> (\<exists>h. (chain, b, h) \<in> hash_points st \<and> h \<noteq> log_block_hash l)) \<and>
        (\<forall>l\<in>set ls. log_block_number l < b \<longrightarrow> (\<forall>h. (chain, log_block_number l, h) \<in> hash_points st \<longrightarrow> h = log_block_hash l))
    | None \<Rightarrow> \<exists>st'. insert_logs st chain ls = Ok st' \<and> hash_consistent st' \<and> rows_unique st' \<and>
        (\<forall>l\<in>set ls. \<exists>l'. (chain, l') \<in> set (rs_logs st') \<and> log_pos l' = log_pos l \<and> log_block_hash l' = log_block_hash l)"
proof (cases "hash_conflict st chain (map (\<lambda>l. (log_block_number l, log_block_hash l)) ls)")
  case (Some b)
  let ?in = "map (\<lambda>l. (log_block_number l, log_block_hash l)) ls"
  have "b \<in> set (conflicts st chain ?in)" and low: "\<forall>n\<in>set (conflicts st chain ?in). b \<le> n"
    using Some by (auto simp: hash_conflict_def list_min_Some)
  then obtain l h where "l \<in> set ls" "log_block_number l = b" "(chain, b, h) \<in> hash_points st" "h \<noteq> log_block_hash l"
    by (auto simp: conflicts_iff)
  moreover have "h = log_block_hash l" if "l \<in> set ls" "log_block_number l < b" "(chain, log_block_number l, h) \<in> hash_points st" for l h
  proof (rule ccontr)
    assume "h \<noteq> log_block_hash l"
    with that have "log_block_number l \<in> set (conflicts st chain ?in)"
      unfolding conflicts_iff by (intro exI [of _ "log_block_hash l"] exI [of _ h]) auto
    with low that(2) show False by auto
  qed
  moreover have "insert_logs st chain ls = Err (StReorg b)"
    using Some assms(3) by (auto simp: insert_logs_def hash_conflict_def conflicts_def list_min_def)
  ultimately show ?thesis using Some by auto
next
  case None
  let ?in = "map (\<lambda>l. (log_block_number l, log_block_hash l)) ls"
  have "distinct (map log_key (map (Pair chain) ls))"
    using assms(5) by (auto simp: distinct_map inj_on_def log_key_def log_pos_def)
  then obtain rows where up: "upsert_rows log_key log_can log_upd [] (rs_logs st) (map (Pair chain) ls) = Ok rows"
    using logs.upsert_total [of "map (Pair chain) ls" "[]" "rs_logs st"] by auto
  define st' where "st' = st\<lparr>rs_logs := rows\<rparr>"
  have ins: "insert_logs st chain ls = Ok st'"
    using None assms(3) up by (auto simp: insert_logs_def st'_def)
  have uniq: "distinct (map log_key (rs_logs st))" using assms(1) by (simp add: rows_unique_def)
  have "hash_points st' \<subseteq> hash_points st \<union> (\<lambda>(n, h). (chain, n, h)) ` set ?in"
    using logs.upsert_from [OF up uniq] by (fastforce simp: hash_points_def st'_def log_le_def)
  moreover have "h = h'" if "(n, h) \<in> set ?in" "(n, h') \<in> set ?in" for n h h'
    using assms(4) that unfolding batch_consistent_def by blast
  ultimately have cons: "hash_consistent st'" by (rule points_extend [OF assms(2) None])
  have "\<exists>l'. (chain, l') \<in> set (rs_logs st') \<and> log_pos l' = log_pos l \<and> log_block_hash l' = log_block_hash l" if l: "l \<in> set ls" for l
  proof -
    have "log_key (chain, l) \<in> log_key ` set rows" using logs.upsert_present [OF up] l by auto
    then obtain l' where l': "(chain, l') \<in> set rows" "log_pos l' = log_pos l" by (auto simp: log_key_def log_pos_def)
    obtain r0 where r0: "r0 \<in> set (rs_logs st) \<union> Pair chain ` set ls" "log_le r0 (chain, l')"
      using logs.upsert_from [OF up uniq] l'(1) by (metis list.set_map)
    then have pt: "fst r0 = chain" "log_block_number (snd r0) = log_block_number l'" "log_block_hash (snd r0) = log_block_hash l'"
      by (auto simp: log_le_def)
    have same: "log_block_number l' = log_block_number l" using l'(2) by (simp add: log_pos_def)
    have "log_block_hash l' = log_block_hash l"
    proof (cases "r0 \<in> set (rs_logs st)")
      case True
      then have "(chain, log_block_number l, log_block_hash l') \<in> hash_points st"
        using pt same log_point [of "fst r0" "snd r0" st] by (metis prod.collapse)
      with None l show ?thesis by (auto simp: no_conflict conflicts_iff)
    next
      case False
      with r0(1) obtain m where "m \<in> set ls" "r0 = (chain, m)" by auto
      then have "(log_block_number l, log_block_hash l') \<in> set ?in" using pt same by (auto intro!: image_eqI [of _ _ m])
      moreover have "(log_block_number l, log_block_hash l) \<in> set ?in" using l by force
      ultimately show ?thesis using assms(4) unfolding batch_consistent_def by blast
    qed
    with l' show ?thesis by (auto simp: st'_def)
  qed
  with ins cons insert_rows_kept(2) [OF assms(1) ins] None show ?thesis by auto
qed


definition demo_log :: "u64 \<Rightarrow> u32 \<Rightarrow> b256 \<Rightarrow> log_row" where
  "demo_log n i h = \<lparr>log_block_number = n, log_index = i, log_block_hash = h, transaction_index = 0,
     transaction_hash = 0, log_address = 7, log_topics = [1], log_data = [], log_finality = Unsafe\<rparr>"

lemmas column_eval =
  log_columns_def topic_columns_def u64_to_i64_def u32_to_i32_def i64_of_u64_def i64_max_def i32_max_def

theorem insert_logs_detects_reorg_witness:
  "let st = \<lparr>rs_logs = [(1, demo_log 5 0 11), (1, demo_log 6 0 12)], rs_blocks = [], rs_senders = []\<rparr> :: unit row_store in
   insert_logs st 1 [demo_log 6 1 13, demo_log 5 1 11] = Err (StReorg 6)"
proof -
  let ?st = "\<lparr>rs_logs = [(1, demo_log 5 0 11), (1, demo_log 6 0 12)], rs_blocks = [], rs_senders = []\<rparr> :: unit row_store"
  let ?ls = "[demo_log 6 1 13, demo_log 5 1 11]"
  have "rows_unique ?st" by (simp add: rows_unique_def log_key_def demo_log_def)
  moreover have "hash_consistent ?st" by (auto simp: hash_consistent_def hash_points_def demo_log_def)
  moreover have "try_map log_columns ?ls = Ok [(), ()]" by (simp add: column_eval demo_log_def)
  moreover have "batch_consistent (map (\<lambda>l. (log_block_number l, log_block_hash l)) ?ls)"
    by (auto simp: batch_consistent_def demo_log_def)
  moreover have "distinct (map log_pos ?ls)" by (simp add: log_pos_def demo_log_def)
  moreover have "hash_conflict ?st 1 (map (\<lambda>l. (log_block_number l, log_block_hash l)) ?ls) = Some 6"
    by (simp add: hash_conflict_def conflicts_def list_min_def demo_log_def)
  ultimately show ?thesis using insert_logs_detects_reorg [of ?st ?ls "[(), ()]" 1] by simp
qed

section \<open>Paging\<close>

text \<open>The pages that a caller gets by following the returned cursor; \<open>None\<close> when the fuel is
  spent before the last page.\<close>

fun read_all ::
  "nat \<Rightarrow> 'h row_store \<Rightarrow> chain_id \<Rightarrow> log_selector \<Rightarrow> block_range \<Rightarrow> log_cursor option \<Rightarrow> u32
     \<Rightarrow> (log_row list list, store_error) result option" where
  "read_all 0 st chain s r page limit = None"
| "read_all (Suc fuel) st chain s r page limit =
     (case read_logs st chain s r page limit of
        Err e \<Rightarrow> Some (Err e)
      | Ok (ls, None) \<Rightarrow> Some (Ok [ls])
      | Ok (ls, Some cur) \<Rightarrow> map_option (map_ok ((#) ls)) (read_all fuel st chain s r (Some cur) limit))"

definition rows_fit :: "'h row_store \<Rightarrow> bool" where
  "rows_fit st = (\<forall>(c, l)\<in>set (rs_logs st). log_columns l = Ok ())"

lemma filter_past_prefix:
  fixes f :: "'a \<Rightarrow> 'b::linorder"
  assumes "sorted_wrt (<) (map f xs)" and "0 < k" and "k \<le> length xs"
  shows "filter (\<lambda>x. f (last (take k xs)) < f x) xs = drop k xs"
proof -
  have nth: "last (take k xs) = xs ! (k - 1)" using assms by (subst last_conv_nth) auto
  have lt: "f (xs ! i) < f (xs ! j)" if "i < j" "j < length xs" for i j
    using assms(1) that by (simp add: sorted_wrt_iff_nth_less)
  have "filter (\<lambda>x. f (xs ! (k - 1)) < f x) (take k xs) = []"
  proof (intro filter_False ballI)
    fix x assume "x \<in> set (take k xs)"
    then obtain i where "i < k" "x = xs ! i" by (auto simp: in_set_conv_nth)
    then consider "x = xs ! (k - 1)" | "i < k - 1" "x = xs ! i" by (cases "i = k - 1") auto
    then show "\<not> f (xs ! (k - 1)) < f x"
      using lt [of i "k - 1"] assms(2,3) by cases (auto dest: order.asym)
  qed
  moreover have "filter (\<lambda>x. f (xs ! (k - 1)) < f x) (drop k xs) = drop k xs"
  proof (intro filter_True ballI)
    fix x assume "x \<in> set (drop k xs)"
    then obtain i where "i < length xs - k" "x = xs ! (k + i)" by (auto simp: in_set_conv_nth)
    then show "f (xs ! (k - 1)) < f x" using lt [of "k - 1" "k + i"] assms(2) by simp
  qed
  ultimately have "filter (\<lambda>x. f (xs ! (k - 1)) < f x) (take k xs @ drop k xs) = drop k xs"
    by (simp only: filter_append append_Nil)
  then show ?thesis by (simp add: nth)
qed

lemma logs_after_strict:
  assumes "rows_unique st"
  shows "sorted_wrt (<) (map log_pos (logs_after st chain s r page))"
proof -
  have inj: "inj_on log_key (set (rs_logs st))" and d: "distinct (rs_logs st)"
    using assms by (auto simp: rows_unique_def distinct_map)
  have same: "l = l'" if "(c, l) \<in> set (rs_logs st)" "(c, l') \<in> set (rs_logs st)" "log_pos l = log_pos l'" for c l l'
    using inj_onD [OF inj _ that(1,2)] that(3) by (simp add: log_key_def log_pos_def)
  have "distinct (map log_pos (map snd (filter (\<lambda>(c, l). c = chain \<and> P l) (rs_logs st))))" for P
    using d by (auto simp: distinct_map inj_on_def dest: same)
  then have "distinct (map log_pos (sort_key log_pos (map snd (filter (\<lambda>(c, l). c = chain \<and> P l) (rs_logs st)))))" for P
    by (simp only: distinct_map distinct_sort set_sort)
  then have "distinct (map log_pos (logs_after st chain s r page))"
    unfolding logs_after_def .
  then show ?thesis by (simp add: strict_sorted_iff logs_after_def)
qed

lemma logs_after_cursor:
  "logs_after st chain s r (Some cur) = filter (\<lambda>l. cur < log_pos l) (logs_after st chain s r None)"
  unfolding logs_after_def
  by (simp add: filter_sort filter_map comp_def) (intro arg_cong [where f = "sort_key log_pos"] arg_cong [where f = "map snd"] filter_cong; auto)


lemma logs_after_mem:
  "l \<in> set (logs_after st chain s r None) \<longleftrightarrow>
     (chain, l) \<in> set (rs_logs st) \<and> range_contains r (log_block_number l) \<and> sql_selector_filter s l"
  by (auto simp: logs_after_def range_contains_def image_iff)

lemma sql_filter_matches:
  assumes "sel_ok s"
  shows "sql_selector_filter s l \<longleftrightarrow> sel_matches s l"
proof -
  have "(case f of AnyTopic \<Rightarrow> True | OneOf xs \<Rightarrow> (case t of None \<Rightarrow> False | Some x \<Rightarrow> x \<in> set xs)) = topic_matches f t" for f t
    by (cases f; cases t) (simp_all)
  moreover have "(case sel_addresses s of [] \<Rightarrow> True | [one] \<Rightarrow> log_address l = one | as \<Rightarrow> log_address l \<in> set as) \<longleftrightarrow>
      sel_addresses s = [] \<or> log_address l \<in> set (sel_addresses s)"
    by (auto split: list.splits)
  ultimately show ?thesis by (simp add: sql_selector_filter_def sel_matches_def)
qed

lemma read_logs_page:
  assumes "rows_unique st" and "rows_fit st" and "0 < limit" and "int (br_end r) \<le> i64_max" and "br_start r \<le> br_end r"
    and page: "cursor_columns page = Ok ()" "logs_after st chain s r page = drop k (logs_after st chain s r None)"
  defines "all \<equiv> logs_after st chain s r None"
  shows "if limit < length all - k
     then \<exists>cur. read_logs st chain s r page limit = Ok (take limit (drop k all), Some cur) \<and> cursor_columns (Some cur) = Ok () \<and>
       logs_after st chain s r (Some cur) = drop (k + limit) all
     else read_logs st chain s r page limit = Ok (drop k all, None)"
proof -
  have ends: "u64_to_i64 (br_start r) m = Ok (int (br_start r))" "u64_to_i64 (br_end r) m = Ok (int (br_end r))" for m
    using assms(4,5) by (auto simp: u64_to_i64_def i64_of_u64_def)
  have eq: "read_logs st chain s r page limit =
      (if limit < length all - k then Ok (take limit (drop k all), Some (log_pos (last (take limit (drop k all))))) else Ok (drop k all, None))"
    using assms(3) page ends by (auto simp: read_logs_def all_def Let_def min_def)
  show ?thesis
  proof (cases "limit < length all - k")
    case True
    define cur where "cur = last (take limit (drop k all))"
    have "cur \<in> set (take limit (drop k all))" unfolding cur_def using True assms(3) by (intro last_in_set) auto
    then have "cur \<in> set all" by (meson in_set_dropD in_set_takeD)
    then have "log_columns cur = Ok ()" using assms(2) by (auto simp: all_def logs_after_mem rows_fit_def)
    then have cols: "cursor_columns (Some (log_pos cur)) = Ok ()"
      by (auto simp: log_columns_def cursor_columns_def log_pos_def u64_to_i64_def u32_to_i32_def split: option.splits if_splits)
    have "cur = last (take (k + limit) all)"
      using True assms(3) by (simp add: cur_def take_drop add.commute last_drop)
    moreover have "sorted_wrt (<) (map log_pos all)" unfolding all_def by (rule logs_after_strict [OF assms(1)])
    ultimately have "logs_after st chain s r (Some (log_pos cur)) = drop (k + limit) all"
      using filter_past_prefix [of log_pos all "k + limit"] True assms(3) by (simp add: logs_after_cursor all_def)
    with eq True cols show ?thesis by (auto simp: cur_def)
  qed (simp add: eq)
qed


lemma read_all_from:
  assumes "rows_unique st" and "rows_fit st" and "0 < limit" and "int (br_end r) \<le> i64_max" and "br_start r \<le> br_end r"
    and "cursor_columns page = Ok ()" "logs_after st chain s r page = drop k (logs_after st chain s r None)"
    and "length (logs_after st chain s r None) - k < fuel"
  shows "\<exists>pages. read_all fuel st chain s r page limit = Some (Ok pages) \<and>
     concat pages = drop k (logs_after st chain s r None) \<and> (\<forall>p\<in>set pages. length p \<le> limit)"
  using assms(6-)
proof (induction fuel arbitrary: k page)
  case (Suc fuel)
  let ?all = "logs_after st chain s r None"
  note step = read_logs_page [OF assms(1-5) Suc.prems(1,2)]
  show ?case
  proof (cases "limit < length ?all - k")
    case True
    with step obtain cur where cur: "read_logs st chain s r page limit = Ok (take limit (drop k ?all), Some cur)"
      "cursor_columns (Some cur) = Ok ()" "logs_after st chain s r (Some cur) = drop (k + limit) ?all" by auto
    have "length ?all - (k + limit) < fuel" using True Suc.prems(3) assms(3) by linarith
    with Suc.IH [OF cur(2,3)] obtain pages where pages: "read_all fuel st chain s r (Some cur) limit = Some (Ok pages)"
      "concat pages = drop (k + limit) ?all" "\<forall>p\<in>set pages. length p \<le> limit" by blast
    have "take limit (drop k ?all) @ drop (k + limit) ?all = drop k ?all"
      by (metis append_take_drop_id drop_drop add.commute)
    with cur(1) pages show ?thesis by auto
  next
    case False
    with step show ?thesis by auto
  qed
qed simp

text \<open>
  C36. Reading logs page by page returns every stored log that the selector matches in the
  range, exactly once and in the order of (block, log index), in pages of at most the limit:
  following the cursor from the first page ends after at most one read per log and one more.
\<close>
theorem read_logs_pages_complete:
  assumes "rows_unique st" and "rows_fit st" and "0 < limit" and "range_ok r" and "int (br_end r) \<le> i64_max" and "sel_ok s"
    and "length (rs_logs st) < fuel"
  shows "\<exists>pages. read_all fuel st chain s r None limit = Some (Ok pages) \<and>
     sorted_wrt (<) (map log_pos (concat pages)) \<and> (\<forall>p\<in>set pages. length p \<le> limit) \<and>
     set (concat pages) = {l. (chain, l) \<in> set (rs_logs st) \<and> range_contains r (log_block_number l) \<and> sel_matches s l}"
proof -
  have "length (logs_after st chain s r None) \<le> length (rs_logs st)" by (simp add: logs_after_def)
  then have fuel: "length (logs_after st chain s r None) - 0 < fuel" using assms(7) by simp
  have "br_start r \<le> br_end r" using assms(4) by (simp add: range_ok_def)
  from read_all_from [OF assms(1-3,5) this _ _ fuel, of None] obtain pages where
    pages: "read_all fuel st chain s r None limit = Some (Ok pages)"
      "concat pages = logs_after st chain s r None" "\<forall>p\<in>set pages. length p \<le> limit"
    by (auto simp: cursor_columns_def)
  moreover have "set (logs_after st chain s r None) =
      {l. (chain, l) \<in> set (rs_logs st) \<and> range_contains r (log_block_number l) \<and> sel_matches s l}"
    using logs_after_mem [of _ st chain s r] sql_filter_matches [OF assms(6)] by blast
  moreover have "sorted_wrt (<) (map log_pos (logs_after st chain s r None))" by (rule logs_after_strict [OF assms(1)])
  ultimately show ?thesis by (intro exI [of _ pages]) (simp del: set_concat)
qed

theorem read_logs_pages_complete_witness:
  "let st = \<lparr>rs_logs = [(1, demo_log 6 0 12), (1, demo_log 5 1 11), (2, demo_log 5 0 11), (1, demo_log 5 0 11)],
       rs_blocks = [], rs_senders = []\<rparr> :: unit row_store;
     s = \<lparr>sel_addresses = [7], sel_topics = [AnyTopic, AnyTopic, AnyTopic, AnyTopic]\<rparr>; r = \<lparr>br_start = 5, br_end = 6\<rparr> in
   \<exists>pages. read_all 5 st 1 s r None 2 = Some (Ok pages) \<and> sorted_wrt (<) (map log_pos (concat pages)) \<and>
     set (concat pages) = {demo_log 5 0 11, demo_log 5 1 11, demo_log 6 0 12}"
proof -
  let ?st = "\<lparr>rs_logs = [(1, demo_log 6 0 12), (1, demo_log 5 1 11), (2, demo_log 5 0 11), (1, demo_log 5 0 11)],
       rs_blocks = [], rs_senders = []\<rparr> :: unit row_store"
  let ?s = "\<lparr>sel_addresses = [7], sel_topics = [AnyTopic, AnyTopic, AnyTopic, AnyTopic]\<rparr>" and ?r = "\<lparr>br_start = 5, br_end = 6\<rparr>"
  have "rows_unique ?st" by (simp add: rows_unique_def log_key_def demo_log_def)
  moreover have "rows_fit ?st" by (simp add: rows_fit_def column_eval demo_log_def)
  moreover have "range_ok ?r" by (simp add: range_ok_def MAX_END_value)
  moreover have "sel_ok ?s" by (simp add: sel_ok_def topic_ok_def btree_ok_def)
  moreover have "{l. (1, l) \<in> set (rs_logs ?st) \<and> range_contains ?r (log_block_number l) \<and> sel_matches ?s l} =
      {demo_log 5 0 11, demo_log 5 1 11, demo_log 6 0 12}"
    by (auto simp: range_contains_def sel_matches_def demo_log_def)
  ultimately show ?thesis using read_logs_pages_complete [of ?st 2 ?r ?s 5 1]
    by (auto simp: i64_max_def)
qed

section \<open>What an insert leaves stored\<close>

lemma insert_logs_stores:
  assumes "insert_logs st i ls = Ok st'" and "rows_unique st" and "distinct (map log_pos ls)" and "l \<in> set ls"
  shows "\<exists>l'. (i, l') \<in> set (rs_logs st') \<and> log_pos l' = log_pos l \<and> log_block_hash l' = log_block_hash l \<and>
    log_finality l \<le> log_finality l'"
proof -
  let ?ns = "map (Pair i) ls"
  have up: "upsert_rows log_key log_can log_upd [] (rs_logs st) ?ns = Ok (rs_logs st')"
    and ok: "hash_conflict st i (map (\<lambda>l. (log_block_number l, log_block_hash l)) ls) = None"
    using assms(1,4) by (auto simp: insert_logs_def map_ok_def split: if_splits option.splits sum.splits)
  have "distinct (map log_key ?ns)" using assms(3) by (auto simp: distinct_map inj_on_def log_key_def log_pos_def)
  moreover have "(i, l) \<in> set ?ns" using assms(4) by simp
  moreover have "distinct (map log_key (rs_logs st))" using assms(2) by (simp add: rows_unique_def)
  ultimately obtain r' where r': "r' \<in> set (rs_logs st')"
    and reach: "log_le (i, l) r' \<or> (\<exists>old\<in>set (rs_logs st). log_key old = log_key (i, l) \<and>
      log_le (if log_can old (i, l) then log_upd old (i, l) else old) r')"
    using logs.upsert_reaches [OF up] by blast
  have same: "log_block_hash o' = log_block_hash l" if "(i, o') \<in> set (rs_logs st)" "log_block_number o' = log_block_number l" for o'
  proof (rule ccontr)
    assume "log_block_hash o' \<noteq> log_block_hash l"
    with log_point [OF that(1)] that(2) assms(4)
    have "log_block_number l \<in> set (conflicts st i (map (\<lambda>l. (log_block_number l, log_block_hash l)) ls))"
      unfolding conflicts_iff by force
    with ok show False by (simp add: no_conflict)
  qed
  from reach show ?thesis
  proof
    assume "log_le (i, l) r'"
    with r' show ?thesis by (auto simp: log_le_def log_pos_def)
  next
    assume "\<exists>old\<in>set (rs_logs st). log_key old = log_key (i, l) \<and> log_le (if log_can old (i, l) then log_upd old (i, l) else old) r'"
    then obtain old where old: "old \<in> set (rs_logs st)" "log_key old = log_key (i, l)"
      and le_old: "log_le (if log_can old (i, l) then log_upd old (i, l) else old) r'" by blast
    define o' where "o' = snd old"
    have eq: "old = (i, o')" using old(2) by (cases old) (simp add: log_key_def o'_def)
    have o': "(i, o') \<in> set (rs_logs st)" "log_pos o' = log_pos l" using old by (simp_all add: eq log_key_def log_pos_def)
    have le: "log_le (if log_can (i, o') (i, l) then log_upd (i, o') (i, l) else (i, o')) r'" using le_old by (simp only: eq)
    have hash: "log_block_hash o' = log_block_hash l" using same o' by (simp add: log_pos_def)
    show ?thesis
    proof (cases "log_finality o' < log_finality l")
      case True
      with hash le have "log_le (i, o'\<lparr>log_finality := log_finality l\<rparr>) r'" by (simp add: log_can_def log_upd_def)
      with r' o'(2) hash show ?thesis by (auto simp: log_le_def log_pos_def)
    next
      case False
      with le have "log_le (i, o') r'" by (simp add: log_can_def)
      with r' o'(2) hash False show ?thesis by (auto simp: log_le_def log_pos_def)
    qed
  qed
qed

end
