(* ===== verification/Usage.thy ===== *)
theory Usage
  imports Core_Types Transition
begin

text \<open>
  Metering: the daily usage table (\<open>crates/store/src/usage.rs\<close>), the in-process book that
  buffers it (\<open>crates/engine/src/usage.rs\<close>), and the per-minute fill allowance of an
  application (\<open>crates/engine/src/budget.rs\<close>). A \<open>NaiveDate\<close> is its day number, a \<open>HashMap\<close>
  an association list in some iteration order. The counters are \<open>i64\<close> in the source and
  unbounded here. Times are in milliseconds.
\<close>

section \<open>Counters\<close>

datatype usage_counts = UsageCounts
  (uc_queries: int) (uc_rows_returned: int) (uc_blocks_served: int) (uc_blocks_filled: int) (uc_provider_calls: int)

definition usage_counts_default :: usage_counts where
  "usage_counts_default = UsageCounts 0 0 0 0 0"

fun usage_counts_add :: "usage_counts \<Rightarrow> usage_counts \<Rightarrow> usage_counts" where
  "usage_counts_add (UsageCounts q r s f p) (UsageCounts q' r' s' f' p') =
     UsageCounts (q + q') (r + r') (s + s') (f + f') (p + p')"

instantiation usage_counts :: comm_monoid_add
begin

definition zero_usage_counts :: usage_counts where
  "zero_usage_counts = usage_counts_default"

definition plus_usage_counts :: "usage_counts \<Rightarrow> usage_counts \<Rightarrow> usage_counts" where
  "plus_usage_counts = usage_counts_add"

instance
proof
  fix a b c :: usage_counts
  show "a + b + c = a + (b + c)" by (cases a; cases b; cases c) (simp add: plus_usage_counts_def)
  show "a + b = b + a" by (cases a; cases b) (simp add: plus_usage_counts_def)
  show "0 + a = a" by (cases a) (simp add: plus_usage_counts_def zero_usage_counts_def usage_counts_default_def)
qed

end

lemma plus_UsageCounts [simp]:
  "UsageCounts q r s f p + UsageCounts q' r' s' f' p' = UsageCounts (q + q') (r + r') (s + s') (f + f') (p + p')"
  by (simp add: plus_usage_counts_def)

type_synonym usage_key = "nat \<times> string \<times> chain_id \<times> dataset"
type_synonym stored_key = "nat \<times> string \<times> chain_id \<times> string"

fun dataset_rank :: "dataset \<Rightarrow> nat" where
  "dataset_rank EvmLogs = 0"
| "dataset_rank EvmBlocks = 1"

instantiation dataset :: linorder
begin

definition less_eq_dataset :: "dataset \<Rightarrow> dataset \<Rightarrow> bool" where
  "less_eq_dataset a b = (dataset_rank a \<le> dataset_rank b)"

definition less_dataset :: "dataset \<Rightarrow> dataset \<Rightarrow> bool" where
  "less_dataset a b = (dataset_rank a < dataset_rank b)"

instance
proof
  fix a b :: dataset
  show "a \<le> b \<Longrightarrow> b \<le> a \<Longrightarrow> a = b" by (cases a; cases b) (simp_all add: less_eq_dataset_def)
qed (auto simp: less_eq_dataset_def less_dataset_def)

end

section \<open>The usage table\<close>

record usage_delta =
  ud_key :: usage_key
  ud_counts :: usage_counts

definition stored_usage_key :: "usage_key \<Rightarrow> stored_key" where
  "stored_usage_key k = (case k of (day, app, chain, ds) \<Rightarrow> (day, app, chain, dataset_as_str ds))"

text \<open>\<open>or_default() += add\<close> on a map kept as an association list.\<close>

definition tally :: "('k \<times> usage_counts) list \<Rightarrow> 'k \<Rightarrow> usage_counts" where
  "tally m k = (case map_of m k of None \<Rightarrow> 0 | Some c \<Rightarrow> c)"

definition fold_delta ::
  "usage_key \<Rightarrow> usage_counts \<Rightarrow> (usage_key, usage_counts) btree_map \<Rightarrow> (usage_key, usage_counts) btree_map" where
  "fold_delta k c folded = btree_insert k (tally folded k + c) folded"

definition bump :: "'k \<Rightarrow> usage_counts \<Rightarrow> ('k \<times> usage_counts) list \<Rightarrow> ('k \<times> usage_counts) list" where
  "bump k c m =
     (if k \<in> fst ` set m then map (\<lambda>(k', v). (k', if k' = k then v + c else v)) m else m @ [(k, c)])"

definition fold_deltas :: "usage_delta list \<Rightarrow> (usage_key, usage_counts) btree_map" where
  "fold_deltas deltas = fold (\<lambda>(k, c). fold_delta k c) (map (\<lambda>d. (ud_key d, ud_counts d)) deltas) []"

definition upsert_usage :: "(stored_key \<times> usage_counts) list \<Rightarrow> (stored_key \<times> usage_counts) list \<Rightarrow> (stored_key \<times> usage_counts) list" where
  "upsert_usage rows table = fold (\<lambda>(k, c). bump k c) rows table"

definition add_usage :: "(stored_key \<times> usage_counts) list \<Rightarrow> usage_delta list \<Rightarrow> (stored_key \<times> usage_counts) list" where
  "add_usage table deltas =
     (if deltas = [] then table
      else upsert_usage (map (\<lambda>(k, c). (stored_usage_key k, c)) (fold_deltas deltas)) table)"

definition store_usage :: "(stored_key \<times> usage_counts) list \<Rightarrow> nat \<Rightarrow> string \<Rightarrow> chain_id \<Rightarrow> dataset \<Rightarrow> usage_counts" where
  "store_usage table day app chain ds = tally table (day, app, chain, dataset_as_str ds)"

section \<open>The book\<close>

type_synonym usage_book = "(usage_key \<times> usage_counts) list"

definition usage_record :: "nat \<Rightarrow> string \<Rightarrow> chain_id \<Rightarrow> dataset \<Rightarrow> usage_counts \<Rightarrow> usage_book \<Rightarrow> usage_book" where
  "usage_record today app chain ds add pending = bump (today, app, chain, ds) add pending"

text \<open>\<open>flush\<close> holds the lock only to take the book and to put it back, so other sessions
  record in between: its two halves are separate operations.\<close>

definition flush_take :: "usage_book \<Rightarrow> usage_book \<times> usage_book" where
  "flush_take pending = (pending, [])"

definition flush_deltas :: "usage_book \<Rightarrow> usage_delta list" where
  "flush_deltas taken = map (\<lambda>(k, c). \<lparr>ud_key = k, ud_counts = c\<rparr>) taken"

definition flush_restore :: "usage_book \<Rightarrow> usage_book \<Rightarrow> usage_book" where
  "flush_restore taken pending = fold (\<lambda>(k, c). bump k c) taken pending"

text \<open>The whole of \<open>flush\<close> when nothing runs in between; \<open>failure\<close> is the outcome of the
  upsert.\<close>

definition usage_flush ::
  "'e option \<Rightarrow> (stored_key \<times> usage_counts) list \<Rightarrow> usage_book
     \<Rightarrow> (unit, 'e) result \<times> (stored_key \<times> usage_counts) list \<times> usage_book" where
  "usage_flush failure table pending =
     (let (taken, left) = flush_take pending in
      if taken = [] then (Ok (), table, left)
      else case failure of
        Some e \<Rightarrow> (Err e, table, flush_restore taken left)
      | None \<Rightarrow> (Ok (), add_usage table (flush_deltas taken), left))"

section \<open>Splitting calls over applications\<close>

text \<open>The share of the application at \<open>index\<close> when \<open>count\<close> applications asked for \<open>calls\<close>
  calls. Rust's \<open>/\<close> and \<open>%\<close> truncate; \<open>calls\<close> and \<open>count\<close> are not negative, where they agree
  with \<open>div\<close> and \<open>mod\<close>.\<close>

definition call_share :: "int \<Rightarrow> nat \<Rightarrow> nat \<Rightarrow> int" where
  "call_share calls count index = calls div int count + (if int index < calls mod int count then 1 else 0)"

section \<open>The fill allowance\<close>

definition FILL_WINDOW :: nat where "FILL_WINDOW = 60000"

record fill_budget =
  fb_per_minute :: u64
  fb_since :: nat
  fb_taken :: u64

definition fill_budget_new :: "u64 \<Rightarrow> nat \<Rightarrow> fill_budget" where
  "fill_budget_new per_minute now = \<lparr>fb_per_minute = per_minute, fb_since = now, fb_taken = 0\<rparr>"

definition roll_window :: "nat \<Rightarrow> fill_budget \<Rightarrow> fill_budget" where
  "roll_window now b = (if FILL_WINDOW \<le> now - fb_since b then b\<lparr>fb_since := now, fb_taken := 0\<rparr> else b)"

definition try_take :: "nat \<Rightarrow> fill_budget \<Rightarrow> u64 \<Rightarrow> bool \<times> fill_budget" where
  "try_take now b0 n =
     (let b = roll_window now b0 in
      if 0 < fb_taken b \<and> fb_per_minute b < sat_add (fb_taken b) n then (False, b)
      else (True, b\<lparr>fb_taken := sat_add (fb_taken b) n\<rparr>))"

section \<open>Maps of counters\<close>

locale counter_map =
  fixes get :: "'m \<Rightarrow> 'k \<Rightarrow> 'c::comm_monoid_add" and add_to :: "'k \<Rightarrow> 'c \<Rightarrow> 'm \<Rightarrow> 'm"
  assumes get_add: "get (add_to k c m) k' = get m k' + (if k' = k then c else 0)"
begin

lemma get_fold:
  "get (fold (\<lambda>(k, c). add_to k c) xs m) k = get m k + sum_list (map snd (filter (\<lambda>x. fst x = k) xs))"
  by (induction xs arbitrary: m) (auto simp: get_add add.assoc)

end

lemma map_of_bump:
  "map_of (map (\<lambda>(k', v). (k', if k' = k then v + c else v)) m) j =
     map_option (\<lambda>v. if j = k then v + c else v) (map_of m j)"
  by (induction m) auto

lemma tally_bump: "tally (bump k c m) k' = tally m k' + (if k' = k then c else 0)"
proof (cases "k \<in> fst ` set m")
  case True
  then obtain v where "map_of m k = Some v" by (metis domIff dom_map_of_conv_image_fst option.exhaust)
  with True show ?thesis by (auto simp: tally_def bump_def map_of_bump split: option.split)
next
  case False
  then have "map_of m k = None" by (simp add: map_of_eq_None_iff)
  with False show ?thesis by (auto simp: tally_def bump_def map_add_def split: option.split)
qed

lemma tally_fold_delta: "tally (fold_delta k c m) k' = tally m k' + (if k' = k then c else 0)"
  by (auto simp: fold_delta_def tally_def map_of_btree_insert)

interpretation book: counter_map tally bump
  by unfold_locales (rule tally_bump)

interpretation folded: counter_map tally fold_delta
  by unfold_locales (rule tally_fold_delta)

lemma tally_sum:
  "distinct (map fst m) \<Longrightarrow> sum_list (map snd (filter (\<lambda>x. fst x = k) m)) = tally m k"
proof (induction m)
  case (Cons x m)
  have "fst x = k \<Longrightarrow> filter (\<lambda>x. fst x = k) m = []"
    using Cons.prems by (metis (mono_tags, lifting) distinct.simps(2) filter_False imageI list.simps(9) set_map)
  with Cons show ?case by (cases x) (auto simp: tally_def)
qed (simp add: tally_def)

lemma distinct_bump: "distinct (map fst m) \<Longrightarrow> distinct (map fst (bump k c m))"
  by (auto simp: bump_def comp_def case_prod_unfold)

lemma distinct_fold_bump: "distinct (map fst m) \<Longrightarrow> distinct (map fst (fold (\<lambda>(k, c). bump k c) xs m))"
  by (induction xs arbitrary: m) (auto simp: distinct_bump)

lemma sorted_fold_delta:
  "sorted_wrt (<) (map fst m) \<Longrightarrow> sorted_wrt (<) (map fst (fold (\<lambda>(k, c). fold_delta k c) xs m))"
  by (induction xs arbitrary: m) (auto simp: fold_delta_def)

lemma distinct_fold_deltas: "distinct (map fst (fold_deltas ds))"
  using sorted_fold_delta [of "[]"] by (simp add: fold_deltas_def strict_sorted_iff)

lemma stored_usage_key_inj: "stored_usage_key a = stored_usage_key b \<longleftrightarrow> a = b"
  by (auto simp: stored_usage_key_def dataset_as_str_inj split: prod.splits)

lemma filter_stored_key:
  "map snd (filter (\<lambda>x. fst x = stored_usage_key k) (map (\<lambda>(k, c). (stored_usage_key k, c)) rows)) =
     map snd (filter (\<lambda>x. fst x = k) rows)"
  by (induction rows) (auto simp: stored_usage_key_inj)

lemma tally_add_usage:
  "tally (add_usage table ds) (stored_usage_key k) =
     tally table (stored_usage_key k) + sum_list (map ud_counts (filter (\<lambda>d. ud_key d = k) ds))"
proof -
  have "tally (fold_deltas ds) k = sum_list (map ud_counts (filter (\<lambda>d. ud_key d = k) ds))"
    by (simp add: fold_deltas_def folded.get_fold filter_map comp_def tally_def [of "[]"])
  then show ?thesis
    by (simp add: add_usage_def upsert_usage_def book.get_fold filter_stored_key tally_sum distinct_fold_deltas)
qed

lemma tally_flushed:
  assumes "distinct (map fst taken)"
  shows "tally (add_usage table (flush_deltas taken)) (stored_usage_key k) = tally table (stored_usage_key k) + tally taken k"
proof -
  have "map ud_counts (filter (\<lambda>d. ud_key d = k) (flush_deltas taken)) = map snd (filter (\<lambda>x. fst x = k) taken)"
    by (induction taken) (auto simp: flush_deltas_def)
  with assms show ?thesis by (simp add: tally_add_usage tally_sum)
qed

section \<open>No usage is lost or counted twice\<close>

text \<open>The sessions of one process: they record into the book while flushes are in flight.
  \<open>ms_recorded\<close> is the history of what was recorded.\<close>

record meter =
  ms_pending :: usage_book
  ms_flushing :: "usage_book list"
  ms_table :: "(stored_key \<times> usage_counts) list"
  ms_recorded :: "(usage_key \<times> usage_counts) list"

inductive meter_step :: "meter \<Rightarrow> meter \<Rightarrow> bool" where
  Record: "meter_step s (s\<lparr>ms_pending := usage_record today app chain ds c (ms_pending s),
     ms_recorded := ((today, app, chain, ds), c) # ms_recorded s\<rparr>)"
| Take: "flush_take (ms_pending s) = (taken, left) \<Longrightarrow>
     meter_step s (s\<lparr>ms_pending := left, ms_flushing := taken # ms_flushing s\<rparr>)"
| Written: "ms_flushing s = before @ taken # after \<Longrightarrow>
     meter_step s (s\<lparr>ms_flushing := before @ after, ms_table := add_usage (ms_table s) (flush_deltas taken)\<rparr>)"
| Failed: "ms_flushing s = before @ taken # after \<Longrightarrow>
     meter_step s (s\<lparr>ms_flushing := before @ after, ms_pending := flush_restore taken (ms_pending s)\<rparr>)"

inductive_cases meter_stepE: "meter_step s t"

definition meter_start :: "meter \<Rightarrow> bool" where
  "meter_start s = (ms_pending s = [] \<and> ms_flushing s = [] \<and> ms_table s = [] \<and> ms_recorded s = [])"

definition recorded :: "meter \<Rightarrow> usage_key \<Rightarrow> usage_counts" where
  "recorded s k = sum_list (map snd (filter (\<lambda>x. fst x = k) (ms_recorded s)))"

definition accounted :: "meter \<Rightarrow> usage_key \<Rightarrow> usage_counts" where
  "accounted s k = tally (ms_table s) (stored_usage_key k) + tally (ms_pending s) k +
     sum_list (map (\<lambda>b. tally b k) (ms_flushing s))"

definition meter_inv :: "meter \<Rightarrow> bool" where
  "meter_inv s = (distinct (map fst (ms_pending s)) \<and> (\<forall>b\<in>set (ms_flushing s). distinct (map fst b)) \<and>
     (\<forall>k. recorded s k = accounted s k))"

lemma tally_restore:
  "distinct (map fst taken) \<Longrightarrow> tally (flush_restore taken m) k = tally m k + tally taken k"
  by (simp add: flush_restore_def book.get_fold tally_sum)

lemma meter_step_inv:
  assumes "meter_inv s" and "meter_step s t"
  shows "meter_inv t"
  using assms(2)
proof cases
  case (Record today app chain ds c)
  then show ?thesis using assms(1)
    by (auto simp: meter_inv_def usage_record_def distinct_bump recorded_def accounted_def tally_bump add_ac)
next
  case (Take taken left)
  then have "taken = ms_pending s" "left = []" by (simp_all add: flush_take_def)
  with Take assms(1) show ?thesis
    by (simp add: meter_inv_def recorded_def accounted_def tally_def [of "[]"] add_ac)
next
  case (Written before taken after)
  with assms(1) show ?thesis by (auto simp: meter_inv_def recorded_def accounted_def tally_flushed add_ac)
next
  case (Failed before taken after)
  with assms(1) have "distinct (map fst taken)" "distinct (map fst (ms_pending s))"
    by (auto simp: meter_inv_def)
  moreover from this have "distinct (map fst (flush_restore taken (ms_pending s)))"
    by (simp add: flush_restore_def distinct_fold_bump)
  ultimately show ?thesis using Failed assms(1)
    by (auto simp: meter_inv_def recorded_def accounted_def tally_restore add_ac)
qed

interpretation meters: invariant_system meter_start meter_step meter_inv
proof unfold_locales
  show "meter_start s \<Longrightarrow> meter_inv s" for s
    by (simp add: meter_start_def meter_inv_def recorded_def accounted_def tally_def)
qed (rule meter_step_inv)

text \<open>C10. However recording and flushing interleave and whichever upserts fail, for every day,
  application, chain and dataset the counters stored, still pending and in flight always add up
  to exactly what was recorded.\<close>

theorem usage_conserved:
  assumes "meter_start s" and "meter_step\<^sup>*\<^sup>* s t"
  shows "recorded t (day, app, chain, ds) =
    store_usage (ms_table t) day app chain ds + tally (ms_pending t) (day, app, chain, ds) +
      sum_list (map (\<lambda>b. tally b (day, app, chain, ds)) (ms_flushing t))"
  using meters.reachable_inv [OF assms]
  by (simp add: meter_inv_def accounted_def store_usage_def stored_usage_key_def)

definition demo_meter :: meter where
  "demo_meter = \<lparr>ms_pending = [], ms_flushing = [], ms_table = [], ms_recorded = []\<rparr>"

theorem usage_conserved_witness:
  "\<exists>t. meter_step\<^sup>*\<^sup>* demo_meter t \<and> ms_flushing t \<noteq> [] \<and>
     recorded t (0, ''app'', 1, EvmLogs) =
       store_usage (ms_table t) 0 ''app'' 1 EvmLogs + tally (ms_pending t) (0, ''app'', 1, EvmLogs) +
         sum_list (map (\<lambda>b. tally b (0, ''app'', 1, EvmLogs)) (ms_flushing t))"
proof -
  let ?s = "demo_meter\<lparr>ms_pending := usage_record 0 ''app'' 1 EvmLogs (UsageCounts 1 2 3 4 5) [],
    ms_recorded := [((0, ''app'', 1, EvmLogs), UsageCounts 1 2 3 4 5)]\<rparr>"
  have "meter_step demo_meter ?s"
    using meter_step.Record [of demo_meter 0 "''app''" 1 EvmLogs "UsageCounts 1 2 3 4 5"]
    by (simp add: demo_meter_def)
  moreover have "meter_step ?s (?s\<lparr>ms_pending := [], ms_flushing := [ms_pending ?s]\<rparr>)"
    using meter_step.Take [of ?s "ms_pending ?s" "[]"] by (simp add: flush_take_def demo_meter_def)
  ultimately have run: "meter_step\<^sup>*\<^sup>* demo_meter (?s\<lparr>ms_pending := [], ms_flushing := [ms_pending ?s]\<rparr>)"
    by (meson r_into_rtranclp rtranclp.rtrancl_into_rtrancl)
  moreover have "meter_start demo_meter" by (simp add: meter_start_def demo_meter_def)
  ultimately show ?thesis
    using usage_conserved [OF \<open>meter_start demo_meter\<close> run, of 0 "''app''" 1 EvmLogs]
    by (intro exI [of _ "?s\<lparr>ms_pending := [], ms_flushing := [ms_pending ?s]\<rparr>"]) simp
qed

lemma usage_flush_empties: "usage_flush None table pending = (Ok (), table', pending') \<Longrightarrow> pending' = []"
  by (auto simp: usage_flush_def flush_take_def Let_def split: if_splits)

section \<open>Shares and allowance\<close>

lemma sum_first: "(\<Sum>i<n. if int i < r then 1 else 0 :: int) = r" if "0 \<le> r" "r \<le> int n" for n
  using that
proof (induction n arbitrary: r)
  case (Suc n)
  show ?case
  proof (cases "r = int (Suc n)")
    case True
    then have "(\<Sum>i<Suc n. if int i < r then 1 else 0 :: int) = (\<Sum>i<Suc n. 1)"
      by (intro sum.cong) auto
    with True show ?thesis by simp
  next
    case False
    with Suc show ?thesis by simp
  qed
qed simp

lemma call_shares_sum:
  assumes "0 < count" and "0 \<le> calls"
  shows "(\<Sum>i<count. call_share calls count i) = calls"
proof -
  have "(\<Sum>i<count. if int i < calls mod int count then 1 else 0 :: int) = calls mod int count"
    using assms by (intro sum_first) (simp_all add: less_imp_le)
  then show ?thesis by (simp add: call_share_def sum.distrib mult.commute)
qed

fun take_run :: "fill_budget \<Rightarrow> (nat \<times> u64) list \<Rightarrow> u64 list \<Rightarrow> fill_budget \<times> u64 list" where
  "take_run b [] granted = (b, granted)"
| "take_run b ((now, n) # rest) granted =
     (let fresh = (if FILL_WINDOW \<le> now - fb_since b then [] else granted); (got, b') = try_take now b n
      in take_run b' rest (if got then n # fresh else fresh))"

definition grants_bounded :: "u64 \<Rightarrow> u64 list \<Rightarrow> bool" where
  "grants_bounded limit granted = (sum_list granted \<le> limit \<or> length (filter (\<lambda>n. 0 < n) granted) \<le> 1)"

lemma take_run_bounded:
  assumes "take_run b reqs granted = (b', granted')" and "fb_per_minute b < u64_max"
    and "grants_bounded (fb_per_minute b) granted" and "fb_taken b = min u64_max (sum_list granted)"
  shows "grants_bounded (fb_per_minute b) granted'"
  using assms
proof (induction b reqs granted rule: take_run.induct)
  case (2 b now n rest granted)
  define fresh where "fresh = (if FILL_WINDOW \<le> now - fb_since b then [] else granted)"
  have fresh: "grants_bounded (fb_per_minute b) fresh" "fb_taken (roll_window now b) = min u64_max (sum_list fresh)"
    using "2.prems" by (auto simp: fresh_def grants_bounded_def roll_window_def)
  obtain got c where got: "try_take now b n = (got, c)" by force
  have limit: "fb_per_minute c = fb_per_minute b" "fb_per_minute (roll_window now b) = fb_per_minute b"
    using got by (auto simp: try_take_def roll_window_def Let_def split: if_splits)
  let ?granted = "if got then n # fresh else fresh"
  have taken: "fb_taken c = min u64_max (sum_list ?granted)"
    using got fresh(2) by (auto simp: try_take_def Let_def sat_add_def split: if_splits)
  have "grants_bounded (fb_per_minute b) ?granted"
  proof (cases "fb_taken (roll_window now b) = 0")
    case True
    then have "sum_list fresh = 0" using fresh(2) by (simp add: u64_max_def min_def split: if_splits)
    then have "filter (\<lambda>n. 0 < n) fresh = []" by (simp add: filter_empty_conv)
    then show ?thesis by (simp add: grants_bounded_def)
  next
    case False
    then have "got \<Longrightarrow> sat_add (fb_taken (roll_window now b)) n \<le> fb_per_minute b"
      using got limit by (auto simp: try_take_def Let_def split: if_splits)
    then have "got \<Longrightarrow> sum_list fresh + n \<le> fb_per_minute b"
      using fresh(2) "2.prems"(2) by (auto simp: sat_add_def min_def split: if_splits)
    with fresh(1) show ?thesis by (auto simp: grants_bounded_def)
  qed
  moreover have "take_run c rest ?granted = (b', granted')"
    using "2.prems"(1) got by (simp add: fresh_def Let_def split: if_splits)
  ultimately show ?case
    using "2.IH" [OF fresh_def got [symmetric]] limit taken "2.prems"(2) by simp
qed simp

text \<open>Whatever the requests and times, the blocks an application takes in one window never
  exceed its allowance, unless a single chunk larger than the whole allowance was the window's
  only grant; and the first request of a window is always granted.\<close>

theorem fill_allowance_bounded:
  assumes "per_minute < u64_max" and "take_run (fill_budget_new per_minute now) reqs [] = (b, granted)"
  shows "(sum_list granted \<le> per_minute \<or> length (filter (\<lambda>n. 0 < n) granted) \<le> 1) \<and>
    (FILL_WINDOW \<le> later - fb_since b \<longrightarrow> fst (try_take later b n))"
proof
  show "sum_list granted \<le> per_minute \<or> length (filter (\<lambda>n. 0 < n) granted) \<le> 1"
    using take_run_bounded [OF assms(2)] assms(1) by (simp add: fill_budget_new_def grants_bounded_def)
  show "FILL_WINDOW \<le> later - fb_since b \<longrightarrow> fst (try_take later b n)"
    by (simp add: try_take_def roll_window_def Let_def)
qed

theorem fill_allowance_bounded_witness:
  "take_run (fill_budget_new 10 0) [(1, 4), (2, 7), (3, 6)] [] = (\<lparr>fb_per_minute = 10, fb_since = 0, fb_taken = 10\<rparr>, [6, 4]) \<and>
     (sum_list [6, 4] \<le> (10::nat) \<or> length (filter (\<lambda>n. 0 < n) [6, 4 :: nat]) \<le> 1) \<and>
     fst (try_take 60003 \<lparr>fb_per_minute = 10, fb_since = 0, fb_taken = 10\<rparr> 5)"
proof -
  have run: "take_run (fill_budget_new 10 0) [(1, 4), (2, 7), (3, 6)] [] = (\<lparr>fb_per_minute = 10, fb_since = 0, fb_taken = 10\<rparr>, [6, 4])"
    by (simp add: fill_budget_new_def try_take_def roll_window_def FILL_WINDOW_def sat_add_def u64_max_def)
  have "10 < u64_max" by (simp add: u64_max_def)
  from fill_allowance_bounded [OF this run, of 60003 5] run show ?thesis by (simp add: FILL_WINDOW_def)
qed

end
