(* ===== verification/Engine_Base.thy ===== *)
theory Engine_Base
  imports Evm_Blocks Plan Jobs Selector_Store Heads_Store Follow_Store Row_Store Usage
begin

text \<open>
  What the engine's parts share: chain and engine settings (\<open>crates/engine/src/chain.rs\<close>), the
  engine's in-process state and chain lookup (\<open>engine.rs\<close>), and the provider client it calls.
  The database is the record of the store's tables. A client is the record of its calls, each
  read at a tick that counts the calls made so far; \<open>evm_of\<close> builds one from the client's own
  model, and the locale \<open>evm_client\<close> states what the engine may rely on. Durations of the
  engine are in milliseconds.
\<close>

section \<open>Settings\<close>

record chain_settings =
  cs_name :: chain_name
  cs_id :: chain_id
  cs_chunk_blocks :: u64
  cs_header_chunk_blocks :: u64
  cs_max_addresses :: usize
  cs_head_mode :: head_mode
  cs_tick :: nat
  cs_reorg_window :: u64

fun settings_chunk :: "chain_settings \<Rightarrow> dataset \<Rightarrow> u64" where
  "settings_chunk c EvmLogs = cs_chunk_blocks c"
| "settings_chunk c EvmBlocks = cs_header_chunk_blocks c"

record engine_settings =
  es_max_wait :: nat
  es_page_limit :: u32
  es_lease :: nat
  es_token_wait :: nat
  es_heads_ttl :: nat
  es_idle_poll :: nat
  es_follow_attach_blocks :: u64
  es_subscription_ttl :: nat
  es_unsafe_retention :: nat
  es_job_retention :: nat
  es_retention_every :: nat

definition engine_settings_default :: engine_settings where
  "engine_settings_default =
     \<lparr>es_max_wait = 15000, es_page_limit = 10000, es_lease = 120000, es_token_wait = 10000, es_heads_ttl = 500,
      es_idle_poll = 250, es_follow_attach_blocks = 1000, es_subscription_ttl = 900000,
      es_unsafe_retention = 86400000, es_job_retention = 86400000, es_retention_every = 30000\<rparr>"

section \<open>The client\<close>

record evm =
  ev_block :: "nat \<Rightarrow> u64 \<Rightarrow> (json block_row option, provider_error) result"
  ev_headers :: "nat \<Rightarrow> block_range \<Rightarrow> finality \<Rightarrow> (json block_row list, provider_error) result"
  ev_logs :: "nat \<Rightarrow> log_selector \<Rightarrow> block_range \<Rightarrow> finality \<Rightarrow> (logs_page, logs_page \<times> provider_error) result"
  ev_senders :: "nat \<Rightarrow> b256 list \<Rightarrow> (sender_lookup, provider_error) result"
  ev_heads :: "nat \<Rightarrow> head_mode \<Rightarrow> (heads, provider_error) result"
  ev_range_blocks :: "nat \<Rightarrow> dataset \<Rightarrow> u64"

record chain =
  ch_settings :: chain_settings
  ch_evm :: evm

text \<open>The gateway behind a client: its answers and the state of its range book at each tick.\<close>

record gateway_env =
  ge_hex :: hex_codec
  ge_call :: "nat \<Rightarrow> json \<Rightarrow> (json, provider_error) result"
  ge_batch :: "nat \<Rightarrow> batch_rpc"
  ge_rpc :: "nat \<Rightarrow> rpc"
  ge_clock :: "nat \<Rightarrow> nat \<Rightarrow> u64"
  ge_book :: "nat \<Rightarrow> range_book"
  ge_max_addresses :: usize
  ge_rpc_batch :: usize

definition env_logs ::
  "gateway_env \<Rightarrow> nat \<Rightarrow> log_selector \<Rightarrow> block_range \<Rightarrow> finality \<Rightarrow> (logs_page, logs_page \<times> provider_error) result" where
  "env_logs g t s r fin =
     (case get_logs (range_len r + 2) (bk_max (ge_book g t)) (ge_rpc g t) (ge_hex g) (ge_clock g t) (ge_max_addresses g)
         s r fin (ge_book g t) of
        Some (res, _) \<Rightarrow> res
      | None \<Rightarrow> Err (\<lparr>lp_rows = [], lp_fetched_to = None, lp_calls = 0\<rparr>, PeLimit))"

definition evm_of :: "gateway_env \<Rightarrow> evm" where
  "evm_of g =
     \<lparr>ev_block = (\<lambda>t n. block_by_number (ge_call g t) (ge_hex g) (RefNumber n) Unsafe),
      ev_headers = (\<lambda>t r fin. fst (block_headers (ge_batch g t) (ge_hex g) (ge_rpc_batch g) r fin 0)),
      ev_logs = env_logs g,
      ev_senders = (\<lambda>t hashes. fst (transaction_senders (ge_batch g t) (ge_hex g) (ge_rpc_batch g) hashes 0)),
      ev_heads = (\<lambda>t mode. fetch_heads (ge_call g t) (ge_batch g t 0) (ge_hex g) mode),
      ev_range_blocks = (\<lambda>t ds. fst (book_current (ge_book g t) ds (ge_clock g t 0)))\<rparr>"

definition env_ok :: "gateway_env \<Rightarrow> bool" where
  "env_ok g = (0 < ge_max_addresses g \<and> 0 < ge_rpc_batch g \<and> (\<forall>t. steady (ge_clock g t) \<and> book_ok (ge_book g t)))"

text \<open>The part of a page's promise that does not depend on the provider's honesty.\<close>

definition page_of :: "(logs_page, logs_page \<times> provider_error) result \<Rightarrow> logs_page" where
  "page_of res = (case res of Inr out \<Rightarrow> out | Inl (out, e) \<Rightarrow> out)"

definition page_bound :: "block_range \<Rightarrow> logs_page \<Rightarrow> u64" where
  "page_bound r page = (case lp_fetched_to page of None \<Rightarrow> br_start r | Some b \<Rightarrow> b + 1)"

definition page_sound :: "log_selector \<Rightarrow> block_range \<Rightarrow> (logs_page, logs_page \<times> provider_error) result \<Rightarrow> bool" where
  "page_sound s r res =
     ((is_ok res \<longrightarrow> lp_fetched_to (page_of res) = Some (br_end r)) \<and> page_bound r (page_of res) \<le> br_end r + 1 \<and>
      (\<forall>l\<in>set (lp_rows (page_of res)). br_start r \<le> log_block_number l \<and> log_block_number l < page_bound r (page_of res) \<and>
         sel_matches s l))"

definition page_exact :: "log_row set \<Rightarrow> log_selector \<Rightarrow> block_range \<Rightarrow> (logs_page, logs_page \<times> provider_error) result \<Rightarrow> bool" where
  "page_exact logs s r res =
     (distinct (lp_rows (page_of res)) \<and>
      set (lp_rows (page_of res)) =
        {l \<in> logs. br_start r \<le> log_block_number l \<and> log_block_number l < page_bound r (page_of res) \<and> sel_matches s l})"

locale evm_client =
  fixes ev :: evm
  assumes block_law: "ev_block ev t n = Ok (Some b) \<Longrightarrow> blk_number b = n"
    and headers_law: "range_ok r \<Longrightarrow> ev_headers ev t r fin = Ok hs \<Longrightarrow>
      map blk_number hs = [br_start r ..< Suc (br_end r)] \<and> (\<forall>b\<in>set hs. blk_finality b = fin)"
    and logs_law: "range_ok r \<Longrightarrow> btree_ok (sel_addresses s) \<Longrightarrow> page_sound s r (ev_logs ev t s r fin)"
begin

lemma last_header:
  assumes "range_ok r" and "ev_headers ev t r fin = Ok hs"
  shows "hs \<noteq> [] \<and> blk_number (last hs) = br_end r"
proof -
  have hs: "map blk_number hs = [br_start r ..< Suc (br_end r)]" and le: "br_start r \<le> br_end r"
    using headers_law [OF assms] assms(1) by (simp_all add: range_ok_def)
  then have ne: "hs \<noteq> []" by (metis le_imp_less_Suc list.map_disc_iff upt_eq_Nil_conv not_less le_zero_eq zero_less_Suc)
  with hs le show ?thesis by (metis last_map last_snoc upt_Suc_append)
qed

lemma full_page:
  assumes "range_ok r" and "btree_ok (sel_addresses s)" and "ev_logs ev t s r fin = Ok page"
  shows "lp_fetched_to page = Some (br_end r) \<and> (\<forall>l\<in>set (lp_rows page). log_block_number l \<in> blocks_of [r] \<and> sel_matches s l)"
  using logs_law [OF assms(1,2), of t fin] assms(3) by (auto simp: page_sound_def page_of_def page_bound_def mem_blocks_of)

end
text \<open>The constructors refuse zero sizes and build a consistent range book; the type is the
  gateways they can build.\<close>

definition idle_env :: gateway_env where
  "idle_env = \<lparr>ge_hex = demo_hex, ge_call = (\<lambda>_ _. Err PeNotReady), ge_batch = (\<lambda>_ _ _. Err PeNotReady),
     ge_rpc = (\<lambda>_ _ _. Err (PeNotReady, 1)), ge_clock = (\<lambda>_ _. 0), ge_book = (\<lambda>_. book_new 1000 1),
     ge_max_addresses = 1, ge_rpc_batch = 1\<rparr>"

lemma idle_env_ok: "env_ok idle_env"
  by (simp add: env_ok_def idle_env_def steady_def book_new_ok RANGE_TTL_MS_def u64_max_def)

typedef gateway = "{g. env_ok g}"
  using idle_env_ok by blast

lemma env_logs_page:
  assumes "env_ok g" and "range_ok r" and "btree_ok (sel_addresses s)"
  shows "page_sound s r (env_logs g t s r fin) \<and>
    (\<forall>logs. honest (ge_rpc g t) (ge_hex g) fin s (address_groups s (ge_max_addresses g)) (br_start r) (br_end r) logs \<longrightarrow>
       page_exact logs s r (env_logs g t s r fin))"
proof -
  from assms(1) have env: "steady (ge_clock g t)" "0 < ge_max_addresses g" "book_ok (ge_book g t)" by (simp_all add: env_ok_def)
  have "range_len r + 1 < range_len r + 2" by simp
  from get_logs_page [OF env(1,2) assms(3,2) env(3) order.refl this, of "ge_rpc g t" "ge_hex g" fin,
      folded page_of_def, unfolded Let_def, folded page_bound_def]
  obtain res book' t' where got: "get_logs (range_len r + 2) (bk_max (ge_book g t)) (ge_rpc g t) (ge_hex g) (ge_clock g t)
      (ge_max_addresses g) s r fin (ge_book g t) = Some (res, book', t')"
    and sound: "page_sound s r res"
    and exact: "\<forall>logs. honest (ge_rpc g t) (ge_hex g) fin s (address_groups s (ge_max_addresses g)) (br_start r) (br_end r) logs \<longrightarrow>
       page_exact logs s r res"
    unfolding page_sound_def page_exact_def by blast
  have "env_logs g t s r fin = res" by (simp only: env_logs_def got option.case prod.case)
  with sound exact show ?thesis by (simp only: simp_thms)
qed

interpretation gw: evm_client "evm_of (Rep_gateway g)" for g
proof unfold_locales
  have ok: "env_ok (Rep_gateway g)" using Rep_gateway by blast
  show "ev_block (evm_of (Rep_gateway g)) t n = Ok (Some b) \<Longrightarrow> blk_number b = n" for t n b
    by (auto simp: evm_of_def block_by_number_def split: if_splits)
  show "range_ok r \<Longrightarrow> ev_headers (evm_of (Rep_gateway g)) t r fin = Ok hs \<Longrightarrow>
      map blk_number hs = [br_start r ..< Suc (br_end r)] \<and> (\<forall>b\<in>set hs. blk_finality b = fin)" for r t fin hs
    using block_headers_rows [of r "ge_rpc_batch (Rep_gateway g)" "ge_batch (Rep_gateway g) t" "ge_hex (Rep_gateway g)" fin 0 hs] ok
    by (cases "block_headers (ge_batch (Rep_gateway g) t) (ge_hex (Rep_gateway g)) (ge_rpc_batch (Rep_gateway g)) r fin 0")
       (auto simp: evm_of_def env_ok_def)
  show "range_ok r \<Longrightarrow> btree_ok (sel_addresses s) \<Longrightarrow> page_sound s r (ev_logs (evm_of (Rep_gateway g)) t s r fin)" for r s t fin
    using env_logs_page [OF ok] by (simp add: evm_of_def)
qed

section \<open>The database and the engine\<close>

text \<open>\<open>LogSelector::default()\<close>, which matches every log.\<close>

definition sel_default :: log_selector where
  "sel_default = \<lparr>sel_addresses = [], sel_topics = replicate 4 AnyTopic\<rparr>"

record db =
  db_rows :: "json row_store"
  db_follow :: follow_table
  db_subs :: "subscription_row list"
  db_heads :: heads_table
  db_selectors :: selectors_table
  db_coverage :: "coverage_row list"
  db_jobs :: jobs_table
  db_usage :: "(stored_key \<times> usage_counts) list"

type_synonym subscription_key = "chain_id \<times> dataset \<times> selector_id \<times> string"

record follow_state =
  fs_safe_samples :: "(nat \<times> u64) list"
  fs_last_retention :: "nat option"

record engine =
  en_chains :: "(chain_name \<times> chain) list"
  en_by_id :: "(chain_id \<times> chain) list"
  en_settings :: engine_settings
  en_heads :: "chain_id \<rightharpoonup> nat \<times> heads"
  en_usage :: usage_book
  en_touched :: "(subscription_key \<times> nat) list"
  en_follow :: "chain_id \<Rightarrow> follow_state"

definition chain_id_of :: "chain \<Rightarrow> chain_id" where
  "chain_id_of c = cs_id (ch_settings c)"

definition chain_name_of :: "chain \<Rightarrow> chain_name" where
  "chain_name_of c = cs_name (ch_settings c)"

text \<open>Collecting into a \<open>HashMap\<close>: of two chains with one name or id the later one stays.\<close>

definition engine_new :: "chain list \<Rightarrow> engine_settings \<Rightarrow> engine" where
  "engine_new cs settings =
     \<lparr>en_chains = rev (map (\<lambda>c. (chain_name_of c, c)) cs), en_by_id = rev (map (\<lambda>c. (chain_id_of c, c)) cs),
      en_settings = settings, en_heads = Map.empty, en_usage = [], en_touched = [],
      en_follow = (\<lambda>_. \<lparr>fs_safe_samples = [], fs_last_retention = None\<rparr>)\<rparr>"

definition chain_names :: "engine \<Rightarrow> chain_name list" where
  "chain_names en = collect_set (map fst (en_chains en))"

definition engine_chain :: "engine \<Rightarrow> chain_name \<Rightarrow> (chain, error) result" where
  "engine_chain en name = ok_or (InvalidInput (''chain '' @ name @ '' is not configured'')) (map_of (en_chains en) name)"

definition chain_by_id :: "engine \<Rightarrow> chain_id \<Rightarrow> (chain, error) result" where
  "chain_by_id en i = ok_or (Internal (''chain id '' @ show_int i @ '' is not configured'')) (map_of (en_by_id en) i)"

definition provider_error_to_core :: "provider_error \<Rightarrow> error" where
  "provider_error_to_core e = Internal (''provider '' @ pe_kind e @ '': '' @ show_provider_error e)"

definition no_head :: "chain_name \<Rightarrow> error" where
  "no_head name = InvalidInput (''chain '' @ name @ '' has no head yet'')"

definition fresh_heads :: "nat \<Rightarrow> db \<Rightarrow> engine \<Rightarrow> chain \<Rightarrow> (heads, error) result \<times> engine" where
  "fresh_heads now d en c =
     (case store_heads (db_heads d) (chain_id_of c) of
        None \<Rightarrow> (Err (no_head (chain_name_of c)), en)
      | Some h \<Rightarrow> (Ok h, en\<lparr>en_heads := (en_heads en)(chain_id_of c \<mapsto> (now, h))\<rparr>))"

definition engine_heads :: "nat \<Rightarrow> db \<Rightarrow> engine \<Rightarrow> chain \<Rightarrow> (heads, error) result \<times> engine" where
  "engine_heads now d en c =
     (case en_heads en (chain_id_of c) of
        Some (at, h) \<Rightarrow> if now - at < es_heads_ttl (en_settings en) then (Ok h, en) else fresh_heads now d en c
      | None \<Rightarrow> fresh_heads now d en c)"

definition engine_all_heads :: "db \<Rightarrow> engine \<Rightarrow> chain_heads list" where
  "engine_all_heads d en =
     sort_key ch_chain (List.map_filter (\<lambda>(i, h). map_option (\<lambda>c. chain_heads_new (chain_name_of c) h) (map_of (en_by_id en) i))
       (all_heads (db_heads d)))"

definition engine_chain_heads :: "db \<Rightarrow> engine \<Rightarrow> chain_name \<Rightarrow> (chain_heads, error) result" where
  "engine_chain_heads d en name =
     and_then (engine_chain en name) (\<lambda>c.
       and_then (ok_or (no_head name) (store_heads (db_heads d) (chain_id_of c))) (\<lambda>h. Ok (chain_heads_new name h)))"

abbreviation from_store :: "('a, store_error) result \<Rightarrow> ('a, error) result" where
  "from_store \<equiv> map_err store_error_to_core"

text \<open>\<open>?\<close> on a fallible step that also changes state: the rest runs on the new state.\<close>

definition and_run :: "('a, 'e) result \<times> 's \<Rightarrow> ('a \<Rightarrow> 's \<Rightarrow> ('b, 'e) result \<times> 's) \<Rightarrow> ('b, 'e) result \<times> 's" where
  "and_run r f = (case r of (Inl e, s) \<Rightarrow> (Err e, s) | (Inr x, s) \<Rightarrow> f x s)"

lemma and_run_simps [simp]:
  "and_run (Err e, s) f = (Err e, s)"
  "and_run (Ok x, s) f = f x s"
  by (simp_all add: and_run_def)

lemma and_run_Ok_iff: "and_run r f = (Ok y, s') \<longleftrightarrow> (\<exists>x s. r = (Ok x, s) \<and> f x s = (Ok y, s'))"
  by (auto simp: and_run_def split: prod.splits sum.splits)

end
