(* ===== verification/Reorg.thy ===== *)
theory Reorg
  imports Engine_Base
begin

text \<open>
  Fork handling, \<open>crates/engine/src/reorg.rs\<close>: learning canonical hashes, checking follow heads
  against them, the binary search for the lowest height off the canonical chain, and the roll
  back. Only the chain's leader runs this and it is the only writer of unsafe rows, so a roll
  back reads one state of the database. \<open>Canon\<close> also carries the tick at which the client is
  called. Metrics and logging are left out.
\<close>

section \<open>Canonical hashes\<close>

record canon =
  cn_latest :: u64
  cn_known :: "u64 \<rightharpoonup> b256"
  cn_tick :: nat

definition canon_new :: "heads \<Rightarrow> nat \<Rightarrow> canon" where
  "canon_new h t = \<lparr>cn_latest = latest h, cn_known = [latest h \<mapsto> latest_hash h], cn_tick = t\<rparr>"

datatype head_check = Verified | Reorged

type_synonym points = "(u64, b256 btree_set) btree_map"

definition canonical :: "chain \<Rightarrow> canon \<Rightarrow> u64 \<Rightarrow> (b256 option, error) result \<times> canon" where
  "canonical c cn n =
     (if n > cn_latest cn then (Ok None, cn)
      else case cn_known cn n of
        Some h \<Rightarrow> (Ok (Some h), cn)
      | None \<Rightarrow>
          let cn1 = cn\<lparr>cn_tick := cn_tick cn + 1\<rparr> in
          (case ev_block (ch_evm c) (cn_tick cn) n of
             Inl e \<Rightarrow> (Err (provider_error_to_core e), cn1)
           | Inr None \<Rightarrow> (Err (provider_error_to_core PeNotReady), cn1)
           | Inr (Some b) \<Rightarrow> (Ok (Some (blk_hash b)), cn1\<lparr>cn_known := (cn_known cn)(n \<mapsto> blk_hash b)\<rparr>)))"

section \<open>Stored points\<close>

definition add_point :: "u64 \<Rightarrow> b256 \<Rightarrow> points \<Rightarrow> points" where
  "add_point n h pts = btree_insert n (collect_set (case map_of pts n of None \<Rightarrow> [h] | Some hs \<Rightarrow> h # hs)) pts"

definition add_head :: "follow_progress \<Rightarrow> points \<Rightarrow> points" where
  "add_head row pts =
     (case u64_of_i64 (fp_head row) of
        Some head \<Rightarrow> if fp_head_hash row \<noteq> 0 then add_point head (fp_head_hash row) pts else pts
      | None \<Rightarrow> pts)"

definition stored_points :: "db \<Rightarrow> chain \<Rightarrow> follow_progress list \<Rightarrow> u64 \<Rightarrow> u64 \<Rightarrow> (points, error) result" where
  "stored_points d c progress lo hi =
     (case range_new lo hi of
        Inl _ \<Rightarrow> Ok []
      | Inr r \<Rightarrow>
          and_then (from_store (unsafe_hashes (db_rows d) (chain_id_of c) r)) (\<lambda>hashes.
            Ok (fold (\<lambda>row pts. if (case u64_of_i64 (fp_head row) of Some head \<Rightarrow> range_contains r head | None \<Rightarrow> False)
                  then add_head row pts else pts) progress
                (fold (\<lambda>(n, h). add_point n h) hashes []))))"

definition extend_points :: "points \<Rightarrow> points \<Rightarrow> points" where
  "extend_points deeper pts = fold (\<lambda>(n, hs) ps. fold (add_point n) hs ps) deeper pts"

definition off_canonical :: "b256 option \<Rightarrow> b256 list \<Rightarrow> bool" where
  "off_canonical can hashes = list_ex (\<lambda>h. Some h \<noteq> can) hashes"

definition stored_hash_at :: "db \<Rightarrow> chain \<Rightarrow> u64 \<Rightarrow> (b256 option, error) result" where
  "stored_hash_at d c n =
     and_then (from_store (hash_at (db_rows d) (chain_id_of c) n)) (\<lambda>found.
       case found of
         Some h \<Rightarrow> Ok (Some h)
       | None \<Rightarrow>
           and_then (range_new n n) (\<lambda>r.
             and_then (from_store (read_logs (db_rows d) (chain_id_of c) sel_default r None 1)) (\<lambda>(rows, _).
               Ok (case rows of [] \<Rightarrow> None | row # _ \<Rightarrow> Some (log_block_hash row)))))"

section \<open>The search\<close>

function (sequential) first_bad_loop :: "chain \<Rightarrow> canon \<Rightarrow> points \<Rightarrow> usize \<Rightarrow> usize \<Rightarrow> (usize, error) result \<times> canon" where
  "first_bad_loop c cn pts low high =
     (if low < high then
        let mid = (low + high) div 2 in
        case canonical c cn (fst (pts ! mid)) of
          (Inl e, cn') \<Rightarrow> (Err e, cn')
        | (Inr can, cn') \<Rightarrow>
            if off_canonical can (snd (pts ! mid)) then first_bad_loop c cn' pts low mid
            else first_bad_loop c cn' pts (mid + 1) high
      else (Ok low, cn))"
  by pat_completeness auto

termination
  by (relation "measure (\<lambda>(c, cn, pts, low, high). high - low)") auto

declare first_bad_loop.simps [simp del]

definition first_bad :: "chain \<Rightarrow> canon \<Rightarrow> points \<Rightarrow> ((u64 \<times> bool) option, error) result \<times> canon" where
  "first_bad c cn pts =
     and_run (first_bad_loop c cn pts 0 (length pts)) (\<lambda>low cn'.
       (Ok (if low < length pts then Some (fst (pts ! low), low = 0) else None), cn'))"

section \<open>Roll back\<close>

definition roll_back_tx :: "db \<Rightarrow> chain \<Rightarrow> u64 \<Rightarrow> b256 \<Rightarrow> (db, error) result" where
  "roll_back_tx d c fork parent =
     and_then (from_store (delete_unsafe_logs_from (db_rows d) (chain_id_of c) fork)) (\<lambda>r1.
     and_then (from_store (delete_unsafe_blocks_from r1 (chain_id_of c) fork)) (\<lambda>r2.
     and_then (from_store (delete_unsafe_senders_from r2 (chain_id_of c) fork)) (\<lambda>r3.
       case rewind_follow (db_follow d) (chain_id_of c) fork parent of
         (Inl e, _) \<Rightarrow> Err (store_error_to_core e)
       | (Inr _, ft) \<Rightarrow> Ok (d\<lparr>db_rows := r3, db_follow := ft\<rparr>))))"

definition engine_halt :: "int \<Rightarrow> db \<Rightarrow> chain \<Rightarrow> string \<Rightarrow> db" where
  "engine_halt now d c reason = d\<lparr>db_follow := halt_follow now (db_follow d) (chain_id_of c) reason\<rparr>"

definition halt_after :: "int \<Rightarrow> db \<Rightarrow> chain \<Rightarrow> heads \<Rightarrow> u64 \<Rightarrow> bool \<Rightarrow> bool \<Rightarrow> db" where
  "halt_after now d c h fork deeper beyond_window =
     (if fork \<le> safe h \<or> (deeper \<and> fork - 1 \<le> safe h) then engine_halt now d c ''fork is at or below the safe head''
      else if deeper \<or> beyond_window then engine_halt now d c ''fork is deeper than reorg_window_blocks''
      else d)"

definition roll_back_top :: "follow_progress list \<Rightarrow> u64 \<Rightarrow> u64" where
  "roll_back_top progress detected =
     (case list_max (List.map_filter (\<lambda>row. u64_of_i64 (fp_head row)) progress @ [detected]) of None \<Rightarrow> detected | Some hi \<Rightarrow> hi)"

definition unpromoted_from :: "follow_progress list \<Rightarrow> u64 \<Rightarrow> u64" where
  "unpromoted_from progress lo =
     (case list_min (List.map_filter (\<lambda>row. u64_of_i64 (fp_promoted row + 1)) progress) of None \<Rightarrow> lo | Some n \<Rightarrow> n)"

text \<open>The window search and, when the whole window is off-canonical, the wider one.\<close>

definition find_fork ::
  "db \<Rightarrow> chain \<Rightarrow> follow_progress list \<Rightarrow> u64 \<Rightarrow> u64 \<Rightarrow> canon
     \<Rightarrow> ((u64 \<times> bool) option \<times> bool, error) result \<times> canon" where
  "find_fork d c progress lo hi cn =
     and_run (stored_points d c progress lo hi, cn) (\<lambda>pts cn.
     and_run (first_bad c cn pts) (\<lambda>found cn.
       let from_block = unpromoted_from progress lo in
       if (case found of Some (_, True) \<Rightarrow> True | _ \<Rightarrow> False) \<and> from_block < lo then
         and_run (stored_points d c progress from_block (lo - 1), cn) (\<lambda>deeper cn.
           if deeper \<noteq> [] then
             and_run (first_bad c cn (extend_points deeper pts)) (\<lambda>found cn. (Ok (found, True), cn))
           else (Ok (found, False), cn))
       else (Ok (found, False), cn)))"

definition roll_back ::
  "int \<Rightarrow> chain \<Rightarrow> heads \<Rightarrow> u64 \<Rightarrow> db \<Rightarrow> canon \<Rightarrow> (bool, error) result \<times> db \<times> canon" where
  "roll_back now c h detected d cn =
     (let progress = list_follow (db_follow d) (chain_id_of c);
          hi = roll_back_top progress detected;
          lo = hi - cs_reorg_window (ch_settings c)
      in case find_fork d c progress lo hi cn of
        (Inl e, cn) \<Rightarrow> (Err e, d, cn)
      | (Inr (None, _), cn) \<Rightarrow> (Ok False, d, cn)
      | (Inr (Some (first, lowest), beyond_window), cn) \<Rightarrow>
          let fork = min first (cn_latest cn + 1) in
          (case (if fork = 0 then (Ok 0, cn)
                 else and_run (canonical c cn (fork - 1)) (\<lambda>found cn.
                   (ok_or (Internal (''no canonical block '' @ dec (fork - 1))) found, cn))) of
             (Inl e, cn) \<Rightarrow> (Err e, d, cn)
           | (Inr parent, cn) \<Rightarrow>
               (case (if fork \<noteq> 0 \<and> lowest
                      then map_ok (\<lambda>stored. case stored of None \<Rightarrow> False | Some s \<Rightarrow> s \<noteq> parent) (stored_hash_at d c (fork - 1))
                      else Ok False) of
                  Inl e \<Rightarrow> (Err e, d, cn)
                | Inr deeper \<Rightarrow>
                    (case roll_back_tx d c fork parent of
                       Inl e \<Rightarrow> (Err e, d, cn)
                     | Inr d' \<Rightarrow> (Ok True, halt_after now d' c h fork deeper beyond_window, cn)))))"

text \<open>The loop of \<open>check_heads\<close> over the distinct unpromoted heads, ascending.\<close>

fun check_points :: "int \<Rightarrow> chain \<Rightarrow> heads \<Rightarrow> points \<Rightarrow> db \<Rightarrow> canon \<Rightarrow> (head_check, error) result \<times> db \<times> canon" where
  "check_points now c h [] d cn = (Ok Verified, d, cn)"
| "check_points now c h ((n, hashes) # rest) d cn =
     (case canonical c cn n of
        (Inl e, cn') \<Rightarrow> (Err e, d, cn')
      | (Inr can, cn') \<Rightarrow>
          if off_canonical can hashes then
            (case roll_back now c h n d cn' of
               (Inl e, d', cn2) \<Rightarrow> (Err e, d', cn2)
             | (Inr _, d', cn2) \<Rightarrow> (Ok Reorged, d', cn2))
          else check_points now c h rest d cn')"

definition check_heads ::
  "int \<Rightarrow> chain \<Rightarrow> heads \<Rightarrow> follow_progress list \<Rightarrow> db \<Rightarrow> canon \<Rightarrow> (head_check, error) result \<times> db \<times> canon" where
  "check_heads now c h progress d cn =
     check_points now c h (fold add_head (filter (\<lambda>row. fp_head row > fp_promoted row) progress) []) d cn"

section \<open>The search finds the lowest bad height\<close>

definition canon_hash :: "(u64 \<Rightarrow> b256) \<Rightarrow> u64 \<Rightarrow> u64 \<Rightarrow> b256 option" where
  "canon_hash can l n = (if n \<le> l then Some (can n) else None)"

text \<open>What a block query documents: the block it returns is the canonical one at that height.\<close>

definition tells :: "evm \<Rightarrow> (u64 \<Rightarrow> b256) \<Rightarrow> bool" where
  "tells ev can = (\<forall>t n b. ev_block ev t n = Ok (Some b) \<longrightarrow> blk_hash b = can n)"

definition knows :: "(u64 \<Rightarrow> b256) \<Rightarrow> canon \<Rightarrow> bool" where
  "knows can cn = (\<forall>n h. cn_known cn n = Some h \<longrightarrow> h = can n)"

lemma canon_new_knows: "latest_hash h = can (latest h) \<Longrightarrow> knows can (canon_new h t)"
  by (simp add: knows_def canon_new_def)

lemma canonical_result:
  assumes "tells (ch_evm c) can" and "knows can cn" and "canonical c cn n = (r, cn')"
  shows "knows can cn' \<and> cn_latest cn' = cn_latest cn \<and> (\<forall>x. r = Ok x \<longrightarrow> x = canon_hash can (cn_latest cn) n)"
  using assms unfolding canonical_def canon_hash_def tells_def knows_def
  by (auto simp: Let_def split: if_splits option.splits sum.splits)

definition bad_at :: "(u64 \<Rightarrow> b256) \<Rightarrow> u64 \<Rightarrow> points \<Rightarrow> nat \<Rightarrow> bool" where
  "bad_at can l pts i = off_canonical (canon_hash can l (fst (pts ! i))) (snd (pts ! i))"

definition splits_at :: "(u64 \<Rightarrow> b256) \<Rightarrow> u64 \<Rightarrow> points \<Rightarrow> nat \<Rightarrow> nat \<Rightarrow> bool" where
  "splits_at can l pts low high = ((\<forall>i<low. \<not> bad_at can l pts i) \<and> (\<forall>i. high \<le> i \<and> i < length pts \<longrightarrow> bad_at can l pts i))"

lemma first_bad_loop_splits:
  assumes "tells (ch_evm c) can" and mono: "\<And>i j. i \<le> j \<Longrightarrow> j < length pts \<Longrightarrow> bad_at can (cn_latest cn) pts i \<Longrightarrow> bad_at can (cn_latest cn) pts j"
    and "knows can cn" and "low \<le> high" and "high \<le> length pts" and "splits_at can (cn_latest cn) pts low high"
    and "first_bad_loop c cn pts low high = (r, cn')"
  shows "knows can cn' \<and> cn_latest cn' = cn_latest cn \<and> (\<forall>k. r = Ok k \<longrightarrow> k \<le> length pts \<and> splits_at can (cn_latest cn) pts k k)"
  using assms
proof (induction c cn pts low high rule: first_bad_loop.induct)
  case (1 c cn pts low high)
  show ?case
  proof (cases "low < high")
    case False
    with "1.prems" show ?thesis by (auto simp: first_bad_loop.simps splits_at_def)
  next
    case True
    define mid where "mid = (low + high) div 2"
    have mid: "low \<le> mid" "mid < high" using True by (auto simp: mid_def)
    obtain can' cn1 where can: "canonical c cn (fst (pts ! mid)) = (can', cn1)" by force
    note known = canonical_result [OF "1.prems"(1) "1.prems"(3) can]
    show ?thesis
    proof (cases can')
      case (Inl e)
      with True can known "1.prems"(7) show ?thesis by (auto simp: first_bad_loop.simps [of c cn] mid_def Let_def)
    next
      case (Inr x)
      then have bad: "off_canonical x (snd (pts ! mid)) \<longleftrightarrow> bad_at can (cn_latest cn) pts mid"
        using known by (simp add: bad_at_def)
      have split: "splits_at can (cn_latest cn) pts low high" and hi: "high \<le> length pts" by fact+
      have lower: "\<not> bad_at can (cn_latest cn) pts mid \<Longrightarrow> splits_at can (cn_latest cn) pts (mid + 1) high"
        using split mid hi "1.prems"(2) unfolding splits_at_def by (metis Suc_eq_plus1 less_Suc_eq_le order_less_le_trans)
      have upper: "bad_at can (cn_latest cn) pts mid \<Longrightarrow> splits_at can (cn_latest cn) pts low mid"
        using split "1.prems"(2) unfolding splits_at_def by blast
      have unfold: "first_bad_loop c cn pts low high =
          (if bad_at can (cn_latest cn) pts mid then first_bad_loop c cn1 pts low mid else first_bad_loop c cn1 pts (mid + 1) high)"
        using True can Inr bad by (simp add: first_bad_loop.simps [of c cn] mid_def Let_def)
      show ?thesis
      proof (cases "bad_at can (cn_latest cn) pts mid")
        case True
        from "1.IH"(1) [OF \<open>low < high\<close> mid_def can [symmetric] Inr _ "1.prems"(1)] True bad known upper mid hi "1.prems"(2,7) unfold
        show ?thesis by auto
      next
        case False
        from "1.IH"(2) [OF \<open>low < high\<close> mid_def can [symmetric] Inr _ "1.prems"(1)] False bad known lower mid hi "1.prems"(2,7) unfold
        show ?thesis by auto
      qed
    qed
  qed
qed

section \<open>The points searched\<close>

definition point_set :: "points \<Rightarrow> (u64 \<times> b256) set" where
  "point_set pts = {(n, h). \<exists>hs. map_of pts n = Some hs \<and> h \<in> set hs}"

definition points_ok :: "points \<Rightarrow> bool" where
  "points_ok pts = (sorted_wrt (<) (map fst pts) \<and> (\<forall>(n, hs)\<in>set pts. hs \<noteq> []))"

lemma points_ok_Nil [simp]: "points_ok []" "point_set [] = {}"
  by (simp_all add: points_ok_def point_set_def)

lemma btree_insert_all:
  "P v \<Longrightarrow> \<forall>(n, hs)\<in>set m. P hs \<Longrightarrow> \<forall>(n, hs)\<in>set (btree_insert k v m). P hs"
  by (induction k v m rule: btree_insert.induct) auto

lemma add_point_set [simp]:
  "point_set (add_point n h pts) = insert (n, h) (point_set pts)"
  "points_ok pts \<Longrightarrow> points_ok (add_point n h pts)"
proof -
  show "point_set (add_point n h pts) = insert (n, h) (point_set pts)"
    by (auto simp: point_set_def add_point_def map_of_btree_insert split: option.splits if_splits)
  show "points_ok pts \<Longrightarrow> points_ok (add_point n h pts)"
  proof -
    assume "points_ok pts"
    moreover let ?hs = "collect_set (case map_of pts n of None \<Rightarrow> [h] | Some hs \<Rightarrow> h # hs)"
    have "?hs \<noteq> []" by (simp split: option.split)
    ultimately show ?thesis
      using btree_insert_all [of "\<lambda>hs. hs \<noteq> []" ?hs pts n] by (simp add: points_ok_def add_point_def)
  qed
qed

definition head_point :: "follow_progress \<Rightarrow> (u64 \<times> b256) set" where
  "head_point row = (if 0 \<le> fp_head row \<and> fp_head_hash row \<noteq> 0 then {(nat (fp_head row), fp_head_hash row)} else {})"

lemma add_head_set [simp]:
  "point_set (add_head row pts) = head_point row \<union> point_set pts"
  "points_ok pts \<Longrightarrow> points_ok (add_head row pts)"
  by (auto simp: add_head_def head_point_def u64_of_i64_def split: option.splits)

lemma fold_points [simp]:
  "point_set (fold (\<lambda>(n, h). add_point n h) hs pts) = set hs \<union> point_set pts"
  "points_ok pts \<Longrightarrow> points_ok (fold (\<lambda>(n, h). add_point n h) hs pts)"
  by (induction hs arbitrary: pts) auto

lemma fold_hashes [simp]:
  "point_set (fold (add_point n) hs pts) = {n} \<times> set hs \<union> point_set pts"
  "points_ok pts \<Longrightarrow> points_ok (fold (add_point n) hs pts)"
  by (induction hs arbitrary: pts) auto

lemma fold_heads [simp]:
  "point_set (fold (\<lambda>row pts. if P row then add_head row pts else pts) rows pts) =
     (\<Union>row\<in>{r \<in> set rows. P r}. head_point row) \<union> point_set pts"
  "points_ok pts \<Longrightarrow> points_ok (fold (\<lambda>row pts. if P row then add_head row pts else pts) rows pts)"
  by (induction rows arbitrary: pts) auto

lemma extend_points_set:
  assumes "points_ok deeper"
  shows "point_set (extend_points deeper pts) = point_set deeper \<union> point_set pts"
    and "points_ok pts \<Longrightarrow> points_ok (extend_points deeper pts)"
proof -
  have "point_set (extend_points deeper pts) = (\<Union>(n, hs)\<in>set deeper. {n} \<times> set hs) \<union> point_set pts"
    by (induction deeper arbitrary: pts) (auto simp: extend_points_def)
  moreover have "(\<Union>(n, hs)\<in>set deeper. {n} \<times> set hs) = point_set deeper"
    using assms by (fastforce simp: points_ok_def point_set_def strict_sorted_iff map_of_is_SomeI dest: map_of_SomeD)
  ultimately show "point_set (extend_points deeper pts) = point_set deeper \<union> point_set pts" by simp
  show "points_ok pts \<Longrightarrow> points_ok (extend_points deeper pts)"
    by (induction deeper arbitrary: pts) (auto simp: extend_points_def)
qed

definition unsafe_points :: "db \<Rightarrow> chain \<Rightarrow> (u64 \<times> b256) set" where
  "unsafe_points d c =
     {(log_block_number l, log_block_hash l) | l. (chain_id_of c, l) \<in> set (rs_logs (db_rows d)) \<and> log_finality l = Unsafe} \<union>
     {(blk_number b, blk_hash b) | b. (chain_id_of c, b) \<in> set (rs_blocks (db_rows d)) \<and> blk_finality b = Unsafe}"

definition tracked_points :: "db \<Rightarrow> chain \<Rightarrow> (u64 \<times> b256) set" where
  "tracked_points d c = unsafe_points d c \<union> (\<Union>row\<in>{r \<in> set (ft_rows (db_follow d)). fp_chain r = chain_id_of c}. head_point row)"

lemma stored_points_set:
  assumes "stored_points d c (list_follow (db_follow d) (chain_id_of c)) lo hi = Ok pts" and "hi \<le> MAX_END" and "lo \<le> hi"
  shows "points_ok pts \<and> point_set pts = {(n, h) \<in> tracked_points d c. lo \<le> n \<and> n \<le> hi}"
proof -
  have r: "range_new lo hi = Ok (rng lo hi)" using assms(2,3) by (simp add: range_new_def)
  obtain hashes where h: "unsafe_hashes (db_rows d) (chain_id_of c) (rng lo hi) = Ok hashes"
    and pts: "pts = fold (\<lambda>row pts. if (case u64_of_i64 (fp_head row) of Some head \<Rightarrow> range_contains (rng lo hi) head | None \<Rightarrow> False)
                  then add_head row pts else pts) (list_follow (db_follow d) (chain_id_of c)) (fold (\<lambda>(n, h). add_point n h) hashes [])"
    using assms(1) r by (cases "unsafe_hashes (db_rows d) (chain_id_of c) (rng lo hi)") (auto simp: stored_points_def)
  have "set hashes = {(n, h) \<in> unsafe_points d c. lo \<le> n \<and> n \<le> hi}"
    using h by (force simp: unsafe_hashes_def unsafe_points_def range_contains_iff)
  then show ?thesis
    unfolding pts by (auto simp: tracked_points_def head_point_def list_follow_def u64_of_i64_def range_contains_iff split: if_splits option.splits)
qed

text \<open>Blocks commit to their parents, so once a stored hash is off the canonical chain, every
  stored hash above it is.\<close>

definition linked :: "(u64 \<Rightarrow> b256) \<Rightarrow> u64 \<Rightarrow> (u64 \<times> b256) set \<Rightarrow> bool" where
  "linked can l S = (\<forall>n h m k. (n, h) \<in> S \<and> (m, k) \<in> S \<and> n \<le> m \<and> Some h \<noteq> canon_hash can l n \<longrightarrow> Some k \<noteq> canon_hash can l m)"

definition clean_below :: "(u64 \<Rightarrow> b256) \<Rightarrow> u64 \<Rightarrow> (u64 \<times> b256) set \<Rightarrow> u64 \<Rightarrow> bool" where
  "clean_below can l S n = (\<forall>m k. (m, k) \<in> S \<and> m < n \<longrightarrow> Some k = canon_hash can l m)"

definition lowest_bad :: "(u64 \<Rightarrow> b256) \<Rightarrow> u64 \<Rightarrow> (u64 \<times> b256) set \<Rightarrow> u64 \<Rightarrow> bool" where
  "lowest_bad can l S n = ((\<exists>h. (n, h) \<in> S \<and> Some h \<noteq> canon_hash can l n) \<and> clean_below can l S n)"

lemma linked_subset: "linked can l S \<Longrightarrow> T \<subseteq> S \<Longrightarrow> linked can l T"
  unfolding linked_def by blast

lemma point_at:
  assumes "points_ok pts" and "i < length pts"
  shows "(fst (pts ! i), h) \<in> point_set pts \<longleftrightarrow> h \<in> set (snd (pts ! i))" and "snd (pts ! i) \<noteq> []"
proof -
  have "map_of pts (fst (pts ! i)) = Some (snd (pts ! i))"
    using assms by (simp add: points_ok_def strict_sorted_iff map_of_is_SomeI)
  then show "(fst (pts ! i), h) \<in> point_set pts \<longleftrightarrow> h \<in> set (snd (pts ! i))" by (simp add: point_set_def)
  have "pts ! i \<in> set pts" using assms(2) by simp
  with assms(1) show "snd (pts ! i) \<noteq> []" unfolding points_ok_def by (metis (mono_tags, lifting) case_prod_unfold)
qed

lemma point_index:
  "(n, h) \<in> point_set pts \<Longrightarrow> \<exists>i<length pts. fst (pts ! i) = n \<and> h \<in> set (snd (pts ! i))"
  by (auto simp: point_set_def dest!: map_of_SomeD) (metis fst_conv in_set_conv_nth snd_conv)

lemma keys_less: "points_ok pts \<Longrightarrow> i < j \<Longrightarrow> j < length pts \<Longrightarrow> fst (pts ! i) < fst (pts ! j)"
  using sorted_wrt_nth_less [of "(<)" "map fst pts" i j] by (simp add: points_ok_def)

lemma keys_le: "points_ok pts \<Longrightarrow> i \<le> j \<Longrightarrow> j < length pts \<Longrightarrow> fst (pts ! i) \<le> fst (pts ! j)"
  using keys_less [of pts i j] by (cases "i = j") auto

lemma bad_at_iff:
  assumes "points_ok pts" and "i < length pts"
  shows "bad_at can l pts i \<longleftrightarrow> (\<exists>h. (fst (pts ! i), h) \<in> point_set pts \<and> Some h \<noteq> canon_hash can l (fst (pts ! i)))"
  using point_at(1) [OF assms] by (auto simp: bad_at_def off_canonical_def list_ex_iff)

lemma bad_at_mono:
  assumes "points_ok pts" and "linked can l (point_set pts)" and "i \<le> j" and "j < length pts" and "bad_at can l pts i"
  shows "bad_at can l pts j"
proof -
  obtain k where k: "(fst (pts ! j), k) \<in> point_set pts"
    using point_at [OF assms(1,4)] by (metis all_not_in_conv set_empty)
  moreover obtain h where "(fst (pts ! i), h) \<in> point_set pts" "Some h \<noteq> canon_hash can l (fst (pts ! i))"
    using assms bad_at_iff [of pts i] by auto
  ultimately have "Some k \<noteq> canon_hash can l (fst (pts ! j))"
    using assms(2) keys_le [OF assms(1,3,4)] unfolding linked_def by blast
  with k show ?thesis using bad_at_iff [OF assms(1,4)] by blast
qed

lemma first_bad_result:
  assumes "tells (ch_evm c) can" and "knows can cn" and pts: "points_ok pts" and lk: "linked can (cn_latest cn) (point_set pts)"
    and "first_bad c cn pts = (r, cn')"
  shows "knows can cn' \<and> cn_latest cn' = cn_latest cn" and "r = Ok None \<Longrightarrow> (n, h) \<in> point_set pts \<Longrightarrow> Some h = canon_hash can (cn_latest cn) n"
    and "r = Ok (Some (f, low)) \<Longrightarrow> lowest_bad can (cn_latest cn) (point_set pts) f \<and> (low \<longleftrightarrow> (\<forall>m k. (m, k) \<in> point_set pts \<longrightarrow> f \<le> m))"
proof -
  let ?l = "cn_latest cn"
  obtain r' where loop: "first_bad_loop c cn pts 0 (length pts) = (r', cn')"
    and r: "r = map_ok (\<lambda>k. if k < length pts then Some (fst (pts ! k), k = 0) else None) r'"
    using assms(5) by (cases "first_bad_loop c cn pts 0 (length pts)"; cases "fst (first_bad_loop c cn pts 0 (length pts))")
      (auto simp: first_bad_def)
  have "splits_at can ?l pts 0 (length pts)" by (auto simp: splits_at_def)
  from first_bad_loop_splits [OF assms(1) bad_at_mono [OF pts lk] assms(2) _ order.refl this loop]
  have known: "knows can cn' \<and> cn_latest cn' = ?l"
    and split: "\<And>k. r' = Ok k \<Longrightarrow> k \<le> length pts \<and> splits_at can ?l pts k k" by auto
  show "knows can cn' \<and> cn_latest cn' = ?l" by (rule known)
  show "Some h = canon_hash can ?l n" if "r = Ok None" "(n, h) \<in> point_set pts"
  proof -
    from point_index [OF that(2)] obtain i where i: "i < length pts" "fst (pts ! i) = n" by blast
    from that(1) r obtain k where "r' = Ok k" "\<not> k < length pts" by (cases r') (auto split: if_splits)
    with split have "splits_at can ?l pts (length pts) (length pts)" by (auto simp: order_antisym_conv)
    with i have "\<not> bad_at can ?l pts i" by (simp add: splits_at_def)
    with i that(2) show ?thesis using bad_at_iff [OF pts i(1)] by blast
  qed
  show "lowest_bad can ?l (point_set pts) f \<and> (low \<longleftrightarrow> (\<forall>m k. (m, k) \<in> point_set pts \<longrightarrow> f \<le> m))" if "r = Ok (Some (f, low))"
  proof -
    from that r obtain k where k: "r' = Ok k" "k < length pts" "f = fst (pts ! k)" "low = (k = 0)"
      by (cases r') (auto split: if_splits)
    have sp: "splits_at can ?l pts k k" using split [OF k(1)] by simp
    then have "bad_at can ?l pts k" using k(2) by (simp add: splits_at_def)
    moreover have "Some h' = canon_hash can ?l m" if m: "(m, h') \<in> point_set pts" "m < f" for m h'
    proof -
      from point_index [OF m(1)] obtain i where i: "i < length pts" "fst (pts ! i) = m" by blast
      then have "i < k" using keys_le [OF pts, of k i] m(2) k(3) by (meson leD leI)
      then have "\<not> bad_at can ?l pts i" using sp by (simp add: splits_at_def)
      with i m(1) show ?thesis using bad_at_iff [OF pts i(1)] by blast
    qed
    moreover have "low \<longleftrightarrow> (\<forall>m h'. (m, h') \<in> point_set pts \<longrightarrow> f \<le> m)"
    proof
      show "low \<Longrightarrow> \<forall>m h'. (m, h') \<in> point_set pts \<longrightarrow> f \<le> m"
        using point_index keys_le [OF pts, of 0] k by blast
    next
      assume all: "\<forall>m h'. (m, h') \<in> point_set pts \<longrightarrow> f \<le> m"
      obtain h' where "(fst (pts ! 0), h') \<in> point_set pts"
        using point_at [OF pts, of 0] k(2) by (metis all_not_in_conv gr_zeroI not_less0 set_empty)
      with all k(3) have "fst (pts ! k) \<le> fst (pts ! 0)" by blast
      then show low using keys_less [OF pts, of 0 k] k(2,4) by (metis gr_zeroI leD)
    qed
    ultimately show ?thesis using bad_at_iff [OF pts k(2)] k(3) by (auto simp: lowest_bad_def clean_below_def)
  qed
qed

definition points_in :: "db \<Rightarrow> chain \<Rightarrow> u64 \<Rightarrow> u64 \<Rightarrow> (u64 \<times> b256) set" where
  "points_in d c lo hi = {(n, h) \<in> tracked_points d c. lo \<le> n \<and> n \<le> hi}"

lemma points_in_split: "from_block \<le> lo \<Longrightarrow> lo \<le> hi \<Longrightarrow> 0 < lo \<Longrightarrow> points_in d c from_block hi = points_in d c from_block (lo - 1) \<union> points_in d c lo hi"
  by (auto simp: points_in_def)

lemma good_below_good:
  assumes "linked can l (tracked_points d c)" and "lowest_bad can l (points_in d c lo hi) f" and "from_block \<le> lo"
    and "(m, k) \<in> points_in d c lo hi" and "m < f"
  shows "lowest_bad can l (points_in d c from_block hi) f"
proof -
  have good: "Some k = canon_hash can l m" using assms(2,4,5) by (auto simp: lowest_bad_def clean_below_def)
  have "Some h = canon_hash can l n" if "(n, h) \<in> points_in d c from_block hi" "n < f" for n h
  proof (cases "lo \<le> n")
    case True
    with that assms(2) show ?thesis by (auto simp: lowest_bad_def clean_below_def points_in_def)
  next
    case False
    then have "n \<le> m" using assms(4) by (simp add: points_in_def)
    with assms(1,4) that good show ?thesis by (auto simp: linked_def points_in_def)
  qed
  moreover have "points_in d c lo hi \<subseteq> points_in d c from_block hi" using assms(3) by (auto simp: points_in_def)
  ultimately show ?thesis using assms(2) by (auto simp: lowest_bad_def clean_below_def)
qed

lemma find_fork_result:
  assumes "tells (ch_evm c) can" and "knows can cn" and lk: "linked can (cn_latest cn) (tracked_points d c)"
    and hi: "hi \<le> MAX_END" "lo \<le> hi" and pr: "progress = list_follow (db_follow d) (chain_id_of c)"
    and ff: "find_fork d c progress lo hi cn = (r, cn')"
  shows "knows can cn' \<and> cn_latest cn' = cn_latest cn \<and>
    (\<forall>b. r = Ok (None, b) \<longrightarrow> clean_below can (cn_latest cn) (points_in d c lo hi) (hi + 1)) \<and>
    (\<forall>f low b. r = Ok (Some (f, low), b) \<longrightarrow> lowest_bad can (cn_latest cn) (points_in d c (min lo (unpromoted_from progress lo)) hi) f)"
proof (cases "stored_points d c progress lo hi")
  case (Inl e)
  with ff assms(2) show ?thesis by (auto simp: find_fork_def)
next
  case (Inr pts)
  let ?l = "cn_latest cn" and ?from = "unpromoted_from progress lo"
  have pts: "points_ok pts" "point_set pts = points_in d c lo hi"
    using stored_points_set [of d c lo hi pts] Inr hi pr by (simp_all add: points_in_def)
  have sub: "linked can ?l (points_in d c a b)" for a b by (rule linked_subset [OF lk]) (auto simp: points_in_def)
  obtain r1 cn1 where fb: "first_bad c cn pts = (r1, cn1)" by force
  note first = first_bad_result [OF assms(1,2) pts(1) sub [of lo hi, folded pts(2)] fb]
  show ?thesis
  proof (cases "(\<exists>f. r1 = Ok (Some (f, True))) \<and> ?from < lo")
    case False
    have r: "cn' = cn1" "r = map_ok (\<lambda>x. (x, False)) r1"
      using ff Inr fb False by (auto simp: find_fork_def Let_def and_run_def split: sum.splits option.splits bool.splits if_splits prod.splits)
    have "lowest_bad can ?l (points_in d c (min lo ?from) hi) f" if "r1 = Ok (Some (f, low))" for f low
    proof (cases "?from < lo")
      case True
      with False that first(3) have "lowest_bad can ?l (points_in d c lo hi) f" "\<exists>m k. (m, k) \<in> points_in d c lo hi \<and> m < f"
        by (auto simp: pts(2) not_le)
      with good_below_good [OF lk] True show ?thesis by (metis less_imp_le min_def leD)
    next
      case False
      with that first(3) show ?thesis by (simp add: pts(2) min_def)
    qed
    with r first(1,2) show ?thesis by (cases r1) (auto simp: clean_below_def pts(2))
  next
    case True
    then obtain f where f: "r1 = Ok (Some (f, True))" and less: "?from < lo" by blast
    have min: "min lo ?from = ?from" using less by simp
    have ff2: "(r, cn') = and_run (stored_points d c progress ?from (lo - 1), cn1) (\<lambda>deeper cn.
           if deeper \<noteq> [] then and_run (first_bad c cn (extend_points deeper pts)) (\<lambda>found cn. (Ok (found, True), cn))
           else (Ok (Some (f, True), False), cn))"
      using ff Inr fb f less by (simp add: find_fork_def Let_def)
    show ?thesis
    proof (cases "stored_points d c progress ?from (lo - 1)")
      case (Inl e)
      with ff2 first(1) show ?thesis by simp
    next
      case (Inr deeper)
      have dp: "points_ok deeper" "point_set deeper = points_in d c ?from (lo - 1)"
        using stored_points_set [of d c ?from "lo - 1" deeper] Inr hi less pr by (simp_all add: points_in_def)
      have all: "points_in d c ?from hi = point_set deeper \<union> point_set pts"
        using points_in_split [of ?from lo hi] less hi by (simp add: dp pts)
      show ?thesis
      proof (cases "deeper = []")
        case True
        with ff2 Inr f first(1,3) all min show ?thesis by simp
      next
        case False
        let ?all = "extend_points deeper pts"
        have ok: "points_ok ?all" "point_set ?all = points_in d c ?from hi"
          using extend_points_set [OF dp(1)] pts(1) all by simp_all
        obtain r2 cn2 where fb2: "first_bad c cn1 ?all = (r2, cn2)" by force
        have k1: "knows can cn1" "cn_latest cn1 = ?l" using first(1) by auto
        have "linked can (cn_latest cn1) (point_set ?all)" using sub ok(2) k1(2) by simp
        note second = first_bad_result [OF assms(1) k1(1) ok(1) this fb2, unfolded k1(2) ok(2)]
        have r: "cn' = cn2" "r = map_ok (\<lambda>x. (x, True)) r2" using ff2 Inr False fb2 by (cases r2; simp)+
        have "points_in d c lo hi \<subseteq> points_in d c ?from hi" using all pts(2) by blast
        with second(1-3) r min show ?thesis by (cases r2) (auto simp: clean_below_def)
      qed
    qed
  qed
qed


section \<open>A roll back leaves only canonical rows\<close>

definition rows_rolled_back :: "db \<Rightarrow> chain \<Rightarrow> u64 \<Rightarrow> db \<Rightarrow> bool" where
  "rows_rolled_back d c fork d' =
     (rs_logs (db_rows d') = filter (\<lambda>(i, l). \<not> (i = chain_id_of c \<and> fork \<le> log_block_number l \<and> log_finality l = Unsafe)) (rs_logs (db_rows d)) \<and>
      rs_blocks (db_rows d') = filter (\<lambda>(i, b). \<not> (i = chain_id_of c \<and> fork \<le> blk_number b \<and> blk_finality b = Unsafe)) (rs_blocks (db_rows d)) \<and>
      rs_senders (db_rows d') = filter (\<lambda>(i, s). \<not> (i = chain_id_of c \<and> fork \<le> snd_block s \<and> snd_finality s = Unsafe)) (rs_senders (db_rows d)))"

definition heads_rewound :: "db \<Rightarrow> chain \<Rightarrow> u64 \<Rightarrow> bool" where
  "heads_rewound d c fork = (\<forall>r\<in>set (ft_rows (db_follow d)). fp_chain r = chain_id_of c \<longrightarrow> fp_head r \<le> max (int fork - 1) (fp_promoted r))"

lemma halt_rows [simp]: "db_rows (halt_after now d c h fork deeper beyond) = db_rows d"
  by (simp add: halt_after_def engine_halt_def)

lemma halt_follow_rows [simp]: "ft_rows (db_follow (halt_after now d c h fork deeper beyond)) = ft_rows (db_follow d)"
  by (simp add: halt_after_def engine_halt_def halt_follow_def)

lemma roll_back_tx_result:
  assumes "roll_back_tx d c fork parent = Ok d'"
  shows "rows_rolled_back d c fork d' \<and> heads_rewound d' c fork \<and> ft_chains (db_follow d') = ft_chains (db_follow d)"
proof -
  obtain k where "u64_to_i64 fork ''from block'' = Ok k"
    using assms by (cases "u64_to_i64 fork ''from block''") (auto simp: roll_back_tx_def delete_unsafe_logs_from_def)
  then have k: "u64_to_i64 fork ''from block'' = Ok (int fork)" by (auto simp: u64_to_i64_def i64_of_u64_def split: if_splits)
  then show ?thesis using assms
    by (auto simp: roll_back_tx_def delete_unsafe_logs_from_def delete_unsafe_blocks_from_def delete_unsafe_senders_from_def
        rewind_follow_def map_follow_def rewind_row_def rows_rolled_back_def heads_rewound_def Let_def)
qed

lemma unsafe_points_left:
  "rows_rolled_back d c fork d' \<Longrightarrow> (n, h) \<in> unsafe_points d' c \<Longrightarrow> (n, h) \<in> unsafe_points d c \<and> n < fork"
  by (auto simp: unsafe_points_def rows_rolled_back_def not_le)

lemma follow_halt_set:
  assumes "chain_id_of c \<in> cr_id ` set (ft_chains (db_follow d))" and "fork \<le> safe h"
  shows "follow_halt (db_follow (halt_after now d c h fork deeper beyond)) (chain_id_of c) \<noteq> None"
proof -
  let ?f = "\<lambda>x. if cr_id x = chain_id_of c then x\<lparr>cr_halted_at := Some (coalesce (cr_halted_at x) now),
      cr_halt_reason := Some (coalesce (cr_halt_reason x) ''fork is at or below the safe head'')\<rparr> else x"
  let ?rows = "map ?f (ft_chains (db_follow d))"
  from assms(1) obtain x where x: "x \<in> set (ft_chains (db_follow d))" "cr_id x = chain_id_of c" by auto
  then have "?f x \<in> set ?rows" "cr_id (?f x) = chain_id_of c" "cr_halted_at (?f x) \<noteq> None" by simp_all
  then have "find (\<lambda>r. cr_id r = chain_id_of c \<and> cr_halted_at r \<noteq> None) ?rows \<noteq> None" unfolding find_None_iff by blast
  then show ?thesis using assms(2) by (simp add: halt_after_def engine_halt_def halt_follow_def follow_halt_def halted_row_def)
qed

text \<open>Once a bad point is found, either nothing is changed or the rollback is committed.\<close>

lemma roll_back_found:
  assumes ff: "find_fork d c progress lo hi cn = (Ok (Some (f, low), b), cn1)" and lat: "cn_latest cn1 = cn_latest cn"
    and "progress = list_follow (db_follow d) (chain_id_of c)" and "hi = roll_back_top progress detected"
    and "lo = hi - cs_reorg_window (ch_settings c)" and run: "roll_back now c h detected d cn = (res, d', cn')"
  shows "(\<exists>e. res = Err e) \<and> d' = d \<or>
    (\<exists>parent deeper d1. roll_back_tx d c (min f (cn_latest cn + 1)) parent = Ok d1 \<and> res = Ok True \<and>
       d' = halt_after now d1 c h (min f (cn_latest cn + 1)) deeper b)"
proof -
  define fk where "fk = min f (cn_latest cn + 1)"
  obtain p cn2 where p: "(if fk = 0 then (Ok 0, cn1) else and_run (canonical c cn1 (fk - 1)) (\<lambda>found cn.
      (ok_or (Internal (''no canonical block '' @ dec (fk - 1))) found, cn))) = (p, cn2)" by force
  have "(res, d', cn') = (case p of Inl e \<Rightarrow> (Err e, d, cn2) | Inr parent \<Rightarrow>
      (case (if fk \<noteq> 0 \<and> low then map_ok (\<lambda>stored. case stored of None \<Rightarrow> False | Some s \<Rightarrow> s \<noteq> parent) (stored_hash_at d c (fk - 1)) else Ok False) of
          Inl e \<Rightarrow> (Err e, d, cn2)
        | Inr deeper \<Rightarrow> (case roll_back_tx d c fk parent of Inl e \<Rightarrow> (Err e, d, cn2)
            | Inr d' \<Rightarrow> (Ok True, halt_after now d' c h fk deeper b, cn2))))"
    using run [symmetric] unfolding roll_back_def Let_def assms(3) [symmetric] assms(4) [symmetric] assms(5) [symmetric]
    by (simp only: ff prod.case sum.case option.case lat fk_def [symmetric] p)
  then show ?thesis unfolding fk_def [symmetric] by (auto split: sum.splits)
qed


definition demo_header :: "u64 \<Rightarrow> b256 \<Rightarrow> json block_row" where
  "demo_header n k = \<lparr>blk_number = n, blk_hash = k, blk_parent_hash = 0, blk_timestamp = 0, blk_finality = Unsafe, blk_header = JNull\<rparr>"

definition demo_canon :: "u64 \<Rightarrow> b256" where
  "demo_canon n = (if n = 4 then 104 else if n = 5 then 105 else 106)"

definition demo_chain :: chain where
  "demo_chain = \<lparr>ch_settings = \<lparr>cs_name = ''dev'', cs_id = 1, cs_chunk_blocks = 10, cs_header_chunk_blocks = 10, cs_max_addresses = 10,
       cs_head_mode = Tags, cs_tick = 1000, cs_reorg_window = 2\<rparr>,
     ch_evm = \<lparr>ev_block = (\<lambda>_ n. Ok (Some (demo_header n (demo_canon n)))), ev_headers = (\<lambda>_ _ _. Err PeNotReady),
       ev_logs = (\<lambda>_ _ _ _. Err (\<lparr>lp_rows = [], lp_fetched_to = None, lp_calls = 0\<rparr>, PeNotReady)),
       ev_senders = (\<lambda>_ _. Err PeNotReady), ev_heads = (\<lambda>_ _. Err PeNotReady), ev_range_blocks = (\<lambda>_ _. 10)\<rparr>\<rparr>"

definition demo_progress :: follow_progress where
  "demo_progress = \<lparr>fp_chain = 1, fp_dataset = EvmBlocks, fp_selector = 1, fp_from = 4, fp_head = 5, fp_head_hash = 999,
     fp_promoted = 3, fp_finalized = 3\<rparr>"

definition demo_db :: db where
  "demo_db = \<lparr>db_rows = \<lparr>rs_logs = [], rs_blocks = [(1, demo_header 4 104), (1, demo_header 5 999)], rs_senders = []\<rparr>,
     db_follow = \<lparr>ft_rows = [demo_progress], ft_chains = []\<rparr>, db_subs = [], db_heads = \<lparr>ht_heads = Map.empty, ht_notified = []\<rparr>,
     db_selectors = \<lparr>st_rows = [], st_next_id = 1\<rparr>, db_coverage = [], db_jobs = \<lparr>jt_rows = [], jt_next_id = 1, jt_notified = []\<rparr>, db_usage = []\<rparr>"

definition demo_heads :: heads where
  "demo_heads = \<lparr>latest = 6, latest_hash = 106, safe = 2, finalized = 1\<rparr>"

lemmas demo_defs = demo_header_def demo_canon_def demo_chain_def demo_progress_def demo_db_def demo_heads_def

lemma demo_linked: "linked demo_canon 6 (tracked_points demo_db demo_chain)"
proof (rule linked_subset)
  show "linked demo_canon 6 {(4, 104), (5, 999)}" by (auto simp: linked_def canon_hash_def demo_canon_def)
  show "tracked_points demo_db demo_chain \<subseteq> {(4, 104), (5, 999)}"
    by (auto simp: tracked_points_def unsafe_points_def head_point_def demo_defs chain_id_of_def)
qed

lemma demo_points: "stored_points demo_db demo_chain [demo_progress] 3 5 = Ok [(4, [104]), (5, [999])]"
  by (simp add: stored_points_def range_new_def MAX_END_value unsafe_hashes_def demo_defs chain_id_of_def u64_to_i64_def
      i64_of_u64_def i64_max_def range_contains_def add_head_def add_point_def u64_of_i64_def collect_set_def)

lemma demo_list: "list_follow (db_follow demo_db) (chain_id_of demo_chain) = [demo_progress]"
  by (simp add: list_follow_def demo_defs chain_id_of_def)

lemma demo_search:
  "first_bad demo_chain (canon_new demo_heads 0) [(4, [104]), (5, [999])] =
     (Ok (Some (5, False)), (canon_new demo_heads 0)\<lparr>cn_tick := 2, cn_known := [6 \<mapsto> 106, 5 \<mapsto> 105, 4 \<mapsto> 104]\<rparr>)"
  by (simp add: first_bad_def first_bad_loop.simps canonical_def canon_new_def off_canonical_def demo_defs Let_def fun_upd_twist)

lemma demo_numbers:
  "roll_back_top [demo_progress] 5 = 5" "unpromoted_from [demo_progress] 3 = 4" "5 - cs_reorg_window (ch_settings demo_chain) = 3"
  by (simp_all add: roll_back_top_def unpromoted_from_def demo_defs u64_of_i64_def map_filter_simps list_max_def list_min_def)

lemma demo_roll_back:
  "case roll_back 0 demo_chain demo_heads 5 demo_db (canon_new demo_heads 0) of (res, d', _) \<Rightarrow>
     res = Ok True \<and> rs_blocks (db_rows d') = [(1, demo_header 4 104)]"
  by (simp add: roll_back_def demo_list demo_numbers find_fork_def demo_points demo_search Let_def)
     (simp add: canonical_def canon_new_def roll_back_tx_def delete_unsafe_logs_from_def delete_unsafe_blocks_from_def
       delete_unsafe_senders_from_def rewind_follow_def demo_defs chain_id_of_def u64_to_i64_def i64_of_u64_def i64_max_def Let_def)


end
