(* ===== verification/Engine_Effects.thy ===== *)
theory Engine_Effects
  imports Engine_Base
begin

text \<open>
  What every engine operation may do to the database. The tables that hold indexed data (rows,
  follow progress, coverage) change only through the store's operations; \<open>db_step\<close> is one such
  change, the other tables are free. Any sequence of them keeps the tables' invariants, loses no
  durable row, moves no durable follow position back and lowers no coverage. The parts of the
  engine show that they are such sequences.
\<close>

definition db_safe :: "db \<Rightarrow> bool" where
  "db_safe d = (rows_unique (db_rows d) \<and> follow_inv (db_follow d) \<and> coverage_ok (db_coverage d))"

inductive db_step :: "db \<Rightarrow> db \<Rightarrow> bool" where
  d_rows: "row_step (db_rows d) r \<Longrightarrow> db_step d (d\<lparr>db_rows := r\<rparr>)"
| d_follow: "follow_keep (db_follow d) f \<Longrightarrow> db_step d (d\<lparr>db_follow := f\<rparr>)"
| d_coverage: "add_coverage_many (db_selectors d) (db_coverage d) i ds ids r fin = Ok cov \<Longrightarrow> range_ok r \<Longrightarrow>
     db_step d (d\<lparr>db_coverage := cov\<rparr>)"
| d_other: "db_rows d' = db_rows d \<Longrightarrow> db_follow d' = db_follow d \<Longrightarrow> db_coverage d' = db_coverage d \<Longrightarrow> db_step d d'"

abbreviation db_steps :: "db \<Rightarrow> db \<Rightarrow> bool" where
  "db_steps \<equiv> db_step\<^sup>*\<^sup>*"

definition cover_le :: "coverage_row list \<Rightarrow> coverage_row list \<Rightarrow> bool" where
  "cover_le rows rows' =
     (\<forall>c d i x f. cov_level rows c d i x = Some f \<longrightarrow> (\<exists>f'. cov_level rows' c d i x = Some f' \<and> f \<le> f'))"

definition nothing_durable_lost :: "db \<Rightarrow> db \<Rightarrow> bool" where
  "nothing_durable_lost d d' =
     (durable_kept (db_rows d) (db_rows d') \<and> cover_le (db_coverage d) (db_coverage d') \<and>
      (\<forall>c ds i. no_regress (durable_to (db_follow d) c ds i) (durable_to (db_follow d') c ds i)))"

lemma cover_le_refl: "cover_le a a"
  by (auto simp: cover_le_def)

lemma cover_le_trans: "cover_le a b \<Longrightarrow> cover_le b c \<Longrightarrow> cover_le a c"
  unfolding cover_le_def by (meson order_trans)

lemma add_coverage_keeps:
  assumes "coverage_ok rows" and "range_ok r" and "add_coverage_many t rows i ds ids r fin = Ok rows'"
  shows "coverage_ok rows' \<and> cover_le rows rows'"
proof (cases "collect_set ids = []")
  case True
  with assms(1,3) show ?thesis by (auto simp: add_coverage_many_def cover_le_refl split: if_splits)
next
  case False
  have fin: "Safe \<le> fin" using assms(3) by (auto simp: add_coverage_many_def split: if_splits)
  have "rows' = rows \<or> merge_each rows i ds (collect_set ids) r fin = Ok rows'"
    using assms(3) by (auto simp: add_coverage_many_def Let_def split: if_splits option.splits)
  moreover obtain mid where "merge_each rows i ds (collect_set ids) r fin = Ok mid" "coverage_ok mid"
    and lvl: "\<forall>c d j x. cov_level mid c d j x =
      (if c = i \<and> d = ds \<and> j \<in> set (collect_set ids) \<and> int (br_start r) \<le> x \<and> x \<le> int (br_end r)
       then raised (cov_level rows c d j x) fin else cov_level rows c d j x)"
    using merge_each_level [OF assms(1,2) fin distinct_collect_set] by blast
  moreover have "cover_le rows mid"
    unfolding cover_le_def lvl [rule_format] by (auto simp: raised_def)
  ultimately show ?thesis using assms(1) cover_le_refl by auto
qed

lemma nothing_lost_refl: "nothing_durable_lost d d"
  by (simp add: nothing_durable_lost_def durable_kept_refl cover_le_refl no_regress_refl)

lemma nothing_lost_trans: "nothing_durable_lost a b \<Longrightarrow> nothing_durable_lost b c \<Longrightarrow> nothing_durable_lost a c"
  unfolding nothing_durable_lost_def by (blast intro: durable_kept_trans cover_le_trans no_regress_trans)

lemma db_step_keeps:
  assumes "db_safe d" and "db_step d d'"
  shows "db_safe d' \<and> nothing_durable_lost d d'"
  using assms(2)
proof cases
  case (d_rows r)
  then show ?thesis using assms(1) row_step_kept
    by (auto simp: db_safe_def nothing_durable_lost_def cover_le_refl no_regress_refl)
next
  case (d_follow f)
  then show ?thesis using assms(1) follow_keep_inv follow_keep_no_regress
    by (auto simp: db_safe_def nothing_durable_lost_def cover_le_refl durable_kept_refl)
next
  case (d_coverage i ds ids r fin cov)
  then show ?thesis using assms(1) add_coverage_keeps
    by (auto simp: db_safe_def nothing_durable_lost_def durable_kept_refl no_regress_refl)
next
  case d_other
  then show ?thesis using assms(1) nothing_lost_refl by (simp add: db_safe_def nothing_durable_lost_def)
qed

interpretation engine_db: invariant_system db_safe db_step db_safe
  by unfold_locales (use db_step_keeps in blast)+

lemma db_steps_keep:
  assumes "db_steps d d'" and "db_safe d"
  shows "db_safe d' \<and> nothing_durable_lost d d'"
  using assms
proof (induction rule: rtranclp_induct)
  case base
  then show ?case by (simp add: nothing_lost_refl)
next
  case (step y z)
  then show ?case using db_step_keeps [of y z] nothing_lost_trans by blast
qed

section \<open>Composing operations\<close>

text \<open>Operations that thread a state: what each step keeps, the whole keeps.\<close>

locale kept_runs =
  fixes keep :: "'s \<Rightarrow> 's \<Rightarrow> bool"
  assumes keep_refl: "keep s s" and keep_trans: "keep s t \<Longrightarrow> keep t u \<Longrightarrow> keep s u"
begin

lemma run_keep:
  assumes "keep s (snd r)" and "\<And>x s'. r = (Ok x, s') \<Longrightarrow> keep s' (snd (f x s'))"
  shows "keep s (snd (and_run r f))"
  using assms keep_trans by (cases r; cases "fst r") auto

lemma after_keep: "keep s t \<Longrightarrow> keep t (snd r) \<Longrightarrow> keep s (snd r)"
  by (rule keep_trans)

end

interpretation db_run: kept_runs db_steps
  by unfold_locales auto

lemma rows_follow_steps:
  assumes "row_step\<^sup>*\<^sup>* (db_rows d) r" and "follow_keep\<^sup>*\<^sup>* (db_follow d) f"
  shows "db_steps d (d\<lparr>db_rows := r, db_follow := f\<rparr>)"
proof -
  have "db_steps d (d\<lparr>db_rows := r\<rparr>)"
    using assms(1)
  proof (induction rule: rtranclp_induct)
    case (step y z)
    then show ?case using d_rows [of "d\<lparr>db_rows := y\<rparr>" z] by (simp add: rtranclp.rtrancl_into_rtrancl)
  qed simp
  moreover have "db_steps (d\<lparr>db_rows := r\<rparr>) (d\<lparr>db_rows := r, db_follow := f\<rparr>)"
    using assms(2)
  proof (induction rule: rtranclp_induct)
    case (step y z)
    then show ?case using d_follow [of "d\<lparr>db_rows := r, db_follow := y\<rparr>" z] by (simp add: rtranclp.rtrancl_into_rtrancl)
  qed simp
  ultimately show ?thesis by (rule rtranclp_trans)
qed

lemma follow_only_steps: "follow_keep\<^sup>*\<^sup>* (db_follow d) f \<Longrightarrow> db_steps d (d\<lparr>db_follow := f\<rparr>)"
  using rows_follow_steps [of d "db_rows d" f] by simp

lemma rows_only_steps: "row_step\<^sup>*\<^sup>* (db_rows d) r \<Longrightarrow> db_steps d (d\<lparr>db_rows := r\<rparr>)"
  using rows_follow_steps [of d r "db_follow d"] by simp

end
