(* ===== verification/Follow.thy ===== *)
theory Follow
  imports Reorg Engine_Effects
begin

text \<open>
  The follower, \<open>crates/engine/src/follow.rs\<close>: one tick fetches every watched selector from its
  head to \<open>latest\<close> into unsafe rows and promotes what the tick verified up to \<open>safe\<close>. A tick
  state carries the database, the usage book and the canonical hashes learnt; each client call
  is read at the canon's tick, which counts them. A transaction that fails leaves the database
  as it was. Metrics are left out.
\<close>

section \<open>State and helpers\<close>

record tick =
  tk_db :: db
  tk_usage :: usage_book
  tk_canon :: canon

datatype follow_step_result = StepDone | StepReorged

type_synonym watchers = "(dataset \<times> selector_id, string list) btree_map"

definition tick_roll_back :: "int \<Rightarrow> chain \<Rightarrow> heads \<Rightarrow> u64 \<Rightarrow> tick \<Rightarrow> (bool, error) result \<times> tick" where
  "tick_roll_back now c h detected s =
     (case roll_back now c h detected (tk_db s) (tk_canon s) of
        (res, d, cn) \<Rightarrow> (res, s\<lparr>tk_db := d, tk_canon := cn\<rparr>))"

definition tick_canonical :: "chain \<Rightarrow> u64 \<Rightarrow> tick \<Rightarrow> (b256 option, error) result \<times> tick" where
  "tick_canonical c n s = (case canonical c (tk_canon s) n of (res, cn) \<Rightarrow> (res, s\<lparr>tk_canon := cn\<rparr>))"

text \<open>The tick at which the next client call is read.\<close>

definition now_tick :: "tick \<Rightarrow> nat" where
  "now_tick s = cn_tick (tk_canon s)"

definition called :: "tick \<Rightarrow> tick" where
  "called s = s\<lparr>tk_canon := (tk_canon s)\<lparr>cn_tick := cn_tick (tk_canon s) + 1\<rparr>\<rparr>"

definition to_i64 :: "u64 \<Rightarrow> i64" where
  "to_i64 n = (case i64_of_u64 n of None \<Rightarrow> i64_max | Some i \<Rightarrow> i)"

definition next_span :: "i64 \<Rightarrow> u64 \<Rightarrow> u64 \<Rightarrow> block_range option" where
  "next_span head l cap =
     (case u64_of_i64 (head + 1) of
        None \<Rightarrow> None
      | Some start \<Rightarrow> ok (range_new start (min l (sat_add start (max cap 1 - 1)))))"

fun record_shares :: "nat \<Rightarrow> chain_id \<Rightarrow> dataset \<Rightarrow> int \<Rightarrow> nat \<Rightarrow> (nat \<times> string) list \<Rightarrow> usage_book \<Rightarrow> usage_book" where
  "record_shares today i ds calls count [] book = book"
| "record_shares today i ds calls count ((index, app) # rest) book =
     record_shares today i ds calls count rest
       (if call_share calls count index > 0
        then usage_record today app i ds (UsageCounts 0 0 0 0 (call_share calls count index)) book else book)"

definition record_follow_calls :: "nat \<Rightarrow> chain \<Rightarrow> dataset \<Rightarrow> string list \<Rightarrow> int \<Rightarrow> usage_book \<Rightarrow> usage_book" where
  "record_follow_calls today c ds apps calls book =
     record_shares today (chain_id_of c) ds calls (length apps) (enumerate 0 apps) book"

text \<open>A stored row at another hash than an incoming one.\<close>

definition after_conflict ::
  "int \<Rightarrow> chain \<Rightarrow> heads \<Rightarrow> store_error \<Rightarrow> tick \<Rightarrow> (follow_step_result, error) result \<times> tick" where
  "after_conflict now c h e s =
     (case e of
        StReorg block \<Rightarrow> and_run (tick_roll_back now c h block s) (\<lambda>_ s. (Ok StepReorged, s))
      | other \<Rightarrow> (Err (store_error_to_core other), s))"

section \<open>Headers\<close>

fun broken_link :: "b256 option \<Rightarrow> 'h block_row list \<Rightarrow> u64 option" where
  "broken_link parent [] = None"
| "broken_link parent (b # bs) =
     (if (case parent of None \<Rightarrow> False | Some p \<Rightarrow> p \<noteq> blk_parent_hash b) then Some (blk_number b - 1)
      else broken_link (Some (blk_hash b)) bs)"

definition follow_blocks_tx ::
  "db \<Rightarrow> chain \<Rightarrow> selector_id \<Rightarrow> block_range \<Rightarrow> json block_row list \<Rightarrow> b256 \<Rightarrow> (json row_store \<times> (db, error) result, store_error) result" where
  "follow_blocks_tx d c sel span headers last_hash =
     and_then (insert_blocks (db_rows d) (chain_id_of c) headers) (\<lambda>rows.
       Ok (rows, case advance_follow_head (db_follow d) (chain_id_of c) EvmBlocks sel (br_end span) last_hash of
           (Inl e, _) \<Rightarrow> Err (store_error_to_core e)
         | (Inr _, ft) \<Rightarrow> Ok (d\<lparr>db_rows := rows, db_follow := ft\<rparr>)))"

definition follow_blocks ::
  "int \<Rightarrow> nat \<Rightarrow> chain \<Rightarrow> heads \<Rightarrow> follow_progress \<Rightarrow> string list \<Rightarrow> (u64 \<rightharpoonup> b256) \<Rightarrow> tick
     \<Rightarrow> (follow_step_result \<times> (u64 \<rightharpoonup> b256), error) result \<times> tick" where
  "follow_blocks now today c h row apps hashes s =
     (case next_span (fp_head row) (latest h) (cs_header_chunk_blocks (ch_settings c)) of
        None \<Rightarrow> (Ok (StepDone, hashes), s)
      | Some span \<Rightarrow>
          and_run (map_err provider_error_to_core (ev_headers (ch_evm c) (now_tick s) span Unsafe), called s) (\<lambda>headers s.
            case broken_link (if fp_head_hash row \<noteq> 0 then Some (fp_head_hash row) else None) headers of
              Some detected \<Rightarrow> and_run (tick_roll_back now c h detected s) (\<lambda>_ s. (Ok (StepReorged, hashes), s))
            | None \<Rightarrow>
                if headers = [] then (Ok (StepDone, hashes), s)
                else if br_end span = latest h \<and> blk_hash (last headers) \<noteq> latest_hash h then (Ok (StepReorged, hashes), s)
                else case follow_blocks_tx (tk_db s) c (fp_selector row) span headers (blk_hash (last headers)) of
                  Inl e \<Rightarrow> and_run (after_conflict now c h e s) (\<lambda>step s. (Ok (step, hashes), s))
                | Inr (_, Inl e) \<Rightarrow> (Err e, s)
                | Inr (_, Inr d) \<Rightarrow>
                    (Ok (StepDone, hashes ++ map_of (rev (map (\<lambda>b. (blk_number b, blk_hash b)) headers))),
                     s\<lparr>tk_db := d, tk_usage := record_follow_calls today c EvmBlocks apps 1 (tk_usage s)\<rparr>)))"

section \<open>Logs\<close>

definition show_option_nat :: "nat option \<Rightarrow> string" where
  "show_option_nat x = (case x of None \<Rightarrow> ''None'' | Some n \<Rightarrow> ''Some('' @ dec n @ '')'')"

fun advance_members :: "follow_table \<Rightarrow> chain_id \<Rightarrow> u64 \<Rightarrow> b256 \<Rightarrow> follow_progress list \<Rightarrow> (follow_table, store_error) result" where
  "advance_members ft i hb hh [] = Ok ft"
| "advance_members ft i hb hh (row # rows) =
     (case advance_follow_head ft i EvmLogs (fp_selector row) hb hh of
        (Inl e, _) \<Rightarrow> Err e
      | (Inr _, ft') \<Rightarrow> advance_members ft' i hb hh rows)"

text \<open>The hash of the last block of the span: fetched this tick, stored, or asked for.\<close>

definition group_end_hash :: "chain \<Rightarrow> (u64 \<rightharpoonup> b256) \<Rightarrow> u64 \<Rightarrow> tick \<Rightarrow> (b256 \<times> int, error) result \<times> tick" where
  "group_end_hash c hashes n s =
     (case hashes n of
        Some k \<Rightarrow> (Ok (k, 0), s)
      | None \<Rightarrow>
          and_run (from_store (hash_at (db_rows (tk_db s)) (chain_id_of c) n), s) (\<lambda>stored s.
            case stored of
              Some k \<Rightarrow> (Ok (k, 0), s)
            | None \<Rightarrow> and_run (tick_canonical c n s) (\<lambda>found s.
                (map_ok (\<lambda>k. (k, 1)) (ok_or (Internal (''no canonical block '' @ dec n)) found), s))))"

definition watching :: "watchers \<Rightarrow> dataset \<times> selector_id \<Rightarrow> string list" where
  "watching w k = (case map_of w k of None \<Rightarrow> [] | Some apps \<Rightarrow> apps)"

definition follow_group ::
  "int \<Rightarrow> nat \<Rightarrow> chain \<Rightarrow> heads \<Rightarrow> (follow_progress \<times> log_selector) list \<Rightarrow> block_range \<Rightarrow> watchers \<Rightarrow> (u64 \<rightharpoonup> b256) \<Rightarrow> tick
     \<Rightarrow> (follow_step_result, error) result \<times> tick" where
  "follow_group now today c h members span w hashes s =
     (case sel_batch (map snd members) (cs_max_addresses (ch_settings c)) of
        None \<Rightarrow> (Err (Internal ''follow group does not batch''), s)
      | Some query \<Rightarrow>
          and_run (map_err (\<lambda>(_, e). provider_error_to_core e) (ev_logs (ch_evm c) (now_tick s) query span Unsafe), called s) (\<lambda>page s.
            if lp_fetched_to page \<noteq> Some (br_end span) then
              (Err (Internal (''follow getLogs for '' @ dec (br_start span) @ ''..='' @ dec (br_end span) @ '' stopped at '' @
                 show_option_nat (lp_fetched_to page))), s)
            else
              let rows = filter (\<lambda>l. list_ex (\<lambda>m. sel_matches (snd m) l) members) (lp_rows page) in
              and_run (group_end_hash c hashes (br_end span) s) (\<lambda>(end_hash, extra) s.
                if list_ex (\<lambda>l. log_block_number l = br_end span \<and> log_block_hash l \<noteq> end_hash) rows then (Ok StepReorged, s)
                else case insert_logs (db_rows (tk_db s)) (chain_id_of c) rows of
                  Inl e \<Rightarrow> after_conflict now c h e s
                | Inr stored \<Rightarrow>
                    (case advance_members (db_follow (tk_db s)) (chain_id_of c) (br_end span) end_hash (map fst members) of
                       Inl e \<Rightarrow> (Err (store_error_to_core e), s)
                     | Inr ft \<Rightarrow>
                         (Ok StepDone, s\<lparr>tk_db := (tk_db s)\<lparr>db_rows := stored, db_follow := ft\<rparr>,
                            tk_usage := record_follow_calls today c EvmLogs
                              (collect_set (concat (map (\<lambda>m. watching w (EvmLogs, fp_selector (fst m))) members)))
                              (to_i64 (lp_calls page) + extra) (tk_usage s)\<rparr>)))))"

text \<open>Which pending selectors join the group of \<open>span\<close>, in order.\<close>

fun take_fitting ::
  "usize \<Rightarrow> block_range \<Rightarrow> (follow_progress \<times> log_selector) list \<Rightarrow> (follow_progress \<times> log_selector) list
     \<Rightarrow> (follow_progress \<times> log_selector) list \<Rightarrow> (follow_progress \<times> log_selector) list \<times> (follow_progress \<times> log_selector) list" where
  "take_fitting mx span [] members rest = (members, rest)"
| "take_fitting mx span ((row, sel) # pending) members rest =
     (if fp_head row < int (br_end span) \<and> sel_batch (map snd members @ [sel]) mx \<noteq> None
      then take_fitting mx span pending (members @ [(row, sel)]) rest
      else take_fitting mx span pending members (rest @ [(row, sel)]))"

lemma take_fitting_length:
  "take_fitting mx span pending members rest = (members', rest') \<Longrightarrow>
     length members' + length rest' = length members + length rest + length pending"
  by (induction mx span pending members rest rule: take_fitting.induct) (auto split: if_splits)

lemma follow_group_empty: "follow_group now today c h [] span w hashes s = (Err (Internal ''follow group does not batch''), s)"
  by (simp add: follow_group_def sel_batch_def)

function (sequential) follow_logs_loop ::
  "int \<Rightarrow> nat \<Rightarrow> chain \<Rightarrow> heads \<Rightarrow> u64 \<Rightarrow> watchers \<Rightarrow> (u64 \<rightharpoonup> b256) \<Rightarrow> (follow_progress \<times> log_selector) list \<Rightarrow> tick
     \<Rightarrow> (follow_step_result, error) result \<times> tick" where
  "follow_logs_loop now today c h cap w hashes [] s = (Ok StepDone, s)"
| "follow_logs_loop now today c h cap w hashes (first # pending) s =
     (case next_span (fp_head (fst first)) (latest h) cap of
        None \<Rightarrow> (Ok StepDone, s)
      | Some span \<Rightarrow>
          (case take_fitting (cs_max_addresses (ch_settings c)) span (first # pending) [] [] of
             (members, rest) \<Rightarrow>
               (case follow_group now today c h members span w hashes s of
                  (Inl e, s') \<Rightarrow> (Err e, s')
                | (Inr StepReorged, s') \<Rightarrow> (Ok StepReorged, s')
                | (Inr StepDone, s') \<Rightarrow> follow_logs_loop now today c h cap w hashes rest s')))"
  by pat_completeness auto

termination
  apply (relation "measure (\<lambda>(now, today, c, h, cap, w, hashes, pending, s). length pending)")
   apply simp
  subgoal for now today c h cap w hashes first pending s span members rest r s'
    using take_fitting_length [of "cs_max_addresses (ch_settings c)" span "first # pending" "[]" "[]" members rest]
    by (cases members) (auto simp: follow_group_empty)
  done

definition follow_logs ::
  "int \<Rightarrow> nat \<Rightarrow> chain \<Rightarrow> heads \<Rightarrow> (follow_progress \<times> log_selector) list \<Rightarrow> watchers \<Rightarrow> (u64 \<rightharpoonup> b256) \<Rightarrow> tick
     \<Rightarrow> (follow_step_result, error) result \<times> tick" where
  "follow_logs now today c h pending w hashes s =
     follow_logs_loop now today c h (ev_range_blocks (ch_evm c) (now_tick s) EvmLogs) w hashes
       (sort_key (\<lambda>m. fp_head (fst m)) pending) s"

section \<open>Promotion\<close>

type_synonym planned = "block_range \<times> finality \<times> b256"

definition stored_hash :: "db \<Rightarrow> chain \<Rightarrow> selector \<Rightarrow> u64 \<Rightarrow> (b256 option, error) result" where
  "stored_hash d c sel n =
     (case sel of
        SelBlocks \<Rightarrow> from_store (hash_at (db_rows d) (chain_id_of c) n)
      | SelLogs _ \<Rightarrow> map_ok (\<lambda>found. Some (case found of None \<Rightarrow> 0 | Some k \<Rightarrow> k)) (stored_hash_at d c n))"

definition promote_segment :: "db \<Rightarrow> chain \<Rightarrow> follow_progress \<Rightarrow> selector \<Rightarrow> planned \<Rightarrow> (db, store_error) result" where
  "promote_segment d c row sel plan =
     (case plan of (segment, fin, end_hash) \<Rightarrow>
        and_then (case sel of
            SelLogs ls \<Rightarrow> promote_logs (db_rows d) (chain_id_of c) ls segment fin end_hash
          | SelBlocks \<Rightarrow> promote_blocks (db_rows d) (chain_id_of c) segment fin end_hash) (\<lambda>(_, r1).
        and_then (promote_senders r1 (chain_id_of c) segment fin) (\<lambda>(_, r2).
        and_then (add_coverage (db_selectors d) (db_coverage d) (chain_id_of c) (fp_dataset row) (fp_selector row) segment fin) (\<lambda>cov.
          Ok (d\<lparr>db_rows := r2, db_coverage := cov\<rparr>)))))"

fun promote_segments :: "db \<Rightarrow> chain \<Rightarrow> follow_progress \<Rightarrow> selector \<Rightarrow> planned list \<Rightarrow> (db, store_error) result" where
  "promote_segments d c row sel [] = Ok d"
| "promote_segments d c row sel (p # ps) = and_then (promote_segment d c row sel p) (\<lambda>d'. promote_segments d' c row sel ps)"

definition promote ::
  "db \<Rightarrow> chain \<Rightarrow> follow_progress \<Rightarrow> selector \<Rightarrow> planned list \<Rightarrow> i64 \<Rightarrow> i64 \<Rightarrow> (db, store_error) result" where
  "promote d c row sel plans promoted_to finalized_to =
     and_then (promote_segments d c row sel plans) (\<lambda>d1.
     and_then (if promoted_to > fp_promoted row
         then (case advance_follow_promoted (db_follow d1) (chain_id_of c) (fp_dataset row) (fp_selector row) (nat promoted_to) of
             (Inl e, _) \<Rightarrow> Err e | (Inr _, ft) \<Rightarrow> Ok (d1\<lparr>db_follow := ft\<rparr>))
         else Ok d1) (\<lambda>d2.
       if finalized_to > fp_finalized row
       then (case advance_follow_finalized (db_follow d2) (chain_id_of c) (fp_dataset row) (fp_selector row) (nat finalized_to) of
           (Inl e, _) \<Rightarrow> Err e | (Inr _, ft) \<Rightarrow> Ok (d2\<lparr>db_follow := ft\<rparr>))
       else Ok d2))"

text \<open>The segments to promote: \<open>(finalized_to, finalized]\<close> and the rest of \<open>(promoted_to, min(safe, head)]\<close>.\<close>

definition promoted_target :: "heads \<Rightarrow> follow_progress \<Rightarrow> u64 \<Rightarrow> i64" where
  "promoted_target h row head = max (to_i64 (min (safe h) head)) (fp_promoted row)"

definition finalized_target :: "heads \<Rightarrow> follow_progress \<Rightarrow> u64 \<Rightarrow> i64" where
  "finalized_target h row head = min (to_i64 (finalized h)) (promoted_target h row head)"

definition promotion_parts :: "heads \<Rightarrow> follow_progress \<Rightarrow> u64 \<Rightarrow> (i64 \<times> i64 \<times> finality) list" where
  "promotion_parts h row head =
     (let promoted_to = promoted_target h row head; finalized_to = finalized_target h row head;
          safe_from = max (fp_promoted row) finalized_to + 1
      in (if finalized_to > fp_finalized row then [(fp_finalized row + 1, finalized_to, Finalized)] else []) @
         (if promoted_to \<ge> safe_from then [(safe_from, promoted_to, Safe)] else []))"

text \<open>\<open>None\<close> is the \<open>continue 'rows\<close> of a part that cannot be promoted.\<close>

fun plan_parts ::
  "db \<Rightarrow> chain \<Rightarrow> follow_progress \<Rightarrow> selector \<Rightarrow> u64 \<Rightarrow> (i64 \<times> i64 \<times> finality) list \<Rightarrow> (planned list option, error) result" where
  "plan_parts d c row sel head [] = Ok (Some [])"
| "plan_parts d c row sel head ((a, b, fin) # parts) =
     (case (u64_of_i64 a, u64_of_i64 b) of
        (Some start, Some stop) \<Rightarrow>
          and_then (range_new start stop) (\<lambda>segment.
          and_then (if stop = head \<and> fp_head_hash row \<noteq> 0 then Ok (Some (fp_head_hash row)) else stored_hash d c sel stop) (\<lambda>found.
            case found of
              None \<Rightarrow> Ok None
            | Some end_hash \<Rightarrow> map_ok (map_option ((#) (segment, fin, end_hash))) (plan_parts d c row sel head parts)))
      | _ \<Rightarrow> Ok None)"

fun finalize_rows ::
  "int \<Rightarrow> chain \<Rightarrow> heads \<Rightarrow> (selector_id \<rightharpoonup> selector) \<Rightarrow> follow_progress list \<Rightarrow> tick \<Rightarrow> (unit, error) result \<times> tick" where
  "finalize_rows now c h selectors [] s = (Ok (), s)"
| "finalize_rows now c h selectors (row # rows) s =
     (case (u64_of_i64 (fp_head row), selectors (fp_selector row)) of
        (Some head, Some sel) \<Rightarrow>
          (case plan_parts (tk_db s) c row sel head (promotion_parts h row head) of
             Inl e \<Rightarrow> (Err e, s)
           | Inr None \<Rightarrow> finalize_rows now c h selectors rows s
           | Inr (Some []) \<Rightarrow> finalize_rows now c h selectors rows s
           | Inr (Some (p # ps)) \<Rightarrow>
               (case promote (tk_db s) c row sel (p # ps) (promoted_target h row head) (finalized_target h row head) of
                  Inr d \<Rightarrow> finalize_rows now c h selectors rows (s\<lparr>tk_db := d\<rparr>)
                | Inl e \<Rightarrow>
                    (case e of
                       StReorg block \<Rightarrow> and_run (tick_roll_back now c h block s) (\<lambda>_ s. (Ok (), s))
                     | other \<Rightarrow> (Err (store_error_to_core other), s))))
      | _ \<Rightarrow> finalize_rows now c h selectors rows s)"

section \<open>The tick\<close>

definition watchers_of :: "subscription list \<Rightarrow> watchers" where
  "watchers_of subs =
     fold (\<lambda>sub w. let k = (sb_dataset sub, sb_selector sub) in btree_insert k (watching w k @ [sb_application sub]) w) subs []"

fun init_missing ::
  "chain \<Rightarrow> heads \<Rightarrow> (dataset \<times> selector_id) list \<Rightarrow> follow_progress list \<Rightarrow> tick \<Rightarrow> (follow_progress list, error) result \<times> tick" where
  "init_missing c h [] progress s = (Ok progress, s)"
| "init_missing c h ((ds, sel) # ks) progress s =
     (if list_ex (\<lambda>row. fp_dataset row = ds \<and> fp_selector row = sel) progress then init_missing c h ks progress s
      else case follow_get_or_init (db_follow (tk_db s)) (chain_id_of c) ds sel (safe h + 1) 0 of
        (Inl e, ft) \<Rightarrow> (Err (store_error_to_core e), s\<lparr>tk_db := (tk_db s)\<lparr>db_follow := ft\<rparr>\<rparr>)
      | (Inr row, ft) \<Rightarrow> init_missing c h ks (progress @ [row]) (s\<lparr>tk_db := (tk_db s)\<lparr>db_follow := ft\<rparr>\<rparr>))"

fun follow_all_blocks ::
  "int \<Rightarrow> nat \<Rightarrow> chain \<Rightarrow> heads \<Rightarrow> watchers \<Rightarrow> follow_progress list \<Rightarrow> (u64 \<rightharpoonup> b256) \<Rightarrow> tick
     \<Rightarrow> (follow_step_result \<times> (u64 \<rightharpoonup> b256), error) result \<times> tick" where
  "follow_all_blocks now today c h w [] hashes s = (Ok (StepDone, hashes), s)"
| "follow_all_blocks now today c h w (row # rows) hashes s =
     and_run (follow_blocks now today c h row (watching w (fp_dataset row, fp_selector row)) hashes s) (\<lambda>(step, hashes) s.
       if step = StepReorged then (Ok (StepReorged, hashes), s) else follow_all_blocks now today c h w rows hashes s)"

definition tick_check_heads :: "int \<Rightarrow> chain \<Rightarrow> heads \<Rightarrow> follow_progress list \<Rightarrow> tick \<Rightarrow> (head_check, error) result \<times> tick" where
  "tick_check_heads now c h progress s =
     (case check_heads now c h progress (tk_db s) (tk_canon s) of (res, d, cn) \<Rightarrow> (res, s\<lparr>tk_db := d, tk_canon := cn\<rparr>))"

definition log_members :: "(selector_id \<rightharpoonup> selector) \<Rightarrow> follow_progress list \<Rightarrow> (follow_progress \<times> log_selector) list" where
  "log_members selectors progress =
     List.map_filter (\<lambda>row. case selectors (fp_selector row) of Some (SelLogs ls) \<Rightarrow> Some (row, ls) | _ \<Rightarrow> None) progress"

text \<open>The work of a tick once the watched rows are known.\<close>

definition follow_verified ::
  "int \<Rightarrow> nat \<Rightarrow> chain \<Rightarrow> heads \<Rightarrow> watchers \<Rightarrow> follow_progress list \<Rightarrow> tick \<Rightarrow> (unit, error) result \<times> tick" where
  "follow_verified now today c h w progress s =
     and_run (tick_check_heads now c h progress s) (\<lambda>check s.
       if check = Reorged then (Ok (), s)
       else
         and_run (from_store (selectors_by_id (db_selectors (tk_db s)) (map fp_selector progress)), s) (\<lambda>found s.
         let selectors = map_of (rev found) in
         and_run (follow_all_blocks now today c h w (filter (\<lambda>row. fp_dataset row = EvmBlocks) progress) [latest h \<mapsto> latest_hash h] s)
           (\<lambda>(step, hashes) s.
            if step = StepReorged then (Ok (), s)
            else and_run (follow_logs now today c h (log_members selectors progress) w hashes s) (\<lambda>step s.
              if step = StepReorged then (Ok (), s)
              else finalize_rows now c h selectors progress s))))"

definition follow_tick :: "int \<Rightarrow> nat \<Rightarrow> chain \<Rightarrow> heads \<Rightarrow> tick \<Rightarrow> (unit, error) result \<times> tick" where
  "follow_tick now today c h s0 =
     (let w = watchers_of (active_subscriptions now (db_subs (tk_db s0)) (chain_id_of c));
          halted = (follow_halt (db_follow (tk_db s0)) (chain_id_of c) \<noteq> None);
          s = s0\<lparr>tk_canon := canon_new h (now_tick s0)\<rparr>
      in if w = [] \<or> halted then (Ok (), s)
         else
           let progress = filter (\<lambda>row. (fp_dataset row, fp_selector row) \<in> fst ` set w) (list_follow (db_follow (tk_db s)) (chain_id_of c))
           in and_run (init_missing c h (map fst w) progress s) (\<lambda>progress s. follow_verified now today c h w progress s))"

section \<open>A tick only takes the store's steps\<close>

lemma roll_back_tx_steps:
  assumes "roll_back_tx d c fork parent = Ok d'"
  shows "db_steps d d'"
proof -
  obtain r1 r2 r3 ft where "delete_unsafe_logs_from (db_rows d) (chain_id_of c) fork = Ok r1"
    "delete_unsafe_blocks_from r1 (chain_id_of c) fork = Ok r2" "delete_unsafe_senders_from r2 (chain_id_of c) fork = Ok r3"
    and ft: "ft = snd (rewind_follow (db_follow d) (chain_id_of c) fork parent)" and d': "d' = d\<lparr>db_rows := r3, db_follow := ft\<rparr>"
    using assms by (auto simp: roll_back_tx_def map_err_def split: sum.splits prod.splits)
  then have "row_step\<^sup>*\<^sup>* (db_rows d) r3"
    by (meson converse_rtranclp_into_rtranclp r_delete_logs r_delete_blocks r_delete_senders rtranclp.rtrancl_refl)
  moreover have "follow_keep\<^sup>*\<^sup>* (db_follow d) ft" unfolding ft by (rule r_into_rtranclp) (rule k_rewind)
  ultimately show ?thesis unfolding d' by (rule rows_follow_steps)
qed

lemma halt_after_steps: "db_steps d (halt_after now d c h fork deeper beyond)"
  unfolding halt_after_def engine_halt_def by (auto intro!: follow_only_steps k_halt)

lemma roll_back_steps: "db_steps d (fst (snd (roll_back now c h detected d cn)))"
  unfolding roll_back_def Let_def
  by (auto split: prod.splits sum.splits option.splits intro: db_run.keep_trans [OF roll_back_tx_steps halt_after_steps])

lemma check_points_steps: "db_steps d (fst (snd (check_points now c h pts d cn)))"
proof (induction now c h pts d cn rule: check_points.induct)
  case (2 now c h n hashes rest d cn)
  then show ?case using roll_back_steps [of d now c h n "snd (canonical c cn n)"]
    by (auto split: prod.splits sum.splits)
qed simp

definition tick_keep :: "tick \<Rightarrow> tick \<Rightarrow> bool" where
  "tick_keep s s' = db_steps (tk_db s) (tk_db s')"

interpretation tick_run: kept_runs tick_keep
  by unfold_locales (auto simp: tick_keep_def)

lemma tick_keep_refl [simp]: "tick_keep s s"
  by (rule tick_run.keep_refl)

lemma called_db [simp]: "tick_keep s (called t) = tick_keep s t" "tk_db (called t) = tk_db t"
  by (simp_all add: tick_keep_def called_def)

lemma tick_roll_back_keep: "tick_keep s (snd (tick_roll_back now c h detected s))"
  using roll_back_steps [of "tk_db s" now c h detected "tk_canon s"]
  by (cases "roll_back now c h detected (tk_db s) (tk_canon s)") (simp add: tick_keep_def tick_roll_back_def)

lemma tick_canonical_keep: "tick_keep s (snd (tick_canonical c n s))"
  by (simp add: tick_keep_def tick_canonical_def split: prod.splits)

lemma tick_check_heads_keep: "tick_keep s (snd (tick_check_heads now c h progress s))"
  using check_points_steps [of "tk_db s" now c h _ "tk_canon s"]
  by (auto simp: tick_keep_def tick_check_heads_def check_heads_def split: prod.splits) (metis fst_conv snd_conv)

lemma after_conflict_keep: "tick_keep s (snd (after_conflict now c h e s))"
  by (cases e) (auto simp: after_conflict_def intro: tick_run.run_keep tick_roll_back_keep)

lemma follow_ops_keep:
  "advance_follow_head t i ds sel hb k = (r, t') \<Longrightarrow> follow_keep t t'"
  "advance_follow_promoted t i ds sel hb = (r, t') \<Longrightarrow> follow_keep t t'"
  "advance_follow_finalized t i ds sel hb = (r, t') \<Longrightarrow> follow_keep t t'"
  "follow_get_or_init t i ds sel hb k = (r', t') \<Longrightarrow> follow_keep t t'"
  by (metis k_head snd_conv, metis k_promote snd_conv, metis k_finalize snd_conv, metis k_init snd_conv)

lemma follow_blocks_tx_steps:
  "follow_blocks_tx d c sel span headers k = Ok (rows, Ok d') \<Longrightarrow> db_steps d d'"
  by (auto simp: follow_blocks_tx_def split: sum.splits prod.splits
      intro!: rows_follow_steps r_blocks dest: follow_ops_keep)

lemma tick_db_keep:
  "db_steps (tk_db s) d \<Longrightarrow> tick_keep s (s\<lparr>tk_db := d, tk_usage := u\<rparr>)"
  "db_steps (tk_db s) d \<Longrightarrow> tick_keep s (s\<lparr>tk_db := d\<rparr>)"
  by (simp_all add: tick_keep_def)

lemma advance_members_keep: "advance_members ft i hb hh rows = Ok ft' \<Longrightarrow> follow_keep\<^sup>*\<^sup>* ft ft'"
proof (induction ft i hb hh rows rule: advance_members.induct)
  case (2 ft i hb hh row rows)
  then show ?case using k_head [of ft i EvmLogs "fp_selector row" hb hh]
    by (auto split: prod.splits sum.splits intro: converse_rtranclp_into_rtranclp)
qed simp

lemma follow_blocks_keep: "tick_keep s (snd (follow_blocks now today c h row apps hashes s))"
  unfolding follow_blocks_def
  by (auto split: option.split sum.split prod.split
      intro!: tick_run.run_keep tick_roll_back_keep after_conflict_keep tick_db_keep follow_blocks_tx_steps)

lemma follow_group_tx_steps:
  assumes "insert_logs (db_rows d) i rows = Ok r" and "advance_members (db_follow d) j hb hh members = Ok ft"
  shows "db_steps d (d\<lparr>db_rows := r, db_follow := ft\<rparr>)"
  by (intro rows_follow_steps r_into_rtranclp [of row_step] r_logs [OF assms(1)] advance_members_keep [OF assms(2)])

lemma group_end_hash_keep: "tick_keep s (snd (group_end_hash c hashes n s))"
  unfolding group_end_hash_def by (auto split: option.split intro!: tick_run.run_keep tick_canonical_keep)

lemma follow_group_keep: "tick_keep s (snd (follow_group now today c h members span w hashes s))"
  unfolding follow_group_def Let_def
  by (auto split: option.split sum.split prod.split
      intro!: tick_run.run_keep group_end_hash_keep after_conflict_keep tick_db_keep follow_group_tx_steps)

lemma follow_logs_loop_keep: "tick_keep s (snd (follow_logs_loop now today c h cap w hashes pending s))"
proof (induction now today c h cap w hashes pending s rule: follow_logs_loop.induct)
  case (2 now today c h cap w hashes first pending s)
  then show ?case
    using follow_group_keep [of s now today c h _ _ w hashes]
    by (auto split: option.split prod.split sum.split follow_step_result.split) (metis snd_conv tick_run.keep_trans)+
qed simp

lemma promote_segment_steps:
  assumes "promote_segment d c row sel (seg, fin, k) = Ok d'" and r: "range_ok seg"
  shows "db_steps d d'"
proof -
  obtain n1 r1 n2 r2 cov where
    r1: "(case sel of SelLogs ls \<Rightarrow> promote_logs (db_rows d) (chain_id_of c) ls seg fin k
          | SelBlocks \<Rightarrow> promote_blocks (db_rows d) (chain_id_of c) seg fin k) = Ok (n1, r1)"
    and r2: "promote_senders r1 (chain_id_of c) seg fin = Ok (n2, r2)"
    and cov: "add_coverage (db_selectors d) (db_coverage d) (chain_id_of c) (fp_dataset row) (fp_selector row) seg fin = Ok cov"
    and d': "d' = d\<lparr>db_rows := r2, db_coverage := cov\<rparr>"
    using assms(1) by (auto simp: promote_segment_def split: prod.splits)
  have "row_step (db_rows d) r1" using r1 by (cases sel) (auto intro: r_promote_logs r_promote_blocks)
  with r2 have "row_step\<^sup>*\<^sup>* (db_rows d) r2" by (meson r_promote_senders r_into_rtranclp rtranclp.rtrancl_into_rtrancl)
  then have "db_steps d (d\<lparr>db_rows := r2\<rparr>)" by (rule rows_only_steps)
  moreover have "db_step (d\<lparr>db_rows := r2\<rparr>) d'"
    using d_coverage [of "d\<lparr>db_rows := r2\<rparr>"] cov r unfolding d' add_coverage_def by simp
  ultimately show ?thesis by (rule rtranclp.rtrancl_into_rtrancl)
qed

lemma promote_segments_steps:
  "promote_segments d c row sel ps = Ok d' \<Longrightarrow> \<forall>p\<in>set ps. range_ok (fst p) \<Longrightarrow> db_steps d d'"
proof (induction d c row sel ps rule: promote_segments.induct)
  case (2 d c row sel p ps)
  then show ?case using promote_segment_steps [of d c row sel "fst p" "fst (snd p)" "snd (snd p)"] by (auto intro: db_run.keep_trans)
qed simp

lemma advance_steps:
  "(case advance_follow_promoted (db_follow d) i ds sel n of (Inl e, _) \<Rightarrow> Err e | (Inr _, ft) \<Rightarrow> Ok (d\<lparr>db_follow := ft\<rparr>)) = Ok d' \<Longrightarrow> db_steps d d'"
  "(case advance_follow_finalized (db_follow d) i ds sel n of (Inl e, _) \<Rightarrow> Err e | (Inr _, ft) \<Rightarrow> Ok (d\<lparr>db_follow := ft\<rparr>)) = Ok d' \<Longrightarrow> db_steps d d'"
  by (auto split: prod.splits sum.splits intro!: follow_only_steps dest: follow_ops_keep)

lemma promote_steps:
  assumes "promote d c row sel ps pt ft = Ok d'" and "\<forall>p\<in>set ps. range_ok (fst p)"
  shows "db_steps d d'"
proof -
  obtain d1 d2 where d1: "promote_segments d c row sel ps = Ok d1" and "db_steps d1 d2" and "db_steps d2 d'"
    using assms(1) unfolding promote_def and_then_Ok_iff by (metis (no_types, lifting) advance_steps rtranclp.rtrancl_refl sum.inject(2))
  moreover have "db_steps d d1" by (rule promote_segments_steps [OF d1 assms(2)])
  ultimately show ?thesis by (meson db_run.keep_trans)
qed

lemma plan_parts_Cons:
  assumes "plan_parts d c row sel head ((a, b, fin) # parts) = Ok (Some ps)"
  obtains k ps' where "0 \<le> a" and "0 \<le> b" and "range_ok (rng (nat a) (nat b))" and "ps = (rng (nat a) (nat b), fin, k) # ps'"
    and "plan_parts d c row sel head parts = Ok (Some ps')"
proof -
  have ab: "0 \<le> a" "0 \<le> b" using assms by (auto simp: u64_of_i64_def split: if_splits option.splits)
  obtain r where r: "range_new (nat a) (nat b) = Ok r" using assms ab by (auto simp: u64_of_i64_def split: if_splits)
  then have range: "r = rng (nat a) (nat b)" "range_ok r" by (auto simp: range_new_Ok)
  obtain found where "(if nat b = head \<and> fp_head_hash row \<noteq> 0 then Ok (Some (fp_head_hash row)) else stored_hash d c sel (nat b)) = Ok found"
    and found: "(case found of None \<Rightarrow> Ok None | Some k \<Rightarrow> map_ok (map_option ((#) (r, fin, k))) (plan_parts d c row sel head parts)) = Ok (Some ps)"
    using assms ab r by (auto simp: u64_of_i64_def split: if_splits)
  then obtain k where "found = Some k" by (cases found) auto
  with found obtain ps' where "plan_parts d c row sel head parts = Ok (Some ps')" "ps = (r, fin, k) # ps'"
    by (cases "plan_parts d c row sel head parts") auto
  with that range ab show ?thesis by blast
qed

lemma plan_parts_ok: "plan_parts d c row sel head parts = Ok (Some ps) \<Longrightarrow> \<forall>p\<in>set ps. range_ok (fst p)"
proof (induction parts arbitrary: ps)
  case (Cons part parts)
  obtain a b fin where part: "part = (a, b, fin)" by (cases part)
  from Cons.prems [unfolded part] show ?case by (rule plan_parts_Cons) (use Cons.IH in auto)
qed simp

lemma finalize_rows_keep: "tick_keep s (snd (finalize_rows now c h selectors rows s))"
proof (induction rows arbitrary: s)
  case (Cons row rows)
  have promoted: "tick_keep s (s\<lparr>tk_db := d\<rparr>)"
    if "promote (tk_db s) c row sel ps pt ft = Ok d" "plan_parts (tk_db s) c row sel head parts = Ok (Some ps)" for sel ps pt ft d head parts
    using promote_steps [OF that(1) plan_parts_ok [OF that(2)]] by (rule tick_db_keep)
  have rest: "tick_keep s (snd (finalize_rows now c h selectors rows s'))" if "tick_keep s s'" for s'
    using that Cons.IH tick_run.keep_trans by blast
  show ?case
    by (auto simp del: u64_of_i64_Some split: option.split sum.split list.split store_error.split
        intro!: tick_run.run_keep tick_roll_back_keep rest intro: promoted)
qed simp

lemma init_missing_keep: "tick_keep s (snd (init_missing c h ks progress s))"
proof (induction c h ks progress s rule: init_missing.induct)
  case (2 c h ds sel ks progress s)
  have keep: "tick_keep s (s\<lparr>tk_db := (tk_db s)\<lparr>db_follow := ft\<rparr>\<rparr>)" if "follow_get_or_init (db_follow (tk_db s)) i d' j n k = (r, ft)" for r ft i d' j n k
    using follow_ops_keep(4) [OF that] by (intro tick_db_keep follow_only_steps) simp
  then have step: "tick_keep s (snd (init_missing c h ks p (s\<lparr>tk_db := (tk_db s)\<lparr>db_follow := ft\<rparr>\<rparr>)))"
    if "follow_get_or_init (db_follow (tk_db s)) i d' j n k = (r, ft)"
      "tick_keep (s\<lparr>tk_db := (tk_db s)\<lparr>db_follow := ft\<rparr>\<rparr>) (snd (init_missing c h ks p (s\<lparr>tk_db := (tk_db s)\<lparr>db_follow := ft\<rparr>\<rparr>)))"
    for r ft i d' j n k p using that tick_run.keep_trans by blast
  with 2 keep show ?case by (auto split: sum.split prod.split)
qed simp

lemma follow_all_blocks_keep: "tick_keep s (snd (follow_all_blocks now today c h w rows hashes s))"
  by (induction now today c h w rows hashes s rule: follow_all_blocks.induct)
     (auto split: prod.split intro!: tick_run.run_keep follow_blocks_keep)

lemma follow_tick_keep: "tick_keep s (snd (follow_tick now today c h s))"
proof -
  have keep: "tick_keep t (snd (follow_verified now today c h w progress t))" for t w progress
    unfolding follow_verified_def Let_def follow_logs_def
    by (auto split: prod.split intro!: tick_run.run_keep tick_check_heads_keep follow_all_blocks_keep follow_logs_loop_keep finalize_rows_keep)
  have "tick_keep s (s\<lparr>tk_canon := cn\<rparr>)" for cn by (simp add: tick_keep_def)
  then show ?thesis unfolding follow_tick_def Let_def
    by (auto intro!: tick_run.run_keep keep intro: tick_run.keep_trans [OF _ init_missing_keep])
qed

text \<open>
  C2. A follower tick loses nothing durable: whatever the provider answers and wherever the tick
  stops, from a database whose tables satisfy their invariants it leads to one that does, every
  safe or finalized row is still stored with at least its finality, no coverage is lowered, and
  no follow row's \<open>promoted_to\<close> or \<open>finalized_to\<close> moves back.
\<close>

theorem follow_tick_loses_nothing:
  assumes "db_safe (tk_db s)"
  shows "db_safe (tk_db (snd (follow_tick now today c h s))) \<and>
    nothing_durable_lost (tk_db s) (tk_db (snd (follow_tick now today c h s)))"
  using db_steps_keep [OF _ assms] follow_tick_keep [of s now today c h] by (simp add: tick_keep_def)

definition demo_sub :: subscription_row where
  "demo_sub = \<lparr>sb_chain = 1, sb_dataset = EvmBlocks, sb_selector = 1, sb_application = ''app'', sb_source = SubExplicit,
     sb_expires_at = 1000, sb_last_query_at = 0\<rparr>"

definition demo_tick :: tick where
  "demo_tick = \<lparr>tk_db = demo_db\<lparr>db_subs := [demo_sub]\<rparr>, tk_usage = [], tk_canon = canon_new demo_heads 0\<rparr>"

theorem follow_tick_loses_nothing_witness:
  "nothing_durable_lost (demo_db\<lparr>db_subs := [demo_sub]\<rparr>) (tk_db (snd (follow_tick 0 0 demo_chain demo_heads demo_tick)))"
proof -
  have "db_safe (tk_db demo_tick)"
    by (simp add: db_safe_def demo_tick_def demo_defs rows_unique_def follow_inv_def progress_ok_def coverage_ok_def block_key_def)
  from follow_tick_loses_nothing [OF this, of 0 0 demo_chain demo_heads] show ?thesis by (simp add: demo_tick_def)
qed

section \<open>What a promotion covers\<close>

definition promoted_level :: "follow_progress \<Rightarrow> i64 \<Rightarrow> i64 \<Rightarrow> i64 \<Rightarrow> finality option \<Rightarrow> finality option" where
  "promoted_level row pt ft x lvl =
     (if fp_finalized row < x \<and> x \<le> ft then raised lvl Finalized
      else if max (fp_promoted row) ft < x \<and> x \<le> pt then raised lvl Safe
      else lvl)"

lemma add_coverage_level:
  assumes "coverage_ok rows" and "range_ok r" and "add_coverage t rows i ds sel r fin = Ok rows'"
  shows "coverage_ok rows' \<and> (\<forall>c d j x. cov_level rows' c d j x =
      (if c = i \<and> d = ds \<and> j = sel \<and> int (br_start r) \<le> x \<and> x \<le> int (br_end r)
       then raised (cov_level rows c d j x) fin else cov_level rows c d j x))"
proof -
  have fin: "Safe \<le> fin" using assms(3) by (auto simp: add_coverage_def add_coverage_many_def split: if_splits)
  have one: "collect_set [sel] = [sel]" by (simp add: collect_set_def)
  have "merge_each rows i ds [sel] r fin = Ok rows'"
    using assms(3) unfolding add_coverage_def add_coverage_many_def one by (auto simp: Let_def split: if_splits option.splits)
  with merge_each_level [OF assms(1,2) fin, of "[sel]" i ds] show ?thesis by auto
qed

lemma promote_segment_level:
  assumes "coverage_ok (db_coverage d)" and "range_ok seg" and "promote_segment d c row sel (seg, fin, k) = Ok d'"
  shows "coverage_ok (db_coverage d') \<and> (\<forall>i ds j x. cov_level (db_coverage d') i ds j x =
      (if i = chain_id_of c \<and> ds = fp_dataset row \<and> j = fp_selector row \<and> int (br_start seg) \<le> x \<and> x \<le> int (br_end seg)
       then raised (cov_level (db_coverage d) i ds j x) fin else cov_level (db_coverage d) i ds j x))"
  using assms add_coverage_level [OF assms(1,2)] by (auto simp: promote_segment_def split: prod.splits)

lemma advance_coverage:
  "(case advance_follow_promoted (db_follow d) i ds sel n of (Inl e, _) \<Rightarrow> Err e | (Inr _, ft) \<Rightarrow> Ok (d\<lparr>db_follow := ft\<rparr>)) = Ok d' \<Longrightarrow> db_coverage d' = db_coverage d"
  "(case advance_follow_finalized (db_follow d) i ds sel n of (Inl e, _) \<Rightarrow> Err e | (Inr _, ft) \<Rightarrow> Ok (d\<lparr>db_follow := ft\<rparr>)) = Ok d' \<Longrightarrow> db_coverage d' = db_coverage d"
  by (auto split: prod.splits sum.splits)

lemma promote_coverage:
  "promote d c row sel ps pt ft = Ok d' \<Longrightarrow> \<exists>d1. promote_segments d c row sel ps = Ok d1 \<and> db_coverage d' = db_coverage d1"
  unfolding promote_def and_then_Ok_iff by (clarsimp split: if_splits simp del: prod.case sum.case) (auto dest!: advance_coverage)

text \<open>The coverage after the planned parts, at most one finalized and one safe, are promoted.\<close>

lemma promoted_levels:
  assumes "coverage_ok (db_coverage d)" and "plan_parts d c row sel head (promotion_parts h row head) = Ok (Some ps)"
    and d1: "promote_segments d c row sel ps = Ok d1"
  shows "cov_level (db_coverage d1) i ds j x =
      (if i = chain_id_of c \<and> ds = fp_dataset row \<and> j = fp_selector row
       then promoted_level row (promoted_target h row head) (finalized_target h row head) x (cov_level (db_coverage d) i ds j x)
       else cov_level (db_coverage d) i ds j x)"
proof -
  let ?pt = "promoted_target h row head" and ?ft = "finalized_target h row head"
  define fin_part where "fin_part = (?ft > fp_finalized row)"
  define safe_part where "safe_part = (?pt \<ge> max (fp_promoted row) ?ft + 1)"
  have parts: "promotion_parts h row head =
      (if fin_part then [(fp_finalized row + 1, ?ft, Finalized)] else []) @ (if safe_part then [(max (fp_promoted row) ?ft + 1, ?pt, Safe)] else [])"
    by (simp add: promotion_parts_def Let_def fin_part_def safe_part_def)
  have none: "\<not> fin_part \<Longrightarrow> \<not> (fp_finalized row < x \<and> x \<le> ?ft)" "\<not> safe_part \<Longrightarrow> \<not> (max (fp_promoted row) ?ft < x \<and> x \<le> ?pt)" for x
    by (auto simp: fin_part_def safe_part_def)
  show ?thesis
  proof (cases fin_part)
    case True
    from assms(2) obtain k ps' where one: "0 \<le> fp_finalized row + 1" "0 \<le> ?ft" "range_ok (rng (nat (fp_finalized row + 1)) (nat ?ft))"
      "ps = (rng (nat (fp_finalized row + 1)) (nat ?ft), Finalized, k) # ps'"
      and rest: "plan_parts d c row sel head (if safe_part then [(max (fp_promoted row) ?ft + 1, ?pt, Safe)] else []) = Ok (Some ps')"
      unfolding parts by (auto simp only: True if_True append_Cons append_Nil elim!: plan_parts_Cons)
    from d1 one(4) obtain d0 where d0: "promote_segment d c row sel (rng (nat (fp_finalized row + 1)) (nat ?ft), Finalized, k) = Ok d0"
      and d1': "promote_segments d0 c row sel ps' = Ok d1" by auto
    note l0 = promote_segment_level [OF assms(1) one(3) d0]
    show ?thesis
    proof (cases safe_part)
      case True
      with rest obtain k' where two: "0 \<le> max (fp_promoted row) ?ft + 1" "0 \<le> ?pt" "range_ok (rng (nat (max (fp_promoted row) ?ft + 1)) (nat ?pt))"
        "ps' = [(rng (nat (max (fp_promoted row) ?ft + 1)) (nat ?pt), Safe, k')]"
        by (auto simp only: if_True elim!: plan_parts_Cons) simp
      then have "promote_segment d0 c row sel (rng (nat (max (fp_promoted row) ?ft + 1)) (nat ?pt), Safe, k') = Ok d1" using d1' by auto
      from promote_segment_level [OF conjunct1 [OF l0] two(3) this] l0 one two show ?thesis
        by (auto simp: promoted_level_def)
    next
      case False
      with rest d1' have "d1 = d0" by auto
      with l0 one none(2) [OF False] show ?thesis by (auto simp: promoted_level_def)
    qed
  next
    case False
    show ?thesis
    proof (cases safe_part)
      case True
      from assms(2) obtain k' where two: "0 \<le> max (fp_promoted row) ?ft + 1" "0 \<le> ?pt" "range_ok (rng (nat (max (fp_promoted row) ?ft + 1)) (nat ?pt))"
        "ps = [(rng (nat (max (fp_promoted row) ?ft + 1)) (nat ?pt), Safe, k')]"
        unfolding parts by (auto simp only: False True if_True if_False append_Nil elim!: plan_parts_Cons) simp
      then have "promote_segment d c row sel (rng (nat (max (fp_promoted row) ?ft + 1)) (nat ?pt), Safe, k') = Ok d1" using d1 by auto
      from promote_segment_level [OF assms(1) two(3) this] two none(1) [OF False] show ?thesis
        by (auto simp: promoted_level_def)
    next
      case False
      with \<open>\<not> fin_part\<close> assms(2) d1 have "d1 = d" by (auto simp: parts)
      with none(1) [OF \<open>\<not> fin_part\<close>] none(2) [OF False] show ?thesis by (auto simp: promoted_level_def)
    qed
  qed
qed

text \<open>
  C8. A promotion covers exactly the blocks that became durable. For a follow row whose parts were
  all planned, a committed promotion raises the coverage of the row's selector to finalized on
  \<open>(finalized_to, min(finalized, promoted)]\<close> and to safe on the rest of \<open>(promoted_to, min(safe,
  head)]\<close>, and leaves every other coverage as it was; nothing above the safe head or above the
  followed head is ever covered by it.
\<close>

theorem promote_covers_exactly:
  assumes "coverage_ok (db_coverage d)" and "progress_ok row" and "fp_head row = int head" and "head \<le> MAX_END"
    and "plan_parts d c row sel head (promotion_parts h row head) = Ok (Some ps)"
    and "promote d c row sel ps (promoted_target h row head) (finalized_target h row head) = Ok d'"
  shows "(\<forall>i ds j x. cov_level (db_coverage d') i ds j x =
      (if i = chain_id_of c \<and> ds = fp_dataset row \<and> j = fp_selector row
       then promoted_level row (promoted_target h row head) (finalized_target h row head) x (cov_level (db_coverage d) i ds j x)
       else cov_level (db_coverage d) i ds j x)) \<and>
    promoted_target h row head \<le> max (fp_promoted row) (int (safe h)) \<and> promoted_target h row head \<le> fp_head row"
proof -
  let ?pt = "promoted_target h row head" and ?ft = "finalized_target h row head"
  obtain d1 where d1: "promote_segments d c row sel ps = Ok d1" "db_coverage d' = db_coverage d1" using promote_coverage [OF assms(6)] by blast
  have "int (min (safe h) head) \<le> i64_max" using assms(4) by (auto simp: MAX_END_value i64_max_def)
  then have small: "to_i64 (min (safe h) head) = int (min (safe h) head)" by (simp add: to_i64_def i64_of_u64_def)
  have bounds: "?pt \<le> max (fp_promoted row) (int (safe h))" "?pt \<le> fp_head row"
    using assms(2,3) by (auto simp: promoted_target_def small progress_ok_def)
  with d1(2) promoted_levels [OF assms(1,5) d1(1)] show ?thesis by simp
qed

definition demo_promotion_db :: db where
  "demo_promotion_db = demo_db\<lparr>db_selectors := \<lparr>st_rows = [\<lparr>sr_id = 1, sr_chain = 1, sr_dataset = ''evm.blocks'', sr_fingerprint = ''f'',
     sr_canonical_key = ''k'', sr_addresses = [], sr_topics = [], sr_last_used_at = 0\<rparr>], st_next_id = 2\<rparr>\<rparr>"

definition demo_safe_heads :: heads where
  "demo_safe_heads = demo_heads\<lparr>safe := 4, finalized := 3\<rparr>"

lemma demo_targets: "promoted_target demo_safe_heads demo_progress 5 = 4" "finalized_target demo_safe_heads demo_progress 5 = 3"
  by (simp_all add: promoted_target_def finalized_target_def demo_safe_heads_def demo_defs to_i64_def i64_of_u64_def i64_max_def)

lemma demo_plan:
  "plan_parts demo_promotion_db demo_chain demo_progress SelBlocks 5 (promotion_parts demo_safe_heads demo_progress 5) = Ok (Some [(rng 4 4, Safe, 104)])"
  by (simp add: promotion_parts_def demo_targets Let_def)
     (simp add: demo_promotion_db_def demo_defs range_new_def MAX_END_value stored_hash_def hash_at_def chain_id_of_def u64_to_i64_def
       i64_of_u64_def i64_max_def block_key_def u64_of_i64_def)

lemma demo_promote:
  "is_ok (promote demo_promotion_db demo_chain demo_progress SelBlocks [(rng 4 4, Safe, 104)] 4 3)"
proof -
  obtain rows where "merge_coverage [] 1 EvmBlocks 1 (rng 4 4) Safe = Ok rows"
    by (rule merge_coverage_level [of "[]" "rng 4 4" Safe 1 EvmBlocks 1]) (simp_all add: coverage_ok_def MAX_END_value)
  then show ?thesis
    by (simp add: promote_def promote_segment_def demo_promotion_db_def demo_defs promote_blocks_def promote_senders_def broken_blocks_def
        chain_id_of_def u64_to_i64_def i64_of_u64_def i64_max_def range_contains_def list_min_def Let_def add_coverage_def add_coverage_many_def
        collect_set_def advance_follow_promoted_def follow_row_def fp_key_def map_follow_def)
qed

theorem promote_covers_exactly_witness:
  "\<exists>d'. promote demo_promotion_db demo_chain demo_progress SelBlocks [(rng 4 4, Safe, 104)] 4 3 = Ok d' \<and>
     cov_level (db_coverage d') 1 EvmBlocks 1 4 = Some Safe \<and> cov_level (db_coverage d') 1 EvmBlocks 1 5 = None"
proof -
  obtain d' where d': "promote demo_promotion_db demo_chain demo_progress SelBlocks [(rng 4 4, Safe, 104)] 4 3 = Ok d'"
    using demo_promote by (auto simp: is_ok_def split: sum.splits)
  have cov: "db_coverage demo_promotion_db = []" "chain_id_of demo_chain = 1" by (simp_all add: demo_promotion_db_def demo_defs chain_id_of_def)
  have row: "progress_ok demo_progress" "fp_head demo_progress = int 5" "5 \<le> MAX_END" "fp_dataset demo_progress = EvmBlocks"
    "fp_selector demo_progress = 1" "fp_promoted demo_progress = 3" "fp_finalized demo_progress = 3"
    by (simp_all add: progress_ok_def demo_defs MAX_END_value)
  have "coverage_ok (db_coverage demo_promotion_db)" by (simp add: cov coverage_ok_def)
  from promote_covers_exactly [OF this row(1-3) demo_plan, unfolded demo_targets, OF d'] d' show ?thesis
    by (simp add: cov row promoted_level_def raised_def cov_level_def)
qed

section \<open>A completed tick advances every log selector\<close>

definition at_least :: "follow_table \<Rightarrow> chain_id \<Rightarrow> dataset \<Rightarrow> selector_id \<Rightarrow> i64 \<Rightarrow> bool" where
  "at_least t i ds sel n = (\<exists>q\<in>set (ft_rows t). fp_key i ds sel q \<and> n \<le> fp_head q)"

definition heads_up :: "follow_table \<Rightarrow> follow_table \<Rightarrow> bool" where
  "heads_up t t' = (\<forall>i ds sel n. at_least t i ds sel n \<longrightarrow> at_least t' i ds sel n)"

lemma heads_up_map:
  assumes "\<And>r. r \<in> set (ft_rows t) \<Longrightarrow> P r \<Longrightarrow> fp_head r \<le> fp_head (f r) \<and> (\<forall>i ds sel. fp_key i ds sel (f r) = fp_key i ds sel r)"
  shows "heads_up t (map_follow P f t)"
  unfolding heads_up_def at_least_def
proof (intro allI impI, elim bexE conjE)
  fix i ds sel n q
  assume q: "q \<in> set (ft_rows t)" "fp_key i ds sel q" "n \<le> fp_head q"
  let ?q = "if P q then f q else q"
  have "?q \<in> set (ft_rows (map_follow P f t))" using q(1) by (auto simp: map_follow_def)
  moreover have "fp_key i ds sel ?q" "n \<le> fp_head ?q" using q assms [OF q(1)] by auto
  ultimately show "\<exists>q\<in>set (ft_rows (map_follow P f t)). fp_key i ds sel q \<and> n \<le> fp_head q" by blast
qed

lemma advance_head_up:
  assumes "advance_follow_head t i ds sel hb k = (Ok r, t')"
  shows "heads_up t t' \<and> at_least t' i ds sel (int hb)"
proof -
  let ?P = "\<lambda>r. fp_key i ds sel r \<and> fp_head r \<le> int hb" and ?f = "\<lambda>r. r\<lparr>fp_head := int hb, fp_head_hash := k\<rparr>"
  obtain n where "u64_to_i64 hb ''head block'' = Ok n" using assms by (cases "u64_to_i64 hb ''head block''") (auto simp: advance_follow_head_def)
  then have hb: "u64_to_i64 hb ''head block'' = Ok (int hb)" by (auto simp: u64_to_i64_def i64_of_u64_def split: if_splits)
  show ?thesis
  proof (cases "list_ex ?P (ft_rows t)")
    case True
    then have t': "t' = map_follow ?P ?f t" using assms hb by (auto simp: advance_follow_head_def Let_def)
    have "heads_up t (map_follow ?P ?f t)" by (rule heads_up_map) (auto simp: fp_key_def)
    moreover from True obtain q where "q \<in> set (ft_rows t)" "?P q" by (auto simp: list_ex_iff)
    then have "?f q \<in> set (ft_rows t')" "fp_key i ds sel (?f q)" by (auto simp: t' map_follow_def fp_key_def image_iff intro!: bexI [of _ q])
    then have "at_least t' i ds sel (int hb)" unfolding at_least_def by (metis follow_progress.select_convs(5) follow_progress.surjective follow_progress.update_convs(5,6) order.refl)
    ultimately show ?thesis using t' by simp
  next
    case False
    then obtain cur where "follow_row t i ds sel = Ok cur" "\<not> fp_head cur > int hb" using assms hb by (auto simp: advance_follow_head_def split: if_splits)
    with False show ?thesis by (auto simp: list_ex_iff dest!: follow_row_Ok)
  qed
qed

lemma advance_members_up:
  "advance_members t i hb k rows = Ok t' \<Longrightarrow> heads_up t t' \<and> (\<forall>row\<in>set rows. at_least t' i EvmLogs (fp_selector row) (int hb))"
proof (induction t i hb k rows rule: advance_members.induct)
  case (2 t i hb k row rows)
  obtain r t1 where t1: "advance_follow_head t i EvmLogs (fp_selector row) hb k = (Ok r, t1)" "advance_members t1 i hb k rows = Ok t'"
    using "2.prems" by (auto split: prod.splits sum.splits)
  with "2.IH" advance_head_up [OF t1(1)] show ?case by (auto simp: heads_up_def)
qed (simp add: heads_up_def)

lemma follow_group_done:
  assumes "follow_group now today c h members span w hashes s = (Ok StepDone, s')"
  shows "heads_up (db_follow (tk_db s)) (db_follow (tk_db s')) \<and>
    (\<forall>m\<in>set members. at_least (db_follow (tk_db s')) (chain_id_of c) EvmLogs (fp_selector (fst m)) (int (br_end span)))"
proof -
  have same: "tk_db t' = tk_db t" if "group_end_hash c hashes n t = (Ok x, t')" for n t x t'
    using that by (auto simp: group_end_hash_def and_run_def tick_canonical_def split: option.splits sum.splits prod.splits)
  have stop: "after_conflict now c h e t \<noteq> (Ok StepDone, t')" for e t t'
    by (cases e) (auto simp: after_conflict_def and_run_def split: prod.splits sum.splits)
  from assms obtain query page t k extra rows ft where
    "group_end_hash c hashes (br_end span) (called s) = (Ok (k, extra), t)"
    and ft: "advance_members (db_follow (tk_db t)) (chain_id_of c) (br_end span) k (map fst members) = Ok ft"
    and s': "db_follow (tk_db s') = ft"
    unfolding follow_group_def Let_def
    by (auto simp: and_run_Ok_iff stop split: option.splits if_splits sum.splits)
  with same [of "br_end span" "called s" "(k, extra)" t] have "tk_db t = tk_db s" by simp
  with advance_members_up [OF ft] s' show ?thesis by auto
qed

lemma take_fitting_parts:
  assumes "take_fitting mx span pending members rest = (members', rest')"
  shows "set members' \<union> set rest' = set members \<union> set rest \<union> set pending"
    and "\<forall>m\<in>set members. fp_head (fst m) < int (br_end span) \<Longrightarrow> \<forall>m\<in>set members'. fp_head (fst m) < int (br_end span)"
    and "sorted_wrt P (rest @ pending) \<Longrightarrow> sorted_wrt P rest'"
  using assms
  by (induction mx span pending members rest rule: take_fitting.induct) (auto simp: sorted_wrt_append split: if_splits)

lemma next_span_bounds:
  assumes "next_span head l cap = Some span" and "l \<le> MAX_END"
  shows "range_ok span \<and> int (br_start span) = head + 1 \<and> br_end span \<le> l \<and> br_end span < br_start span + max cap 1"
proof -
  obtain start where start: "u64_of_i64 (head + 1) = Some start" and span: "ok (range_new start (min l (sat_add start (max cap 1 - 1)))) = Some span"
    using assms(1) by (auto simp: next_span_def split: option.splits)
  have "int start = head + 1" using start by (auto simp: u64_of_i64_def split: if_splits)
  moreover have "sat_add start (max cap 1 - 1) < start + max cap 1" by (simp add: sat_add_def)
  then have "min l (sat_add start (max cap 1 - 1)) < start + max cap 1" by (simp only: min_less_iff_disj simp_thms)
  ultimately show ?thesis using span by (auto simp: range_new_ok_eq range_ok_def split: if_splits)
qed

lemma next_span_None:
  assumes "next_span head l cap = None" and "l \<le> MAX_END" and "-1 \<le> head"
  shows "int l \<le> head"
proof (rule ccontr)
  assume "\<not> int l \<le> head"
  then have "nat (head + 1) \<le> l" "l \<le> u64_max" using assms(2) by (auto simp: MAX_END_value u64_max_def)
  then have "nat (head + 1) \<le> min l (sat_add (nat (head + 1)) (max cap 1 - 1))" by (simp add: sat_add_def)
  moreover have "min l (sat_add (nat (head + 1)) (max cap 1 - 1)) \<le> MAX_END" using assms(2) by (simp add: min.coboundedI1)
  ultimately show False using assms(1,3) by (simp add: next_span_def u64_of_i64_def range_new_ok_eq)
qed

lemma follow_logs_loop_done:
  assumes "follow_logs_loop now today c h cap w hashes pending s = (Ok StepDone, s')" and "latest h \<le> MAX_END"
    and "sorted_wrt (\<lambda>a b. fp_head (fst a) \<le> fp_head (fst b)) pending" and "\<forall>m\<in>set pending. -1 \<le> fp_head (fst m)"
  shows "heads_up (db_follow (tk_db s)) (db_follow (tk_db s')) \<and>
    (\<forall>m\<in>set pending. fp_head (fst m) < int (latest h) \<longrightarrow>
       at_least (db_follow (tk_db s')) (chain_id_of c) EvmLogs (fp_selector (fst m)) (fp_head (fst m) + 1))"
  using assms
proof (induction now today c h cap w hashes pending s rule: follow_logs_loop.induct)
  case (2 now today c h cap w hashes first pending s)
  show ?case
  proof (cases "next_span (fp_head (fst first)) (latest h) cap")
    case None
    then have "int (latest h) \<le> fp_head (fst first)" using next_span_None 2 by auto
    with 2 None show ?thesis by (auto simp: heads_up_def)
  next
    case (Some span)
    obtain members rest where parts: "take_fitting (cs_max_addresses (ch_settings c)) span (first # pending) [] [] = (members, rest)" by force
    note split = take_fitting_parts [OF parts]
    obtain t where t: "follow_group now today c h members span w hashes s = (Ok StepDone, t)"
      and loop: "follow_logs_loop now today c h cap w hashes rest t = (Ok StepDone, s')"
      using "2.prems"(1) Some parts by (auto split: prod.splits sum.splits follow_step_result.splits)
    note group = follow_group_done [OF t]
    have "sorted_wrt (\<lambda>a b. fp_head (fst a) \<le> fp_head (fst b)) rest" using split(3) "2.prems"(3) by simp
    moreover have "set rest \<subseteq> set (first # pending)" using split(1) by simp blast
    then have "\<forall>m\<in>set rest. -1 \<le> fp_head (fst m)" using "2.prems"(4) by blast
    moreover note "2.IH" [OF Some parts [symmetric] t [symmetric] refl refl loop "2.prems"(2)]
    ultimately have rest: "heads_up (db_follow (tk_db t)) (db_follow (tk_db s'))" "\<forall>m\<in>set rest. fp_head (fst m) < int (latest h) \<longrightarrow>
       at_least (db_follow (tk_db s')) (chain_id_of c) EvmLogs (fp_selector (fst m)) (fp_head (fst m) + 1)" by auto
    have "at_least (db_follow (tk_db s')) (chain_id_of c) EvmLogs (fp_selector (fst m)) (fp_head (fst m) + 1)" if "m \<in> set members" for m
    proof -
      have "at_least (db_follow (tk_db s')) (chain_id_of c) EvmLogs (fp_selector (fst m)) (int (br_end span))"
        using group that rest(1) by (auto simp: heads_up_def)
      moreover have "fp_head (fst m) + 1 \<le> int (br_end span)" using split(2) that by auto
      ultimately show ?thesis by (force simp: at_least_def)
    qed
    moreover have "set (first # pending) = set members \<union> set rest" using split(1) by simp
    ultimately show ?thesis using rest group unfolding heads_up_def by (metis UnE)
  qed
qed (simp add: heads_up_def)

text \<open>
  C9. Following logs ends and makes progress. The grouping loop always terminates, and when it
  completes, every pending selector whose head was below \<open>latest\<close> has a follow row whose head
  is strictly higher, however the selectors were grouped into fetches.
\<close>

theorem follow_logs_advances:
  assumes "follow_logs now today c h pending w hashes s = (Ok StepDone, s')" and "latest h \<le> MAX_END"
    and "(row, sel) \<in> set pending" and "\<forall>m\<in>set pending. -1 \<le> fp_head (fst m)" and "fp_head row < int (latest h)"
  shows "\<exists>q\<in>set (ft_rows (db_follow (tk_db s'))). fp_key (chain_id_of c) EvmLogs (fp_selector row) q \<and> fp_head row < fp_head q"
proof -
  have "sorted_wrt (\<lambda>a b. fp_head (fst a) \<le> fp_head (fst b)) (sort_key (\<lambda>m. fp_head (fst m)) pending)"
    using sorted_sort_key [of "\<lambda>m. fp_head (fst m)" pending] by (simp add: sorted_map)
  with follow_logs_loop_done [OF assms(1) [unfolded follow_logs_def] assms(2)] assms(3-5)
  have "at_least (db_follow (tk_db s')) (chain_id_of c) EvmLogs (fp_selector row) (fp_head row + 1)" by force
  then show ?thesis by (auto simp: at_least_def)
qed

definition demo_log_progress :: follow_progress where
  "demo_log_progress = demo_progress\<lparr>fp_dataset := EvmLogs\<rparr>"

definition demo_log_chain :: chain where
  "demo_log_chain = demo_chain\<lparr>ch_evm := (ch_evm demo_chain)\<lparr>ev_logs :=
     (\<lambda>_ _ r _. Ok \<lparr>lp_rows = [], lp_fetched_to = Some (br_end r), lp_calls = 1\<rparr>)\<rparr>\<rparr>"

definition demo_log_tick :: tick where
  "demo_log_tick = demo_tick\<lparr>tk_db := demo_db\<lparr>db_follow := \<lparr>ft_rows = [demo_log_progress], ft_chains = []\<rparr>\<rparr>\<rparr>"

lemma demo_follow_logs:
  "\<exists>s'. follow_logs 0 0 demo_log_chain demo_heads [(demo_log_progress, sel_default)] [] [6 \<mapsto> 106] demo_log_tick = (Ok StepDone, s')"
  by (simp add: follow_logs_def follow_group_def sel_batch_def next_span_def demo_log_chain_def demo_log_progress_def demo_log_tick_def
      demo_tick_def demo_defs range_new_def MAX_END_value sat_add_def u64_max_def u64_of_i64_def Let_def group_end_hash_def insert_logs_def
      chain_id_of_def advance_follow_head_def u64_to_i64_def i64_of_u64_def i64_max_def map_follow_def follow_row_def fp_key_def)

theorem follow_logs_advances_witness:
  "\<exists>s'. follow_logs 0 0 demo_log_chain demo_heads [(demo_log_progress, sel_default)] [] [6 \<mapsto> 106] demo_log_tick = (Ok StepDone, s') \<and>
     (\<exists>q\<in>set (ft_rows (db_follow (tk_db s'))). fp_key 1 EvmLogs 1 q \<and> 5 < fp_head q)"
proof -
  obtain s' where run: "follow_logs 0 0 demo_log_chain demo_heads [(demo_log_progress, sel_default)] [] [6 \<mapsto> 106] demo_log_tick = (Ok StepDone, s')"
    using demo_follow_logs by blast
  have "latest demo_heads \<le> MAX_END" "fp_head demo_log_progress = 5" "fp_selector demo_log_progress = 1" "latest demo_heads = 6" "chain_id_of demo_log_chain = 1"
    by (simp_all add: demo_log_progress_def demo_log_chain_def demo_defs MAX_END_value chain_id_of_def)
  with follow_logs_advances [OF run, of demo_log_progress sel_default] run show ?thesis by auto
qed

end
