(* ===== verification/Leader.thy ===== *)
theory Leader
  imports Follow
begin

text \<open>
  The chain leader, \<open>crates/engine/src/leader.rs\<close> and \<open>retention.rs\<close>: one tick asks the provider for
  the heads, follows, publishes the heads and, now and then, retires what nobody needs. The
  election (an advisory lock of the database) and the polling around the tick are left out; the
  model is the tick of the one leader.
\<close>

record leader_state =
  ld_db :: db
  ld_engine :: engine
  ld_calls :: nat

section \<open>Retention\<close>

definition old_sample :: "engine_settings \<Rightarrow> nat \<Rightarrow> nat \<times> u64 \<Rightarrow> bool" where
  "old_sample st now sample = (es_unsafe_retention st \<le> now - fst sample)"

fun drop_stale :: "(nat \<times> u64 \<Rightarrow> bool) \<Rightarrow> (nat \<times> u64) list \<Rightarrow> (nat \<times> u64) list" where
  "drop_stale P (x # y # rest) = (if P y then drop_stale P (y # rest) else x # y # rest)"
| "drop_stale P xs = xs"

text \<open>The sampling of the safe head: \<open>None\<close> when retention is not due yet, else the new state and the
  safe head that was passed long enough ago.\<close>

definition sample_safe :: "engine_settings \<Rightarrow> nat \<Rightarrow> u64 \<Rightarrow> follow_state \<Rightarrow> (follow_state \<times> u64 option) option" where
  "sample_safe st now sf state =
     (if (case fs_last_retention state of None \<Rightarrow> False | Some at \<Rightarrow> now - at < es_retention_every st) then None
      else
        let samples = drop_stale (old_sample st now) (fs_safe_samples state @ [(now, sf)])
        in Some (\<lparr>fs_safe_samples = samples, fs_last_retention = Some now\<rparr>,
                 case samples of [] \<Rightarrow> None | x # _ \<Rightarrow> if old_sample st now x then Some (snd x) else None))"

definition retain_through :: "follow_progress list \<Rightarrow> u64 \<Rightarrow> u64 option" where
  "retain_through rows passed =
     (case list_min (map fp_promoted rows) of
        None \<Rightarrow> Some passed
      | Some promoted \<Rightarrow> map_option (\<lambda>p. min p passed) (u64_of_i64 promoted))"

definition delete_passed :: "db \<Rightarrow> chain \<Rightarrow> u64 option \<Rightarrow> (db, error) result" where
  "delete_passed d c passed =
     (case passed of
        None \<Rightarrow> Ok d
      | Some p \<Rightarrow>
          (case retain_through (list_follow (db_follow d) (chain_id_of c)) p of
             None \<Rightarrow> Ok d
           | Some through \<Rightarrow>
               (case delete_unsafe_through (db_rows d) (chain_id_of c) through of
                  Inl e \<Rightarrow> Err (store_error_to_core e)
                | Inr (_, r) \<Rightarrow> Ok (d\<lparr>db_rows := r\<rparr>))))"

definition prune_jobs :: "int \<Rightarrow> engine_settings \<Rightarrow> db \<Rightarrow> (unit, error) result \<times> db" where
  "prune_jobs now st d =
     (case prune_done now (db_jobs d) (es_job_retention st) of
        (Inl e, t) \<Rightarrow> (Err (store_error_to_core e), d\<lparr>db_jobs := t\<rparr>)
      | (Inr _, t) \<Rightarrow>
          (case prune_failed now t (es_job_retention st) of
             (Inl e, t') \<Rightarrow> (Err (store_error_to_core e), d\<lparr>db_jobs := t'\<rparr>)
           | (Inr _, t') \<Rightarrow> (Ok (), d\<lparr>db_jobs := t'\<rparr>)))"

definition forget_unwatched :: "int \<Rightarrow> chain \<Rightarrow> db \<Rightarrow> db" where
  "forget_unwatched now c d =
     (let subs = snd (expire_subscriptions now (db_subs d))
      in d\<lparr>db_subs := subs, db_follow := snd (delete_unwatched_follow now subs (db_follow d) (chain_id_of c))\<rparr>)"

definition retain :: "nat \<Rightarrow> chain \<Rightarrow> heads \<Rightarrow> leader_state \<Rightarrow> (unit, error) result \<times> leader_state" where
  "retain now c h s =
     (let st = en_settings (ld_engine s) in
      case sample_safe st now (safe h) (en_follow (ld_engine s) (chain_id_of c)) of
        None \<Rightarrow> (Ok (), s)
      | Some (state, passed) \<Rightarrow>
          let s1 = s\<lparr>ld_engine := (ld_engine s)\<lparr>en_follow := (en_follow (ld_engine s))(chain_id_of c := state)\<rparr>,
                     ld_db := forget_unwatched (int now) c (ld_db s)\<rparr>
          in case delete_passed (ld_db s1) c passed of
               Inl e \<Rightarrow> (Err e, s1)
             | Inr d \<Rightarrow> (case prune_jobs (int now) st d of (r, d') \<Rightarrow> (r, s1\<lparr>ld_db := d'\<rparr>)))"

section \<open>The tick\<close>

definition run_follow :: "nat \<Rightarrow> nat \<Rightarrow> chain \<Rightarrow> heads \<Rightarrow> leader_state \<Rightarrow> (unit, error) result \<times> leader_state" where
  "run_follow now today c h s =
     (case follow_tick (int now) today c h \<lparr>tk_db = ld_db s, tk_usage = en_usage (ld_engine s), tk_canon = canon_new h (ld_calls s)\<rparr> of
        (r, t) \<Rightarrow> (r, \<lparr>ld_db = tk_db t, ld_engine = (ld_engine s)\<lparr>en_usage := tk_usage t\<rparr>, ld_calls = now_tick t\<rparr>))"

text \<open>A failed follow tick and a failed retention are logged and the tick goes on.\<close>

definition leader_tick :: "nat \<Rightarrow> nat \<Rightarrow> chain \<Rightarrow> leader_state \<Rightarrow> (heads, error) result \<times> leader_state" where
  "leader_tick now today c s =
     (let s0 = s\<lparr>ld_calls := ld_calls s + 1\<rparr> in
      case ev_heads (ch_evm c) (ld_calls s) (cs_head_mode (ch_settings c)) of
        Inl e \<Rightarrow> (Err (provider_error_to_core e), s0)
      | Inr h \<Rightarrow>
          let s1 = snd (run_follow now today c h s0) in
          (case upsert_heads (db_heads (ld_db s1)) (chain_id_of c) h of
             Inl e \<Rightarrow> (Err (store_error_to_core e), s1)
           | Inr t \<Rightarrow> (Ok h, snd (retain now c h (s1\<lparr>ld_db := (ld_db s1)\<lparr>db_heads := t\<rparr>\<rparr>)))))"

definition tick_once :: "nat \<Rightarrow> nat \<Rightarrow> chain_name \<Rightarrow> leader_state \<Rightarrow> (heads, error) result \<times> leader_state" where
  "tick_once now today name s =
     (case engine_chain (ld_engine s) name of Inl e \<Rightarrow> (Err e, s) | Inr c \<Rightarrow> leader_tick now today c s)"

section \<open>What retention may delete\<close>

text \<open>What the three row tables lose from one state to the next, as the chain, the finality and the block of every lost row.\<close>

definition lost_rows :: "'h row_store \<Rightarrow> 'h row_store \<Rightarrow> (chain_id \<times> finality \<times> u64) set" where
  "lost_rows st st' =
     {(i, log_finality l, log_block_number l) |i l. (i, l) \<in> set (rs_logs st) - set (rs_logs st')} \<union>
     {(i, blk_finality b, blk_number b) |i b. (i, b) \<in> set (rs_blocks st) - set (rs_blocks st')} \<union>
     {(i, snd_finality x, snd_block x) |i x. (i, x) \<in> set (rs_senders st) - set (rs_senders st')}"

lemma lost_rows_same [simp]: "lost_rows st st = {}"
  by (simp add: lost_rows_def)

lemma delete_unsafe_through_lost:
  "delete_unsafe_through st i thr = Ok (n, st') \<Longrightarrow> lost_rows st st' \<subseteq> {(i, Unsafe, b) |b. b \<le> thr}"
  by (auto simp: delete_unsafe_through_def Let_def lost_rows_def)

lemma drop_stale_subset: "set (drop_stale P xs) \<subseteq> set xs"
  by (induction P xs rule: drop_stale.induct) auto

lemma sample_safe_passed:
  assumes "sample_safe st now sf state = Some (state', Some p)"
  shows "\<exists>at. (at, p) \<in> set (fs_safe_samples state @ [(now, sf)]) \<and> es_unsafe_retention st \<le> now - at"
proof -
  let ?xs = "drop_stale (old_sample st now) (fs_safe_samples state @ [(now, sf)])"
  obtain x where "x \<in> set ?xs" "old_sample st now x" "snd x = p"
    using assms by (auto simp: sample_safe_def Let_def split: if_splits list.splits)
  moreover have "x \<in> set (fs_safe_samples state @ [(now, sf)])"
    using drop_stale_subset \<open>x \<in> set ?xs\<close> by fast
  ultimately show ?thesis by (auto simp: old_sample_def intro!: exI [of _ "fst x"])
qed

lemma retain_through_bounds:
  assumes "retain_through rows passed = Some t"
  shows "t \<le> passed" "r \<in> set rows \<Longrightarrow> int t \<le> fp_promoted r"
proof -
  show "t \<le> passed" using assms by (auto simp: retain_through_def split: option.splits)
  assume r: "r \<in> set rows"
  then obtain m where m: "list_min (map fp_promoted rows) = Some m" by fastforce
  then have "m \<le> fp_promoted r" using r by (auto simp: list_min_Some)
  then show "int t \<le> fp_promoted r"
    using assms m by (auto simp: retain_through_def u64_of_i64_def split: if_splits)
qed

lemma set_list_follow: "set (list_follow t i) = {r \<in> set (ft_rows t). fp_chain r = i}"
  by (auto simp: list_follow_def)

lemma delete_passed_rows:
  assumes "delete_passed d c passed = Ok d'"
  shows "d' = d\<lparr>db_rows := db_rows d'\<rparr>"
    and "(i, f, b) \<in> lost_rows (db_rows d) (db_rows d') \<Longrightarrow>
      i = chain_id_of c \<and> f = Unsafe \<and> (\<exists>p. passed = Some p \<and> b \<le> p) \<and>
      (\<forall>r\<in>set (list_follow (db_follow d) (chain_id_of c)). int b \<le> fp_promoted r)"
proof -
  show "d' = d\<lparr>db_rows := db_rows d'\<rparr>" using assms by (auto simp: delete_passed_def split: option.splits sum.splits)
  assume lost: "(i, f, b) \<in> lost_rows (db_rows d) (db_rows d')"
  then obtain p t n where p: "passed = Some p" and t: "retain_through (list_follow (db_follow d) (chain_id_of c)) p = Some t"
    and del: "delete_unsafe_through (db_rows d) (chain_id_of c) t = Ok (n, db_rows d')"
    using assms by (auto simp: delete_passed_def split: option.splits sum.splits)
  have "i = chain_id_of c \<and> f = Unsafe \<and> b \<le> t" using delete_unsafe_through_lost [OF del] lost by auto
  then show "i = chain_id_of c \<and> f = Unsafe \<and> (\<exists>p. passed = Some p \<and> b \<le> p) \<and>
      (\<forall>r\<in>set (list_follow (db_follow d) (chain_id_of c)). int b \<le> fp_promoted r)"
    using retain_through_bounds [OF t] p by fastforce
qed

definition unwatched_at :: "int \<Rightarrow> db \<Rightarrow> follow_progress \<Rightarrow> bool" where
  "unwatched_at now d f = (\<forall>u\<in>set (db_subs d). sb_chain u = fp_chain f \<and> sb_dataset u = fp_dataset f \<and> sb_selector u = fp_selector f \<longrightarrow>
     sb_expires_at u \<le> now)"

lemma forget_unwatched_effect:
  "forget_unwatched now c d = d\<lparr>db_subs := db_subs (forget_unwatched now c d), db_follow := db_follow (forget_unwatched now c d)\<rparr>"
  "set (db_subs (forget_unwatched now c d)) = {u \<in> set (db_subs d). now < sb_expires_at u}"
  "set (ft_rows (db_follow (forget_unwatched now c d))) =
     {f \<in> set (ft_rows (db_follow d)). fp_chain f = chain_id_of c \<longrightarrow> \<not> unwatched_at now d f}"
  by (auto simp: forget_unwatched_def expire_subscriptions_def delete_unwatched_follow_def unwatched_at_def list_ex_iff Let_def not_le)

definition only_old_jobs_gone :: "int \<Rightarrow> engine_settings \<Rightarrow> db \<Rightarrow> db \<Rightarrow> bool" where
  "only_old_jobs_gone now st d d' = (\<forall>j\<in>set (jt_rows (db_jobs d)) - set (jt_rows (db_jobs d')).
     j_status j \<in> {JsDone, JsFailed} \<and> j_updated_at j \<le> now - int (es_job_retention st))"

lemma prune_status_rows:
  "prune_status now t js older = (r, t') \<Longrightarrow> x \<in> set (jt_rows t) - set (jt_rows t') \<Longrightarrow> j_status x = js \<and> j_updated_at x \<le> now - int older"
  by (auto simp: prune_status_def duration_millis_def ok_or_def Let_def split: if_splits sum.splits option.splits)

lemma prune_jobs_effect:
  assumes "prune_jobs now st d = (r, d')"
  shows "d' = d\<lparr>db_jobs := db_jobs d'\<rparr>" "only_old_jobs_gone now st d d'"
proof -
  show "d' = d\<lparr>db_jobs := db_jobs d'\<rparr>" using assms by (auto simp: prune_jobs_def split: prod.splits sum.splits)
  show "only_old_jobs_gone now st d d'"
    using assms unfolding only_old_jobs_gone_def prune_jobs_def prune_done_def prune_failed_def
    by (fastforce split: prod.splits sum.splits dest: prune_status_rows)
qed

text \<open>
  C6. Retention takes only what nobody needs. Whatever it returns, every row it deleted is an unsafe
  row of this chain, at or below the promoted block of every follow row that is left and at or below
  a safe head seen at least \<open>unsafe_retention\<close> ago; a follow row it dropped is of this chain
  and every subscription to it has expired; a subscription it dropped has expired; a job it dropped
  is done or failed and older than \<open>job_retention\<close>; coverage, heads, selectors and usage stay.
\<close>

theorem retain_spares_what_is_needed:
  assumes run: "retain now c h s = (r, s')"
  shows "(\<forall>(i, f, b)\<in>lost_rows (db_rows (ld_db s)) (db_rows (ld_db s')).
        i = chain_id_of c \<and> f = Unsafe \<and>
        (\<forall>p\<in>set (list_follow (db_follow (ld_db s')) i). int b \<le> fp_promoted p) \<and>
        (\<exists>(at, sf)\<in>set (fs_safe_samples (en_follow (ld_engine s) i) @ [(now, safe h)]).
            es_unsafe_retention (en_settings (ld_engine s)) \<le> now - at \<and> b \<le> sf)) \<and>
    (\<forall>p\<in>set (ft_rows (db_follow (ld_db s))) - set (ft_rows (db_follow (ld_db s'))).
        fp_chain p = chain_id_of c \<and> unwatched_at (int now) (ld_db s) p) \<and>
    (\<forall>u\<in>set (db_subs (ld_db s)) - set (db_subs (ld_db s')). sb_expires_at u \<le> int now) \<and>
    only_old_jobs_gone (int now) (en_settings (ld_engine s)) (ld_db s) (ld_db s') \<and>
    db_coverage (ld_db s') = db_coverage (ld_db s) \<and> db_heads (ld_db s') = db_heads (ld_db s) \<and>
    db_selectors (ld_db s') = db_selectors (ld_db s) \<and> db_usage (ld_db s') = db_usage (ld_db s)"
proof (cases "sample_safe (en_settings (ld_engine s)) now (safe h) (en_follow (ld_engine s) (chain_id_of c))")
  case None
  then show ?thesis using run by (simp add: retain_def only_old_jobs_gone_def)
next
  case (Some sample)
  obtain state passed where sample: "sample = (state, passed)" by (cases sample)
  define d1 where "d1 = forget_unwatched (int now) c (ld_db s)"
  note d1 = forget_unwatched_effect [of "int now" c "ld_db s", folded d1_def]
  have same: "db_rows d1 = db_rows (ld_db s)" "db_jobs d1 = db_jobs (ld_db s)" "db_coverage d1 = db_coverage (ld_db s)"
    "db_heads d1 = db_heads (ld_db s)" "db_selectors d1 = db_selectors (ld_db s)" "db_usage d1 = db_usage (ld_db s)"
    by (simp_all add: d1_def forget_unwatched_def Let_def)
  show ?thesis
  proof (cases "delete_passed d1 c passed")
    case (Inl e)
    then have "ld_db s' = d1" using run Some sample by (auto simp: retain_def Let_def d1_def)
    then show ?thesis using d1(2,3) same by (auto simp: only_old_jobs_gone_def not_less)
  next
    case (Inr d2)
    then obtain r' where prune: "prune_jobs (int now) (en_settings (ld_engine s)) d2 = (r', ld_db s')"
      using run Some sample by (auto simp: retain_def Let_def d1_def split: prod.splits)
    note d2 = delete_passed_rows [OF Inr] and d3 = prune_jobs_effect [OF prune]
    have eq: "db_rows (ld_db s') = db_rows d2" "db_follow (ld_db s') = db_follow d1" "db_subs (ld_db s') = db_subs d1"
      "db_coverage (ld_db s') = db_coverage d1" "db_heads (ld_db s') = db_heads d1" "db_selectors (ld_db s') = db_selectors d1"
      "db_usage (ld_db s') = db_usage d1" "db_jobs d2 = db_jobs d1"
      by (subst d3(1), subst d2(1), simp)+ (subst d2(1), simp)
    have "\<exists>(at, sf)\<in>set (fs_safe_samples (en_follow (ld_engine s) (chain_id_of c)) @ [(now, safe h)]).
        es_unsafe_retention (en_settings (ld_engine s)) \<le> now - at \<and> b \<le> sf" if "passed = Some p" "b \<le> p" for p b
      using sample_safe_passed Some that unfolding sample by fast
    with d2(2) have rows: "\<forall>(i, f, b)\<in>lost_rows (db_rows (ld_db s)) (db_rows (ld_db s')).
        i = chain_id_of c \<and> f = Unsafe \<and> (\<forall>p\<in>set (list_follow (db_follow (ld_db s')) i). int b \<le> fp_promoted p) \<and>
        (\<exists>(at, sf)\<in>set (fs_safe_samples (en_follow (ld_engine s) i) @ [(now, safe h)]).
            es_unsafe_retention (en_settings (ld_engine s)) \<le> now - at \<and> b \<le> sf)"
      unfolding eq same by blast
    show ?thesis
      using rows d1(2,3) d3(2) same eq by (auto simp: only_old_jobs_gone_def not_less)
  qed
qed

definition leader_demo_engine :: engine where
  "leader_demo_engine = \<lparr>en_chains = [(''dev'', demo_chain)], en_by_id = [(1, demo_chain)], en_settings = engine_settings_default, en_heads = Map.empty,
     en_usage = [], en_touched = [], en_follow = (\<lambda>_. \<lparr>fs_safe_samples = [(0, 5)], fs_last_retention = Some 0\<rparr>)\<rparr>"

definition leader_demo :: leader_state where
  "leader_demo = \<lparr>ld_db = demo_db\<lparr>db_subs := [demo_sub\<lparr>sb_expires_at := 90000000\<rparr>],
     db_follow := \<lparr>ft_rows = [demo_progress\<lparr>fp_promoted := 4\<rparr>], ft_chains = []\<rparr>\<rparr>, ld_engine = leader_demo_engine, ld_calls = 0\<rparr>"

lemmas leader_demo_defs = leader_demo_def leader_demo_engine_def demo_sub_def demo_defs engine_settings_default_def

lemma leader_demo_retain:
  "case retain 86400000 demo_chain demo_heads leader_demo of (r, s') \<Rightarrow> r = Ok () \<and> rs_blocks (db_rows (ld_db s')) = [(1, demo_header 5 999)]"
  by (simp add: retain_def leader_demo_defs chain_id_of_def sample_safe_def old_sample_def forget_unwatched_def expire_subscriptions_def
      delete_unwatched_follow_def delete_passed_def list_follow_def retain_through_def list_min_def u64_of_i64_def delete_unsafe_through_def
      u64_to_i64_def i64_of_u64_def i64_max_def prune_jobs_def prune_done_def prune_failed_def prune_status_def duration_millis_def Let_def)

theorem retain_spares_what_is_needed_witness:
  "\<exists>s'. retain 86400000 demo_chain demo_heads leader_demo = (Ok (), s') \<and> rs_blocks (db_rows (ld_db s')) = [(1, demo_header 5 999)] \<and>
     (\<forall>p\<in>set (list_follow (db_follow (ld_db s')) 1). 4 \<le> fp_promoted p) \<and> db_coverage (ld_db s') = []"
proof -
  obtain s' where run: "retain 86400000 demo_chain demo_heads leader_demo = (Ok (), s')"
    and left: "rs_blocks (db_rows (ld_db s')) = [(1, demo_header 5 999)]"
    using leader_demo_retain by (auto split: prod.splits)
  have "(1, demo_header 4 104) \<in> set (rs_blocks (db_rows (ld_db leader_demo))) - set (rs_blocks (db_rows (ld_db s')))"
    unfolding left by (simp add: leader_demo_defs)
  moreover have "blk_finality (demo_header 4 104) = Unsafe" "blk_number (demo_header 4 104) = 4" by (simp_all add: demo_defs)
  ultimately have "(1, Unsafe, 4) \<in> lost_rows (db_rows (ld_db leader_demo)) (db_rows (ld_db s'))"
    unfolding lost_rows_def by force
  moreover have "db_coverage (ld_db leader_demo) = []" by (simp add: leader_demo_defs)
  ultimately show ?thesis using retain_spares_what_is_needed [OF run] run left by fastforce
qed

end
