(* ===== verification/Interpolate.thy ===== *)
theory Interpolate
  imports Core_Types
begin

text \<open>
  Placeholders in the configuration file, \<open>crates/server/src/interpolate.rs\<close>: every \<open>${NAME}\<close> in a string
  of the parsed TOML is replaced by an environment variable. The environment is an argument; the
  texts of floats and dates are opaque. A value that fails is dropped by the caller, so the
  model returns the error alone.
\<close>

section \<open>Errors and values\<close>

datatype config_error =
    ReadFailed string string
  | ParseFailed string
  | MissingEnv string
  | InvalidPlaceholder string
  | UnterminatedPlaceholder
  | InvalidConfig string

datatype toml =
    TString string
  | TInteger i64
  | TFloat string
  | TBoolean bool
  | TDatetime string
  | TArray "toml list"
  | TTable "(string \<times> toml) list"

type_synonym environment = "string \<Rightarrow> string option"

section \<open>One text\<close>

text \<open>\<open>str::find\<close>: the first place where the pattern starts.\<close>

fun str_find :: "string \<Rightarrow> string \<Rightarrow> nat option" where
  "str_find pat [] = (if pat = [] then Some 0 else None)"
| "str_find pat (c # cs) = (if starts_with pat (c # cs) then Some 0 else map_option Suc (str_find pat cs))"

definition is_ascii_digit :: "char \<Rightarrow> bool" where
  "is_ascii_digit c = (let b = of_char c :: nat in 48 \<le> b \<and> b \<le> 57)"

definition is_ascii_alphanumeric :: "char \<Rightarrow> bool" where
  "is_ascii_alphanumeric c = (is_ascii_digit c \<or> (let b = of_char c :: nat in (65 \<le> b \<and> b \<le> 90) \<or> (97 \<le> b \<and> b \<le> 122)))"

definition valid_name :: "string \<Rightarrow> bool" where
  "valid_name name =
     (name \<noteq> [] \<and> \<not> (case name of [] \<Rightarrow> False | c # _ \<Rightarrow> is_ascii_digit c) \<and>
      list_all (\<lambda>c. is_ascii_alphanumeric c \<or> c = CHR ''_'') name)"

lemma str_find_bound: "str_find pat s = Some n \<Longrightarrow> n + length pat \<le> length s"
proof (induction s arbitrary: n)
  case (Cons c cs)
  have "starts_with p t \<Longrightarrow> length p \<le> length t" for p t by (induction p t rule: starts_with.induct) auto
  then show ?case using Cons by (fastforce split: if_splits)
qed (auto split: if_splits)

function interpolate_loop :: "environment \<Rightarrow> string \<Rightarrow> string \<Rightarrow> (string, config_error) result" where
  "interpolate_loop env out rest =
     (case str_find ''${'' rest of
        None \<Rightarrow> Ok (out @ rest)
      | Some start \<Rightarrow>
          (case str_find ''}'' (drop (start + 2) rest) of
             None \<Rightarrow> Err UnterminatedPlaceholder
           | Some e \<Rightarrow>
               let after = drop (start + 2) rest; name = take e after in
               if \<not> valid_name name then Err (InvalidPlaceholder name)
               else (case env name of
                       None \<Rightarrow> Err (MissingEnv name)
                     | Some v \<Rightarrow> interpolate_loop env (out @ take start rest @ v) (drop (e + 1) after))))"
  by pat_completeness auto

termination
  by (relation "measure (\<lambda>(env, out, rest). length rest)") (auto dest: str_find_bound)

declare interpolate_loop.simps [simp del]

definition interpolate :: "environment \<Rightarrow> string \<Rightarrow> (string, config_error) result" where
  "interpolate env s = interpolate_loop env [] s"

section \<open>A whole value\<close>

lemma try_map_cong [fundef_cong]:
  "xs = ys \<Longrightarrow> (\<And>x. x \<in> set ys \<Longrightarrow> f x = g x) \<Longrightarrow> try_map f xs = try_map g ys"
proof (induction xs arbitrary: ys)
  case (Cons x xs)
  then have "f x = g x" "try_map f xs = try_map g xs" by auto
  then show ?case using Cons.prems(1) by (auto split: sum.split)
qed simp

fun interpolate_value :: "environment \<Rightarrow> toml \<Rightarrow> (toml, config_error) result" where
  "interpolate_value env (TString s) = map_ok TString (interpolate env s)"
| "interpolate_value env (TArray xs) = map_ok TArray (try_map (interpolate_value env) xs)"
| "interpolate_value env (TTable kvs) =
     map_ok TTable (try_map (\<lambda>kv. map_ok (Pair (fst kv)) (interpolate_value env (snd kv))) kvs)"
| "interpolate_value env v = Ok v"

section \<open>Templates\<close>

text \<open>
  What a text means: literal pieces, each followed by a variable, and a literal tail. A literal
  piece never contains the opening of a placeholder.
\<close>

type_synonym template = "(string \<times> string) list \<times> string"

definition literal :: "string \<Rightarrow> bool" where
  "literal s = (str_find ''${'' s = None)"

fun template_ok :: "(string \<times> string) list \<Rightarrow> bool" where
  "template_ok [] = True"
| "template_ok ((l, n) # ps) = (literal l \<and> valid_name n \<and> template_ok ps)"

fun render :: "(string \<times> string) list \<Rightarrow> string \<Rightarrow> string" where
  "render [] lst = lst"
| "render ((l, n) # ps) lst = l @ ''${'' @ n @ ''}'' @ render ps lst"

fun expand :: "environment \<Rightarrow> (string \<times> string) list \<Rightarrow> string \<Rightarrow> string option" where
  "expand env [] lst = Some lst"
| "expand env ((l, n) # ps) lst =
     (case (env n, expand env ps lst) of (Some v, Some rest) \<Rightarrow> Some (l @ v @ rest) | _ \<Rightarrow> None)"

section \<open>Interpolation is expansion\<close>

lemma find_open: "literal l \<Longrightarrow> str_find ''${'' (l @ ''${'' @ r) = Some (length l)"
proof (induction l)
  case (Cons c l)
  then show ?case by (cases l) (auto simp: literal_def split: if_splits)
qed simp

lemma find_close: "CHR ''}'' \<notin> set n \<Longrightarrow> str_find ''}'' (n @ ''}'' @ r) = Some (length n)"
  by (induction n) auto

lemma found_open: "str_find ''${'' s = Some k \<Longrightarrow> literal (take k s) \<and> s = take k s @ ''${'' @ drop (k + 2) s"
proof (induction s arbitrary: k)
  case (Cons c cs)
  show ?case
  proof (cases "starts_with ''${'' (c # cs)")
    case True
    then obtain r where "c # cs = ''${'' @ r" by (cases cs) auto
    then show ?thesis using Cons.prems by (auto simp: literal_def)
  next
    case False
    then obtain j where j: "k = Suc j" "str_find ''${'' cs = Some j" using Cons.prems by (auto split: if_splits)
    have "\<not> starts_with ''${'' (c # take j cs)" using False by (cases cs; cases j) auto
    then show ?thesis using Cons.IH [OF j(2)] j(1) by (auto simp: literal_def)
  qed
qed simp

lemma found_close: "str_find ''}'' s = Some k \<Longrightarrow> s = take k s @ ''}'' @ drop (k + 1) s"
  by (induction s arbitrary: k) (auto split: if_splits)

lemma valid_name_closed: "valid_name n \<Longrightarrow> CHR ''}'' \<notin> set n"
  by (auto simp: valid_name_def list_all_iff is_ascii_alphanumeric_def is_ascii_digit_def Let_def)

lemma loop_expands:
  "template_ok ps \<Longrightarrow> literal lst \<Longrightarrow> expand env ps lst = Some res \<Longrightarrow> interpolate_loop env out (render ps lst) = Ok (out @ res)"
proof (induction ps arbitrary: out res)
  case Nil
  then show ?case by (subst interpolate_loop.simps) (simp add: literal_def)
next
  case (Cons p ps)
  obtain l n where p: "p = (l, n)" by force
  with Cons.prems obtain v rest where v: "env n = Some v" "expand env ps lst = Some rest" "res = l @ v @ rest"
    by (auto split: option.splits)
  have "str_find ''${'' (render (p # ps) lst) = Some (length l)" using find_open [of l] Cons.prems(1) p by simp
  moreover have "str_find ''}'' (n @ ''}'' @ render ps lst) = Some (length n)"
    using find_close valid_name_closed Cons.prems(1) p by simp
  ultimately show ?case using Cons.IH [of rest "out @ l @ v"] Cons.prems p v
    by (subst interpolate_loop.simps) simp
qed

lemma loop_expanded:
  "interpolate_loop env out rest = Ok full \<Longrightarrow>
     \<exists>ps lst res. template_ok ps \<and> literal lst \<and> rest = render ps lst \<and> expand env ps lst = Some res \<and> full = out @ res"
proof (induction env out rest arbitrary: full rule: interpolate_loop.induct)
  case (1 env out rest)
  show ?case
  proof (cases "str_find ''${'' rest")
    case None
    then have "full = out @ rest" using 1(2) by (simp add: interpolate_loop.simps [of env out rest])
    then show ?thesis using None by (auto simp: literal_def intro: exI [of _ "[]"] exI [of _ rest])
  next
    case (Some k)
    let ?after = "drop (k + 2) rest"
    obtain e v where e: "str_find ''}'' ?after = Some e" "valid_name (take e ?after)" "env (take e ?after) = Some v"
      "interpolate_loop env (out @ take k rest @ v) (drop (e + 1) ?after) = Ok full"
      using 1(2) Some by (auto simp: interpolate_loop.simps [of env out rest] Let_def split: option.splits if_splits)
    obtain ps lst res where ps: "template_ok ps" "literal lst" "drop (e + 1) ?after = render ps lst" "expand env ps lst = Some res"
      "full = (out @ take k rest @ v) @ res"
      using 1(1) [OF Some e(1) refl refl _ e(3,4)] e(2) by auto
    have whole: "rest = take k rest @ ''${'' @ take e ?after @ ''}'' @ render ps lst" "literal (take k rest)"
      using found_open [OF Some] found_close [OF e(1)] ps(3) by (metis append.assoc)+
    show ?thesis
      by (rule exI [of _ "(take k rest, take e ?after) # ps"], rule exI [of _ lst], rule exI [of _ "take k rest @ v @ res"])
         (use ps e whole in auto)
  qed
qed

text \<open>
  C20. Reading a text of the configuration succeeds exactly when the text is a template, that is
  literal pieces and well-formed \<open>${NAME}\<close> placeholders, whose variables are all set, and the result is
  then the template with each placeholder replaced once by its value: what a value contains is not
  read again, and a dollar sign without a brace stays.
\<close>

theorem interpolate_exact:
  "interpolate env s = Ok out \<longleftrightarrow>
   (\<exists>ps lst. template_ok ps \<and> literal lst \<and> s = render ps lst \<and> expand env ps lst = Some out)"
  using loop_expanded [of env "[]" s out] loop_expands [of _ _ env out "[]"] by (auto simp: interpolate_def)

end
