(* ===== verification/Server_Config.thy ===== *)
theory Server_Config
  imports Interpolate
begin

text \<open>
  The server's configuration, \<open>crates/server/src/config.rs\<close>: its sections, their defaults, and the checks
  of \<open>Config::validate\<close>. The TOML parser and the decoder that \<open>serde\<close> derives are arguments of
  \<open>from_toml\<close>, and so are the file system and the environment of \<open>load\<close>. Addresses to bind are texts;
  a \<open>NonZero\<close> field is a number.
\<close>

section \<open>Sections\<close>

datatype role = ApiRole | WorkerRole

record server_config =
  sv_bind :: string
  sv_roles :: "role btree_set"

record database_config =
  dc_url :: string
  dc_max_connections :: u32

record query_config =
  qc_max_wait_ms :: u64
  qc_page_limit :: u32
  qc_follow_attach_blocks :: u64

definition query_config_default :: query_config where
  "query_config_default = \<lparr>qc_max_wait_ms = 15000, qc_page_limit = 10000, qc_follow_attach_blocks = 1000\<rparr>"

record follow_config =
  fo_subscription_ttl_s :: u64
  fo_unsafe_retention_s :: u64

definition follow_config_default :: follow_config where
  "follow_config_default = \<lparr>fo_subscription_ttl_s = 900, fo_unsafe_retention_s = 86400\<rparr>"

record fill_config =
  fi_workers :: usize
  fi_inline_workers :: usize
  fi_lease_s :: u64
  fi_job_retention_s :: u64

definition fill_config_default :: fill_config where
  "fill_config_default = \<lparr>fi_workers = 4, fi_inline_workers = 2, fi_lease_s = 120, fi_job_retention_s = 86400\<rparr>"

record metrics_config =
  mc_bearer_token :: string

datatype finality_config = LagBlocks u64 u64 | RpcTags

record server_provider_config =
  sp_rps :: u32
  sp_burst :: u32
  sp_daily_calls :: "u64 option"
  sp_max_in_flight :: u32
  sp_min_range_blocks :: u64

record chain_config =
  cg_chain_id :: chain_id
  cg_rpc_url :: string
  cg_finality :: finality_config
  cg_tick_ms :: u64
  cg_reorg_window_blocks :: u64
  cg_chunk_blocks :: u64
  cg_header_chunk_blocks :: u64
  cg_max_get_logs_range_blocks :: u64
  cg_max_addresses_per_query :: usize
  cg_provider :: server_provider_config

record quota_config =
  qf_max_range_blocks :: u64
  qf_max_requests_per_minute :: u32
  qf_max_concurrent_requests :: u32
  qf_max_subscriptions :: u32
  qf_max_fill_blocks_per_minute :: "u64 option"
  qf_allow_unfiltered_logs :: bool

record application_config =
  ac_id :: string
  ac_token :: string
  ac_chains :: "chain_name btree_set"
  ac_datasets :: "dataset btree_set"
  ac_quota :: quota_config
  ac_admin :: bool

record config =
  cf_server :: server_config
  cf_database :: database_config
  cf_query :: query_config
  cf_follow :: follow_config
  cf_fill :: fill_config
  cf_metrics :: metrics_config
  cf_chains :: "(chain_name, chain_config) btree_map"
  cf_applications :: "application_config list"

definition default_max_connections :: u32 where "default_max_connections = 32"
definition default_tick_ms :: u64 where "default_tick_ms = 2000"
definition default_reorg_window_blocks :: u64 where "default_reorg_window_blocks = 512"
definition default_header_chunk_blocks :: u64 where "default_header_chunk_blocks = 100"
definition default_min_range_blocks :: u64 where "default_min_range_blocks = 16"

section \<open>Validation\<close>

fun check_lag :: "chain_name \<Rightarrow> finality_config \<Rightarrow> (unit, config_error) result" where
  "check_lag name (LagBlocks safe_lag finalized_lag) =
     (if finalized_lag < safe_lag
      then Err (InvalidConfig (''chains.'' @ name @ ''.finality: safe_lag_blocks '' @ dec safe_lag @
        '' exceeds finalized_lag_blocks '' @ dec finalized_lag))
      else Ok ())"
| "check_lag name RpcTags = Ok ()"

fun validate_chains :: "chain_id list \<Rightarrow> (chain_name, chain_config) btree_map \<Rightarrow> (unit, config_error) result" where
  "validate_chains seen [] = Ok ()"
| "validate_chains seen ((name, c) # rest) =
     (if cg_chain_id c \<in> set seen
      then Err (InvalidConfig (''chains.'' @ name @ '': chain_id '' @ show_int (cg_chain_id c) @ '' is used by another chain''))
      else and_then (check_lag name (cg_finality c)) (\<lambda>_. validate_chains (cg_chain_id c # seen) rest))"

fun validate_applications ::
  "chain_name list \<Rightarrow> string list \<Rightarrow> string list \<Rightarrow> application_config list \<Rightarrow> (unit, config_error) result" where
  "validate_applications known ids tokens [] = Ok ()"
| "validate_applications known ids tokens (app # rest) =
     (if ac_id app = [] then Err (InvalidConfig ''applications: id must not be empty'')
      else if ac_id app \<in> set ids then Err (InvalidConfig (''applications: duplicate id '' @ debug_str (ac_id app)))
      else if ac_token app = [] then Err (InvalidConfig (''applications.'' @ ac_id app @ '': token must not be empty''))
      else if ac_token app \<in> set tokens
      then Err (InvalidConfig (''applications.'' @ ac_id app @ '': token is shared with another application''))
      else case find (\<lambda>c. c \<notin> set known) (ac_chains app) of
        Some chain \<Rightarrow>
          Err (InvalidConfig (''applications.'' @ ac_id app @ '': unknown chain '' @ [char_of (34::nat)] @ chain @ [char_of (34::nat)]))
      | None \<Rightarrow> validate_applications known (ac_id app # ids) (ac_token app # tokens) rest)"

definition validate :: "config \<Rightarrow> (unit, config_error) result" where
  "validate cf =
     (if sv_roles (cf_server cf) = [] then Err (InvalidConfig ''server.roles must list at least one of api, worker'')
      else if mc_bearer_token (cf_metrics cf) = [] then Err (InvalidConfig ''metrics.bearer_token must not be empty'')
      else and_then (validate_chains [] (cf_chains cf))
        (\<lambda>_. validate_applications (map fst (cf_chains cf)) [] [] (cf_applications cf)))"

text \<open>The parser and the decoder hand over their message.\<close>

definition from_toml ::
  "(string \<Rightarrow> (toml, string) result) \<Rightarrow> (toml \<Rightarrow> (config, string) result) \<Rightarrow> environment \<Rightarrow> string \<Rightarrow> (config, config_error) result" where
  "from_toml parse decode env s =
     and_then (map_err ParseFailed (parse s)) (\<lambda>v.
     and_then (interpolate_value env v) (\<lambda>w.
     and_then (map_err ParseFailed (decode w)) (\<lambda>cf.
     and_then (validate cf) (\<lambda>_. Ok cf))))"

definition load ::
  "(string \<Rightarrow> (string, string) result) \<Rightarrow> (string \<Rightarrow> (toml, string) result) \<Rightarrow> (toml \<Rightarrow> (config, string) result) \<Rightarrow> environment \<Rightarrow> string \<Rightarrow> (config, config_error) result" where
  "load read parse decode env path = and_then (map_err (ReadFailed path) (read path)) (from_toml parse decode env)"

section \<open>What an accepted configuration guarantees\<close>

definition lag_ok :: "finality_config \<Rightarrow> bool" where
  "lag_ok f = (case f of LagBlocks s n \<Rightarrow> s \<le> n | RpcTags \<Rightarrow> True)"

definition config_ok :: "config \<Rightarrow> bool" where
  "config_ok cf =
     (sv_roles (cf_server cf) \<noteq> [] \<and> mc_bearer_token (cf_metrics cf) \<noteq> [] \<and>
      distinct (map (\<lambda>e. cg_chain_id (snd e)) (cf_chains cf)) \<and> (\<forall>e\<in>set (cf_chains cf). lag_ok (cg_finality (snd e))) \<and>
      distinct (map ac_id (cf_applications cf)) \<and> distinct (map ac_token (cf_applications cf)) \<and>
      (\<forall>app\<in>set (cf_applications cf). ac_id app \<noteq> [] \<and> ac_token app \<noteq> [] \<and> set (ac_chains app) \<subseteq> fst ` set (cf_chains cf)))"

lemma check_lag_iff: "check_lag name f = Ok () \<longleftrightarrow> lag_ok f"
  by (cases f) (auto simp: lag_ok_def)

lemma validate_chains_iff:
  "validate_chains seen cs = Ok () \<longleftrightarrow>
   distinct (map (\<lambda>e. cg_chain_id (snd e)) cs) \<and> (\<forall>e\<in>set cs. cg_chain_id (snd e) \<notin> set seen \<and> lag_ok (cg_finality (snd e)))"
proof (induction seen cs rule: validate_chains.induct)
  case (2 seen name c rest)
  then show ?case using check_lag_iff [of name "cg_finality c"] by (cases "check_lag name (cg_finality c)") (auto simp: image_iff)
qed simp

lemma validate_applications_iff:
  "validate_applications known ids tokens apps = Ok () \<longleftrightarrow>
   distinct (map ac_id apps) \<and> distinct (map ac_token apps) \<and>
   (\<forall>app\<in>set apps. ac_id app \<noteq> [] \<and> ac_id app \<notin> set ids \<and> ac_token app \<noteq> [] \<and> ac_token app \<notin> set tokens \<and> set (ac_chains app) \<subseteq> set known)"
proof (induction known ids tokens apps rule: validate_applications.induct)
  case (2 known ids tokens app rest)
  have "find (\<lambda>c. c \<notin> set known) (ac_chains app) = None \<longleftrightarrow> set (ac_chains app) \<subseteq> set known"
    by (auto simp: find_None_iff)
  then show ?case using 2 by (cases "find (\<lambda>c. c \<notin> set known) (ac_chains app)") (auto simp: image_iff)
qed simp

lemma validate_iff: "validate cf = Ok () \<longleftrightarrow> config_ok cf"
  by (cases "validate_chains [] (cf_chains cf)")
     (use validate_chains_iff [of "[]" "cf_chains cf"] validate_applications_iff [of "map fst (cf_chains cf)" "[]" "[]" "cf_applications cf"] in
       \<open>auto simp: validate_def config_ok_def\<close>)

lemma validate_chains_err: "validate_chains seen cs = Err e \<Longrightarrow> \<exists>why. e = InvalidConfig why"
proof (induction seen cs rule: validate_chains.induct)
  case (2 seen name c rest)
  then show ?case by (cases "cg_finality c") (auto split: if_splits)
qed simp

lemma validate_applications_err: "validate_applications known ids tokens apps = Err e \<Longrightarrow> \<exists>why. e = InvalidConfig why"
  by (induction known ids tokens apps rule: validate_applications.induct) (auto split: if_splits option.splits)

lemma validate_err: "validate cf = Err e \<Longrightarrow> \<exists>why. e = InvalidConfig why"
  by (cases "validate_chains [] (cf_chains cf)")
     (auto simp: validate_def split: if_splits dest: validate_chains_err validate_applications_err)

text \<open>
  C19. The configuration that \<open>from_toml\<close> hands to the server is always well formed, and nothing well
  formed is refused: once the text parses, its placeholders resolve and the decoder accepts the
  value, the result is the decoded configuration if at least one role is listed, the metrics token
  is set, the chain ids are distinct, no safe lag exceeds its finalized lag, the application ids
  and tokens are distinct and not empty, and each application names configured chains only;
  otherwise it is an error of the validation.
\<close>

theorem from_toml_accepts_exactly:
  assumes "parse s = Ok v" and "interpolate_value env v = Ok w" and "decode w = Ok cf"
  shows "if config_ok cf then from_toml parse decode env s = Ok cf else (\<exists>why. from_toml parse decode env s = Err (InvalidConfig why))"
proof (cases "validate cf")
  case (Inl e)
  moreover have "\<exists>why. e = InvalidConfig why" using Inl by (rule validate_err)
  ultimately show ?thesis using validate_iff [of cf] assms by (auto simp: from_toml_def map_err_def)
next
  case (Inr u)
  then show ?thesis using validate_iff [of cf] assms by (auto simp: from_toml_def map_err_def)
qed

definition config_demo :: config where
  "config_demo =
     \<lparr>cf_server = \<lparr>sv_bind = ''127.0.0.1:8080'', sv_roles = [ApiRole, WorkerRole]\<rparr>,
      cf_database = \<lparr>dc_url = ''postgres://'', dc_max_connections = default_max_connections\<rparr>,
      cf_query = query_config_default, cf_follow = follow_config_default, cf_fill = fill_config_default,
      cf_metrics = \<lparr>mc_bearer_token = ''metrics''\<rparr>,
      cf_chains = [(''dev'',
        \<lparr>cg_chain_id = 7, cg_rpc_url = ''http://node'', cg_finality = LagBlocks 4 12, cg_tick_ms = default_tick_ms,
         cg_reorg_window_blocks = default_reorg_window_blocks, cg_chunk_blocks = 1000, cg_header_chunk_blocks = default_header_chunk_blocks,
         cg_max_get_logs_range_blocks = 2000, cg_max_addresses_per_query = 50,
         cg_provider = \<lparr>sp_rps = 10, sp_burst = 20, sp_daily_calls = None, sp_max_in_flight = 4, sp_min_range_blocks = default_min_range_blocks\<rparr>\<rparr>)],
      cf_applications =
        [\<lparr>ac_id = ''app'', ac_token = ''secret'', ac_chains = [''dev''], ac_datasets = [EvmLogs],
          ac_quota = \<lparr>qf_max_range_blocks = 1000, qf_max_requests_per_minute = 60, qf_max_concurrent_requests = 4, qf_max_subscriptions = 10,
            qf_max_fill_blocks_per_minute = None, qf_allow_unfiltered_logs = False\<rparr>, ac_admin = False\<rparr>]\<rparr>"

lemma config_demo_ok: "config_ok config_demo"
  by (simp add: config_ok_def config_demo_def lag_ok_def)

theorem from_toml_accepts_exactly_witness:
  "from_toml (\<lambda>_. Ok (TString ''${A}'')) (\<lambda>_. Ok config_demo) (\<lambda>_. Some ''x'') [] = Ok config_demo"
proof -
  have "interpolate_value (\<lambda>_. Some ''x'') (TString ''${A}'') = Ok (TString ''x'')"
    by (simp add: interpolate_def interpolate_loop.simps valid_name_def is_ascii_alphanumeric_def is_ascii_digit_def)
  then show ?thesis
    using from_toml_accepts_exactly [of "\<lambda>_. Ok (TString ''${A}'')" "[]" "TString ''${A}''" "\<lambda>_. Some ''x''" "TString ''x''" "\<lambda>_. Ok config_demo" config_demo]
      config_demo_ok by simp
qed

end
