(* ===== verification/Rows.thy ===== *)
theory Rows
  imports Engine_Effects Wire Plan
begin

text \<open>
  Reading a page of rows, \<open>crates/engine/src/rows.rs\<close>: what a query reads, the page of stored rows,
  the two enrichments that may ask the provider and store what it answers, and the projection
  to the requested fields. The serialisation of a record is \<open>serde\<close>'s and a parameter. A
  session is the state a request works on: the database, the engine's caches, the clock, the
  calls and waits made so far, and the caller's fill allowance.
\<close>

record session =
  se_db :: db
  se_engine :: engine
  se_now :: nat
  se_calls :: nat
  se_waits :: nat
  se_budget :: "fill_budget option"

record serde =
  sd_log :: "log_record \<Rightarrow> (json, string) result"
  sd_block :: "json block_record \<Rightarrow> (json, string) result"

definition LOG_FIELDS :: "string list" where
  "LOG_FIELDS = [''block_number'', ''block_hash'', ''transaction_hash'', ''transaction_index'', ''log_index'', ''address'',
     ''topics'', ''data'', ''finality'']"

definition LOG_ENRICHMENTS :: "string list" where
  "LOG_ENRICHMENTS = [''block_timestamp'', ''transaction_from'']"

section \<open>Targets\<close>

datatype row_target =
    TargetLogs log_selector "string btree_set option" (block_timestamp: bool) (transaction_from: bool)
  | TargetBlocks "string btree_set option"

definition target_new :: "dataset \<Rightarrow> log_selector option \<Rightarrow> string list option \<Rightarrow> (row_target, error) result" where
  "target_new ds sel flds =
     (let keep = map_option collect_set flds;
          listed = (\<lambda>name. case keep of None \<Rightarrow> False | Some ks \<Rightarrow> name \<in> set ks)
      in case ds of
        EvmLogs \<Rightarrow>
          (case find (\<lambda>f. f \<notin> set LOG_FIELDS \<and> f \<notin> set LOG_ENRICHMENTS) (case keep of None \<Rightarrow> [] | Some ks \<Rightarrow> ks) of
             Some unknown \<Rightarrow> Err (InvalidInput (''unknown evm.logs field '' @ debug_str unknown))
           | None \<Rightarrow>
               Ok (TargetLogs (case sel of None \<Rightarrow> sel_default | Some s \<Rightarrow> s) keep (listed ''block_timestamp'') (listed ''transaction_from'')))
      | EvmBlocks \<Rightarrow> if sel \<noteq> None then Err (InvalidInput ''evm.blocks takes no selector'') else Ok (TargetBlocks keep))"

definition target_parse :: "query_request \<Rightarrow> (row_target, error) result" where
  "target_parse rq = target_new (rq_dataset rq) (rq_selector rq) (rq_fields rq)"

fun target_selector :: "row_target \<Rightarrow> selector" where
  "target_selector (TargetLogs s _ _ _) = SelLogs s"
| "target_selector (TargetBlocks _) = SelBlocks"

definition wrong_cursor :: error where
  "wrong_cursor = InvalidInput ''page cursor belongs to another dataset''"

definition project :: "(json, string) result \<Rightarrow> string btree_set option \<Rightarrow> (json, error) result" where
  "project value keep =
     (case value of
        Inl e \<Rightarrow> Err (Internal e)
      | Inr v \<Rightarrow> Ok (case (v, keep) of (JObject obj, Some ks) \<Rightarrow> JObject (filter (\<lambda>(k, _). k \<in> set ks) obj) | _ \<Rightarrow> v))"

text \<open>Consecutive runs of ascending numbers that each hold one finality; the last run is kept apart.\<close>

fun finality_runs_loop :: "heads \<Rightarrow> u64 list \<Rightarrow> block_range list \<Rightarrow> block_range list" where
  "finality_runs_loop h [] runs = runs"
| "finality_runs_loop h (n # ns) runs =
     finality_runs_loop h ns
       (if runs \<noteq> [] \<and> br_end (last runs) + 1 = n \<and> row_finality_at (br_end (last runs)) h = row_finality_at n h
        then butlast runs @ [\<lparr>br_start = br_start (last runs), br_end = n\<rparr>]
        else runs @ (case ok (range_new n n) of None \<Rightarrow> [] | Some r \<Rightarrow> [r]))"

definition finality_runs :: "u64 list \<Rightarrow> heads \<Rightarrow> block_range list" where
  "finality_runs ns h = finality_runs_loop h ns []"

section \<open>Enrichments\<close>

definition set_rows_of :: "json row_store \<Rightarrow> session \<Rightarrow> session" where
  "set_rows_of r s = s\<lparr>se_db := (se_db s)\<lparr>db_rows := r\<rparr>\<rparr>"

definition with_senders :: "(b256 \<rightharpoonup> address) \<Rightarrow> log_record list \<Rightarrow> log_record list" where
  "with_senders senders records = map (\<lambda>r. r\<lparr>lr_transaction_from := senders (lr_transaction_hash r)\<rparr>) records"

text \<open>The senders the provider places in the block of the log that asked for them.\<close>

definition sender_rows :: "heads \<Rightarrow> log_record list \<Rightarrow> b256 list \<Rightarrow> (b256 \<rightharpoonup> tx_sender) \<Rightarrow> sender_row list" where
  "sender_rows h records miss found =
     (let blks = map_of (rev (map (\<lambda>r. (lr_transaction_hash r, (lr_block_number r, lr_block_hash r))) records))
      in List.map_filter (\<lambda>k. case found k of
           None \<Rightarrow> None
         | Some sd \<Rightarrow> if blks k = Some (tx_block_number sd, tx_block_hash sd)
             then Some \<lparr>snd_hash = k, snd_block = tx_block_number sd, snd_sender = tx_address sd,
                        snd_finality = row_finality_at (tx_block_number sd) h\<rparr>
             else None) miss)"

definition attach_senders :: "chain \<Rightarrow> heads \<Rightarrow> log_record list \<Rightarrow> session \<Rightarrow> (log_record list, error) result \<times> session" where
  "attach_senders c h records s =
     (let hashes = map lr_transaction_hash records;
          miss = missing_hashes (db_rows (se_db s)) (chain_id_of c) hashes
      in if miss = [] then (Ok (with_senders (senders_of (db_rows (se_db s)) (chain_id_of c) hashes) records), s)
         else
           let s1 = s\<lparr>se_calls := se_calls s + 1\<rparr> in
           case ev_senders (ch_evm c) (se_calls s) miss of
             Inl e \<Rightarrow> (Err (provider_error_to_core e), s1)
           | Inr found \<Rightarrow>
               let rows = sender_rows h records miss (sl_senders found) in
               case insert_senders (db_rows (se_db s1)) (chain_id_of c) rows of
                 Inl e \<Rightarrow> (Err (store_error_to_core e), s1)
               | Inr r \<Rightarrow>
                   let s2 = set_rows_of r s1 in
                   if length rows < length miss
                   then (Err (Internal (''no canonical sender for '' @ dec (length miss - length rows) @ '' of '' @ dec (length miss) @ '' transactions'')), s2)
                   else (Ok (with_senders (senders_of (db_rows (se_db s2)) (chain_id_of c) hashes) records), s2))"

fun fetch_runs :: "chain \<Rightarrow> heads \<Rightarrow> block_range list \<Rightarrow> json block_row list \<Rightarrow> session \<Rightarrow> (json block_row list, error) result \<times> session" where
  "fetch_runs c h [] fetched s = (Ok fetched, s)"
| "fetch_runs c h (r # rs) fetched s =
     (case ev_headers (ch_evm c) (se_calls s) r (row_finality_at (br_end r) h) of
        Inl e \<Rightarrow> (Err (provider_error_to_core e), s\<lparr>se_calls := se_calls s + 1\<rparr>)
      | Inr hs \<Rightarrow> fetch_runs c h rs (fetched @ hs) (s\<lparr>se_calls := se_calls s + 1\<rparr>))"

definition with_timestamps :: "(u64 \<rightharpoonup> u64) \<Rightarrow> log_record list \<Rightarrow> log_record list" where
  "with_timestamps stamps records = map (\<lambda>r. r\<lparr>lr_block_timestamp := stamps (lr_block_number r)\<rparr>) records"

definition attach_timestamps :: "chain \<Rightarrow> heads \<Rightarrow> log_record list \<Rightarrow> session \<Rightarrow> (log_record list, error) result \<times> session" where
  "attach_timestamps c h records s =
     (let numbers = collect_set (map lr_block_number records) in
      case block_timestamps (db_rows (se_db s)) (chain_id_of c) numbers of
        Inl e \<Rightarrow> (Err (store_error_to_core e), s)
      | Inr stamps \<Rightarrow>
          let miss = filter (\<lambda>n. stamps n = None) numbers in
          if miss = [] then (Ok (with_timestamps stamps records), s)
          else
            let hashes = map_of (rev (map (\<lambda>r. (lr_block_number r, lr_block_hash r)) records)) in
            and_run (fetch_runs c h (finality_runs miss h) [] s) (\<lambda>all s1.
              let fetched = filter (\<lambda>b. hashes (blk_number b) = Some (blk_hash b)) all;
                  stamps' = stamps ++ map_of (rev (map (\<lambda>b. (blk_number b, blk_timestamp b)) fetched))
              in case insert_blocks (db_rows (se_db s1)) (chain_id_of c) fetched of
                   Inr r \<Rightarrow> (Ok (with_timestamps stamps' records), set_rows_of r s1)
                 | Inl e \<Rightarrow> (case e of
                     StReorg _ \<Rightarrow> (Ok (with_timestamps stamps' records), s1)
                   | _ \<Rightarrow> (Err (store_error_to_core e), s1))))"

section \<open>Pages\<close>

record row_page =
  rp_served :: block_range
  rp_cursor :: "cursor option"
  rp_limit :: u32

text \<open>A header as \<open>BlockRecord::from\<close> reads it: its fields when it is an object.\<close>

definition object_row :: "json block_row \<Rightarrow> (string \<times> json) list option block_row" where
  "object_row b =
     \<lparr>blk_number = blk_number b, blk_hash = blk_hash b, blk_parent_hash = blk_parent_hash b, blk_timestamp = blk_timestamp b,
      blk_finality = blk_finality b, blk_header = (case blk_header b of JObject obj \<Rightarrow> Some obj | _ \<Rightarrow> None)\<rparr>"

definition log_records :: "chain \<Rightarrow> heads \<Rightarrow> bool \<Rightarrow> bool \<Rightarrow> log_row list \<Rightarrow> session \<Rightarrow> (log_record list, error) result \<times> session" where
  "log_records c h stamp sender rows s =
     and_run (if sender then attach_senders c h (map log_record_of rows) s else (Ok (map log_record_of rows), s)) (\<lambda>records s1.
       if stamp then attach_timestamps c h records s1 else (Ok records, s1))"

definition read_rows :: "serde \<Rightarrow> chain \<Rightarrow> row_target \<Rightarrow> row_page \<Rightarrow> heads \<Rightarrow> session \<Rightarrow> (json list \<times> string option, error) result \<times> session" where
  "read_rows sd c tg page h s =
     (case tg of
        TargetLogs sel keep stamp sender \<Rightarrow>
          (case (case rp_cursor page of None \<Rightarrow> Ok None | Some (CursorLog b i) \<Rightarrow> Ok (Some (b, i)) | Some (CursorBlock _) \<Rightarrow> Err wrong_cursor) of
             Inl e \<Rightarrow> (Err e, s)
           | Inr after \<Rightarrow>
               (case from_store (read_logs (db_rows (se_db s)) (chain_id_of c) sel (rp_served page) after (rp_limit page)) of
                  Inl e \<Rightarrow> (Err e, s)
                | Inr (rows, next) \<Rightarrow>
                    and_run (log_records c h stamp sender rows s) (\<lambda>records s1.
                      (map_ok (\<lambda>vs. (vs, map_option (\<lambda>(b, i). cursor_encode (CursorLog b i)) next))
                         (try_map (\<lambda>r. project (sd_log sd r) keep) records), s1))))
      | TargetBlocks keep \<Rightarrow>
          (case (case rp_cursor page of None \<Rightarrow> Ok None | Some (CursorBlock n) \<Rightarrow> Ok (Some n) | Some (CursorLog _ _) \<Rightarrow> Err wrong_cursor) of
             Inl e \<Rightarrow> (Err e, s)
           | Inr after \<Rightarrow>
               (case from_store (read_blocks (db_rows (se_db s)) (chain_id_of c) (rp_served page) after (rp_limit page)) of
                  Inl e \<Rightarrow> (Err e, s)
                | Inr (rows, next) \<Rightarrow>
                    (map_ok (\<lambda>vs. (vs, map_option (\<lambda>n. cursor_encode (CursorBlock n)) next))
                       (try_map (\<lambda>b. project (sd_block sd (block_record_of (object_row b))) keep) rows), s))))"

end
