(* ===== verification/Worker.thy ===== *)
theory Worker
  imports Engine_Effects
begin

text \<open>
  The fill worker, \<open>crates/engine/src/worker.rs\<close>: it claims a job with its siblings, fetches what
  their coverage lacks inside the chunk, and commits rows, coverage of the fetched prefixes and
  completion in one transaction. A fill reads the database twice: when it plans, and, after the
  fetches, when it commits; the two states are separate arguments, since other sessions run in
  between. Cancelling a fill (shutdown, or every lease lost) drops it between the two. Metrics,
  logging and the polling loops are left out.
\<close>

section \<open>Planning\<close>

definition engine_covered :: "db \<Rightarrow> chain \<Rightarrow> selector \<Rightarrow> selector_id \<Rightarrow> block_range \<Rightarrow> (block_range list, error) result" where
  "engine_covered d c sel sid r =
     from_store (case sel of
        SelLogs ls \<Rightarrow> covered_for_query (db_selectors d) (db_coverage d) (chain_id_of c) ls r
      | SelBlocks \<Rightarrow> covered (db_coverage d) (chain_id_of c) EvmBlocks [sid] r)"

definition MAX_BACKOFF :: nat where "MAX_BACKOFF = 300000"

definition INTERNAL_ATTEMPTS :: i32 where "INTERNAL_ATTEMPTS = 3"

definition job_backoff :: "i32 \<Rightarrow> nat" where
  "job_backoff attempts = min (1000 * 2 ^ nat (max 0 (min 9 (attempts - 1)))) MAX_BACKOFF"

datatype fill_error = FillProvider provider_error | FillReorg u64 | FillInternal error

fun fill_error_of_store :: "store_error \<Rightarrow> fill_error" where
  "fill_error_of_store (StReorg b) = FillReorg b"
| "fill_error_of_store other = FillInternal (store_error_to_core other)"

record gaps =
  gp_missing :: "block_range list"
  gp_members :: "(selector_id \<times> selector) list"

record fetch =
  ft_members :: "selector_id list"
  ft_blocks :: "block_range option"
  ft_calls :: i64

record fetched =
  fd_logs :: "log_row list"
  fd_blocks :: "json block_row list"
  fd_fetches :: "fetch list"
  fd_error :: "fill_error option"

definition held_members :: "fetch \<Rightarrow> selector_id list \<Rightarrow> selector_id list" where
  "held_members f held = filter (\<lambda>i. i \<in> set held) (ft_members f)"

definition claim_batch ::
  "int \<Rightarrow> job_id list \<Rightarrow> engine \<Rightarrow> db \<Rightarrow> string \<Rightarrow> (job list option, error) result \<times> db" where
  "claim_batch now locked en d worker =
     (case claim now locked (db_jobs d) worker (es_lease (en_settings en)) 1 None of
        (Inl e, t) \<Rightarrow> (Err (store_error_to_core e), d\<lparr>db_jobs := t\<rparr>)
      | (Inr [], t) \<Rightarrow> (Ok None, d\<lparr>db_jobs := t\<rparr>)
      | (Inr (x # xs), t) \<Rightarrow>
          let leader = last (x # xs) in
          (case (j_dataset leader, chain_by_id en (j_chain leader)) of
             (EvmLogs, Inr c) \<Rightarrow>
               (case claim_batch_siblings now locked t leader (min (cs_max_addresses (ch_settings c) - 1) u32_max) of
                  (Inl e, t') \<Rightarrow> (Err (store_error_to_core e), d\<lparr>db_jobs := t'\<rparr>)
                | (Inr siblings, t') \<Rightarrow> (Ok (Some (leader # siblings)), d\<lparr>db_jobs := t'\<rparr>))
           | _ \<Rightarrow> (Ok (Some [leader]), d\<lparr>db_jobs := t\<rparr>)))"

text \<open>Members with the same uncovered parts share an entry.\<close>

fun add_gap :: "block_range list \<Rightarrow> selector_id \<times> selector \<Rightarrow> gaps list \<Rightarrow> gaps list" where
  "add_gap miss m [] = [\<lparr>gp_missing = miss, gp_members = [m]\<rparr>]"
| "add_gap miss m (g # gs) =
     (if gp_missing g = miss then g\<lparr>gp_members := gp_members g @ [m]\<rparr> # gs else g # add_gap miss m gs)"

fun collect_gaps ::
  "db \<Rightarrow> chain \<Rightarrow> block_range \<Rightarrow> (selector_id \<times> selector) list \<Rightarrow> gaps list \<Rightarrow> (gaps list, error) result" where
  "collect_gaps d c r [] gs = Ok gs"
| "collect_gaps d c r ((i, sel) # ms) gs =
     and_then (engine_covered d c sel i r) (\<lambda>cov.
       let miss = uncovered r cov in
       collect_gaps d c r ms (if miss = [] then gs else add_gap miss (i, sel) gs))"

section \<open>Fetching\<close>

fun group_members ::
  "usize \<Rightarrow> (selector_id \<times> log_selector) list \<Rightarrow> (selector_id \<times> log_selector) list list \<Rightarrow> (selector_id \<times> log_selector) list list" where
  "group_members mx [] groups = groups"
| "group_members mx (m # ms) groups =
     group_members mx ms
       (if groups \<noteq> [] \<and> sel_batch (map snd (last groups @ [m])) mx \<noteq> None
        then butlast groups @ [last groups @ [m]] else groups @ [[m]])"

definition batch_groups :: "(selector_id \<times> log_selector) list \<Rightarrow> usize \<Rightarrow> (selector_id \<times> log_selector) list list" where
  "batch_groups members mx = group_members mx members []"

definition only_logs :: "(selector_id \<times> selector) list \<Rightarrow> (selector_id \<times> log_selector) list" where
  "only_logs ms = List.map_filter (\<lambda>(i, sel). case sel of SelLogs ls \<Rightarrow> Some (i, ls) | SelBlocks \<Rightarrow> None) ms"

text \<open>The calls of \<open>fetch_logs\<close> in the order its three loops make them: one per batch group and gap.\<close>

definition log_work :: "usize \<Rightarrow> gaps list \<Rightarrow> ((selector_id \<times> log_selector) list \<times> block_range) list" where
  "log_work mx gs =
     concat (map (\<lambda>g. concat (map (\<lambda>grp. map (Pair grp) (gp_missing g)) (batch_groups (only_logs (gp_members g)) mx))) gs)"

definition group_query :: "usize \<Rightarrow> (selector_id \<times> log_selector) list \<Rightarrow> log_selector" where
  "group_query mx grp = (case sel_batch (map snd grp) mx of Some q \<Rightarrow> q | None \<Rightarrow> snd (hd grp))"

definition keep_rows :: "(selector_id \<times> log_selector) list \<Rightarrow> log_row list \<Rightarrow> (log_cursor, log_row) btree_map \<Rightarrow> (log_cursor, log_row) btree_map" where
  "keep_rows grp page rows =
     fold (\<lambda>l acc. if list_ex (\<lambda>m. sel_matches (snd m) l) grp then btree_insert (log_pos l) l acc else acc) page rows"

definition clamp_i64 :: "u64 \<Rightarrow> i64" where
  "clamp_i64 n = (case i64_of_u64 n of None \<Rightarrow> i64_max | Some i \<Rightarrow> i)"

definition log_fetch :: "(selector_id \<times> log_selector) list \<Rightarrow> block_range \<Rightarrow> logs_page \<Rightarrow> fetch" where
  "log_fetch grp gap page =
     \<lparr>ft_members = map fst grp,
      ft_blocks = (case lp_fetched_to page of None \<Rightarrow> None | Some b \<Rightarrow> ok (range_new (br_start gap) b)),
      ft_calls = clamp_i64 (lp_calls page)\<rparr>"

fun run_log_work ::
  "chain \<Rightarrow> finality \<Rightarrow> ((selector_id \<times> log_selector) list \<times> block_range) list \<Rightarrow> (log_cursor, log_row) btree_map \<Rightarrow> fetch list \<Rightarrow> nat
     \<Rightarrow> (log_cursor, log_row) btree_map \<times> fetch list \<times> fill_error option" where
  "run_log_work c fin [] rows fetches t = (rows, fetches, None)"
| "run_log_work c fin ((grp, gap) # work) rows fetches t =
     (let res = ev_logs (ch_evm c) t (group_query (cs_max_addresses (ch_settings c)) grp) gap fin;
          page = page_of res;
          rows' = keep_rows grp (lp_rows page) rows;
          fetches' = fetches @ [log_fetch grp gap page]
      in case res of
        Inr _ \<Rightarrow> run_log_work c fin work rows' fetches' (t + 1)
      | Inl (_, e) \<Rightarrow> (rows', fetches', Some (FillProvider e)))"

definition fetch_logs :: "chain \<Rightarrow> gaps list \<Rightarrow> finality \<Rightarrow> nat \<Rightarrow> fetched" where
  "fetch_logs c gs fin t =
     (case run_log_work c fin (log_work (cs_max_addresses (ch_settings c)) gs) [] [] t of
        (rows, fetches, e) \<Rightarrow> \<lparr>fd_logs = map snd rows, fd_blocks = [], fd_fetches = fetches, fd_error = e\<rparr>)"

fun run_block_work :: "chain \<Rightarrow> finality \<Rightarrow> (selector_id list \<times> block_range) list \<Rightarrow> fetched \<Rightarrow> nat \<Rightarrow> fetched" where
  "run_block_work c fin [] f t = f"
| "run_block_work c fin ((ids, gap) # work) f t =
     (case ev_headers (ch_evm c) t gap fin of
        Inr blks \<Rightarrow>
          run_block_work c fin work
            (f\<lparr>fd_blocks := fd_blocks f @ blks, fd_fetches := fd_fetches f @ [\<lparr>ft_members = ids, ft_blocks = Some gap, ft_calls = 1\<rparr>]\<rparr>) (t + 1)
      | Inl e \<Rightarrow>
          f\<lparr>fd_fetches := fd_fetches f @ [\<lparr>ft_members = ids, ft_blocks = None, ft_calls = 1\<rparr>], fd_error := Some (FillProvider e)\<rparr>)"

definition fetch_blocks :: "chain \<Rightarrow> gaps list \<Rightarrow> finality \<Rightarrow> nat \<Rightarrow> fetched" where
  "fetch_blocks c gs fin t =
     run_block_work c fin (concat (map (\<lambda>g. map (Pair (map fst (gp_members g))) (gp_missing g)) gs))
       \<lparr>fd_logs = [], fd_blocks = [], fd_fetches = [], fd_error = None\<rparr> t"

section \<open>Committing\<close>

fun cover_fetches ::
  "selectors_table \<Rightarrow> coverage_row list \<Rightarrow> chain_id \<Rightarrow> dataset \<Rightarrow> selector_id list \<Rightarrow> finality \<Rightarrow> fetch list
     \<Rightarrow> (coverage_row list, store_error) result" where
  "cover_fetches t cov i ds held fin [] = Ok cov"
| "cover_fetches t cov i ds held fin (f # fs) =
     (case ft_blocks f of
        None \<Rightarrow> cover_fetches t cov i ds held fin fs
      | Some r \<Rightarrow>
          if held_members f held = [] then cover_fetches t cov i ds held fin fs
          else and_then (add_coverage_many t cov i ds (held_members f held) r fin) (\<lambda>cov'.
            cover_fetches t cov' i ds held fin fs))"

definition fill_tx ::
  "int \<Rightarrow> db \<Rightarrow> string \<Rightarrow> chain \<Rightarrow> dataset \<Rightarrow> finality \<Rightarrow> fetched \<Rightarrow> job_id list \<Rightarrow> selector_id list \<Rightarrow> (db, store_error) result" where
  "fill_tx now d worker c ds fin f held held_selectors =
     and_then (insert_logs (db_rows d) (chain_id_of c) (fd_logs f)) (\<lambda>r1.
     and_then (insert_blocks r1 (chain_id_of c) (fd_blocks f)) (\<lambda>r2.
     and_then (cover_fetches (db_selectors d) (db_coverage d) (chain_id_of c) ds held_selectors fin (fd_fetches f)) (\<lambda>cov.
       Ok (d\<lparr>db_rows := r2, db_coverage := cov,
             db_jobs := (if fd_error f = None then snd (complete_jobs now (db_jobs d) worker held) else db_jobs d)\<rparr>))))"

text \<open>What each held member is charged; the fetches' calls are split over them.\<close>

fun fetch_counts :: "fetch \<Rightarrow> nat \<Rightarrow> (nat \<times> selector_id) list \<Rightarrow> (selector_id \<times> usage_counts) list \<Rightarrow> (selector_id \<times> usage_counts) list" where
  "fetch_counts f n [] counts = counts"
| "fetch_counts f n ((index, i) # rest) counts =
     fetch_counts f n rest
       (bump i (UsageCounts 0 0 0 (case ft_blocks f of None \<Rightarrow> 0 | Some r \<Rightarrow> int (range_len r)) (call_share (ft_calls f) n index)) counts)"

definition fill_counts :: "fetch list \<Rightarrow> selector_id list \<Rightarrow> (selector_id \<times> usage_counts) list" where
  "fill_counts fetches held =
     fold (\<lambda>f. let ms = held_members f held in fetch_counts f (length ms) (enumerate 0 ms)) fetches []"

fun charge_jobs :: "nat \<Rightarrow> chain_id \<Rightarrow> job list \<Rightarrow> (selector_id \<times> usage_counts) list \<Rightarrow> usage_book \<Rightarrow> usage_book" where
  "charge_jobs today i [] counts book = book"
| "charge_jobs today i (jb # jobs) counts book =
     (case map_of counts (j_selector jb) of
        None \<Rightarrow> charge_jobs today i jobs counts book
      | Some add \<Rightarrow>
          charge_jobs today i jobs (filter (\<lambda>x. fst x \<noteq> j_selector jb) counts)
            (usage_record today (j_application jb) i (j_dataset jb) add book))"

definition record_fill_usage :: "nat \<Rightarrow> chain \<Rightarrow> job list \<Rightarrow> fetch list \<Rightarrow> selector_id list \<Rightarrow> usage_book \<Rightarrow> usage_book" where
  "record_fill_usage today c jobs fetches held book = charge_jobs today (chain_id_of c) jobs (fill_counts fetches held) book"

text \<open>The first half of \<open>fill\<close>: what to fetch, read from the database \<open>d\<close>, and the fetches.\<close>

definition fill_fetch ::
  "nat \<Rightarrow> nat \<Rightarrow> engine \<Rightarrow> db \<Rightarrow> job \<Rightarrow> job list \<Rightarrow> (chain \<times> finality \<times> fetched, error) result \<times> engine" where
  "fill_fetch now t en d leader jobs =
     (case chain_by_id en (j_chain leader) of
        Inl e \<Rightarrow> (Err e, en)
      | Inr c \<Rightarrow>
          and_run (engine_heads now d en c) (\<lambda>h en.
            let fin = fill_finality (j_blocks leader) h in
            (and_then (from_store (selectors_by_id (db_selectors d) (map j_selector jobs))) (\<lambda>members.
             and_then (collect_gaps d c (j_blocks leader) (sort_key fst members) []) (\<lambda>gs.
               Ok (c, fin, case j_dataset leader of EvmLogs \<Rightarrow> fetch_logs c gs fin t | EvmBlocks \<Rightarrow> fetch_blocks c gs fin t))), en)))"

text \<open>The second half, on the database as it is when the fetches are done.\<close>

definition fill_commit ::
  "int \<Rightarrow> nat \<Rightarrow> engine \<Rightarrow> db \<Rightarrow> string \<Rightarrow> job \<Rightarrow> job list \<Rightarrow> chain \<Rightarrow> finality \<Rightarrow> fetched
     \<Rightarrow> (unit, fill_error) result \<times> db \<times> engine" where
  "fill_commit now today en d worker leader jobs c fin f =
     (case extend_lease now (db_jobs d) worker (map j_id jobs) (es_lease (en_settings en)) of
        (Inl e, t) \<Rightarrow> (Err (fill_error_of_store e), d\<lparr>db_jobs := t\<rparr>, en)
      | (Inr held, t) \<Rightarrow>
          let d1 = d\<lparr>db_jobs := t\<rparr>;
              held_selectors = map j_selector (filter (\<lambda>jb. j_id jb \<in> set held) jobs)
          in (case fill_tx now d1 worker c (j_dataset leader) fin f held held_selectors of
                Inl e \<Rightarrow> (Err (fill_error_of_store e), d1, en)
              | Inr d2 \<Rightarrow>
                  (case fd_error f of None \<Rightarrow> Ok () | Some e \<Rightarrow> Err e, d2,
                   en\<lparr>en_usage := record_fill_usage today c jobs (fd_fetches f) held_selectors (en_usage en)\<rparr>)))"

definition fill ::
  "int \<Rightarrow> nat \<Rightarrow> nat \<Rightarrow> engine \<Rightarrow> db \<Rightarrow> db \<Rightarrow> string \<Rightarrow> job list \<Rightarrow> (unit, fill_error) result \<times> db \<times> engine" where
  "fill now today t en d later worker jobs =
     (let leader = hd jobs in
      case fill_fetch (nat now) t en d leader jobs of
        (Inl e, en') \<Rightarrow> (Err (FillInternal e), later, en')
      | (Inr (c, fin, f), en') \<Rightarrow> fill_commit now today en' later worker leader jobs c fin f)"

text \<open>Under which purpose a fill's calls are charged.\<close>

definition fill_purpose :: "job \<Rightarrow> purpose" where
  "fill_purpose jb = (case j_purpose jb of JpQuery \<Rightarrow> PQueryFill | JpBackfill \<Rightarrow> PBackfill)"

section \<open>Failures\<close>

record failure =
  fl_body :: error_json
  fl_retryable :: bool
  fl_retry_after :: nat

definition failure_body :: "string \<Rightarrow> string \<Rightarrow> error_json" where
  "failure_body kind message = [(''kind'', kind), (''message'', message)]"

text \<open>A provider's \<open>retry_after\<close> is in nanoseconds, the job's back-off in milliseconds.\<close>

fun failure_of :: "job \<Rightarrow> fill_error \<Rightarrow> failure" where
  "failure_of leader (FillProvider e) =
     \<lparr>fl_body = failure_body (pe_kind e) (show_provider_error e),
      fl_retryable = (case e of PeNotReady \<Rightarrow> True | PeRateLimited _ \<Rightarrow> True | PeTransient _ \<Rightarrow> True
        | PeBudgetExhausted \<Rightarrow> True | PeThrottled \<Rightarrow> True | _ \<Rightarrow> False),
      fl_retry_after = (case e of PeRateLimited after \<Rightarrow> after div 1000000 | _ \<Rightarrow> 0)\<rparr>"
| "failure_of leader (FillReorg b) =
     \<lparr>fl_body = failure_body ''reorg'' (''block hash mismatch at block '' @ dec b), fl_retryable = True, fl_retry_after = 0\<rparr>"
| "failure_of leader (FillInternal e) =
     \<lparr>fl_body = failure_body ''internal'' (show_error e), fl_retryable = (j_attempts leader < INTERNAL_ATTEMPTS), fl_retry_after = 0\<rparr>"

definition failure_backoff :: "failure \<Rightarrow> job \<Rightarrow> nat" where
  "failure_backoff f jb = min (max (job_backoff (j_attempts jb)) (fl_retry_after f)) MAX_BACKOFF"

fun fail_jobs :: "int \<Rightarrow> jobs_table \<Rightarrow> string \<Rightarrow> failure \<Rightarrow> job list \<Rightarrow> jobs_table" where
  "fail_jobs now t worker f [] = t"
| "fail_jobs now t worker f (jb # jobs) =
     fail_jobs now (snd (fail_job now t (j_id jb) worker (fl_body f) (fl_retryable f) (failure_backoff f jb))) worker f jobs"

definition execute :: "int \<Rightarrow> nat \<Rightarrow> nat \<Rightarrow> engine \<Rightarrow> db \<Rightarrow> db \<Rightarrow> string \<Rightarrow> job list \<Rightarrow> db \<times> engine" where
  "execute now today t en d later worker jobs =
     (case fill now today t en d later worker jobs of
        (Inr _, d', en') \<Rightarrow> (d', en')
      | (Inl e, d', en') \<Rightarrow> (d'\<lparr>db_jobs := fail_jobs now (db_jobs d') worker (failure_of (hd jobs) e) jobs\<rparr>, en'))"

text \<open>\<open>fill_once\<close>: a batch is claimed and run; the result says whether a job was ready.\<close>

definition fill_once :: "int \<Rightarrow> nat \<Rightarrow> nat \<Rightarrow> job_id list \<Rightarrow> engine \<Rightarrow> db \<Rightarrow> (db \<Rightarrow> db) \<Rightarrow> string \<Rightarrow> (bool, error) result \<times> db \<times> engine" where
  "fill_once now today t locked en d others worker =
     (case claim_batch now locked en d worker of
        (Inl e, d') \<Rightarrow> (Err e, d', en)
      | (Inr None, d') \<Rightarrow> (Ok False, d', en)
      | (Inr (Some jobs), d') \<Rightarrow>
          (case execute now today t en d' (others d') worker jobs of (d'', en') \<Rightarrow> (Ok True, d'', en')))"

fun release_jobs :: "int \<Rightarrow> jobs_table \<Rightarrow> string \<Rightarrow> job_id list \<Rightarrow> jobs_table" where
  "release_jobs now t worker [] = t"
| "release_jobs now t worker (i # ids) =
     release_jobs now (snd (fail_job now t i worker (failure_body ''shutdown'' ''worker stopped'') True 0)) worker ids"

text \<open>One round of \<open>renew_leases\<close>; \<open>None\<close> when no job is held any more.\<close>

definition renew_round :: "int \<Rightarrow> engine \<Rightarrow> db \<Rightarrow> string \<Rightarrow> job_id list \<Rightarrow> job_id list option \<times> db" where
  "renew_round now en d worker held =
     (case extend_lease now (db_jobs d) worker held (es_lease (en_settings en)) of
        (Inl _, t) \<Rightarrow> (Some held, d\<lparr>db_jobs := t\<rparr>)
      | (Inr [], t) \<Rightarrow> (None, d\<lparr>db_jobs := t\<rparr>)
      | (Inr kept, t) \<Rightarrow> (Some kept, d\<lparr>db_jobs := t\<rparr>))"

end
