(* ===== verification/Query.thy ===== *)
theory Query
  imports Rows Worker
begin

text \<open>
  Queries and subscriptions, \<open>crates/engine/src/query.rs\<close>, \<open>subscribe.rs\<close> and \<open>admin.rs\<close>. Other
  sessions change the database while a request waits: the \<open>n\<close>-th wait of a request takes the
  \<open>n\<close>-th entry of a schedule, which says what the others did to the database meanwhile, how much
  time passed beyond the one unit every wait takes, and the error the wait ended with, if any. A
  wait for heads then reads \<open>chain_heads\<close> as the store does. The others also run once between
  the moment a query knows what it serves and the moment it reads the rows.
\<close>

record wake =
  wk_db :: "db \<Rightarrow> db"
  wk_took :: nat
  wk_error :: "store_error option"

type_synonym schedule = "nat \<Rightarrow> wake"

record caller =
  cl_application :: string
  cl_max_subscriptions :: "u32 option"

type_synonym blocker = "incomplete_reason \<times> string option"

record progress =
  pr_served :: "block_range option"
  pr_blocker :: "blocker option"

definition progress_reaches :: "progress \<Rightarrow> u64 \<Rightarrow> bool" where
  "progress_reaches p e = (case pr_served p of None \<Rightarrow> False | Some r \<Rightarrow> br_end r = e)"

record hot =
  ho_progress :: progress
  ho_segment :: "segment option"

definition await :: "schedule \<Rightarrow> session \<Rightarrow> session" where
  "await w s =
     (let k = w (se_waits s)
      in s\<lparr>se_db := wk_db k (se_db s), se_now := se_now s + 1 + wk_took k, se_waits := se_waits s + 1\<rparr>)"

section \<open>Subscriptions\<close>

definition RENEW_EVERY :: nat where "RENEW_EVERY = 60000"

definition TOUCHED_CAP :: nat where "TOUCHED_CAP = 10000"

definition subscription_quota :: "caller \<Rightarrow> error" where
  "subscription_quota cl =
     Forbidden (''application '' @ cl_application cl @ '' is at max_subscriptions '' @ dec (case cl_max_subscriptions cl of None \<Rightarrow> 0 | Some m \<Rightarrow> m))"

definition init_follow :: "chain \<Rightarrow> dataset \<Rightarrow> selector_id \<Rightarrow> u64 \<Rightarrow> session \<Rightarrow> (follow_progress, error) result \<times> session" where
  "init_follow c ds sid from_block s =
     (case follow_get_or_init (db_follow (se_db s)) (chain_id_of c) ds sid from_block 0 of
        (Inl e, _) \<Rightarrow> (Err (store_error_to_core e), s)
      | (Inr row, t) \<Rightarrow> (Ok row, s\<lparr>se_db := (se_db s)\<lparr>db_follow := t\<rparr>\<rparr>))"

definition at_quota :: "caller \<Rightarrow> chain \<Rightarrow> dataset \<Rightarrow> selector_id \<Rightarrow> session \<Rightarrow> bool" where
  "at_quota cl c ds sid s =
     (case cl_max_subscriptions cl of
        None \<Rightarrow> False
      | Some m \<Rightarrow>
          let live = application_subscriptions (int (se_now s)) (db_subs (se_db s)) (cl_application cl)
          in \<not> list_ex (\<lambda>sub. sb_chain sub = chain_id_of c \<and> sb_dataset sub = ds \<and> sb_selector sub = sid) live \<and> m \<le> length live)"

definition note_touched :: "subscription_key \<Rightarrow> nat \<Rightarrow> session \<Rightarrow> session" where
  "note_touched key every s =
     (let old = en_touched (se_engine s);
          live = (if TOUCHED_CAP \<le> length old then filter (\<lambda>(_, at). se_now s - at < every) old else old)
      in s\<lparr>se_engine := (se_engine s)\<lparr>en_touched := (key, se_now s) # filter (\<lambda>(k, _). k \<noteq> key) live\<rparr>\<rparr>)"

definition attach ::
  "caller \<Rightarrow> chain \<Rightarrow> dataset \<Rightarrow> selector_id \<Rightarrow> u64 \<Rightarrow> subscription_source \<Rightarrow> session
     \<Rightarrow> (follow_progress option, error) result \<times> session" where
  "attach cl c ds sid safe_head source s =
     (let ttl = es_subscription_ttl (en_settings (se_engine s));
          key = (chain_id_of c, ds, sid, cl_application cl);
          every = min RENEW_EVERY (ttl div 2);
          fresh = (source = SubAuto \<and> (case map_of (en_touched (se_engine s)) key of None \<Rightarrow> False | Some at \<Rightarrow> se_now s - at < every));
          start = (\<lambda>s. and_run (init_follow c ds sid (safe_head + 1) s) (\<lambda>row s. (Ok (Some row), s)))
      in if fresh then start s
         else if at_quota cl c ds sid s then (Ok None, s)
         else (case touch_subscription (int (se_now s)) (db_subs (se_db s)) (chain_id_of c) ds sid (cl_application cl) source ttl of
                 Inl e \<Rightarrow> (Err (store_error_to_core e), s)
               | Inr subs \<Rightarrow> start (note_touched key every (s\<lparr>se_db := (se_db s)\<lparr>db_subs := subs\<rparr>\<rparr>))))"

definition intern_selector :: "(string \<Rightarrow> bytes) \<Rightarrow> chain \<Rightarrow> selector \<Rightarrow> session \<Rightarrow> selector_id \<times> session" where
  "intern_selector sha256 c sel s =
     (case upsert_selector sha256 (int (se_now s)) (db_selectors (se_db s)) (chain_id_of c) sel of
        (i, t) \<Rightarrow> (i, s\<lparr>se_db := (se_db s)\<lparr>db_selectors := t\<rparr>\<rparr>))"

definition run_heads :: "chain \<Rightarrow> session \<Rightarrow> (heads, error) result \<times> session" where
  "run_heads c s = (case engine_heads (se_now s) (se_db s) (se_engine s) c of (r, en) \<Rightarrow> (r, s\<lparr>se_engine := en\<rparr>))"

definition run_fresh_heads :: "chain \<Rightarrow> session \<Rightarrow> (heads, error) result \<times> session" where
  "run_fresh_heads c s = (case fresh_heads (se_now s) (se_db s) (se_engine s) c of (r, en) \<Rightarrow> (r, s\<lparr>se_engine := en\<rparr>))"

definition follow_info_of :: "follow_progress \<Rightarrow> follow_info" where
  "follow_info_of p =
     (let reached = (\<lambda>b. case u64_of_i64 b of None \<Rightarrow> None | Some n \<Rightarrow> if fp_from p \<le> n then Some n else None);
          head = reached (fp_head p)
      in \<lparr>fi_from_block = fp_from p, fi_head_block = head, fi_head_hash = map_option (\<lambda>_. fp_head_hash p) head,
          fi_promoted_to = reached (fp_promoted p)\<rparr>)"

definition watch :: "(string \<Rightarrow> bytes) \<Rightarrow> caller \<Rightarrow> watch_request \<Rightarrow> session \<Rightarrow> (watch_response, error) result \<times> session" where
  "watch sha256 cl rq s =
     (case engine_chain (se_engine s) (wq_chain rq) of
        Inl e \<Rightarrow> (Err e, s)
      | Inr c \<Rightarrow>
          (case target_new (wq_dataset rq) (wq_selector rq) None of
             Inl e \<Rightarrow> (Err e, s)
           | Inr tg \<Rightarrow>
               and_run (run_heads c s) (\<lambda>h s1.
                 case intern_selector sha256 c (target_selector tg) s1 of (sid, s2) \<Rightarrow>
                   and_run (attach cl c (wq_dataset rq) sid (safe h) SubExplicit s2) (\<lambda>at s3.
                     case at of
                       None \<Rightarrow> (Err (subscription_quota cl), s3)
                     | Some p \<Rightarrow>
                         (Ok \<lparr>wr_chain = wq_chain rq, wr_dataset = wq_dataset rq, wr_selector_id = sid,
                              wr_ttl_ms = min (es_subscription_ttl (en_settings (se_engine s3))) u64_max, wr_follow = follow_info_of p\<rparr>, s3)))))"

definition unwatch :: "(string \<Rightarrow> bytes) \<Rightarrow> string \<Rightarrow> watch_request \<Rightarrow> session \<Rightarrow> (unit, error) result \<times> session" where
  "unwatch sha256 app rq s =
     (case engine_chain (se_engine s) (wq_chain rq) of
        Inl e \<Rightarrow> (Err e, s)
      | Inr c \<Rightarrow>
          (case target_new (wq_dataset rq) (wq_selector rq) None of
             Inl e \<Rightarrow> (Err e, s)
           | Inr tg \<Rightarrow>
               (case intern_selector sha256 c (target_selector tg) s of (sid, s1) \<Rightarrow>
                  (Ok (), s1\<lparr>se_db := (se_db s1)\<lparr>db_subs := remove_subscription (db_subs (se_db s1)) (chain_id_of c) (wq_dataset rq) sid app\<rparr>,
                             se_engine := (se_engine s1)\<lparr>en_touched :=
                               filter (\<lambda>(k, _). k \<noteq> (chain_id_of c, wq_dataset rq, sid, app)) (en_touched (se_engine s1))\<rparr>\<rparr>))))"

definition wait_heads :: "schedule \<Rightarrow> chain_name \<Rightarrow> u64 \<Rightarrow> head_kind \<Rightarrow> session \<Rightarrow> (chain_heads, error) result \<times> session" where
  "wait_heads w name after kind s =
     (case engine_chain (se_engine s) name of
        Inl e \<Rightarrow> (Err e, s)
      | Inr c \<Rightarrow>
          let s1 = await w s in
          (case wk_error (w (se_waits s)) of
             Some e \<Rightarrow> (Err (store_error_to_core e), s1)
           | None \<Rightarrow>
               (case head_change_check (db_heads (se_db s1)) (chain_id_of c) after kind of
                  Some h \<Rightarrow> (Ok (chain_heads_new name h), s1)
                | None \<Rightarrow> (engine_chain_heads (se_db s1) (se_engine s1) name, s1))))"

section \<open>The durable part\<close>

definition follows :: "engine_settings \<Rightarrow> query_finality \<Rightarrow> block_range \<Rightarrow> heads \<Rightarrow> bool" where
  "follows st fin r h =
     (case fin of DurableOnly \<Rightarrow> safe h \<le> sat_add (br_end r) (es_follow_attach_blocks st) | _ \<Rightarrow> True)"

definition served_prefix :: "db \<Rightarrow> chain \<Rightarrow> selector \<Rightarrow> selector_id \<Rightarrow> block_range \<Rightarrow> (block_range option, error) result" where
  "served_prefix d c sel sid dur = map_ok (\<lambda>cov. longest_covered_prefix cov dur) (engine_covered d c sel sid dur)"

definition fill_end_of :: "heads \<Rightarrow> follow_progress option \<Rightarrow> u64 option" where
  "fill_end_of h f =
     (case f of
        None \<Rightarrow> Some (safe h)
      | Some row \<Rightarrow> if fp_from row = 0 then None else Some (min (fp_from row - 1) (safe h)))"

definition fill_span_of :: "block_range \<Rightarrow> u64 \<Rightarrow> u64 option \<Rightarrow> block_range option" where
  "fill_span_of dur chunk fend =
     (case fend of None \<Rightarrow> None | Some e \<Rightarrow> if br_start dur \<le> e then grid_span dur chunk e else None)"

definition enqueue_one ::
  "caller \<Rightarrow> chain \<Rightarrow> dataset \<Rightarrow> selector_id \<Rightarrow> block_range \<Rightarrow> job_purpose \<Rightarrow> session \<Rightarrow> (job_id, error) result \<times> session" where
  "enqueue_one cl c ds sid ch purpose s =
     (case enqueue (int (se_now s)) (db_coverage (se_db s)) (db_jobs (se_db s)) (chain_id_of c) ds sid ch purpose (cl_application cl) of
        (r, t) \<Rightarrow> (from_store r, s\<lparr>se_db := (se_db s)\<lparr>db_jobs := t\<rparr>\<rparr>))"

text \<open>The allowance pays for new fills only; after a refused charge later chunks are only joined.\<close>

fun enqueue_chunks ::
  "caller \<Rightarrow> chain \<Rightarrow> dataset \<Rightarrow> selector_id \<Rightarrow> block_range list \<Rightarrow> (job_id \<times> block_range) list \<Rightarrow> bool \<Rightarrow> session
     \<Rightarrow> ((job_id \<times> block_range) list \<times> bool, error) result \<times> session" where
  "enqueue_chunks cl c ds sid [] jobs over s = (Ok (jobs, over), s)"
| "enqueue_chunks cl c ds sid (ch # chs) jobs over s =
     (case se_budget s of
        None \<Rightarrow>
          and_run (enqueue_one cl c ds sid ch JpQuery s) (\<lambda>i s1. enqueue_chunks cl c ds sid chs (jobs @ [(i, ch)]) over s1)
      | Some b \<Rightarrow>
          (case active_job (db_jobs (se_db s)) (chain_id_of c) ds sid ch of
             Some i \<Rightarrow> enqueue_chunks cl c ds sid chs (jobs @ [(i, ch)]) over s
           | None \<Rightarrow>
               if over then enqueue_chunks cl c ds sid chs jobs True s
               else (case try_take (se_now s) b (range_len ch) of
                       (False, b') \<Rightarrow> enqueue_chunks cl c ds sid chs jobs True (s\<lparr>se_budget := Some b'\<rparr>)
                     | (True, b') \<Rightarrow>
                         and_run (enqueue_one cl c ds sid ch JpQuery (s\<lparr>se_budget := Some b'\<rparr>)) (\<lambda>i s1.
                           enqueue_chunks cl c ds sid chs (jobs @ [(i, ch)]) over s1))))"

text \<open>Why a block is not covered yet, read from the job that owns its chunk.\<close>

definition blocker_of :: "db \<Rightarrow> (job_id \<times> block_range) list \<Rightarrow> u64 \<Rightarrow> bool \<Rightarrow> blocker" where
  "blocker_of d jobs b over =
     (case find (\<lambda>(_, ch). range_contains ch b) jobs of
        None \<Rightarrow> (if over then BudgetExhausted else Pending, None)
      | Some (i, _) \<Rightarrow>
          let state = (case job_status_of (db_jobs d) [i] of [] \<Rightarrow> None | st # _ \<Rightarrow> Some st);
              kind = (case state of None \<Rightarrow> None | Some st \<Rightarrow> (case js_last_error st of None \<Rightarrow> None | Some e \<Rightarrow> map_of e ''kind''))
          in (if map_option js_status state = Some JsFailed then ProviderError
              else if kind = Some ''budget_exhausted'' \<or> kind = Some ''throttled'' then BudgetExhausted
              else Pending, kind))"

definition reaches :: "block_range option \<Rightarrow> block_range \<Rightarrow> bool" where
  "reaches served dur = (case served of None \<Rightarrow> False | Some r \<Rightarrow> br_end r = br_end dur)"

definition first_missing :: "block_range \<Rightarrow> block_range option \<Rightarrow> u64" where
  "first_missing dur served = (case served of None \<Rightarrow> br_start dur | Some r \<Rightarrow> br_end r + 1)"

text \<open>The wait for promotion of blocks the follower owns. Every wait takes time, so the loop ends at
  the deadline.\<close>

function (sequential) promotion_wait ::
  "schedule \<Rightarrow> chain \<Rightarrow> selector \<Rightarrow> selector_id \<Rightarrow> block_range \<Rightarrow> nat \<Rightarrow> u64 \<Rightarrow> block_range option \<Rightarrow> session
     \<Rightarrow> (progress, error) result \<times> session" where
  "promotion_wait w c sel sid dur deadline after served s =
     (if deadline \<le> se_now s then (Ok \<lparr>pr_served = served, pr_blocker = Some (NotFollowedYet, None)\<rparr>, s)
      else let s1 = await w s in
        if wk_error (w (se_waits s)) \<noteq> None then (Ok \<lparr>pr_served = served, pr_blocker = Some (NotFollowedYet, None)\<rparr>, s1)
        else let after' = (case head_change_check (db_heads (se_db s1)) (chain_id_of c) after HkLatest of Some h \<Rightarrow> latest h | None \<Rightarrow> after) in
          (case served_prefix (se_db s1) c sel sid dur of
             Inl e \<Rightarrow> (Err e, s1)
           | Inr served' \<Rightarrow>
               if reaches served' dur then (Ok \<lparr>pr_served = served', pr_blocker = None\<rparr>, s1)
               else promotion_wait w c sel sid dur deadline after' served' s1))"
  by pat_completeness auto
termination
  by (relation "measure (\<lambda>(w, c, sel, sid, dur, deadline, after, served, s). deadline - se_now s)") (auto simp: await_def Let_def)

declare promotion_wait.simps [simp del]

definition wait_fills :: "schedule \<Rightarrow> nat \<Rightarrow> (job_id \<times> block_range) list \<Rightarrow> session \<Rightarrow> session" where
  "wait_fills w deadline jobs s = (if se_now s < deadline \<and> jobs \<noteq> [] then await w s else s)"

definition after_fills ::
  "schedule \<Rightarrow> chain \<Rightarrow> selector \<Rightarrow> selector_id \<Rightarrow> block_range \<Rightarrow> heads \<Rightarrow> nat \<Rightarrow> u64 option \<Rightarrow> (job_id \<times> block_range) list \<Rightarrow> bool \<Rightarrow> session
     \<Rightarrow> (progress, error) result \<times> session" where
  "after_fills w c sel sid dur h deadline fend jobs over s =
     (case served_prefix (se_db s) c sel sid dur of
        Inl e \<Rightarrow> (Err e, s)
      | Inr served \<Rightarrow>
          if reaches served dur then (Ok \<lparr>pr_served = served, pr_blocker = None\<rparr>, s)
          else if (case fend of None \<Rightarrow> True | Some e \<Rightarrow> e < first_missing dur served)
          then promotion_wait w c sel sid dur deadline (latest h) served s
          else (Ok \<lparr>pr_served = served, pr_blocker = Some (blocker_of (se_db s) jobs (first_missing dur served) over)\<rparr>, s))"

definition fill_durable ::
  "schedule \<Rightarrow> caller \<Rightarrow> chain \<Rightarrow> selector \<Rightarrow> selector_id \<Rightarrow> block_range \<Rightarrow> heads \<Rightarrow> nat \<Rightarrow> follow_progress option \<Rightarrow> session
     \<Rightarrow> (progress, error) result \<times> session" where
  "fill_durable w cl c sel sid dur h deadline follow s =
     (case (case follow of Some row \<Rightarrow> Ok (Some row) | None \<Rightarrow>
              from_store (get_follow_progress (db_follow (se_db s)) (chain_id_of c) (selector_dataset sel) sid)) of
        Inl e \<Rightarrow> (Err e, s)
      | Inr owner \<Rightarrow>
          let fend = fill_end_of h owner;
              chunk = settings_chunk (ch_settings c) (selector_dataset sel);
              fspan = fill_span_of dur chunk fend
          in case (case fspan of None \<Rightarrow> Ok dur | Some f \<Rightarrow> range_new (br_start f) (max (br_end f) (br_end dur))) of
               Inl e \<Rightarrow> (Err e, s)
             | Inr span \<Rightarrow>
                 (case engine_covered (se_db s) c sel sid span of
                    Inl e \<Rightarrow> (Err e, s)
                  | Inr cov \<Rightarrow>
                      let served = longest_covered_prefix cov dur in
                      if reaches served dur then (Ok \<lparr>pr_served = served, pr_blocker = None\<rparr>, s)
                      else
                        let planned = (case (fspan, fend) of (Some f, Some e) \<Rightarrow> fill_chunks f cov chunk e | _ \<Rightarrow> []) in
                        and_run (enqueue_chunks cl c (selector_dataset sel) sid planned [] False s) (\<lambda>(jobs, over) s1.
                          after_fills w c sel sid dur h deadline fend jobs over (wait_fills w deadline jobs s1))))"

section \<open>The followed tail\<close>

definition not_followed :: hot where
  "not_followed = \<lparr>ho_progress = \<lparr>pr_served = None, pr_blocker = Some (NotFollowedYet, None)\<rparr>, ho_segment = None\<rparr>"

definition hot_part :: "follow_progress \<Rightarrow> block_range \<Rightarrow> (hot, error) result" where
  "hot_part f wanted =
     (case u64_of_i64 (fp_head f) of
        None \<Rightarrow> Ok not_followed
      | Some head \<Rightarrow>
          if br_start wanted \<le> head \<and> fp_from f \<le> br_start wanted
          then map_ok (\<lambda>served.
            \<lparr>ho_progress = \<lparr>pr_served = Some served, pr_blocker = (if br_end served < br_end wanted then Some (Pending, None) else None)\<rparr>,
             ho_segment = Some \<lparr>seg_start = br_start served, seg_end = br_end served, seg_source = Hot, seg_finality = Unsafe,
               seg_anchor = Some \<lparr>an_number = head, an_hash = fp_head_hash f\<rparr>\<rparr>\<rparr>)
            (range_new (br_start wanted) (min (br_end wanted) head))
          else Ok not_followed)"

definition run_hot :: "chain \<Rightarrow> dataset \<Rightarrow> selector_id \<Rightarrow> block_range \<Rightarrow> session \<Rightarrow> (hot, error) result \<times> session" where
  "run_hot c ds sid wanted s = and_run (init_follow c ds sid (br_start wanted) s) (\<lambda>f s1. (hot_part f wanted, s1))"

section \<open>The answer\<close>

definition merge_progress :: "progress option \<Rightarrow> hot option \<Rightarrow> (block_range option \<times> blocker option, error) result" where
  "merge_progress dp ht =
     (case (dp, ht) of
        (None, None) \<Rightarrow> Ok (None, None)
      | (Some p, None) \<Rightarrow> Ok (pr_served p, pr_blocker p)
      | (None, Some t) \<Rightarrow> Ok (pr_served (ho_progress t), pr_blocker (ho_progress t))
      | (Some p, Some t) \<Rightarrow>
          (case (pr_served p, pr_served (ho_progress t)) of
             (Some low, Some high) \<Rightarrow> map_ok (\<lambda>r. (Some r, pr_blocker (ho_progress t))) (range_new (br_start low) (br_end high))
           | _ \<Rightarrow> Ok (pr_served p, pr_blocker (ho_progress t))))"

definition next_start_of :: "query_finality \<Rightarrow> block_range \<Rightarrow> block_range option \<Rightarrow> block_range option \<Rightarrow> u64 option" where
  "next_start_of fin r hot_range served =
     (let scope = (case hot_range of Some hr \<Rightarrow> if fin = LatestOnly then br_start hr else br_start r | None \<Rightarrow> br_start r)
      in case served of
           None \<Rightarrow> if fin \<noteq> LatestOnly \<or> hot_range \<noteq> None then Some scope else None
         | Some v \<Rightarrow> if br_end v < br_end r then Some (br_end v + 1) else None)"

definition below_safe_detail :: "block_range \<Rightarrow> heads \<Rightarrow> string" where
  "below_safe_detail r h =
     ''blocks '' @ dec (br_start r) @ ''..='' @ dec (min (br_end r) (safe h)) @
     '' are at or below the safe head; latest_only serves only blocks above it, use safe_to_latest for the whole range''"

definition incomplete_of :: "query_finality \<Rightarrow> block_range \<Rightarrow> heads \<Rightarrow> u64 option \<Rightarrow> blocker option \<Rightarrow> incomplete_reason option \<times> string option" where
  "incomplete_of fin r h next_start block =
     (case next_start of
        None \<Rightarrow> if fin = LatestOnly \<and> br_start r \<le> safe h then (Some BelowSafe, Some (below_safe_detail r h)) else (None, None)
      | Some _ \<Rightarrow> (case block of Some (reason, detail) \<Rightarrow> (Some reason, detail) | None \<Rightarrow> (Some NotFollowedYet, None)))"

definition segments_of :: "heads \<Rightarrow> progress option \<Rightarrow> bool \<Rightarrow> hot option \<Rightarrow> segment list" where
  "segments_of h dp durable_done ht =
     (case dp of Some p \<Rightarrow> (case pr_served p of Some r \<Rightarrow> durable_segments r h | None \<Rightarrow> []) | None \<Rightarrow> []) @
     (if durable_done then (case ht of Some t \<Rightarrow> (case ho_segment t of Some sg \<Rightarrow> [sg] | None \<Rightarrow> []) | None \<Rightarrow> []) else [])"

definition query_limit :: "engine_settings \<Rightarrow> page_request \<Rightarrow> u32" where
  "query_limit st page = min (max 1 (case pg_limit page of None \<Rightarrow> es_page_limit st | Some n \<Rightarrow> n)) (es_page_limit st)"

definition query_wait :: "engine_settings \<Rightarrow> query_request \<Rightarrow> nat" where
  "query_wait st rq = min (case rq_wait_ms rq of None \<Rightarrow> es_max_wait st | Some ms \<Rightarrow> ms) (es_max_wait st)"

definition query_heads :: "chain \<Rightarrow> query_finality \<Rightarrow> block_range \<Rightarrow> session \<Rightarrow> (heads, error) result \<times> session" where
  "query_heads c fin r s =
     and_run (run_heads c s) (\<lambda>h s1.
       and_run (if fin = DurableOnly \<and> safe h < br_end r then run_fresh_heads c s1 else (Ok h, s1)) (\<lambda>h s2.
         if fin = DurableOnly \<and> safe h < br_end r
         then (Err (InvalidInput (''block range end '' @ dec (br_end r) @ '' is above the safe head '' @ dec (safe h))), s2)
         else (Ok h, s2)))"

definition query_attach ::
  "caller \<Rightarrow> chain \<Rightarrow> query_finality \<Rightarrow> block_range \<Rightarrow> heads \<Rightarrow> dataset \<Rightarrow> selector_id \<Rightarrow> session \<Rightarrow> (follow_progress option, error) result \<times> session" where
  "query_attach cl c fin r h ds sid s =
     (if follows (en_settings (se_engine s)) fin r h
      then and_run (attach cl c ds sid (safe h) SubAuto s) (\<lambda>at s1.
        if at = None \<and> fin \<noteq> DurableOnly then (Err (subscription_quota cl), s1) else (Ok at, s1))
      else (Ok None, s))"

definition query_hot_range :: "query_finality \<Rightarrow> block_range \<Rightarrow> heads \<Rightarrow> (block_range option, error) result" where
  "query_hot_range fin r h =
     (if fin \<noteq> DurableOnly \<and> safe h < br_end r then map_ok Some (range_new (max (br_start r) (safe h + 1)) (br_end r)) else Ok None)"

text \<open>How far the durable part and the tail get; the tail is read only behind a whole durable part.\<close>

definition query_progress ::
  "schedule \<Rightarrow> caller \<Rightarrow> chain \<Rightarrow> selector \<Rightarrow> selector_id \<Rightarrow> query_finality \<Rightarrow> block_range \<Rightarrow> heads \<Rightarrow> nat \<Rightarrow> follow_progress option \<Rightarrow> session
     \<Rightarrow> (progress option \<times> bool \<times> block_range option \<times> hot option, error) result \<times> session" where
  "query_progress w cl c sel sid fin r h deadline follow s =
     (let dur = (if fin = LatestOnly then None else durable_part r (safe h)) in
      and_run (case dur of None \<Rightarrow> (Ok None, s)
               | Some dr \<Rightarrow> and_run (fill_durable w cl c sel sid dr h deadline follow s) (\<lambda>p s1. (Ok (Some p), s1))) (\<lambda>dp s1.
        let durable_done = (case (dur, dp) of (Some dr, Some p) \<Rightarrow> progress_reaches p (br_end dr) | _ \<Rightarrow> True) in
        and_run (query_hot_range fin r h, s1) (\<lambda>hot_range s1.
          case hot_range of
            Some wanted \<Rightarrow>
              if durable_done then and_run (run_hot c (selector_dataset sel) sid wanted s1) (\<lambda>t s2. (Ok (dp, durable_done, hot_range, Some t), s2))
              else (Ok (dp, durable_done, hot_range, None), s1)
          | None \<Rightarrow> (Ok (dp, durable_done, hot_range, None), s1))))"

definition query ::
  "(string \<Rightarrow> bytes) \<Rightarrow> serde \<Rightarrow> schedule \<Rightarrow> nat \<Rightarrow> caller \<Rightarrow> query_request \<Rightarrow> session \<Rightarrow> (json query_response, error) result \<times> session" where
  "query sha256 sd w today cl rq s =
     (case engine_chain (se_engine s) (rq_chain rq) of Inl e \<Rightarrow> (Err e, s) | Inr c \<Rightarrow>
      (case target_parse rq of Inl e \<Rightarrow> (Err e, s) | Inr tg \<Rightarrow>
       (let page = (case rq_page rq of None \<Rightarrow> page_default | Some p \<Rightarrow> p);
            st = en_settings (se_engine s); r = rq_range rq; fin = rq_finality rq;
            deadline = se_now s + query_wait st rq; sel = target_selector tg
        in case (case pg_cursor page of None \<Rightarrow> Ok None | Some t \<Rightarrow> map_ok Some (cursor_decode t)) of Inl e \<Rightarrow> (Err e, s) | Inr cur \<Rightarrow>
        and_run (query_heads c fin r s) (\<lambda>h s1.
        case intern_selector sha256 c sel s1 of (sid, s2) \<Rightarrow>
        and_run (query_attach cl c fin r h (selector_dataset sel) sid s2) (\<lambda>follow s3.
        and_run (query_progress w cl c sel sid fin r h deadline follow s3) (\<lambda>(dp, durable_done, hot_range, ht) s4.
        and_run (merge_progress dp ht, s4) (\<lambda>(served, block) s4.
          let next_start = next_start_of fin r hot_range served in
          case incomplete_of fin r h next_start block of (reason, detail) \<Rightarrow>
          and_run (case served of None \<Rightarrow> (Ok ([], None), s4)
                   | Some v \<Rightarrow> read_rows sd c tg \<lparr>rp_served = v, rp_cursor = cur, rp_limit = query_limit st page\<rparr> h (await w s4)) (\<lambda>(rows, nxt) s5.
            (Ok \<lparr>rs_chain = rq_chain rq, rs_dataset = rq_dataset rq, rs_requested = r, rs_served = served, rs_next_start = next_start,
                 rs_incomplete_reason = reason, rs_incomplete_detail = detail, rs_segments = segments_of h dp durable_done ht,
                 rs_rows = rows, rs_page = \<lparr>pi_next_cursor = nxt\<rparr>\<rparr>,
             s5\<lparr>se_engine := (se_engine s5)\<lparr>en_usage := usage_record today (cl_application cl) (chain_id_of c) (rq_dataset rq)
                 (UsageCounts 1 (int (length rows)) (case served of None \<Rightarrow> 0 | Some v \<Rightarrow> int (range_len v)) 0 0) (en_usage (se_engine s5))\<rparr>\<rparr>)))))))))"

end
