(* ===== verification/Fill.thy ===== *)
theory Fill
  imports Worker Reorg
begin

text \<open>
  What a fill commits. With a provider that answers \<open>eth_getLogs\<close> as documented, coverage never
  lies: every block a selector is covered on has all the chain's matching logs stored with
  durable finality, and a fill keeps it so, whatever part of it fails.
\<close>

section \<open>Groups\<close>

definition good_groups :: "usize \<Rightarrow> (selector_id \<times> log_selector) list list \<Rightarrow> bool" where
  "good_groups mx groups = (\<forall>g\<in>set groups. sel_batch (map snd g) mx \<noteq> None)"

lemma sel_batch_single [simp]: "sel_batch [s] mx = Some s"
  by (simp add: sel_batch_def)

lemma group_members_good:
  "good_groups mx groups \<Longrightarrow> good_groups mx (group_members mx ms groups) \<and>
     concat (group_members mx ms groups) = concat groups @ ms"
proof (induction mx ms groups rule: group_members.induct)
  case (2 mx m ms groups)
  let ?next = "if groups \<noteq> [] \<and> sel_batch (map snd (last groups @ [m])) mx \<noteq> None
        then butlast groups @ [last groups @ [m]] else groups @ [[m]]"
  have "good_groups mx ?next" using "2.prems" by (auto simp: good_groups_def dest: in_set_butlastD)
  moreover have "concat ?next = concat groups @ [m]"
    by (cases groups rule: rev_cases) auto
  ultimately show ?case using "2.IH" by simp
qed simp

lemma batch_groups_good:
  "good_groups mx (batch_groups ms mx)" "concat (batch_groups ms mx) = ms"
  using group_members_good [of mx "[]" ms] by (simp_all add: batch_groups_def good_groups_def)

definition good_work :: "usize \<Rightarrow> (selector_id \<times> log_selector) list \<Rightarrow> ((selector_id \<times> log_selector) list \<times> block_range) list \<Rightarrow> bool" where
  "good_work mx ms work =
     (\<forall>(grp, gap)\<in>set work. range_ok gap \<and> sel_batch (map snd grp) mx \<noteq> None \<and> set grp \<subseteq> set ms)"

lemma only_logs_iff: "(i, ls) \<in> set (only_logs ms) \<longleftrightarrow> (i, SelLogs ls) \<in> set ms"
  by (induction ms) (auto simp: only_logs_def List.map_filter_def split: selector.splits)

lemma log_work_good:
  assumes "\<forall>g\<in>set gs. set (gp_members g) \<subseteq> set ms \<and> (\<forall>r\<in>set (gp_missing g). range_ok r)"
  shows "good_work mx (only_logs ms) (log_work mx gs)"
proof -
  have mono: "set (only_logs xs) \<subseteq> set (only_logs ms)" if "set xs \<subseteq> set ms" for xs
    using that by (auto simp: only_logs_iff)
  have "set grp \<subseteq> set (only_logs ms)" if "g \<in> set gs" "grp \<in> set (batch_groups (only_logs (gp_members g)) mx)" for g grp
  proof -
    have "set grp \<subseteq> set (concat (batch_groups (only_logs (gp_members g)) mx))" using that(2) by auto
    with mono assms that(1) show ?thesis unfolding batch_groups_good by blast
  qed
  then show ?thesis using assms batch_groups_good(1) by (auto simp: good_work_def log_work_def good_groups_def)
qed

section \<open>What the fetches bring\<close>

definition with_finality :: "finality \<Rightarrow> log_row \<Rightarrow> log_row" where
  "with_finality fin l = l\<lparr>log_finality := fin\<rparr>"

lemma with_finality_simps [simp]:
  "log_pos (with_finality fin l) = log_pos l" "log_block_number (with_finality fin l) = log_block_number l"
  "log_block_hash (with_finality fin l) = log_block_hash l" "log_finality (with_finality fin l) = fin"
  "sel_matches s (with_finality fin l) = sel_matches s l"
  by (simp_all add: with_finality_def log_pos_def sel_matches_def)

text \<open>The chain's logs and what the client promises of them: a page holds exactly the matching logs of
  the blocks it fetched.\<close>

definition serves :: "evm \<Rightarrow> log_row set \<Rightarrow> bool" where
  "serves ev logs =
     (inj_on log_pos logs \<and>
      (\<forall>t s r fin. range_ok r \<and> btree_ok (sel_addresses s) \<longrightarrow>
         page_sound s r (ev_logs ev t s r fin) \<and> page_exact (with_finality fin ` logs) s r (ev_logs ev t s r fin)))"

definition rows_from :: "finality \<Rightarrow> log_row set \<Rightarrow> (log_cursor, log_row) btree_map \<Rightarrow> bool" where
  "rows_from fin logs rows =
     (sorted_wrt (<) (map fst rows) \<and> (\<forall>k v. map_of rows k = Some v \<longrightarrow> v \<in> with_finality fin ` logs \<and> log_pos v = k))"

definition holds_all :: "log_row set \<Rightarrow> (log_cursor, log_row) btree_map \<Rightarrow> fetch \<Rightarrow> (selector_id \<times> log_selector) list \<Rightarrow> bool" where
  "holds_all logs rows f grp =
     (ft_members f = map fst grp \<and>
      (\<forall>r m l. ft_blocks f = Some r \<and> m \<in> set grp \<and> l \<in> logs \<and> range_contains r (log_block_number l) \<and> sel_matches (snd m) l \<longrightarrow>
         log_pos l \<in> dom (map_of rows)))"

lemma keep_rows_map:
  "rows_from fin logs rows \<Longrightarrow> set page \<subseteq> with_finality fin ` logs \<Longrightarrow>
     rows_from fin logs (keep_rows grp page rows) \<and>
     dom (map_of (keep_rows grp page rows)) =
       dom (map_of rows) \<union> {log_pos l | l. l \<in> set page \<and> (\<exists>m\<in>set grp. sel_matches (snd m) l)}"
proof (induction page arbitrary: rows)
  case (Cons l page)
  let ?rows = "if list_ex (\<lambda>m. sel_matches (snd m) l) grp then btree_insert (log_pos l) l rows else rows"
  have step: "keep_rows grp (l # page) rows = keep_rows grp page ?rows" by (simp add: keep_rows_def)
  have "rows_from fin logs ?rows" using Cons.prems by (auto simp: rows_from_def map_of_btree_insert split: if_splits)
  from Cons.IH [OF this] Cons.prems(2) show ?case
    unfolding step by (auto simp: map_of_btree_insert list_ex_iff)
qed (simp add: keep_rows_def)

lemma rows_from_value:
  assumes "rows_from fin logs rows" and "inj_on log_pos logs" and "l \<in> logs" and "log_pos l \<in> dom (map_of rows)"
  shows "with_finality fin l \<in> set (map snd rows)"
proof -
  obtain v where v: "map_of rows (log_pos l) = Some v" using assms(4) by blast
  with assms(1) have "v \<in> with_finality fin ` logs" "log_pos v = log_pos l" unfolding rows_from_def by blast+
  then obtain l' where "l' \<in> logs" "v = with_finality fin l'" "log_pos l' = log_pos l" by auto
  then have "l' = l" using assms(2,3) by (auto simp: inj_on_def)
  with v \<open>v = _\<close> show ?thesis using map_of_SomeD [OF v] by force
qed

lemma group_query_matches:
  assumes "sel_batch (map snd grp) mx \<noteq> None" and "\<forall>m\<in>set grp. sel_ok (snd m)" and "m \<in> set grp" and "sel_matches (snd m) l"
  shows "sel_matches (group_query mx grp) l \<and> btree_ok (sel_addresses (group_query mx grp))"
proof -
  obtain q where q: "sel_batch (map snd grp) mx = Some q" using assms(1) by blast
  then have spec: "sel_ok q" "sel_covers q (snd m)" using sel_batch_spec [OF q] assms(2,3) by auto
  with assms(2-4) sel.covers_sound [of q "snd m" l] q show ?thesis by (auto simp: group_query_def sel_ok_def)
qed

lemma group_query_ok:
  assumes "sel_batch (map snd grp) mx \<noteq> None" and "\<forall>m\<in>set grp. sel_ok (snd m)"
  shows "btree_ok (sel_addresses (group_query mx grp))"
  using assms sel_batch_spec [of "map snd grp" mx] by (auto simp: group_query_def sel_ok_def)

text \<open>One call: the rows kept of its page are the matching logs of the blocks it fetched.\<close>

lemma page_kept:
  assumes "serves ev logs" and "range_ok gap" and "sel_batch (map snd grp) mx \<noteq> None" and "\<forall>m\<in>set grp. sel_ok (snd m)"
    and "rows_from fin logs rows" and "res = ev_logs ev t (group_query mx grp) gap fin" and "rows1 = keep_rows grp (lp_rows (page_of res)) rows"
  shows "rows_from fin logs rows1 \<and> dom (map_of rows) \<subseteq> dom (map_of rows1) \<and> page_sound (group_query mx grp) gap res \<and>
    (\<forall>m\<in>set grp. \<forall>l\<in>logs. br_start gap \<le> log_block_number l \<and> log_block_number l < page_bound gap (page_of res) \<and> sel_matches (snd m) l \<longrightarrow>
       log_pos l \<in> dom (map_of rows1))"
proof -
  have exact: "page_exact (with_finality fin ` logs) (group_query mx grp) gap res" and sound: "page_sound (group_query mx grp) gap res"
    using assms(1,2,6) group_query_ok [OF assms(3,4)] by (auto simp: serves_def)
  have page: "set (lp_rows (page_of res)) = {l \<in> with_finality fin ` logs. br_start gap \<le> log_block_number l \<and>
      log_block_number l < page_bound gap (page_of res) \<and> sel_matches (group_query mx grp) l}" using exact by (simp add: page_exact_def)
  have kept: "rows_from fin logs rows1" "dom (map_of rows1) = dom (map_of rows) \<union> {log_pos l | l. l \<in> set (lp_rows (page_of res)) \<and> (\<exists>m\<in>set grp. sel_matches (snd m) l)}"
    using keep_rows_map [OF assms(5), of "lp_rows (page_of res)" grp] page by (auto simp: assms(7))
  have "log_pos l \<in> dom (map_of rows1)"
    if "m \<in> set grp" "l \<in> logs" "br_start gap \<le> log_block_number l" "log_block_number l < page_bound gap (page_of res)" "sel_matches (snd m) l" for m l
  proof -
    have "with_finality fin l \<in> set (lp_rows (page_of res))"
      using that group_query_matches [OF assms(3,4) that(1,5)] unfolding page by auto
    moreover have "sel_matches (snd m) (with_finality fin l)" using that(5) by simp
    ultimately show ?thesis using that(1) kept(2) with_finality_simps(1) [of fin l] by fastforce
  qed
  then show ?thesis using kept sound by auto
qed

lemma log_fetch_blocks:
  "ft_blocks (log_fetch grp gap page) = Some r \<Longrightarrow> range_ok r \<and> br_start r = br_start gap \<and> br_end r + 1 = page_bound gap page"
  by (auto simp: log_fetch_def page_bound_def range_new_ok_eq range_ok_def split: option.splits if_splits)

definition good_fetch :: "log_row set \<Rightarrow> (selector_id \<times> log_selector) list \<Rightarrow> (log_cursor, log_row) btree_map \<Rightarrow> fetch \<Rightarrow> bool" where
  "good_fetch logs ms rows f =
     (\<exists>grp. set grp \<subseteq> set ms \<and> holds_all logs rows f grp \<and> (\<forall>r. ft_blocks f = Some r \<longrightarrow> range_ok r))"

lemma run_log_work_holds:
  assumes "serves (ch_evm c) logs" and "good_work (cs_max_addresses (ch_settings c)) ms work" and "\<forall>m\<in>set ms. sel_ok (snd m)"
    and "rows_from fin logs rows" and "run_log_work c fin work rows fetches t = (rows', fetches', e)"
  shows "rows_from fin logs rows' \<and> dom (map_of rows) \<subseteq> dom (map_of rows') \<and>
    (\<exists>new. fetches' = fetches @ new \<and> (\<forall>f\<in>set new. good_fetch logs ms rows' f)) \<and>
    (e = None \<longrightarrow> (\<forall>(grp, gap)\<in>set work. \<forall>m\<in>set grp. \<forall>l\<in>logs. range_contains gap (log_block_number l) \<and> sel_matches (snd m) l \<longrightarrow>
       log_pos l \<in> dom (map_of rows')))"
  using assms(2,4,5)
proof (induction work arbitrary: rows fetches t)
  case (Cons w work)
  let ?mx = "cs_max_addresses (ch_settings c)"
  obtain grp gap where w: "w = (grp, gap)" by force
  have gap: "range_ok gap" and batch: "sel_batch (map snd grp) ?mx \<noteq> None" and sub: "set grp \<subseteq> set ms"
    and rest: "good_work ?mx ms work" using Cons.prems(1) by (auto simp: good_work_def w)
  have oks: "\<forall>m\<in>set grp. sel_ok (snd m)" using sub assms(3) by blast
  define res where "res = ev_logs (ch_evm c) t (group_query ?mx grp) gap fin"
  define rows1 where "rows1 = keep_rows grp (lp_rows (page_of res)) rows"
  define f where "f = log_fetch grp gap (page_of res)"
  have kept: "rows_from fin logs rows1" "dom (map_of rows) \<subseteq> dom (map_of rows1)" and sound: "page_sound (group_query ?mx grp) gap res"
    and here: "\<And>m l. m \<in> set grp \<Longrightarrow> l \<in> logs \<Longrightarrow> br_start gap \<le> log_block_number l \<Longrightarrow> log_block_number l < page_bound gap (page_of res) \<Longrightarrow>
      sel_matches (snd m) l \<Longrightarrow> log_pos l \<in> dom (map_of rows1)"
    using page_kept [OF assms(1) gap batch oks Cons.prems(2) res_def rows1_def] by blast+
  have f_ok: "good_fetch logs ms rows2 f" if "dom (map_of rows1) \<subseteq> dom (map_of rows2)" for rows2
  proof -
    have "ft_members f = map fst grp" by (simp add: f_def log_fetch_def)
    moreover have "log_pos l \<in> dom (map_of rows2)"
      if "ft_blocks f = Some r" "m \<in> set grp" "l \<in> logs" "range_contains r (log_block_number l)" "sel_matches (snd m) l" for r m l
      using here [OF that(2,3) _ _ that(5)] that(4) log_fetch_blocks [OF that(1) [unfolded f_def]] \<open>dom (map_of rows1) \<subseteq> _\<close>
      by (auto simp: range_contains_iff)
    ultimately have "holds_all logs rows2 f grp" unfolding holds_all_def by blast
    then show ?thesis unfolding good_fetch_def using sub log_fetch_blocks f_def by blast
  qed
  show ?case
  proof (cases res)
    case (Inl pe)
    then have out: "rows' = rows1" "fetches' = fetches @ [f]" "e \<noteq> None"
      using Cons.prems(3) by (auto simp: w res_def [symmetric] rows1_def f_def Let_def split: prod.splits)
    with kept f_ok [of rows1] show ?thesis by auto
  next
    case (Inr page)
    then have "run_log_work c fin work rows1 (fetches @ [f]) (t + 1) = (rows', fetches', e)"
      using Cons.prems(3) by (simp add: w res_def [symmetric] rows1_def f_def Let_def)
    from Cons.IH [OF rest kept(1) this] obtain new where IH: "rows_from fin logs rows'" "dom (map_of rows1) \<subseteq> dom (map_of rows')"
      "fetches' = (fetches @ [f]) @ new" "\<forall>f\<in>set new. good_fetch logs ms rows' f"
      and more: "e = None \<Longrightarrow> \<forall>(grp, gap)\<in>set work. \<forall>m\<in>set grp. \<forall>l\<in>logs. range_contains gap (log_block_number l) \<and> sel_matches (snd m) l \<longrightarrow>
        log_pos l \<in> dom (map_of rows')" by blast
    have "page_bound gap (page_of res) = br_end gap + 1" using sound Inr by (simp add: page_sound_def page_bound_def is_ok_def)
    then have "\<forall>m\<in>set grp. \<forall>l\<in>logs. range_contains gap (log_block_number l) \<and> sel_matches (snd m) l \<longrightarrow> log_pos l \<in> dom (map_of rows')"
      using subsetD [OF IH(2) here] by (simp add: range_contains_iff less_Suc_eq_le)
    then have all: "e = None \<longrightarrow> (\<forall>(grp, gap)\<in>set (w # work). \<forall>m\<in>set grp. \<forall>l\<in>logs. range_contains gap (log_block_number l) \<and> sel_matches (snd m) l \<longrightarrow>
        log_pos l \<in> dom (map_of rows'))" using more unfolding w by simp
    have "fetches' = fetches @ (f # new) \<and> (\<forall>f\<in>set (f # new). good_fetch logs ms rows' f)" using IH f_ok [OF IH(2)] by simp
    with IH(1,2) kept(2) all show ?thesis by blast
  qed
qed simp

section \<open>Stored selectors\<close>

lemma map_of_drop: "map_of (filter (\<lambda>(j, _). j \<noteq> i) xs) k = (if k = i then None else map_of xs k)"
  by (induction xs) auto

lemma take_by_id_iff: "(i, s) \<in> set (take_by_id by_id ids) \<longleftrightarrow> i \<in> set ids \<and> map_of by_id i = Some s"
  by (induction by_id ids rule: take_by_id.induct) (auto simp: map_of_drop split: option.splits)

lemma dataset_logs_from_db [simp]: "dataset_from_db ''evm.logs'' = Ok EvmLogs"
  using dataset_from_str_as_str [of EvmLogs] by (simp add: dataset_from_db_def map_err_def)

lemma stored_row_log:
  assumes "selectors_ok sha256 t" and "row \<in> set (st_rows t)" and "selector_of_row row = Ok (SelLogs s)"
  shows "stored_log_selector t (sr_chain row) (sr_id row) s"
proof -
  have ds: "sr_dataset row = ''evm.logs''"
    using assms(3) by (auto simp: selector_of_row_def dataset_from_db_def dataset_from_str_def map_err_def and_then_def
      find_Some_iff split: sum.splits if_splits dataset.splits)
  obtain s' where s': "sel_ok s'" "sr_addresses row = addresses_to_db (sel_addresses s')" "sr_topics row = topics_to_db (sel_topics s')"
    by (rule logs_row_selector [OF assms(1,2) ds])
  then have "selector_of_row row = Ok (SelLogs s')"
    by (simp add: selector_of_row_def ds addresses_roundtrip topics_roundtrip sel_ok_def)
  with assms(3) have "s = s'" by simp
  with s' ds assms(2) show ?thesis by (auto simp: stored_log_selector_def)
qed

lemma stored_log_row:
  assumes "stored_log_selector t i sid s"
  obtains row where "row \<in> set (st_rows t)" "sr_id row = sid" "sr_chain row = i" "sr_dataset row = ''evm.logs''"
    "selector_of_row row = Ok (SelLogs s)" "sel_ok s"
proof -
  from assms obtain row where row: "row \<in> set (st_rows t)" "sr_id row = sid" "sr_chain row = i" "sr_dataset row = ''evm.logs''"
    "sr_addresses row = addresses_to_db (sel_addresses s)" "sr_topics row = topics_to_db (sel_topics s)" "sel_ok s"
    by (auto simp: stored_log_selector_def)
  then have "selector_of_row row = Ok (SelLogs s)"
    by (simp add: selector_of_row_def addresses_roundtrip topics_roundtrip sel_ok_def)
  with row that show thesis by blast
qed

lemma row_by_id:
  "selectors_ok sha256 t \<Longrightarrow> row \<in> set (st_rows t) \<Longrightarrow> row' \<in> set (st_rows t) \<Longrightarrow> sr_id row = sr_id row' \<Longrightarrow> row = row'"
  by (auto simp: selectors_ok_def distinct_map dest: inj_onD)

lemma stored_selector_unique:
  assumes "selectors_ok sha256 t" and "stored_log_selector t i sid s" and "stored_log_selector t j sid s'"
  shows "s = s'"
proof -
  obtain row where "row \<in> set (st_rows t)" "sr_id row = sid" "selector_of_row row = Ok (SelLogs s)"
    using assms(2) by (rule stored_log_row)
  moreover obtain row' where "row' \<in> set (st_rows t)" "sr_id row' = sid" "selector_of_row row' = Ok (SelLogs s')"
    using assms(3) by (rule stored_log_row)
  ultimately show ?thesis using row_by_id [OF assms(1)] by fastforce
qed

lemma selectors_by_id_members:
  assumes ok: "selectors_ok sha256 t" and res: "selectors_by_id t ids = Ok ms"
  shows "(sid, SelLogs s) \<in> set ms \<longleftrightarrow> sid \<in> set ids \<and> (\<exists>i. stored_log_selector t i sid s)"
proof (cases "ids = []")
  case False
  define rows where "rows = filter (\<lambda>row. sr_id row \<in> set ids) (st_rows t)"
  obtain by_id where by_id: "try_map (\<lambda>row. map_ok (Pair (sr_id row)) (selector_of_row row)) rows = Ok by_id"
    and ms: "ms = take_by_id by_id ids"
    using res False by (auto simp: selectors_by_id_def rows_def map_ok_def split: sum.splits)
  from by_id have pairs: "list_all2 (\<lambda>row p. map_ok (Pair (sr_id row)) (selector_of_row row) = Ok p) rows by_id"
    by (simp only: try_map_Ok_iff)
  then have fsts: "map fst by_id = map sr_id rows"
    by (induction rule: list_all2_induct) (auto simp: map_ok_def split: sum.splits)
  have mem: "(i, x) \<in> set by_id \<longleftrightarrow> (\<exists>row\<in>set rows. sr_id row = i \<and> selector_of_row row = Ok x)" for i x
    using pairs by (induction rule: list_all2_induct) (auto simp: map_ok_def split: sum.splits)
  have "distinct (map sr_id rows)" using ok by (simp add: selectors_ok_def rows_def distinct_map inj_on_def)
  with fsts have dist: "distinct (map fst by_id)" by simp
  have "(sid, SelLogs s) \<in> set ms \<longleftrightarrow> sid \<in> set ids \<and> (\<exists>row\<in>set rows. sr_id row = sid \<and> selector_of_row row = Ok (SelLogs s))"
    unfolding ms take_by_id_iff using mem map_of_eq_Some_iff [OF dist] by auto
  also have "\<dots> \<longleftrightarrow> sid \<in> set ids \<and> (\<exists>i. stored_log_selector t i sid s)"
    using stored_row_log [OF ok] by (auto simp: rows_def elim!: stored_log_row)
  finally show ?thesis .
qed (use res in \<open>simp add: selectors_by_id_def\<close>)

section \<open>Gaps\<close>

lemma add_gap_members:
  "(\<exists>g\<in>set (add_gap miss m gs). gp_missing g = x \<and> y \<in> set (gp_members g)) \<longleftrightarrow>
     (x = miss \<and> y = m) \<or> (\<exists>g\<in>set gs. gp_missing g = x \<and> y \<in> set (gp_members g))"
  by (induction miss m gs rule: add_gap.induct) auto

definition gap_of :: "db \<Rightarrow> chain \<Rightarrow> block_range \<Rightarrow> selector_id \<times> selector \<Rightarrow> block_range list \<Rightarrow> bool" where
  "gap_of d c r m miss = (\<exists>cov. engine_covered d c (snd m) (fst m) r = Ok cov \<and> miss = uncovered r cov \<and> miss \<noteq> [])"

lemma collect_gaps_members:
  assumes "collect_gaps d c r ms gs = Ok gs'"
  shows "(\<exists>g\<in>set gs'. gp_missing g = x \<and> y \<in> set (gp_members g)) \<longleftrightarrow>
    (y \<in> set ms \<and> gap_of d c r y x) \<or> (\<exists>g\<in>set gs. gp_missing g = x \<and> y \<in> set (gp_members g))"
  using assms
proof (induction d c r ms gs rule: collect_gaps.induct)
  case (2 d c r i sel ms gs)
  then obtain cov where cov: "engine_covered d c sel i r = Ok cov"
    and rest: "collect_gaps d c r ms (if uncovered r cov = [] then gs else add_gap (uncovered r cov) (i, sel) gs) = Ok gs'"
    by (auto simp: and_then_def Let_def split: sum.splits)
  from "2.IH" [OF refl rest] cov show ?case
    by (auto simp: gap_of_def add_gap_members split: if_splits)
qed simp

section \<open>Committing\<close>

text \<open>A log is stored when the table has a durable row at its position with its block's hash. Coverage
  is honest when every log of the chain at a block some selector is covered on is stored, if the
  selector matches it.\<close>

definition log_stored :: "'h row_store \<Rightarrow> chain_id \<Rightarrow> log_row \<Rightarrow> bool" where
  "log_stored st i l =
     (\<exists>l'. (i, l') \<in> set (rs_logs st) \<and> log_pos l' = log_pos l \<and> log_block_hash l' = log_block_hash l \<and> Safe \<le> log_finality l')"

definition cover_honest :: "log_row set \<Rightarrow> chain_id \<Rightarrow> db \<Rightarrow> bool" where
  "cover_honest logs i d =
     (\<forall>sid s l. stored_log_selector (db_selectors d) i sid s \<and> l \<in> logs \<and> sel_matches s l \<and>
        cov_level (db_coverage d) i EvmLogs sid (int (log_block_number l)) \<noteq> None \<longrightarrow> log_stored (db_rows d) i l)"

lemma log_stored_kept:
  assumes "durable_kept st st'" and "log_stored st i l"
  shows "log_stored st' i l"
proof -
  obtain l' where l': "(i, l') \<in> set (rs_logs st)" "log_pos l' = log_pos l" "log_block_hash l' = log_block_hash l" "Safe \<le> log_finality l'"
    using assms(2) by (auto simp: log_stored_def)
  then obtain r' where "r' \<in> set (rs_logs st')" "log_le (i, l') r'" using assms(1) by (fastforce simp: durable_kept_def)
  then obtain f where f: "log_finality l' \<le> f" "(i, l'\<lparr>log_finality := f\<rparr>) \<in> set (rs_logs st')" by (auto simp: log_le_def)
  moreover have "Safe \<le> f" using f(1) l'(4) by (rule order_trans [rotated])
  ultimately show ?thesis using l'(2,3) unfolding log_stored_def
    by (intro exI [of _ "l'\<lparr>log_finality := f\<rparr>"]) (simp add: log_pos_def)
qed

lemma add_coverage_known:
  assumes "add_coverage_many t cov i ds ids r fin = Ok cov'" and "ids \<noteq> []"
  shows "known_selectors t i ds ids \<and> Safe \<le> fin"
proof -
  have "collect_set ids \<noteq> []" using assms(2) by (metis set_collect_set set_empty)
  then show ?thesis using assms(1)
    by (fastforce simp: add_coverage_many_def Let_def known_selectors_def find_None_notin list_ex_iff not_less
      split: if_splits option.splits)
qed

lemma add_coverage_adds:
  assumes "coverage_ok cov" and "range_ok r" and "add_coverage_many t cov i ds ids r fin = Ok cov'" and "ids \<noteq> []"
    and "cov_level cov' c d sid x \<noteq> None"
  shows "cov_level cov c d sid x \<noteq> None \<or> (c = i \<and> d = ds \<and> sid \<in> set ids \<and> int (br_start r) \<le> x \<and> x \<le> int (br_end r))"
proof -
  have known: "known_selectors t i ds ids" "Safe \<le> fin" using add_coverage_known [OF assms(3,4)] by auto
  obtain mid where "merge_each cov i ds (collect_set ids) r fin = Ok mid"
    and lvl: "\<forall>c d j x. cov_level mid c d j x =
      (if c = i \<and> d = ds \<and> j \<in> set (collect_set ids) \<and> int (br_start r) \<le> x \<and> x \<le> int (br_end r)
       then raised (cov_level cov c d j x) fin else cov_level cov c d j x)"
    using merge_each_level [OF assms(1,2) known(2) distinct_collect_set] by blast
  then have "cov' = mid" using assms(3) add_coverage_many_known [OF known] by simp
  with assms(5) lvl show ?thesis by (auto split: if_splits)
qed

lemma cover_fetches_steps:
  assumes "coverage_ok (db_coverage d)" and "\<forall>f\<in>set fs. \<forall>r. ft_blocks f = Some r \<longrightarrow> range_ok r"
    and "cover_fetches (db_selectors d) (db_coverage d) i ds held fin fs = Ok cov"
  shows "db_steps d (d\<lparr>db_coverage := cov\<rparr>) \<and> coverage_ok cov \<and>
    (\<forall>c e sid x. cov_level cov c e sid x \<noteq> None \<longrightarrow> cov_level (db_coverage d) c e sid x \<noteq> None \<or>
       (c = i \<and> e = ds \<and> (\<exists>f\<in>set fs. \<exists>r. ft_blocks f = Some r \<and> sid \<in> set (ft_members f) \<and> int (br_start r) \<le> x \<and> x \<le> int (br_end r))))"
  using assms
proof (induction fs arbitrary: d)
  case (Cons f fs)
  show ?case
  proof (cases "ft_blocks f = None \<or> held_members f held = []")
    case True
    then have "cover_fetches (db_selectors d) (db_coverage d) i ds held fin fs = Ok cov" using Cons.prems(3) by (auto split: option.splits)
    from Cons.IH [OF Cons.prems(1) _ this] Cons.prems(2) show ?thesis by (fastforce)
  next
    case False
    then obtain r mid where r: "ft_blocks f = Some r" and add: "add_coverage_many (db_selectors d) (db_coverage d) i ds (held_members f held) r fin = Ok mid"
      and rest: "cover_fetches (db_selectors d) mid i ds held fin fs = Ok cov" and ne: "held_members f held \<noteq> []"
      using Cons.prems(3) by (auto simp: and_then_def split: sum.splits)
    have ok: "range_ok r" using Cons.prems(2) r by simp
    have step: "db_step d (d\<lparr>db_coverage := mid\<rparr>)" using d_coverage [OF add ok] .
    have mid: "coverage_ok mid" using add_coverage_keeps [OF Cons.prems(1) ok add] by simp
    have sub: "set (held_members f held) \<subseteq> set (ft_members f)" by (auto simp: held_members_def)
    from Cons.IH [of "d\<lparr>db_coverage := mid\<rparr>"] mid Cons.prems(2) rest
    have IH: "db_steps (d\<lparr>db_coverage := mid\<rparr>) (d\<lparr>db_coverage := cov\<rparr>)" "coverage_ok cov"
      and lvl: "\<And>c e sid x. cov_level cov c e sid x \<noteq> None \<Longrightarrow> cov_level mid c e sid x \<noteq> None \<or>
       (c = i \<and> e = ds \<and> (\<exists>f\<in>set fs. \<exists>r. ft_blocks f = Some r \<and> sid \<in> set (ft_members f) \<and> int (br_start r) \<le> x \<and> x \<le> int (br_end r)))"
      by auto
    have "db_steps d (d\<lparr>db_coverage := cov\<rparr>)" using step IH(1) by (rule converse_rtranclp_into_rtranclp)
    moreover have "cov_level (db_coverage d) c e sid x \<noteq> None \<or>
       (c = i \<and> e = ds \<and> (\<exists>f\<in>set (f # fs). \<exists>r. ft_blocks f = Some r \<and> sid \<in> set (ft_members f) \<and> int (br_start r) \<le> x \<and> x \<le> int (br_end r)))"
      if "cov_level cov c e sid x \<noteq> None" for c e sid x
      using lvl [OF that] add_coverage_adds [OF Cons.prems(1) ok add ne, of c e sid x] sub r by auto
    ultimately show ?thesis using IH(2) by blast
  qed
qed (auto intro!: r_into_rtranclp d_other)

lemma fill_tx_effects:
  assumes tx: "fill_tx now d worker c ds fin f held hs = Ok d'" and safe: "db_safe d" and dist: "distinct (map log_pos (fd_logs f))"
    and ranges: "\<forall>f'\<in>set (fd_fetches f). \<forall>r. ft_blocks f' = Some r \<longrightarrow> range_ok r"
  shows "db_steps d d' \<and> db_selectors d' = db_selectors d \<and>
    (\<forall>l\<in>set (fd_logs f). Safe \<le> log_finality l \<longrightarrow> log_stored (db_rows d') (chain_id_of c) l) \<and>
    (\<forall>i e sid x. cov_level (db_coverage d') i e sid x \<noteq> None \<longrightarrow> cov_level (db_coverage d) i e sid x \<noteq> None \<or>
       (i = chain_id_of c \<and> e = ds \<and> (\<exists>f'\<in>set (fd_fetches f). \<exists>r. ft_blocks f' = Some r \<and> sid \<in> set (ft_members f') \<and>
          int (br_start r) \<le> x \<and> x \<le> int (br_end r))))"
proof -
  obtain r1 r2 cov jt where r1: "insert_logs (db_rows d) (chain_id_of c) (fd_logs f) = Ok r1"
    and r2: "insert_blocks r1 (chain_id_of c) (fd_blocks f) = Ok r2"
    and cov: "cover_fetches (db_selectors d) (db_coverage d) (chain_id_of c) ds hs fin (fd_fetches f) = Ok cov"
    and d': "d' = d\<lparr>db_rows := r2, db_coverage := cov, db_jobs := jt\<rparr>"
    using tx by (auto simp: fill_tx_def and_then_def split: sum.splits)
  have u: "rows_unique (db_rows d)" and ok: "coverage_ok (db_coverage d)" using safe by (simp_all add: db_safe_def)
  have s1: "row_step (db_rows d) r1" using r1 by (rule r_logs)
  have s2: "row_step r1 r2" using r2 by (rule r_blocks)
  have kept: "durable_kept r1 r2" using row_step_kept row_step_kept [OF u s1] s2 by blast
  let ?e = "d\<lparr>db_rows := r2\<rparr>"
  have cs: "db_steps ?e (?e\<lparr>db_coverage := cov\<rparr>)" and lvl: "\<forall>c' e sid x. cov_level cov c' e sid x \<noteq> None \<longrightarrow> cov_level (db_coverage d) c' e sid x \<noteq> None \<or>
       (c' = chain_id_of c \<and> e = ds \<and> (\<exists>f'\<in>set (fd_fetches f). \<exists>r. ft_blocks f' = Some r \<and> sid \<in> set (ft_members f') \<and> int (br_start r) \<le> x \<and> x \<le> int (br_end r)))"
    using cover_fetches_steps [of ?e "fd_fetches f" "chain_id_of c" ds hs fin cov] ok ranges cov by simp_all
  have "db_steps d ?e" using s1 s2 by (intro rows_only_steps) (rule converse_rtranclp_into_rtranclp, assumption, rule r_into_rtranclp)
  also have "db_steps ?e (?e\<lparr>db_coverage := cov\<rparr>)" by (rule cs)
  also have "db_step (?e\<lparr>db_coverage := cov\<rparr>) d'" unfolding d' by (rule d_other) simp_all
  finally have "db_steps d d'" .
  moreover have "log_stored r2 (chain_id_of c) l" if "l \<in> set (fd_logs f)" "Safe \<le> log_finality l" for l
  proof -
    have "log_stored r1 (chain_id_of c) l"
      using insert_logs_stores [OF r1 u dist that(1)] that(2) unfolding log_stored_def by (meson order_trans)
    then show ?thesis by (rule log_stored_kept [OF kept])
  qed
  ultimately show ?thesis using lvl by (simp add: d')
qed

lemma fill_commit_cases:
  assumes "fill_commit now today en d worker leader jobs c fin f = (res, d', en')"
  obtains (refused) "db_rows d' = db_rows d" "db_follow d' = db_follow d" "db_coverage d' = db_coverage d" "db_selectors d' = db_selectors d" "res \<noteq> Ok ()"
  | (committed) d1 held hs where "fill_tx now d1 worker c (j_dataset leader) fin f held hs = Ok d'" "db_rows d1 = db_rows d" "db_follow d1 = db_follow d"
      "db_coverage d1 = db_coverage d" "db_selectors d1 = db_selectors d" "res = Ok () \<longleftrightarrow> fd_error f = None"
proof (cases "extend_lease now (db_jobs d) worker (map j_id jobs) (es_lease (en_settings en))")
  case (Pair lease jt)
  show thesis
  proof (cases lease)
    case (Inl e)
    with assms Pair refused show thesis by (auto simp: fill_commit_def)
  next
    case (Inr held)
    let ?hs = "map j_selector (filter (\<lambda>jb. j_id jb \<in> set held) jobs)"
    show thesis
    proof (cases "fill_tx now (d\<lparr>db_jobs := jt\<rparr>) worker c (j_dataset leader) fin f held ?hs")
      case (Inl e)
      with assms Pair Inr refused show thesis by (auto simp: fill_commit_def Let_def)
    next
      case (Inr d2)
      with assms Pair \<open>lease = _\<close> have "d2 = d'" "res = (case fd_error f of None \<Rightarrow> Ok () | Some e \<Rightarrow> Err e)"
        by (auto simp: fill_commit_def Let_def)
      with Inr committed show thesis by (auto split: option.splits)
    qed
  qed
qed

section \<open>A whole fill\<close>

definition covered_elsewhere :: "db \<Rightarrow> chain \<Rightarrow> log_row \<Rightarrow> bool" where
  "covered_elsewhere d c l =
     (\<exists>i s. stored_log_selector (db_selectors d) (chain_id_of c) i s \<and> sel_matches s l \<and>
        cov_level (db_coverage d) (chain_id_of c) EvmLogs i (int (log_block_number l)) \<noteq> None)"

lemma engine_covered_spec:
  assumes "coverage_ok (db_coverage d)" and "selectors_ok sha256 (db_selectors d)" and "range_ok r" and "\<And>ls. sel = SelLogs ls \<Longrightarrow> sel_ok ls"
    and "engine_covered d c sel sid r = Ok cov"
  shows "coalesced cov \<and> (\<forall>ls l. sel = SelLogs ls \<and> log_block_number l \<in> blocks_of cov \<and> sel_matches ls l \<longrightarrow> covered_elsewhere d c l)"
proof (cases sel)
  case (SelLogs ls)
  then show ?thesis
    using covered_for_query_logs [OF assms(1,2) assms(4) [OF SelLogs] assms(3), of "chain_id_of c"] assms(5)
    by (auto simp: engine_covered_def map_err_def covered_elsewhere_def)
next
  case SelBlocks
  obtain rs where "covered (db_coverage d) (chain_id_of c) EvmBlocks [sid] r = Ok rs" "coalesced rs"
    using range_op_correct [OF assms(1,3), of "chain_id_of c" EvmBlocks "[sid]" CoveredOp] by (auto simp: covered_def)
  with SelBlocks assms(5) show ?thesis by (auto simp: engine_covered_def map_err_def)
qed

lemma collect_gaps_inhabited:
  "\<forall>g\<in>set gs. gp_members g \<noteq> [] \<Longrightarrow> collect_gaps d c r ms gs = Ok gs' \<Longrightarrow> \<forall>g\<in>set gs'. gp_members g \<noteq> []"
proof (induction d c r ms gs rule: collect_gaps.induct)
  case (2 d c r i sel ms gs)
  from "2.prems"(2) obtain cov where
    rest: "collect_gaps d c r ms (if uncovered r cov = [] then gs else add_gap (uncovered r cov) (i, sel) gs) = Ok gs'"
    by (auto simp: and_then_def Let_def split: sum.splits)
  have "\<forall>g\<in>set gs. gp_members g \<noteq> [] \<Longrightarrow> \<forall>g\<in>set (add_gap miss m gs). gp_members g \<noteq> []" for miss m
    by (induction miss m gs rule: add_gap.induct) auto
  then have "\<forall>g\<in>set (if uncovered r cov = [] then gs else add_gap (uncovered r cov) (i, sel) gs). gp_members g \<noteq> []"
    using "2.prems"(1) by simp
  then show ?case by (rule "2.IH" [OF refl _ rest])
qed simp

lemma collect_gaps_good:
  assumes "coverage_ok (db_coverage d)" and "selectors_ok sha256 (db_selectors d)" and "range_ok r"
    and "\<And>sid ls. (sid, SelLogs ls) \<in> set ms \<Longrightarrow> sel_ok ls" and gs: "collect_gaps d c r ms [] = Ok gs"
  shows "\<forall>g\<in>set gs. set (gp_members g) \<subseteq> set ms \<and> (\<forall>q\<in>set (gp_missing g). range_ok q)"
proof (intro ballI)
  fix g
  assume g: "g \<in> set gs"
  have mem: "y \<in> set ms \<and> gap_of d c r y (gp_missing g)" if "y \<in> set (gp_members g)" for y
    using collect_gaps_members [OF gs, of "gp_missing g" y] g that by auto
  have "gp_members g \<noteq> []" using collect_gaps_inhabited [OF _ gs] g by simp
  then obtain y where y: "y \<in> set (gp_members g)" by (meson list.set_sel(1))
  then obtain cov where cov: "engine_covered d c (snd y) (fst y) r = Ok cov" "gp_missing g = uncovered r cov"
    using mem [OF y] unfolding gap_of_def by blast
  have "sel_ok ls" if "snd y = SelLogs ls" for ls using mem [OF y] that assms(4) by (metis prod.collapse)
  from engine_covered_spec [OF assms(1-3) this cov(1)] have "coalesced (uncovered r cov)"
    using uncovered_blocks [OF assms(3)] coalesced_disjoint by blast
  then show "set (gp_members g) \<subseteq> set ms \<and> (\<forall>q\<in>set (gp_missing g). range_ok q)"
    using mem cov(2) by (auto simp: coalesced_def list_all_iff)
qed

text \<open>When no call failed, every log the members want in the chunk was covered before or is among the
  rows.\<close>

lemma collect_gaps_complete:
  assumes "coverage_ok (db_coverage d)" and "selectors_ok sha256 (db_selectors d)" and "range_ok r"
    and gs: "collect_gaps d c r ms [] = Ok gs" and m: "(sid, SelLogs s) \<in> set ms" "sel_ok s"
    and l: "range_contains r (log_block_number l)" "sel_matches s l"
  shows "covered_elsewhere d c l \<or> (\<exists>(grp, gap)\<in>set (log_work mx gs). (sid, s) \<in> set grp \<and> range_contains gap (log_block_number l))"
proof -
  have ok: "\<exists>cov. engine_covered d c (SelLogs s) sid r = Ok cov"
    using covered_for_query_logs [OF assms(1,2) m(2) assms(3), of "chain_id_of c"] by (auto simp: engine_covered_def map_err_def)
  then obtain cov where cov: "engine_covered d c (SelLogs s) sid r = Ok cov" by blast
  from engine_covered_spec [OF assms(1-3) _ this] m(2)
  have spec: "coalesced cov" "log_block_number l \<in> blocks_of cov \<Longrightarrow> covered_elsewhere d c l" using l(2) by auto
  have un: "blocks_of (uncovered r cov) = blocks r - blocks_of cov"
    using uncovered_blocks [OF assms(3)] spec(1) coalesced_disjoint by blast
  show ?thesis
  proof (cases "log_block_number l \<in> blocks_of cov")
    case False
    then have "log_block_number l \<in> blocks_of (uncovered r cov)" using l(1) un by (simp add: range_contains_iff)
    then obtain gap where gap: "gap \<in> set (uncovered r cov)" "range_contains gap (log_block_number l)"
      by (auto simp: mem_blocks_of range_contains_iff)
    then have "gap_of d c r (sid, SelLogs s) (uncovered r cov)" using cov by (auto simp: gap_of_def)
    with m(1) collect_gaps_members [OF gs, of "uncovered r cov" "(sid, SelLogs s)"]
    obtain g where g: "g \<in> set gs" "gp_missing g = uncovered r cov" "(sid, SelLogs s) \<in> set (gp_members g)" by blast
    then have "(sid, s) \<in> set (concat (batch_groups (only_logs (gp_members g)) mx))" by (simp add: batch_groups_good only_logs_iff)
    then obtain grp where grp: "grp \<in> set (batch_groups (only_logs (gp_members g)) mx)" "(sid, s) \<in> set grp" by auto
    then have "(grp, gap) \<in> set (log_work mx gs)" using g gap(1) by (force simp: log_work_def)
    with grp(2) gap(2) show ?thesis by blast
  qed (use spec(2) in blast)
qed

lemma fill_fetch_inv:
  assumes "fill_fetch now t en d leader jobs = (Ok (c', fin, f), en')" and "chain_by_id en (j_chain leader) = Ok c"
  obtains h ms gs where "c' = c" "fin = fill_finality (j_blocks leader) h" "selectors_by_id (db_selectors d) (map j_selector jobs) = Ok ms"
    "collect_gaps d c (j_blocks leader) (sort_key fst ms) [] = Ok gs"
    "f = (case j_dataset leader of EvmLogs \<Rightarrow> fetch_logs c gs fin t | EvmBlocks \<Rightarrow> fetch_blocks c gs fin t)"
proof -
  from assms obtain h where h: "and_then (from_store (selectors_by_id (db_selectors d) (map j_selector jobs))) (\<lambda>members.
      and_then (collect_gaps d c (j_blocks leader) (sort_key fst members) []) (\<lambda>gs.
        Ok (c, fill_finality (j_blocks leader) h, case j_dataset leader of
          EvmLogs \<Rightarrow> fetch_logs c gs (fill_finality (j_blocks leader) h) t
        | EvmBlocks \<Rightarrow> fetch_blocks c gs (fill_finality (j_blocks leader) h) t))) = Ok (c', fin, f)"
    by (auto simp: fill_fetch_def and_run_Ok_iff Let_def)
  then obtain ms where ms: "selectors_by_id (db_selectors d) (map j_selector jobs) = Ok ms"
    by (cases "selectors_by_id (db_selectors d) (map j_selector jobs)") (auto simp: map_err_def)
  with h obtain gs where "collect_gaps d c (j_blocks leader) (sort_key fst ms) [] = Ok gs"
    by (cases "collect_gaps d c (j_blocks leader) (sort_key fst ms) []") (auto simp: map_err_def)
  with h ms that show thesis by (auto simp: map_err_def)
qed

lemma run_block_work_ranges:
  "(\<forall>(ids, gap)\<in>set work. range_ok gap) \<Longrightarrow> (\<forall>f'\<in>set (fd_fetches f). \<forall>r. ft_blocks f' = Some r \<longrightarrow> range_ok r) \<Longrightarrow>
     (\<forall>f'\<in>set (fd_fetches (run_block_work c fin work f t)). \<forall>r. ft_blocks f' = Some r \<longrightarrow> range_ok r) \<and>
     fd_logs (run_block_work c fin work f t) = fd_logs f"
proof (induction work arbitrary: f t)
  case (Cons w work)
  obtain ids gap where w: "w = (ids, gap)" by force
  show ?case
  proof (cases "ev_headers (ch_evm c) t gap fin")
    case (Inr blks)
    let ?f = "f\<lparr>fd_blocks := fd_blocks f @ blks, fd_fetches := fd_fetches f @ [\<lparr>ft_members = ids, ft_blocks = Some gap, ft_calls = 1\<rparr>]\<rparr>"
    have "\<forall>f'\<in>set (fd_fetches ?f). \<forall>r. ft_blocks f' = Some r \<longrightarrow> range_ok r" using Cons.prems by (auto simp: w)
    from Cons.IH [OF _ this, of "t + 1"] Cons.prems(1) Inr show ?thesis by (simp add: w)
  qed (use Cons.prems in \<open>auto simp: w\<close>)
qed simp

lemma fill_fetch_blocks:
  assumes "fill_fetch now t en d leader jobs = (Ok (c', fin, f), en')" and "chain_by_id en (j_chain leader) = Ok c"
    and "j_dataset leader = EvmBlocks" and "range_ok (j_blocks leader)" and "coverage_ok (db_coverage d)" and "selectors_ok sha256 (db_selectors d)"
  shows "fd_logs f = [] \<and> (\<forall>f'\<in>set (fd_fetches f). \<forall>r. ft_blocks f' = Some r \<longrightarrow> range_ok r)"
proof -
  obtain ms gs where ms: "selectors_by_id (db_selectors d) (map j_selector jobs) = Ok ms"
    and gs: "collect_gaps d c (j_blocks leader) (sort_key fst ms) [] = Ok gs" and f: "f = fetch_blocks c gs fin t"
    using fill_fetch_inv [OF assms(1,2)] unfolding assms(3) dataset.simps by blast
  have "sel_ok ls" if "(sid, SelLogs ls) \<in> set (sort_key fst ms)" for sid ls
    using that selectors_by_id_members [OF assms(6) ms] by (auto simp: stored_log_selector_def)
  then have "\<forall>g\<in>set gs. \<forall>q\<in>set (gp_missing g). range_ok q" using collect_gaps_good [OF assms(5,6,4) _ gs] by blast
  then have "\<forall>(ids, gap)\<in>set (concat (map (\<lambda>g. map (Pair (map fst (gp_members g))) (gp_missing g)) gs)). range_ok gap" by auto
  from run_block_work_ranges [OF this, of "\<lparr>fd_logs = [], fd_blocks = [], fd_fetches = [], fd_error = None\<rparr>"]
  show ?thesis unfolding f fetch_blocks_def by simp
qed

text \<open>What the fetch half of a log fill hands over: rows that are logs of the chain at the fill's
  finality, fetches whose ranges hold all matching logs, and every wanted log when no call failed.\<close>

lemma fill_fetch_logs:
  assumes fetch: "fill_fetch now t en d leader jobs = (Ok (c', fin, f), en')" and chain: "chain_by_id en (j_chain leader) = Ok c"
    and logs: "j_dataset leader = EvmLogs" and r: "range_ok (j_blocks leader)" and cov: "coverage_ok (db_coverage d)"
    and sels: "selectors_ok sha256 (db_selectors d)" and serve: "serves (ch_evm c) logs"
  obtains rows ms where "Safe \<le> fin" "rows_from fin logs rows" "fd_logs f = map snd rows"
    "\<forall>m\<in>set ms. \<exists>i. stored_log_selector (db_selectors d) i (fst m) (snd m)" "\<forall>f'\<in>set (fd_fetches f). good_fetch logs ms rows f'"
    "\<forall>jb s l. fd_error f = None \<and> jb \<in> set jobs \<and> stored_log_selector (db_selectors d) (chain_id_of c) (j_selector jb) s \<and> l \<in> logs \<and>
       range_contains (j_blocks leader) (log_block_number l) \<and> sel_matches s l \<longrightarrow> covered_elsewhere d c l \<or> log_pos l \<in> dom (map_of rows)"
proof -
  obtain h ms gs where fin: "fin = fill_finality (j_blocks leader) h" and ms: "selectors_by_id (db_selectors d) (map j_selector jobs) = Ok ms"
    and gs: "collect_gaps d c (j_blocks leader) (sort_key fst ms) [] = Ok gs"
    and fetched: "f = (case j_dataset leader of EvmLogs \<Rightarrow> fetch_logs c gs fin t | EvmBlocks \<Rightarrow> fetch_blocks c gs fin t)"
    by (rule fill_fetch_inv [OF fetch chain])
  have f: "f = fetch_logs c gs fin t" using fetched by (simp add: logs)
  let ?mx = "cs_max_addresses (ch_settings c)" and ?ms = "only_logs (sort_key fst ms)"
  have stored: "\<exists>i. stored_log_selector (db_selectors d) i (fst m) (snd m)" if "m \<in> set ?ms" for m
  proof -
    obtain sid s where m: "m = (sid, s)" by force
    with that have "(sid, SelLogs s) \<in> set ms" by (simp add: only_logs_iff)
    with selectors_by_id_members [OF sels ms] m show ?thesis by simp
  qed
  have ok: "sel_ok ls" if "(sid, SelLogs ls) \<in> set (sort_key fst ms)" for sid ls
    using that selectors_by_id_members [OF sels ms] by (auto simp: stored_log_selector_def)
  have work: "good_work ?mx ?ms (log_work ?mx gs)" using collect_gaps_good [OF cov sels r ok gs] by (rule log_work_good)
  have oks: "\<forall>m\<in>set ?ms. sel_ok (snd m)" using stored by (auto simp: stored_log_selector_def)
  obtain rows fetches e where run: "run_log_work c fin (log_work ?mx gs) [] [] t = (rows, fetches, e)" by (cases "run_log_work c fin (log_work ?mx gs) [] [] t")
  have f_simps: "fd_logs f = map snd rows" "fd_fetches f = fetches" "fd_error f = e" by (simp_all add: f fetch_logs_def run)
  have spec: "rows_from fin logs rows" "\<forall>f'\<in>set fetches. good_fetch logs ?ms rows f'"
    and all: "e = None \<Longrightarrow> \<forall>(grp, gap)\<in>set (log_work ?mx gs). \<forall>m\<in>set grp. \<forall>l\<in>logs.
      range_contains gap (log_block_number l) \<and> sel_matches (snd m) l \<longrightarrow> log_pos l \<in> dom (map_of rows)"
    using run_log_work_holds [OF serve work oks _ run] by (simp_all add: rows_from_def)
  have "covered_elsewhere d c l \<or> log_pos l \<in> dom (map_of rows)"
    if "fd_error f = None" "jb \<in> set jobs" "stored_log_selector (db_selectors d) (chain_id_of c) (j_selector jb) s" "l \<in> logs"
      "range_contains (j_blocks leader) (log_block_number l)" "sel_matches s l" for jb s l
  proof -
    have m: "(j_selector jb, SelLogs s) \<in> set (sort_key fst ms)" using that(2,3) selectors_by_id_members [OF sels ms] by auto
    have "sel_ok s" using that(3) by (simp add: stored_log_selector_def)
    from collect_gaps_complete [OF cov sels r gs m this that(5,6), of ?mx] all that(1,4,6) show ?thesis
      unfolding f_simps by fastforce
  qed
  moreover have "Safe \<le> fin" by (simp add: fin fill_finality_def)
  ultimately show thesis using spec stored f_simps by (intro that [of rows ?ms]) auto
qed

lemma commit_keeps_honest:
  assumes sels: "selectors_ok sha256 (db_selectors later)" and honest: "cover_honest logs i later"
    and kept: "durable_kept (db_rows later) (db_rows d')" and same: "db_selectors d' = db_selectors later"
    and lvl: "\<And>sid s l. cov_level (db_coverage d') i EvmLogs sid (int (log_block_number l)) \<noteq> None \<Longrightarrow>
      stored_log_selector (db_selectors later) i sid s \<Longrightarrow> l \<in> logs \<Longrightarrow> sel_matches s l \<Longrightarrow>
      cov_level (db_coverage later) i EvmLogs sid (int (log_block_number l)) \<noteq> None \<or> log_stored (db_rows d') i l"
  shows "cover_honest logs i d'"
  using honest lvl log_stored_kept [OF kept] unfolding cover_honest_def same by blast

lemma fetched_logs_stored:
  assumes rows: "rows_from fin logs rows" and inj: "inj_on log_pos logs" and fin: "Safe \<le> fin"
    and stored: "\<forall>l\<in>set (map snd rows). Safe \<le> log_finality l \<longrightarrow> log_stored st i l" and l: "l \<in> logs" "log_pos l \<in> dom (map_of rows)"
  shows "log_stored st i l"
proof -
  have "with_finality fin l \<in> set (map snd rows)" using rows inj l by (rule rows_from_value)
  with stored fin have "log_stored st i (with_finality fin l)" using with_finality_simps(4) [of fin l] by metis
  then show ?thesis by (simp add: log_stored_def)
qed

lemma rows_from_distinct:
  assumes "rows_from fin logs rows"
  shows "distinct (map log_pos (map snd rows))"
proof -
  have dist: "distinct (map fst rows)" using assms by (simp add: rows_from_def strict_sorted_iff)
  have "log_pos (snd p) = fst p" if "p \<in> set rows" for p
    using assms that dist by (cases p) (auto simp: rows_from_def)
  then have "map log_pos (map snd rows) = map fst rows" by simp
  with dist show ?thesis by (simp only:)
qed

lemma good_fetch_range: "good_fetch logs ms rows f \<Longrightarrow> ft_blocks f = Some r \<Longrightarrow> range_ok r"
  by (auto simp: good_fetch_def)

lemma good_fetch_holds:
  assumes "good_fetch logs ms rows f" and "ft_blocks f = Some r" and "sid \<in> set (ft_members f)" and "l \<in> logs"
    and "range_contains r (log_block_number l)" and "\<And>s'. (sid, s') \<in> set ms \<Longrightarrow> s' = s" and "sel_matches s l"
  shows "log_pos l \<in> dom (map_of rows)"
proof -
  obtain grp where grp: "set grp \<subseteq> set ms" "holds_all logs rows f grp" using assms(1) by (auto simp: good_fetch_def)
  then have "sid \<in> fst ` set grp" using assms(3) by (simp add: holds_all_def)
  then obtain s' where s': "(sid, s') \<in> set grp" by auto
  with grp(1) assms(6) have "s' = s" by blast
  with grp(2) assms(2,4,5,7) s' show ?thesis unfolding holds_all_def by (metis snd_conv)
qed

lemma fill_commit_logs:
  assumes commit: "fill_commit now today en later worker leader jobs c fin f = (res, d', en')" and logs: "j_dataset leader = EvmLogs"
    and safe: "db_safe later" and sels: "selectors_ok sha256 (db_selectors later)" and honest: "cover_honest logs (chain_id_of c) later"
    and inj: "inj_on log_pos logs" and fin: "Safe \<le> fin" and rows: "rows_from fin logs rows" "fd_logs f = map snd rows"
    and ms: "\<And>m. m \<in> set ms \<Longrightarrow> \<exists>i. stored_log_selector (db_selectors later) i (fst m) (snd m)"
    and fetches: "\<forall>f'\<in>set (fd_fetches f). good_fetch logs ms rows f'"
  shows "cover_honest logs (chain_id_of c) d' \<and> db_steps later d' \<and>
    (res = Ok () \<longrightarrow> fd_error f = None \<and> (\<forall>l\<in>logs. log_pos l \<in> dom (map_of rows) \<longrightarrow> log_stored (db_rows d') (chain_id_of c) l))"
  using commit
proof (cases rule: fill_commit_cases)
  case refused
  then show ?thesis using honest by (auto simp: cover_honest_def intro!: r_into_rtranclp d_other)
next
  case (committed d1 held hs)
  have step: "db_steps later d1" using committed by (auto intro!: r_into_rtranclp d_other)
  have "db_safe d1" using safe committed by (simp add: db_safe_def)
  moreover have "distinct (map log_pos (map snd rows))" using rows(1) by (rule rows_from_distinct)
  moreover have "\<forall>f'\<in>set (fd_fetches f). \<forall>r. ft_blocks f' = Some r \<longrightarrow> range_ok r" using fetches good_fetch_range by blast
  ultimately have steps: "db_steps d1 d'" and same: "db_selectors d' = db_selectors later"
    and new: "\<forall>l\<in>set (map snd rows). Safe \<le> log_finality l \<longrightarrow> log_stored (db_rows d') (chain_id_of c) l"
    and lvl: "\<And>sid x. cov_level (db_coverage d') (chain_id_of c) EvmLogs sid x \<noteq> None \<Longrightarrow> cov_level (db_coverage later) (chain_id_of c) EvmLogs sid x \<noteq> None \<or>
       (\<exists>f'\<in>set (fd_fetches f). \<exists>r. ft_blocks f' = Some r \<and> sid \<in> set (ft_members f') \<and> int (br_start r) \<le> x \<and> x \<le> int (br_end r))"
    using fill_tx_effects [OF committed(1), unfolded logs rows(2) committed(4,5)] by blast+
  have all: "db_steps later d'" using step steps by (rule rtranclp_trans)
  have kept: "durable_kept (db_rows later) (db_rows d')" using db_steps_keep [OF all safe] by (simp add: nothing_durable_lost_def)
  note got = fetched_logs_stored [OF rows(1) inj fin new]
  have "cover_honest logs (chain_id_of c) d'"
  proof (rule commit_keeps_honest [OF sels honest kept same])
    fix sid s l
    assume cov: "cov_level (db_coverage d') (chain_id_of c) EvmLogs sid (int (log_block_number l)) \<noteq> None"
      and s: "stored_log_selector (db_selectors later) (chain_id_of c) sid s" and l: "l \<in> logs" "sel_matches s l"
    have uniq: "s' = s" if "(sid, s') \<in> set ms" for s'
      using ms [OF that] stored_selector_unique [OF sels s] by auto
    show "cov_level (db_coverage later) (chain_id_of c) EvmLogs sid (int (log_block_number l)) \<noteq> None \<or> log_stored (db_rows d') (chain_id_of c) l"
      using lvl [OF cov] got [OF l(1)] good_fetch_holds [OF _ _ _ l(1) _ uniq l(2)] fetches
      by (fastforce simp: range_contains_iff)
  qed
  then show ?thesis using all got committed(6) by blast
qed

text \<open>
  C4. Coverage never lies. Let the provider answer \<open>eth_getLogs\<close> with exactly the matching logs of
  the blocks it serves (it may fail anywhere and serve only a prefix). If, when a fill of log
  jobs plans and when it commits, every log of the chain at a block that a stored selector is
  covered on is stored durably, then so it is after the fill, whether the fill succeeds, fails
  half way, loses leases or meets a conflict; the fill loses nothing durable; and when it
  succeeds, every log of the chunk that matches the selector of any of its jobs is stored
  durably under its block's hash.
\<close>
theorem fill_keeps_coverage_honest:
  assumes fill: "fill now today t en d later worker jobs = (res, d', en')" and chain: "chain_by_id en (j_chain (hd jobs)) = Ok c"
    and leader: "j_dataset (hd jobs) = EvmLogs" "range_ok (j_blocks (hd jobs))" and serve: "serves (ch_evm c) logs"
    and safe: "db_safe d" "db_steps d later" and sels: "selectors_ok sha256 (db_selectors d)" "selectors_ok sha256 (db_selectors later)"
    and stable: "\<And>i sid s. stored_log_selector (db_selectors d) i sid s \<Longrightarrow> stored_log_selector (db_selectors later) i sid s"
    and honest: "cover_honest logs (chain_id_of c) d" "cover_honest logs (chain_id_of c) later"
  shows "cover_honest logs (chain_id_of c) d' \<and> nothing_durable_lost later d' \<and> db_safe d' \<and>
    (res = Ok () \<longrightarrow> (\<forall>jb\<in>set jobs. \<forall>s. \<forall>l\<in>logs. stored_log_selector (db_selectors d) (chain_id_of c) (j_selector jb) s \<and>
       range_contains (j_blocks (hd jobs)) (log_block_number l) \<and> sel_matches s l \<longrightarrow> log_stored (db_rows d') (chain_id_of c) l))"
proof -
  have safe': "db_safe later" and lost: "nothing_durable_lost d later" using db_steps_keep [OF safe(2,1)] by auto
  have cov: "coverage_ok (db_coverage d)" using safe(1) by (simp add: db_safe_def)
  show ?thesis
  proof (cases "fill_fetch (nat now) t en d (hd jobs) jobs")
    case (Pair fetched en1)
    show ?thesis
    proof (cases fetched)
      case (Inl e)
      with fill Pair have "d' = later" "res \<noteq> Ok ()" by (auto simp: fill_def Let_def)
      with honest safe' show ?thesis by (simp add: nothing_lost_refl)
    next
      case (Inr cf)
      obtain c' fin f where cf: "cf = (c', fin, f)" by (cases cf)
      have fetch: "fill_fetch (nat now) t en d (hd jobs) jobs = (Ok (c', fin, f), en1)" using Pair Inr cf by simp
      have "c' = c" using fill_fetch_inv [OF fetch chain] by blast
      then have commit: "fill_commit now today en1 later worker (hd jobs) jobs c fin f = (res, d', en')"
        using fill fetch by (simp add: fill_def Let_def)
      have inj: "inj_on log_pos logs" using serve by (simp add: serves_def)
      obtain rows ms where fin: "Safe \<le> fin" and rows: "rows_from fin logs rows" "fd_logs f = map snd rows"
        and ms: "\<forall>m\<in>set ms. \<exists>i. stored_log_selector (db_selectors d) i (fst m) (snd m)"
        and fetches: "\<forall>f'\<in>set (fd_fetches f). good_fetch logs ms rows f'"
        and wanted: "\<forall>jb s l. fd_error f = None \<and> jb \<in> set jobs \<and> stored_log_selector (db_selectors d) (chain_id_of c) (j_selector jb) s \<and> l \<in> logs \<and>
       range_contains (j_blocks (hd jobs)) (log_block_number l) \<and> sel_matches s l \<longrightarrow> covered_elsewhere d c l \<or> log_pos l \<in> dom (map_of rows)"
        by (rule fill_fetch_logs [OF fetch chain leader cov sels(1) serve])
      have later_ms: "\<exists>i. stored_log_selector (db_selectors later) i (fst m) (snd m)" if "m \<in> set ms" for m
        using ms that stable by blast
      have out: "cover_honest logs (chain_id_of c) d'" "db_steps later d'"
        and got: "res = Ok () \<Longrightarrow> fd_error f = None" "\<And>l. res = Ok () \<Longrightarrow> l \<in> logs \<Longrightarrow> log_pos l \<in> dom (map_of rows) \<Longrightarrow> log_stored (db_rows d') (chain_id_of c) l"
        using fill_commit_logs [OF commit leader(1) safe' sels(2) honest(2) inj fin rows later_ms fetches] by blast+
      have after: "nothing_durable_lost later d'" "db_safe d'" using db_steps_keep [OF out(2) safe'] by auto
      have kept: "durable_kept (db_rows d) (db_rows later)" "durable_kept (db_rows later) (db_rows d')"
        using lost after(1) by (simp_all add: nothing_durable_lost_def)
      have "log_stored (db_rows d') (chain_id_of c) l" if "covered_elsewhere d c l" "l \<in> logs" for l
      proof -
        have "log_stored (db_rows d) (chain_id_of c) l" using that honest(1) unfolding covered_elsewhere_def cover_honest_def by blast
        then show ?thesis by (rule log_stored_kept [OF kept(2) log_stored_kept [OF kept(1)]])
      qed
      with out(1) after wanted got show ?thesis by blast
    qed
  qed
qed

definition fill_demo_chain :: chain where
  "fill_demo_chain = demo_chain\<lparr>ch_evm := (ch_evm demo_chain)\<lparr>ev_logs := (\<lambda>_ s r fin.
     Ok \<lparr>lp_rows = filter (\<lambda>l. range_contains r (log_block_number l) \<and> sel_matches s l) [with_finality fin (demo_log 5 0 11)],
          lp_fetched_to = Some (br_end r), lp_calls = 1\<rparr>)\<rparr>\<rparr>"

definition fill_demo_db :: db where
  "fill_demo_db = demo_db\<lparr>db_rows := \<lparr>rs_logs = [], rs_blocks = [], rs_senders = []\<rparr>, db_follow := \<lparr>ft_rows = [], ft_chains = []\<rparr>,
     db_heads := \<lparr>ht_heads = [1 \<mapsto> \<lparr>latest = 30, latest_hash = 106, safe = 20, finalized = 10\<rparr>], ht_notified = []\<rparr>,
     db_selectors := snd (upsert_insert (\<lambda>_. []) 0 \<lparr>st_rows = [], st_next_id = 1\<rparr> 1 (SelLogs sel_default))\<rparr>"

definition fill_demo_job :: job where
  "fill_demo_job = \<lparr>j_id = 1, j_chain = 1, j_dataset = EvmLogs, j_selector = 1, j_blocks = rng 0 9, j_purpose = JpQuery, j_application = ''app'',
     j_status = JsRunning, j_attempts = 1, j_worker = Some ''w'', j_lease_until = None\<rparr>"

lemma fill_demo_serves: "serves (ch_evm fill_demo_chain) {demo_log 5 0 11}"
  by (auto simp: serves_def fill_demo_chain_def page_sound_def page_exact_def page_of_def page_bound_def is_ok_def range_contains_iff
    less_Suc_eq_le)

lemma fill_demo_ok:
  "db_safe fill_demo_db" "selectors_ok (\<lambda>_. []) (db_selectors fill_demo_db)" "cover_honest {demo_log 5 0 11} i fill_demo_db"
proof -
  show "db_safe fill_demo_db"
    by (simp add: db_safe_def fill_demo_db_def demo_db_def rows_unique_def follow_inv_def coverage_ok_def)
  have "selectors_ok (\<lambda>_. []) \<lparr>st_rows = [], st_next_id = 1\<rparr>" and "selector_ok (SelLogs sel_default)"
    by (simp_all add: selectors_ok_def selector_ok_def sel_ok_def sel_default_def btree_ok_def topic_ok_def numeral_eq_Suc)
  then show "selectors_ok (\<lambda>_. []) (db_selectors fill_demo_db)" by (simp add: fill_demo_db_def upsert_insert_ok)
  show "cover_honest {demo_log 5 0 11} i fill_demo_db"
    by (simp add: cover_honest_def fill_demo_db_def demo_db_def cov_level_def)
qed

theorem fill_keeps_coverage_honest_witness:
  "\<exists>res d' en'. fill 0 0 0 (engine_new [fill_demo_chain] engine_settings_default) fill_demo_db fill_demo_db ''w'' [fill_demo_job] = (res, d', en') \<and>
     cover_honest {demo_log 5 0 11} 1 d' \<and> nothing_durable_lost fill_demo_db d' \<and> db_safe d'"
proof -
  obtain res d' en' where fill: "fill 0 0 0 (engine_new [fill_demo_chain] engine_settings_default) fill_demo_db fill_demo_db ''w'' [fill_demo_job] = (res, d', en')"
    by (cases "fill 0 0 0 (engine_new [fill_demo_chain] engine_settings_default) fill_demo_db fill_demo_db ''w'' [fill_demo_job]")
  have i: "chain_id_of fill_demo_chain = 1" by (simp add: chain_id_of_def fill_demo_chain_def demo_chain_def)
  have chain: "chain_by_id (engine_new [fill_demo_chain] engine_settings_default) (j_chain (hd [fill_demo_job])) = Ok fill_demo_chain"
    by (simp add: chain_by_id_def engine_new_def i fill_demo_job_def)
  have job: "j_dataset (hd [fill_demo_job]) = EvmLogs" "range_ok (j_blocks (hd [fill_demo_job]))"
    by (simp_all add: fill_demo_job_def MAX_END_value)
  show ?thesis
    using fill_keeps_coverage_honest [OF fill chain job fill_demo_serves fill_demo_ok(1) _ fill_demo_ok(2,2) _ fill_demo_ok(3,3)] fill i by auto
qed

end
