(* ===== verification/Answers.thy ===== *)
theory Answers
  imports Query Fill
begin

text \<open>
  What a query answers. The shape of the answer (the served part, where to go on, why it stopped,
  the segments) follows from the code alone; that every log of the served durable part is among
  the rows follows from honest coverage, which the fills keep.
\<close>

section \<open>Progress of the durable part\<close>

definition prefix_of :: "block_range \<Rightarrow> block_range option \<Rightarrow> bool" where
  "prefix_of dur served =
     (case served of None \<Rightarrow> True | Some v \<Rightarrow> range_ok v \<and> br_start v = br_start dur \<and> br_end v \<le> br_end dur)"

definition progress_ok_for :: "block_range \<Rightarrow> progress \<Rightarrow> bool" where
  "progress_ok_for dur p = (prefix_of dur (pr_served p) \<and> (pr_blocker p = None \<longleftrightarrow> reaches (pr_served p) dur))"

lemma longest_prefix_of: "range_ok dur \<Longrightarrow> prefix_of dur (longest_covered_prefix cov dur)"
  by (auto simp: longest_covered_prefix_def prefix_of_def range_new_ok_eq range_ok_def split: option.splits if_splits)

lemma served_prefix_of: "range_ok dur \<Longrightarrow> served_prefix d c sel sid dur = Ok v \<Longrightarrow> prefix_of dur v"
  using longest_prefix_of by (auto simp: served_prefix_def map_ok_def split: sum.splits)

lemma promotion_wait_induct [consumes 1, case_names stop reached again]:
  assumes "promotion_wait w c sel sid dur deadline after served s = (Ok p, s')"
    and stop: "\<And>served s s'. s' = s \<or> s' = await w s \<Longrightarrow> Q served s \<lparr>pr_served = served, pr_blocker = Some (NotFollowedYet, None)\<rparr> s'"
    and reached: "\<And>served v s. served_prefix (se_db (await w s)) c sel sid dur = Ok v \<Longrightarrow> reaches v dur \<Longrightarrow>
      Q served s \<lparr>pr_served = v, pr_blocker = None\<rparr> (await w s)"
    and again: "\<And>served v s p s'. served_prefix (se_db (await w s)) c sel sid dur = Ok v \<Longrightarrow> \<not> reaches v dur \<Longrightarrow>
      Q v (await w s) p s' \<Longrightarrow> Q served s p s'"
  shows "Q served s p s'"
  using assms(1)
proof (induction "deadline - se_now s" arbitrary: after served s rule: less_induct)
  case less
  let ?s1 = "await w s" and ?after = "\<lambda>s1. case head_change_check (db_heads (se_db s1)) (chain_id_of c) after HkLatest of Some h \<Rightarrow> latest h | None \<Rightarrow> after"
  show ?case
  proof (cases "deadline \<le> se_now s \<or> wk_error (w (se_waits s)) \<noteq> None")
    case True
    then have "p = \<lparr>pr_served = served, pr_blocker = Some (NotFollowedYet, None)\<rparr> \<and> (s' = s \<or> s' = ?s1)"
      using less.prems by (subst (asm) promotion_wait.simps) (auto simp: Let_def split: if_splits)
    then show ?thesis using stop by blast
  next
    case False
    then have run: "(case served_prefix (se_db ?s1) c sel sid dur of Inl e \<Rightarrow> (Err e, ?s1)
        | Inr v \<Rightarrow> if reaches v dur then (Ok \<lparr>pr_served = v, pr_blocker = None\<rparr>, ?s1)
          else promotion_wait w c sel sid dur deadline (?after ?s1) v ?s1) = (Ok p, s')"
      using less.prems by (subst (asm) promotion_wait.simps) (simp add: Let_def)
    then obtain v where v: "served_prefix (se_db ?s1) c sel sid dur = Ok v" by (auto split: sum.splits)
    show ?thesis
    proof (cases "reaches v dur")
      case True
      then show ?thesis using run v reached by auto
    next
      case fresh: False
      then have "promotion_wait w c sel sid dur deadline (?after ?s1) v ?s1 = (Ok p, s')" using run v by simp
      moreover have "se_now s < deadline" using False by simp
      then have "deadline - se_now ?s1 < deadline - se_now s" by (simp add: await_def Let_def diff_less_mono2)
      ultimately show ?thesis using less.hyps again [OF v fresh] by blast
    qed
  qed
qed

lemma promotion_wait_ok:
  assumes "promotion_wait w c sel sid dur deadline after served s = (Ok p, s')" and "range_ok dur" and "prefix_of dur served" and "\<not> reaches served dur"
  shows "progress_ok_for dur p"
  using assms
  by (induction rule: promotion_wait_induct) (auto simp: progress_ok_for_def dest: served_prefix_of)

lemma after_fills_cases:
  assumes "after_fills w c sel sid dur h deadline fend jobs over s = (Ok p, s')"
  obtains (whole) v where "served_prefix (se_db s) c sel sid dur = Ok v" "reaches v dur" "p = \<lparr>pr_served = v, pr_blocker = None\<rparr>" "s' = s"
  | (wait) v where "served_prefix (se_db s) c sel sid dur = Ok v" "\<not> reaches v dur"
      "promotion_wait w c sel sid dur deadline (latest h) v s = (Ok p, s')"
  | (blocked) v b where "served_prefix (se_db s) c sel sid dur = Ok v" "\<not> reaches v dur" "p = \<lparr>pr_served = v, pr_blocker = Some b\<rparr>" "s' = s"
proof (cases "served_prefix (se_db s) c sel sid dur")
  case (Inr v)
  show thesis
  proof (cases "reaches v dur")
    case False
    with assms Inr show thesis
      by (cases "case fend of None \<Rightarrow> True | Some e \<Rightarrow> e < first_missing dur v")
        (auto simp: after_fills_def intro: wait [OF Inr False] blocked [OF Inr False])
  next
    case True
    with assms Inr have "p = \<lparr>pr_served = v, pr_blocker = None\<rparr>" "s' = s" by (auto simp: after_fills_def)
    with Inr True show thesis by (rule whole)
  qed
qed (use assms in \<open>simp add: after_fills_def\<close>)

lemma after_fills_ok:
  assumes "range_ok dur" and "after_fills w c sel sid dur h deadline fend jobs over s = (Ok p, s')"
  shows "progress_ok_for dur p"
  using assms(2)
proof (cases rule: after_fills_cases)
  case (wait v)
  then show ?thesis using promotion_wait_ok [OF wait(3) assms(1)] served_prefix_of [OF assms(1)] by blast
qed (auto simp: progress_ok_for_def served_prefix_of [OF assms(1)])

text \<open>The cases of \<open>fill_durable\<close>: served at once, or after the jobs.\<close>

lemma fill_durable_cases:
  assumes "fill_durable w cl c sel sid dur h deadline follow s = (Ok p, s')"
  obtains (known) cov sp where "engine_covered (se_db s) c sel sid sp = Ok cov" "s' = s"
      "sp = dur \<or> (\<exists>f::block_range. range_new (br_start f) (max (br_end f) (br_end dur)) = Ok sp)"
      "p = \<lparr>pr_served = longest_covered_prefix cov dur, pr_blocker = None\<rparr>" "reaches (longest_covered_prefix cov dur) dur"
  | (filled) planned jobs over s1 fend where "enqueue_chunks cl c (selector_dataset sel) sid planned [] False s = (Ok (jobs, over), s1)"
      "after_fills w c sel sid dur h deadline fend jobs over (wait_fills w deadline jobs s1) = (Ok p, s')"
proof -
  obtain owner where run: "(let fend = fill_end_of h owner; chunk = settings_chunk (ch_settings c) (selector_dataset sel); fspan = fill_span_of dur chunk fend
      in case (case fspan of None \<Rightarrow> Ok dur | Some f \<Rightarrow> range_new (br_start f) (max (br_end f) (br_end dur))) of
           Inl e \<Rightarrow> (Err e, s)
         | Inr span \<Rightarrow>
             (case engine_covered (se_db s) c sel sid span of
                Inl e \<Rightarrow> (Err e, s)
              | Inr cov \<Rightarrow>
                  let served = longest_covered_prefix cov dur in
                  if reaches served dur then (Ok \<lparr>pr_served = served, pr_blocker = None\<rparr>, s)
                  else
                    let planned = (case (fspan, fend) of (Some f, Some e) \<Rightarrow> fill_chunks f cov chunk e | _ \<Rightarrow> []) in
                    and_run (enqueue_chunks cl c (selector_dataset sel) sid planned [] False s) (\<lambda>(jobs, over) s1.
                      after_fills w c sel sid dur h deadline fend jobs over (wait_fills w deadline jobs s1)))) = (Ok p, s')"
    using assms unfolding fill_durable_def by (auto split: sum.splits)
  define fend where "fend = fill_end_of h owner"
  define chunk where "chunk = settings_chunk (ch_settings c) (selector_dataset sel)"
  define fspan where "fspan = fill_span_of dur chunk fend"
  note run = run [folded fend_def chunk_def, unfolded Let_def, folded fspan_def]
  obtain sp where sp: "(case fspan of None \<Rightarrow> Ok dur | Some f \<Rightarrow> range_new (br_start f) (max (br_end f) (br_end dur))) = Ok sp"
    using run by (cases "case fspan of None \<Rightarrow> Ok dur | Some f \<Rightarrow> range_new (br_start f) (max (br_end f) (br_end dur))") auto
  obtain cov where cov: "engine_covered (se_db s) c sel sid sp = Ok cov"
    using run unfolding sp by (cases "engine_covered (se_db s) c sel sid sp") auto
  show thesis
  proof (cases "reaches (longest_covered_prefix cov dur) dur")
    case True
    with run show thesis unfolding sp by (intro known [OF cov]) (use sp in \<open>auto simp: cov split: option.splits\<close>)
  next
    case False
    with run obtain jobs over s1 where
      "enqueue_chunks cl c (selector_dataset sel) sid (case (fspan, fend) of (Some f, Some e) \<Rightarrow> fill_chunks f cov chunk e | _ \<Rightarrow> []) [] False s = (Ok (jobs, over), s1)"
      "after_fills w c sel sid dur h deadline fend jobs over (wait_fills w deadline jobs s1) = (Ok p, s')"
      by (auto simp: sp cov and_run_Ok_iff)
    then show thesis by (rule filled)
  qed
qed

lemma fill_durable_ok:
  assumes "range_ok dur" and "fill_durable w cl c sel sid dur h deadline follow s = (Ok p, s')"
  shows "progress_ok_for dur p"
  using assms(2)
proof (cases rule: fill_durable_cases)
  case known
  then show ?thesis using longest_prefix_of [OF assms(1)] by (simp add: progress_ok_for_def)
qed (rule after_fills_ok [OF assms(1)])

section \<open>The followed tail\<close>

lemma hot_part_cases:
  assumes "hot_part f wanted = Ok t" and "range_ok wanted"
  obtains (none) "pr_served (ho_progress t) = None" "pr_blocker (ho_progress t) \<noteq> None" "ho_segment t = None"
  | (some) v sg where "pr_served (ho_progress t) = Some v" "range_ok v" "br_start v = br_start wanted" "br_end v \<le> br_end wanted"
      "pr_blocker (ho_progress t) = None \<longleftrightarrow> br_end v = br_end wanted" "ho_segment t = Some sg" "seg_start sg = br_start v" "seg_end sg = br_end v"
      "seg_source sg = Hot" "seg_finality sg = Unsafe"
proof (cases "u64_of_i64 (fp_head f)")
  case None
  with assms(1) none show thesis by (auto simp: hot_part_def not_followed_def)
next
  case (Some head)
  show thesis
  proof (cases "br_start wanted \<le> head \<and> fp_from f \<le> br_start wanted")
    case True
    then have ok: "range_new (br_start wanted) (min (br_end wanted) head) = Ok (rng (br_start wanted) (min (br_end wanted) head))"
      using assms(2) by (auto simp: range_new_def range_ok_def)
    show thesis
      by (rule some [of "rng (br_start wanted) (min (br_end wanted) head)" "the (ho_segment t)"])
        (use assms Some True ok in \<open>auto simp: hot_part_def range_ok_def split: if_splits\<close>)
  next
    case False
    with assms(1) Some none show thesis by (auto simp: hot_part_def not_followed_def)
  qed
qed

lemma hot_range_cases:
  assumes "query_hot_range fin r h = Ok hr" and "range_ok r"
  shows "(hr = None \<longleftrightarrow> fin = DurableOnly \<or> br_end r \<le> safe h) \<and>
    (\<forall>wanted. hr = Some wanted \<longrightarrow> range_ok wanted \<and> br_start wanted = max (br_start r) (safe h + 1) \<and> br_end wanted = br_end r \<and> safe h < br_end r)"
  using assms by (auto simp: query_hot_range_def map_ok_def range_new_def range_ok_def split: sum.splits if_splits)

lemma durable_part_cases:
  assumes "range_ok r"
  shows "durable_part r sf = None \<longleftrightarrow> sf < br_start r"
    and "durable_part r sf = Some dr \<Longrightarrow> range_ok dr \<and> br_start dr = br_start r \<and> br_end dr = min (br_end r) sf"
  using assms by (auto simp: durable_part_def range_new_def range_ok_def split: if_splits)

definition durable_range :: "query_finality \<Rightarrow> block_range \<Rightarrow> heads \<Rightarrow> block_range option" where
  "durable_range fin r h = (if fin = LatestOnly then None else durable_part r (safe h))"

text \<open>What the parts of a query leave for the answer.\<close>

definition parts_ok ::
  "query_finality \<Rightarrow> block_range \<Rightarrow> heads \<Rightarrow> progress option \<Rightarrow> bool \<Rightarrow> block_range option \<Rightarrow> hot option \<Rightarrow> bool" where
  "parts_ok fin r h dp whole hr ht =
     ((case durable_range fin r h of None \<Rightarrow> dp = None \<and> whole
       | Some dr \<Rightarrow> (\<exists>p. dp = Some p \<and> progress_ok_for dr p \<and> (whole \<longleftrightarrow> reaches (pr_served p) dr))) \<and>
      query_hot_range fin r h = Ok hr \<and>
      (case ht of None \<Rightarrow> hr = None \<or> \<not> whole | Some t \<Rightarrow> whole \<and> (\<exists>f wanted. hr = Some wanted \<and> hot_part f wanted = Ok t)))"

lemma run_hot_part: "run_hot c ds sid wanted s = (Ok t, s') \<Longrightarrow> \<exists>f. hot_part f wanted = Ok t"
  by (auto simp: run_hot_def and_run_Ok_iff)

lemma query_progress_parts:
  assumes "query_progress w cl c sel sid fin r h deadline follow s = (Ok (dp, whole, hr, ht), s')" and "range_ok r"
  shows "parts_ok fin r h dp whole hr ht"
proof (cases "durable_range fin r h")
  case None
  then show ?thesis using assms(1)
    by (auto simp: query_progress_def durable_range_def [symmetric] Let_def and_run_Ok_iff parts_ok_def split: option.splits sum.splits)
      (blast dest: run_hot_part)
next
  case (Some dr)
  then have ok: "range_ok dr" using durable_part_cases(2) [OF assms(2)] by (auto simp: durable_range_def split: if_splits)
  obtain p s1 where p: "fill_durable w cl c sel sid dr h deadline follow s = (Ok p, s1)" and dp: "dp = Some p"
    and whole: "whole = progress_reaches p (br_end dr)" and hr: "query_hot_range fin r h = Ok hr"
    using assms(1) Some
    by (auto simp: query_progress_def durable_range_def [symmetric] Let_def and_run_Ok_iff split: option.splits if_splits)
  have "progress_ok_for dr p" using fill_durable_ok [OF ok p] .
  moreover have "whole \<longleftrightarrow> reaches (pr_served p) dr" by (auto simp: whole progress_reaches_def reaches_def)
  moreover have "case ht of None \<Rightarrow> hr = None \<or> \<not> whole | Some t \<Rightarrow> whole \<and> (\<exists>f wanted. hr = Some wanted \<and> hot_part f wanted = Ok t)"
    using assms(1) Some p hr whole
    by (auto simp: query_progress_def durable_range_def [symmetric] Let_def and_run_Ok_iff dest: run_hot_part split: option.splits if_splits)
  ultimately show ?thesis using Some dp hr by (auto simp: parts_ok_def)
qed

section \<open>The shape of an answer\<close>

fun tiles :: "u64 \<Rightarrow> segment list \<Rightarrow> u64 \<Rightarrow> bool" where
  "tiles lo [] hi = (lo = hi + 1)"
| "tiles lo (g # gs) hi = (seg_start g = lo \<and> lo \<le> seg_end g \<and> tiles (seg_end g + 1) gs hi)"

definition segment_right :: "heads \<Rightarrow> segment \<Rightarrow> bool" where
  "segment_right h g =
     (case seg_source g of
        Durable \<Rightarrow> seg_end g \<le> safe h \<and> (seg_finality g = Finalized \<and> seg_end g \<le> finalized h \<or> seg_finality g = Safe \<and> finalized h < seg_start g)
      | Hot \<Rightarrow> safe h < seg_start g \<and> seg_finality g = Unsafe)"

definition first_block :: "query_finality \<Rightarrow> block_range \<Rightarrow> heads \<Rightarrow> u64" where
  "first_block fin r h = (if fin = LatestOnly then max (br_start r) (safe h + 1) else br_start r)"

lemma tiles_append: "tiles lo gs mid \<Longrightarrow> tiles (mid + 1) gs' hi \<Longrightarrow> tiles lo (gs @ gs') hi"
  by (induction lo gs mid rule: tiles.induct) auto

lemma durable_segments_tile:
  "range_ok v \<Longrightarrow> tiles (br_start v) (durable_segments v h) (br_end v)"
  by (auto simp: durable_segments_def durable_segment_def range_ok_def)

lemma durable_segments_right:
  "br_end v \<le> safe h \<Longrightarrow> g \<in> set (durable_segments v h) \<Longrightarrow> segment_right h g"
  by (auto simp: durable_segments_def durable_segment_def segment_right_def split: if_splits)

definition answered :: "query_finality \<Rightarrow> block_range \<Rightarrow> heads \<Rightarrow> block_range option \<Rightarrow> segment list \<Rightarrow> bool" where
  "answered fin r h served gs =
     ((case served of
         None \<Rightarrow> gs = []
       | Some v \<Rightarrow> range_ok v \<and> br_start v = first_block fin r h \<and> br_end v \<le> br_end r \<and> tiles (first_block fin r h) gs (br_end v)) \<and>
      (\<forall>g\<in>set gs. segment_right h g))"

lemma durable_answered:
  assumes "durable_range fin r h = Some dr" and "range_ok r" and "prefix_of dr served"
  shows "answered fin r h served (case served of None \<Rightarrow> [] | Some v \<Rightarrow> durable_segments v h)"
proof (cases served)
  case (Some v)
  have dr: "fin \<noteq> LatestOnly" "br_start dr = br_start r" "br_end dr = min (br_end r) (safe h)"
    using assms(1) durable_part_cases(2) [OF assms(2)] by (auto simp: durable_range_def split: if_splits)
  with Some assms(3) show ?thesis
    using durable_segments_tile [of v h] durable_segments_right [of v h]
    by (auto simp: answered_def prefix_of_def first_block_def)
qed (simp add: answered_def)

lemma hot_answered:
  assumes "hot_part f wanted = Ok t" and "range_ok wanted" and "br_start wanted = max (br_start r) (safe h + 1)" and "br_end wanted = br_end r"
    and "fin = LatestOnly \<or> safe h < br_start r"
  shows "answered fin r h (pr_served (ho_progress t)) (case ho_segment t of None \<Rightarrow> [] | Some g \<Rightarrow> [g])"
  using assms(1,2)
proof (cases rule: hot_part_cases)
  case (some v sg)
  then show ?thesis using assms(3-5) by (auto simp: answered_def first_block_def segment_right_def range_ok_def)
qed (simp add: answered_def)

lemma both_answered:
  assumes dr: "durable_range fin r h = Some dr" and r: "range_ok r" and p: "prefix_of dr (Some low)" "br_end low = br_end dr"
    and hot: "hot_part f wanted = Ok t" "range_ok wanted" "br_start wanted = max (br_start r) (safe h + 1)" "br_end wanted = br_end r" "safe h < br_end r"
    and high: "pr_served (ho_progress t) = Some high" and v: "range_new (br_start low) (br_end high) = Ok v"
  shows "answered fin r h (Some v) (durable_segments low h @ (case ho_segment t of None \<Rightarrow> [] | Some g \<Rightarrow> [g]))"
proof -
  have "durable_part r (safe h) = Some dr" and late: "fin \<noteq> LatestOnly" using dr by (auto simp: durable_range_def split: if_splits)
  then have d: "fin \<noteq> LatestOnly" "br_start dr = br_start r" "br_end dr = min (br_end r) (safe h)" "br_start r \<le> safe h"
    using durable_part_cases(1) [OF r, of "safe h"] durable_part_cases(2) [OF r, of "safe h" dr] by (simp_all add: not_less)
  have low: "range_ok low" "br_start low = br_start r" "br_end low = safe h" using p d hot(5) by (simp_all add: prefix_of_def)
  from hot(1,2) obtain sg where sg: "ho_segment t = Some sg" "seg_start sg = br_start high" "seg_end sg = br_end high" "seg_source sg = Hot" "seg_finality sg = Unsafe"
    and hi: "range_ok high" "br_start high = br_start wanted" "br_end high \<le> br_end wanted"
    using high by (cases rule: hot_part_cases) auto
  have start: "br_start wanted = safe h + 1" using hot(3) d(4) by simp
  have "tiles (br_start r) (durable_segments low h @ [sg]) (br_end high)"
    using durable_segments_tile [OF low(1), of h] low(2,3) sg hi start by (intro tiles_append [of _ _ "safe h"]) (auto simp: range_ok_def)
  moreover have "v = rng (br_start r) (br_end high)" "br_start r \<le> br_end high" "br_end high \<le> MAX_END"
    using v low(2) by (auto simp: range_new_def split: if_splits)
  moreover have "\<forall>g\<in>set (durable_segments low h). segment_right h g" using durable_segments_right [of low h] low(3) by simp
  moreover have "segment_right h sg" using sg hi start by (simp add: segment_right_def)
  ultimately show ?thesis using d(1) hi(3) hot(4) sg(1) by (simp add: answered_def first_block_def)
qed

lemma parts_answer:
  assumes parts: "parts_ok fin r h dp whole hr ht" and r: "range_ok r" and mrg: "merge_progress dp ht = Ok (served, block)"
  shows "answered fin r h served (segments_of h dp whole ht)"
proof (cases ht)
  case None
  show ?thesis
  proof (cases "durable_range fin r h")
    case None
    with \<open>ht = None\<close> parts mrg show ?thesis by (auto simp: parts_ok_def merge_progress_def segments_of_def answered_def)
  next
    case (Some dr)
    with parts obtain p where "dp = Some p" "progress_ok_for dr p" by (auto simp: parts_ok_def)
    with durable_answered [OF Some r] \<open>ht = None\<close> mrg show ?thesis
      by (auto simp: merge_progress_def segments_of_def progress_ok_for_def)
  qed
next
  case hot: (Some t)
  with parts obtain f wanted where whole: "whole" and hr: "hr = Some wanted" "query_hot_range fin r h = Ok hr" and f: "hot_part f wanted = Ok t"
    by (auto simp: parts_ok_def)
  have w: "range_ok wanted" "br_start wanted = max (br_start r) (safe h + 1)" "br_end wanted = br_end r" "safe h < br_end r"
    using hot_range_cases [OF hr(2) r] hr(1) by auto
  show ?thesis
  proof (cases "durable_range fin r h")
    case None
    then have "dp = None" using parts by (simp add: parts_ok_def)
    moreover have "fin = LatestOnly \<or> safe h < br_start r" using None durable_part_cases(1) [OF r] by (auto simp: durable_range_def split: if_splits)
    ultimately show ?thesis using hot_answered [OF f w(1-3)] hot whole mrg by (auto simp: merge_progress_def segments_of_def)
  next
    case (Some dr)
    with parts whole obtain p low where p: "dp = Some p" "pr_served p = Some low" "prefix_of dr (Some low)" "br_end low = br_end dr"
      by (auto simp: parts_ok_def progress_ok_for_def reaches_def split: option.splits)
    show ?thesis
    proof (cases "pr_served (ho_progress t)")
      case None
      moreover have "ho_segment t = None" using f w(1) by (cases rule: hot_part_cases) (use None in auto)
      moreover have "served = Some low" using mrg p(1,2) hot None by (auto simp: merge_progress_def)
      ultimately show ?thesis using durable_answered [OF Some r p(3)] p(1,2) hot by (simp add: segments_of_def)
    next
      case high: (Some high)
      then show ?thesis using both_answered [OF Some r p(3,4) f w high] p(1,2) hot whole mrg
        by (auto simp: merge_progress_def segments_of_def map_ok_def split: sum.splits)
    qed
  qed
qed

section \<open>Queries\<close>

text \<open>The steps of a query that answers.\<close>

record query_run =
  qr_chain :: chain
  qr_target :: row_target
  qr_cursor :: "cursor option"
  qr_heads :: heads
  qr_id :: selector_id
  qr_follow :: "follow_progress option"
  qr_durable :: "progress option"
  qr_whole :: bool
  qr_hot_range :: "block_range option"
  qr_hot :: "hot option"
  qr_served :: "block_range option"
  qr_block :: "blocker option"
  qr_rows :: "json list"
  qr_next :: "string option"

definition query_steps ::
  "(string \<Rightarrow> bytes) \<Rightarrow> serde \<Rightarrow> schedule \<Rightarrow> caller \<Rightarrow> query_request \<Rightarrow> session \<Rightarrow> query_run \<Rightarrow> session \<Rightarrow> session \<Rightarrow> session \<Rightarrow> session \<Rightarrow> session \<Rightarrow> bool" where
  "query_steps sha256 sd w cl rq s q s1 s2 s3 s4 s5 =
     (let r = rq_range rq; fin = rq_finality rq; sel = target_selector (qr_target q);
          page = (case rq_page rq of None \<Rightarrow> page_default | Some p \<Rightarrow> p); st = en_settings (se_engine s)
      in engine_chain (se_engine s) (rq_chain rq) = Ok (qr_chain q) \<and> target_parse rq = Ok (qr_target q) \<and>
         (case pg_cursor page of None \<Rightarrow> Ok None | Some t \<Rightarrow> map_ok Some (cursor_decode t)) = Ok (qr_cursor q) \<and>
         query_heads (qr_chain q) fin r s = (Ok (qr_heads q), s1) \<and> intern_selector sha256 (qr_chain q) sel s1 = (qr_id q, s2) \<and>
         query_attach cl (qr_chain q) fin r (qr_heads q) (selector_dataset sel) (qr_id q) s2 = (Ok (qr_follow q), s3) \<and>
         query_progress w cl (qr_chain q) sel (qr_id q) fin r (qr_heads q) (se_now s + query_wait st rq) (qr_follow q) s3 =
           (Ok (qr_durable q, qr_whole q, qr_hot_range q, qr_hot q), s4) \<and>
         merge_progress (qr_durable q) (qr_hot q) = Ok (qr_served q, qr_block q) \<and>
         (case qr_served q of None \<Rightarrow> (Ok ([], None), s4)
          | Some v \<Rightarrow> read_rows sd (qr_chain q) (qr_target q) \<lparr>rp_served = v, rp_cursor = qr_cursor q, rp_limit = query_limit st page\<rparr>
              (qr_heads q) (await w s4)) = (Ok (qr_rows q, qr_next q), s5))"

lemma query_inv:
  assumes "query sha256 sd w today cl rq s = (Ok resp, s')"
  obtains q s1 s2 s3 s4 s5 where "query_steps sha256 sd w cl rq s q s1 s2 s3 s4 s5" "se_db s' = se_db s5"
    "rs_requested resp = rq_range rq" "rs_served resp = qr_served q" "rs_rows resp = qr_rows q" "pi_next_cursor (rs_page resp) = qr_next q"
    "rs_next_start resp = next_start_of (rq_finality rq) (rq_range rq) (qr_hot_range q) (qr_served q)"
    "(rs_incomplete_reason resp, rs_incomplete_detail resp) =
       incomplete_of (rq_finality rq) (rq_range rq) (qr_heads q) (rs_next_start resp) (qr_block q)"
    "rs_segments resp = segments_of (qr_heads q) (qr_durable q) (qr_whole q) (qr_hot q)"
proof -
  obtain c where c: "engine_chain (se_engine s) (rq_chain rq) = Ok c"
    using assms by (cases "engine_chain (se_engine s) (rq_chain rq)") (auto simp: query_def)
  obtain tg where tg: "target_parse rq = Ok tg"
    using assms c by (cases "target_parse rq") (auto simp: query_def)
  let ?page = "case rq_page rq of None \<Rightarrow> page_default | Some p \<Rightarrow> p" and ?st = "en_settings (se_engine s)" and ?sel = "target_selector tg"
  obtain cur where cur: "(case pg_cursor ?page of None \<Rightarrow> Ok None | Some t \<Rightarrow> map_ok Some (cursor_decode t)) = Ok cur"
    using assms c tg by (cases "case pg_cursor ?page of None \<Rightarrow> Ok None | Some t \<Rightarrow> map_ok Some (cursor_decode t)") (auto simp: query_def Let_def)
  note q = assms [unfolded query_def c tg Let_def sum.case cur]
  then obtain h s1 where h: "query_heads c (rq_finality rq) (rq_range rq) s = (Ok h, s1)" by (auto simp: and_run_Ok_iff)
  obtain sid s2 where sid: "intern_selector sha256 c ?sel s1 = (sid, s2)" by force
  note q = q [unfolded h and_run_simps sid prod.case]
  then obtain follow s3 where follow: "query_attach cl c (rq_finality rq) (rq_range rq) h (selector_dataset ?sel) sid s2 = (Ok follow, s3)"
    by (auto simp: and_run_Ok_iff)
  note q = q [unfolded follow and_run_simps]
  then obtain dp whole hr ht s4 where prog: "query_progress w cl c ?sel sid (rq_finality rq) (rq_range rq) h (se_now s + query_wait ?st rq) follow s3 =
      (Ok (dp, whole, hr, ht), s4)" by (auto simp: and_run_Ok_iff)
  note q = q [unfolded prog and_run_simps prod.case]
  then obtain served block where mrg: "merge_progress dp ht = Ok (served, block)" by (auto simp: and_run_Ok_iff)
  note q = q [unfolded mrg and_run_simps prod.case]
  obtain reason detail where inc: "incomplete_of (rq_finality rq) (rq_range rq) h (next_start_of (rq_finality rq) (rq_range rq) hr served) block = (reason, detail)" by force
  note q = q [unfolded inc prod.case]
  then obtain rows nxt s5 where rd: "(case served of None \<Rightarrow> (Ok ([], None), s4)
      | Some v \<Rightarrow> read_rows sd c tg \<lparr>rp_served = v, rp_cursor = cur, rp_limit = query_limit ?st ?page\<rparr> h (await w s4)) = (Ok (rows, nxt), s5)"
    by (auto simp: and_run_Ok_iff)
  note q = q [unfolded rd and_run_simps prod.case]
  show thesis
    by (rule that [of "\<lparr>qr_chain = c, qr_target = tg, qr_cursor = cur, qr_heads = h, qr_id = sid, qr_follow = follow, qr_durable = dp,
        qr_whole = whole, qr_hot_range = hr, qr_hot = ht, qr_served = served, qr_block = block, qr_rows = rows, qr_next = nxt\<rparr>" s1 s2 s3 s4 s5])
      (use c tg cur h sid follow prog mrg inc rd q in \<open>auto simp: query_steps_def Let_def cong: option.case_cong\<close>)
qed

lemma query_heads_durable:
  "query_heads c fin r s = (Ok h, s1) \<Longrightarrow> fin = DurableOnly \<Longrightarrow> br_end r \<le> safe h"
  by (auto simp: query_heads_def and_run_Ok_iff split: if_splits)

text \<open>The contract of an answer towards its readers, for the heads it was computed on. The rows are left out:
  a reader of several pages joins them.\<close>

definition answer_shape :: "query_request \<Rightarrow> heads \<Rightarrow> 'v query_response \<Rightarrow> bool" where
  "answer_shape rq h resp =
     (let r = rq_range rq; fin = rq_finality rq; lo = first_block fin r h in
      rs_requested resp = r \<and> (fin = DurableOnly \<longrightarrow> br_end r \<le> safe h) \<and>
      (case rs_served resp of
         None \<Rightarrow> rs_segments resp = [] \<and> rs_next_start resp = (if lo \<le> br_end r then Some lo else None)
       | Some v \<Rightarrow> range_ok v \<and> br_start v = lo \<and> br_end v \<le> br_end r \<and> tiles lo (rs_segments resp) (br_end v) \<and>
           rs_next_start resp = (if br_end v < br_end r then Some (br_end v + 1) else None)) \<and>
      (\<forall>g\<in>set (rs_segments resp). segment_right h g) \<and>
      (rs_incomplete_reason resp = None \<longleftrightarrow> rs_next_start resp = None \<and> lo = br_start r))"

lemma query_answers:
  assumes "query sha256 sd w today cl rq s = (Ok resp, s')" and "range_ok (rq_range rq)"
  shows "\<exists>h. answer_shape rq h resp \<and> (rs_served resp = None \<longrightarrow> rs_rows resp = [])"
proof -
  obtain q s1 s2 s3 s4 s5 where q: "query_steps sha256 sd w cl rq s q s1 s2 s3 s4 s5"
    and out: "rs_requested resp = rq_range rq" "rs_served resp = qr_served q" "rs_rows resp = qr_rows q"
      "rs_next_start resp = next_start_of (rq_finality rq) (rq_range rq) (qr_hot_range q) (qr_served q)"
      "(rs_incomplete_reason resp, rs_incomplete_detail resp) =
         incomplete_of (rq_finality rq) (rq_range rq) (qr_heads q) (rs_next_start resp) (qr_block q)"
      "rs_segments resp = segments_of (qr_heads q) (qr_durable q) (qr_whole q) (qr_hot q)"
    using query_inv [OF assms(1)] by metis
  let ?r = "rq_range rq" and ?fin = "rq_finality rq" and ?h = "qr_heads q"
  have parts: "parts_ok ?fin ?r ?h (qr_durable q) (qr_whole q) (qr_hot_range q) (qr_hot q)"
    and mrg: "merge_progress (qr_durable q) (qr_hot q) = Ok (qr_served q, qr_block q)"
    and hd: "?fin = DurableOnly \<longrightarrow> br_end ?r \<le> safe ?h"
    and none: "qr_served q = None \<Longrightarrow> qr_rows q = []"
    using q query_progress_parts [OF _ assms(2)] query_heads_durable by (auto simp: query_steps_def Let_def)
  have ans: "answered ?fin ?r ?h (rs_served resp) (rs_segments resp)" using parts_answer [OF parts assms(2) mrg] out by simp
  have hr: "(qr_hot_range q = None \<longleftrightarrow> ?fin = DurableOnly \<or> br_end ?r \<le> safe ?h)"
    "\<And>x. qr_hot_range q = Some x \<Longrightarrow> br_start x = max (br_start ?r) (safe ?h + 1) \<and> safe ?h < br_end ?r"
    using hot_range_cases [OF _ assms(2)] parts by (auto simp: parts_ok_def)
  have nxt: "rs_next_start resp = (case rs_served resp of None \<Rightarrow> if first_block ?fin ?r ?h \<le> br_end ?r then Some (first_block ?fin ?r ?h) else None
      | Some v \<Rightarrow> if br_end v < br_end ?r then Some (br_end v + 1) else None)"
    using out(2,4) hr assms(2) by (cases "qr_hot_range q") (auto simp: next_start_of_def first_block_def range_ok_def Let_def split: option.splits if_splits)
  have reason: "rs_incomplete_reason resp = None \<longleftrightarrow> rs_next_start resp = None \<and> first_block ?fin ?r ?h = br_start ?r"
    using out(5) by (auto simp: incomplete_of_def first_block_def split: option.splits if_splits prod.splits)
  show ?thesis
    by (rule exI [of _ ?h]) (use ans nxt reason hd out none in \<open>auto simp: answer_shape_def Let_def answered_def split: option.splits\<close>)
qed


definition query_demo_session :: session where
  "query_demo_session =
     \<lparr>se_db = demo_db\<lparr>db_rows := \<lparr>rs_logs = [], rs_blocks = [(1, demo_header 22 7)], rs_senders = []\<rparr>,
        db_follow := \<lparr>ft_rows = [\<lparr>fp_chain = 1, fp_dataset = EvmBlocks, fp_selector = 1, fp_from = 21, fp_head = 25, fp_head_hash = 9,
          fp_promoted = 20, fp_finalized = 20\<rparr>], ft_chains = []\<rparr>,
        db_heads := \<lparr>ht_heads = [1 \<mapsto> \<lparr>latest = 30, latest_hash = 106, safe = 20, finalized = 10\<rparr>], ht_notified = []\<rparr>\<rparr>,
      se_engine = engine_new [demo_chain] engine_settings_default, se_now = 0, se_calls = 0, se_waits = 0, se_budget = None\<rparr>"

definition query_demo_request :: query_request where
  "query_demo_request = \<lparr>rq_chain = ''dev'', rq_dataset = EvmBlocks, rq_selector = None, rq_range = rng 5 28, rq_finality = LatestOnly,
     rq_fields = None, rq_page = None, rq_wait_ms = None\<rparr>"

definition query_demo_serde :: serde where
  "query_demo_serde = \<lparr>sd_log = (\<lambda>_. Ok JNull), sd_block = (\<lambda>b. Ok (JInt (int (brc_number b))))\<rparr>"

definition quiet :: schedule where
  "quiet _ = \<lparr>wk_db = (\<lambda>d. d), wk_took = 0, wk_error = None\<rparr>"

lemmas query_demo_defs = query_demo_request_def query_demo_session_def query_demo_serde_def quiet_def demo_defs

lemmas query_eval = query_def engine_chain_def ok_or_def engine_new_def chain_name_of_def chain_id_of_def target_parse_def target_new_def
  page_default_def query_heads_def run_heads_def engine_heads_def fresh_heads_def store_heads_def intern_selector_def upsert_selector_def
  upsert_lookup_def upsert_insert_def find_selector_def query_attach_def follows_def attach_def at_quota_def application_subscriptions_def
  touch_subscription_def note_touched_def init_follow_def follow_get_or_init_def query_progress_def query_hot_range_def run_hot_def hot_part_def
  merge_progress_def next_start_of_def incomplete_of_def segments_of_def read_rows_def await_def read_blocks_def blocks_after_def
  object_row_def block_record_of_def project_def query_limit_def query_wait_def engine_settings_default_def u64_of_i64_def u64_to_i64_def
  i64_of_u64_def i64_max_def duration_millis_def RENEW_EVERY_def TOUCHED_CAP_def range_new_def MAX_END_value map_ok_def map_err_def Let_def
  follow_row_def fp_key_def

lemma query_demo_answer:
  "case query (\<lambda>_. []) query_demo_serde quiet 0 \<lparr>cl_application = ''app'', cl_max_subscriptions = Some 3\<rparr> query_demo_request query_demo_session of
     (res, s') \<Rightarrow> \<exists>resp. res = Ok resp \<and> rs_served resp = Some (rng 21 25) \<and> rs_next_start resp = Some 26 \<and> rs_rows resp = [JInt 22] \<and>
       rs_incomplete_reason resp = Some Pending"
  by (simp add: query_demo_defs query_eval)


section \<open>The contract for readers\<close>

text \<open>Where a reader goes on after an answer: what it leaves out of the request, before or after the served part,
  and why.\<close>

lemma answer_resume:
  assumes "answer_shape rq h resp" and "range_ok (rq_range rq)"
    and "resume = (case rs_next_start resp of None \<Rightarrow> br_end (rq_range rq) + 1 | Some n \<Rightarrow> n)"
    and "first = (case rs_served resp of None \<Rightarrow> resume | Some v \<Rightarrow> br_start v)"
  shows "br_start (rq_range rq) \<le> first" "first \<le> resume" "resume \<le> br_end (rq_range rq) + 1"
    "br_start (rq_range rq) < first \<Longrightarrow> rq_finality rq = LatestOnly \<and> first - 1 \<le> safe h"
    "rs_served resp = Some v \<Longrightarrow> resume = br_end v + 1 \<and> br_start v \<le> br_end v"
  using assms by (auto simp: answer_shape_def first_block_def range_ok_def Let_def split: option.splits if_splits)

locale query_source =
  fixes ask :: "query_request \<Rightarrow> 's \<Rightarrow> ('v query_response, 'e) result \<times> 's"
  assumes shape: "ask rq s = (Ok resp, s') \<Longrightarrow> range_ok (rq_range rq) \<Longrightarrow> \<exists>h. answer_shape rq h resp"
begin

lemma page_shape:
  assumes "ask (rq\<lparr>rq_page := p\<rparr>) s = (Ok resp, s')" and "range_ok (rq_range rq)"
  shows "\<exists>h. answer_shape rq h resp"
  using shape [OF assms(1)] assms(2) by (simp add: answer_shape_def)

end

interpretation engine_source: query_source "query sha256 sd w today cl" for sha256 sd w today cl
  by unfold_locales (use query_answers in blast)

end
