(* ===== verification/Complete.thy ===== *)
theory Complete
  imports Answers
begin

text \<open>
  A durable query misses nothing: what a query serves holds every log of the chain that matches.
  The store invariant is the one the fills keep (honest coverage over well-formed tables), the
  other sessions are any that keep it and lose no durable row.
\<close>

section \<open>The store invariant\<close>

definition cov_owned :: "db \<Rightarrow> bool" where
  "cov_owned d = (\<forall>row\<in>set (db_coverage d). \<exists>sr\<in>set (st_rows (db_selectors d)). sr_id sr = cv_selector row)"

text \<open>A stored row with the position and the block hash of a log of the chain is that log: the hash commits
  to the block's content.\<close>

definition rows_real :: "log_row set \<Rightarrow> chain_id \<Rightarrow> 'h row_store \<Rightarrow> bool" where
  "rows_real logs i st =
     (\<forall>l'. (i, l') \<in> set (rs_logs st) \<longrightarrow> (\<forall>l\<in>logs. log_pos l' = log_pos l \<and> log_block_hash l' = log_block_hash l \<longrightarrow>
        with_finality Unsafe l' = with_finality Unsafe l))"

definition store_good :: "(string \<Rightarrow> bytes) \<Rightarrow> log_row set \<Rightarrow> chain_id \<Rightarrow> db \<Rightarrow> bool" where
  "store_good sha256 logs i d = (db_safe d \<and> selectors_ok sha256 (db_selectors d) \<and> cover_honest logs i d \<and> cov_owned d \<and> rows_real logs i (db_rows d))"

definition good_kept :: "(string \<Rightarrow> bytes) \<Rightarrow> log_row set \<Rightarrow> chain_id \<Rightarrow> db \<Rightarrow> db \<Rightarrow> bool" where
  "good_kept sha256 logs i d d' =
     (store_good sha256 logs i d \<longrightarrow> store_good sha256 logs i d' \<and> durable_kept (db_rows d) (db_rows d'))"

definition polite :: "(string \<Rightarrow> bytes) \<Rightarrow> log_row set \<Rightarrow> chain_id \<Rightarrow> schedule \<Rightarrow> bool" where
  "polite sha256 logs i w = (\<forall>k d. good_kept sha256 logs i d (wk_db (w k) d))"

abbreviation session_kept :: "(string \<Rightarrow> bytes) \<Rightarrow> log_row set \<Rightarrow> chain_id \<Rightarrow> session \<Rightarrow> session \<Rightarrow> bool" where
  "session_kept sha256 logs i s s' \<equiv> good_kept sha256 logs i (se_db s) (se_db s')"

lemma good_kept_refl: "good_kept sha256 logs i d d"
  by (simp add: good_kept_def durable_kept_refl)

lemma good_kept_trans: "good_kept sha256 logs i a b \<Longrightarrow> good_kept sha256 logs i b c \<Longrightarrow> good_kept sha256 logs i a c"
  unfolding good_kept_def by (blast intro: durable_kept_trans)

interpretation good_run: kept_runs "session_kept sha256 logs i" for sha256 logs i
  by unfold_locales (auto intro: good_kept_refl good_kept_trans)

lemma good_kept_tables:
  assumes "db_rows d' = db_rows d" and "db_coverage d' = db_coverage d" and "db_selectors d' = db_selectors d"
    and "follow_inv (db_follow d) \<Longrightarrow> follow_inv (db_follow d')"
  shows "good_kept sha256 logs i d d'"
  using assms by (auto simp: good_kept_def store_good_def db_safe_def cover_honest_def cov_owned_def durable_kept_refl)

lemma await_kept: "polite sha256 logs i w \<Longrightarrow> session_kept sha256 logs i s (await w s)"
  by (simp add: polite_def await_def Let_def)

section \<open>New selectors\<close>

lemma stored_log_selector_cong:
  assumes "\<And>row. row \<in> set (st_rows t') \<Longrightarrow> \<exists>row'\<in>set (st_rows t). sr_id row' = sr_id row \<and> sr_chain row' = sr_chain row \<and>
      sr_dataset row' = sr_dataset row \<and> sr_addresses row' = sr_addresses row \<and> sr_topics row' = sr_topics row"
    and "stored_log_selector t' i sid s"
  shows "stored_log_selector t i sid s"
  using assms unfolding stored_log_selector_def by metis

lemma lookup_rows:
  "st_rows (snd (upsert_lookup now t chain ds fp)) =
     map (\<lambda>row. if Some (sr_id row) = find_selector t chain ds fp \<and> sr_last_used_at row < now - 60000 then row\<lparr>sr_last_used_at := now\<rparr> else row) (st_rows t)"
  by (simp add: upsert_lookup_def Let_def)

lemma lookup_keeps:
  assumes "stored_log_selector (snd (upsert_lookup now t chain ds fp)) i sid s"
  shows "stored_log_selector t i sid s"
  using assms by (rule stored_log_selector_cong [rotated]) (fastforce simp: lookup_rows split: if_splits)

lemma lookup_ids: "sr_id ` set (st_rows (snd (upsert_lookup now t chain ds fp))) = sr_id ` set (st_rows t)"
proof -
  have "map sr_id (st_rows (snd (upsert_lookup now t chain ds fp))) = map sr_id (st_rows t)" by (simp add: lookup_rows)
  then show ?thesis by (metis set_map)
qed

lemma insert_keeps:
  assumes "selectors_ok sha256 t" and "stored_log_selector (snd (upsert_insert sha256 now t chain sel)) i sid s"
  shows "stored_log_selector t i sid s \<or> sid \<notin> sr_id ` set (st_rows t)"
proof -
  have fresh: "st_next_id t \<notin> sr_id ` set (st_rows t)" using assms(1) by (auto simp: selectors_ok_def)
  show ?thesis using assms(2) fresh
    by (auto simp: upsert_insert_eq stored_log_selector_def new_selector_row_def split: option.splits)
qed

lemma insert_ids: "sr_id ` set (st_rows t) \<subseteq> sr_id ` set (st_rows (snd (upsert_insert sha256 now t chain sel)))"
  by (auto simp: upsert_insert_eq split: option.splits)

lemma upsert_selector_keeps:
  assumes "selectors_ok sha256 t" and "selector_ok sel" and t': "t' = snd (upsert_selector sha256 now t chain sel)"
  shows "selectors_ok sha256 t' \<and> sr_id ` set (st_rows t) \<subseteq> sr_id ` set (st_rows t') \<and>
    (\<forall>i sid s. stored_log_selector t' i sid s \<longrightarrow> stored_log_selector t i sid s \<or> sid \<notin> sr_id ` set (st_rows t))"
proof -
  let ?look = "upsert_lookup now t chain (dataset_as_str (selector_dataset sel)) (selector_fingerprint sha256 sel)"
  let ?t = "snd ?look"
  have ok: "selectors_ok sha256 ?t" using assms(1) by (rule upsert_lookup_ok)
  have "t' = ?t \<or> t' = snd (upsert_insert sha256 now ?t chain sel)"
    by (cases ?look; cases "fst ?look") (auto simp: t' upsert_selector_def)
  then show ?thesis
  proof
    assume "t' = ?t"
    with ok lookup_keeps lookup_ids show ?thesis by blast
  next
    assume "t' = snd (upsert_insert sha256 now ?t chain sel)"
    with upsert_insert_ok [OF ok assms(2)] insert_keeps [OF ok] insert_ids [of ?t] lookup_keeps lookup_ids show ?thesis by metis
  qed
qed

lemma cov_level_owned:
  assumes "cov_owned d" and "coverage_ok (db_coverage d)" and "cov_level (db_coverage d) i ds sid x \<noteq> None"
  shows "sid \<in> sr_id ` set (st_rows (db_selectors d))"
proof -
  obtain row where "row \<in> set (db_coverage d)" "row_holds i ds sid x row"
    using assms(3) by (meson cov_level_None)
  then show ?thesis using assms(1) unfolding cov_owned_def row_holds_def cv_key_def by (metis imageI)
qed

lemma intern_kept:
  assumes "selector_ok sel" and "intern_selector sha256 c sel s = (sid, s')"
  shows "session_kept sha256 logs i s s'"
proof -
  define t' where "t' = snd (upsert_selector sha256 (int (se_now s)) (db_selectors (se_db s)) (chain_id_of c) sel)"
  have s': "s' = s\<lparr>se_db := (se_db s)\<lparr>db_selectors := t'\<rparr>\<rparr>"
    using assms(2) by (auto simp: intern_selector_def t'_def split: prod.splits)
  show ?thesis
  proof (unfold good_kept_def, intro impI conjI)
    assume good: "store_good sha256 logs i (se_db s)"
    then have sel: "selectors_ok sha256 (db_selectors (se_db s))" by (simp add: store_good_def)
    note up = upsert_selector_keeps [OF sel assms(1) t'_def]
    have "cover_honest logs i (se_db s')"
      unfolding cover_honest_def
    proof (intro allI impI, elim conjE)
      fix sid t l
      assume a: "stored_log_selector (db_selectors (se_db s')) i sid t" "l \<in> logs" "sel_matches t l"
        "cov_level (db_coverage (se_db s')) i EvmLogs sid (int (log_block_number l)) \<noteq> None"
      then have "sid \<in> sr_id ` set (st_rows (db_selectors (se_db s)))"
        using good cov_level_owned by (simp add: s' store_good_def db_safe_def)
      moreover have "stored_log_selector t' i sid t" using a(1) by (simp add: s')
      ultimately have "stored_log_selector (db_selectors (se_db s)) i sid t" using up by blast
      with a good show "log_stored (db_rows (se_db s')) i l" by (simp add: s' store_good_def cover_honest_def)
    qed
    moreover have "cov_owned (se_db s')" using good up by (fastforce simp: s' store_good_def cov_owned_def image_iff)
    ultimately show "store_good sha256 logs i (se_db s')" using good up by (simp add: s' store_good_def db_safe_def)
    show "durable_kept (db_rows (se_db s)) (db_rows (se_db s'))" by (simp add: s' durable_kept_refl)
  qed
qed

section \<open>The steps of a query\<close>

lemma follow_init_inv: "follow_inv t \<Longrightarrow> follow_get_or_init t i ds sid b k = (r, t') \<Longrightarrow> follow_inv t'"
  using follow_keep_inv [OF _ k_init, of t i ds sid b k] by simp

lemma init_follow_kept: "session_kept sha256 logs i s (snd (init_follow c ds sid b s))"
  using follow_init_inv by (auto simp: init_follow_def good_kept_refl intro!: good_kept_tables split: prod.splits sum.splits)

lemma attach_kept: "session_kept sha256 logs i s (snd (attach cl c ds sid sf source s))"
proof -
  have start: "session_kept sha256 logs i s (snd (and_run (init_follow c ds sid b s) (\<lambda>row s. (Ok (Some row), s))))" for b s
    by (rule good_run.run_keep [OF init_follow_kept]) (simp add: good_kept_refl)
  have noted: "session_kept sha256 logs i s (note_touched key every (s\<lparr>se_db := (se_db s)\<lparr>db_subs := subs\<rparr>\<rparr>))" for key every subs
    by (rule good_kept_tables) (simp_all add: note_touched_def Let_def)
  show ?thesis
    unfolding attach_def Let_def
    by (auto simp: good_kept_refl split: sum.splits intro: start good_kept_trans [OF noted start])
qed

lemma enqueue_one_kept: "session_kept sha256 logs i s (snd (enqueue_one cl c ds sid ch purpose s))"
  by (rule good_kept_tables) (simp_all add: enqueue_one_def split: prod.splits)

lemma enqueue_chunks_kept: "session_kept sha256 logs i s (snd (enqueue_chunks cl c ds sid chs jobs over s))"
proof (induction chs arbitrary: jobs over s)
  case (Cons ch chs)
  have one: "session_kept sha256 logs i s (snd (and_run (enqueue_one cl c ds sid ch JpQuery s) (\<lambda>k s1. enqueue_chunks cl c ds sid chs (jobs @ [(k, ch)]) over s1)))" for s
    by (rule good_run.run_keep [OF enqueue_one_kept]) (rule Cons.IH)
  have budget: "session_kept sha256 logs i s (snd r)" if "session_kept sha256 logs i (s\<lparr>se_budget := b\<rparr>) (snd r)" for s b and r :: "'z \<times> session"
    using that by simp
  show ?case
    using one Cons.IH budget [OF one] budget [OF Cons.IH] by (auto split: option.splits prod.splits bool.splits)
qed (simp add: good_kept_refl)

lemma wait_fills_kept: "polite sha256 logs i w \<Longrightarrow> session_kept sha256 logs i s (wait_fills w deadline jobs s)"
  by (simp add: wait_fills_def await_kept good_kept_refl)

lemma query_heads_same: "query_heads c fin r s = (res, s1) \<Longrightarrow> se_db s1 = se_db s"
  by (auto simp: query_heads_def and_run_def run_heads_def run_fresh_heads_def split: prod.splits sum.splits if_splits)

lemma query_attach_kept: "query_attach cl c fin r h ds sid s = (res, s1) \<Longrightarrow> session_kept sha256 logs i s s1"
proof -
  assume run: "query_attach cl c fin r h ds sid s = (res, s1)"
  have "session_kept sha256 logs i s (snd (query_attach cl c fin r h ds sid s))"
    unfolding query_attach_def by (auto simp: good_kept_refl intro!: good_run.run_keep [OF attach_kept])
  with run show ?thesis by simp
qed

section \<open>What is served is held\<close>

definition logs_held :: "log_row set \<Rightarrow> chain_id \<Rightarrow> log_selector \<Rightarrow> block_range option \<Rightarrow> db \<Rightarrow> bool" where
  "logs_held logs i ls served d =
     (\<forall>v l. served = Some v \<and> l \<in> logs \<and> range_contains v (log_block_number l) \<and> sel_matches ls l \<longrightarrow> log_stored (db_rows d) i l)"

lemma logs_held_kept:
  "logs_held logs i ls served d \<Longrightarrow> durable_kept (db_rows d) (db_rows d') \<Longrightarrow> logs_held logs i ls served d'"
  unfolding logs_held_def by (blast intro: log_stored_kept)

lemma covered_prefix_held:
  assumes good: "store_good sha256 logs (chain_id_of c) d" and "sel_ok ls" and "range_ok sp" and "range_ok dur"
    and cov: "engine_covered d c (SelLogs ls) sid sp = Ok cov"
  shows "logs_held logs (chain_id_of c) ls (longest_covered_prefix cov dur) d"
proof -
  have ok: "coverage_ok (db_coverage d)" "selectors_ok sha256 (db_selectors d)" and honest: "cover_honest logs (chain_id_of c) d"
    using good by (simp_all add: store_good_def db_safe_def)
  have spec: "coalesced cov" "\<And>l. log_block_number l \<in> blocks_of cov \<Longrightarrow> sel_matches ls l \<Longrightarrow> covered_elsewhere d c l"
    using engine_covered_spec [OF ok assms(3) _ cov] assms(2) by auto
  have "log_block_number l \<in> blocks_of cov" if "longest_covered_prefix cov dur = Some v" "range_contains v (log_block_number l)" for v l
    using longest_covered_prefix_maximal [OF spec(1) assms(4)] that by (auto simp: range_contains_iff)
  with spec(2) honest show ?thesis unfolding logs_held_def covered_elsewhere_def cover_honest_def by blast
qed

lemma served_prefix_held:
  assumes "store_good sha256 logs (chain_id_of c) d" and "sel_ok ls" and "range_ok dur"
    and "served_prefix d c (SelLogs ls) sid dur = Ok v"
  shows "logs_held logs (chain_id_of c) ls v d"
  using assms covered_prefix_held [OF assms(1,2,3,3)] by (auto simp: served_prefix_def map_ok_def split: sum.splits)

text \<open>A served part that is held stays held over the waits that follow.\<close>

lemma promotion_wait_held:
  assumes "promotion_wait w c (SelLogs ls) sid dur deadline after served s = (Ok p, s')"
    and polite: "polite sha256 logs (chain_id_of c) w" and ok: "sel_ok ls" "range_ok dur"
    and "store_good sha256 logs (chain_id_of c) (se_db s)" and "logs_held logs (chain_id_of c) ls served (se_db s)"
  shows "store_good sha256 logs (chain_id_of c) (se_db s') \<and> logs_held logs (chain_id_of c) ls (pr_served p) (se_db s')"
  using assms(1,5,6)
proof (induction rule: promotion_wait_induct)
  case (stop served s s')
  then show ?case using await_kept [OF polite, of s] logs_held_kept by (auto simp: good_kept_def)
next
  case (reached served v s)
  then show ?case using await_kept [OF polite, of s] served_prefix_held ok by (auto simp: good_kept_def)
next
  case (again served v s p s')
  then show ?case using await_kept [OF polite, of s] served_prefix_held ok by (auto simp: good_kept_def)
qed

lemma after_fills_held:
  assumes "after_fills w c (SelLogs ls) sid dur h deadline fend jobs over s = (Ok p, s')"
    and polite: "polite sha256 logs (chain_id_of c) w" and ok: "sel_ok ls" "range_ok dur"
    and good: "store_good sha256 logs (chain_id_of c) (se_db s)"
  shows "store_good sha256 logs (chain_id_of c) (se_db s') \<and> logs_held logs (chain_id_of c) ls (pr_served p) (se_db s')"
  using assms(1)
proof (cases rule: after_fills_cases)
  case (wait v)
  then show ?thesis using promotion_wait_held [OF wait(3) polite ok good] served_prefix_held [OF good ok] by blast
qed (use good served_prefix_held [OF good ok] in auto)

lemma fill_durable_held:
  assumes run: "fill_durable w cl c (SelLogs ls) sid dur h deadline follow s = (Ok p, s')"
    and polite: "polite sha256 logs (chain_id_of c) w" and ok: "sel_ok ls" "range_ok dur"
    and good: "store_good sha256 logs (chain_id_of c) (se_db s)"
  shows "store_good sha256 logs (chain_id_of c) (se_db s') \<and> logs_held logs (chain_id_of c) ls (pr_served p) (se_db s')"
  using run
proof (cases rule: fill_durable_cases)
  case (known cov sp)
  have "range_ok sp" using known(3) ok(2) by (auto simp: range_new_def range_ok_def split: if_splits)
  from covered_prefix_held [OF good ok(1) this ok(2) known(1)] known good show ?thesis by simp
next
  case (filled planned jobs over s1 fend)
  have "store_good sha256 logs (chain_id_of c) (se_db s1)"
    using enqueue_chunks_kept [of sha256 logs "chain_id_of c" s cl c "selector_dataset (SelLogs ls)" sid planned "[]" False] good
    unfolding filled(1) by (simp add: good_kept_def)
  then have "store_good sha256 logs (chain_id_of c) (se_db (wait_fills w deadline jobs s1))"
    using wait_fills_kept [OF polite, of s1] by (simp add: good_kept_def)
  from after_fills_held [OF filled(2) polite ok this] show ?thesis .
qed

section \<open>Reading the served part\<close>

lemma read_logs_whole:
  assumes "read_logs st i ls v None limit = Ok (rows, None)"
  shows "rows = logs_after st i ls v None"
  using assms by (auto simp: read_logs_def and_then_def cursor_columns_def Let_def split: sum.splits if_splits)

lemma read_rows_logs:
  assumes "read_rows sd c (TargetLogs ls None False False) \<lparr>rp_served = v, rp_cursor = None, rp_limit = n\<rparr> h s = (Ok (vs, None), s')"
  shows "s' = s \<and> map (\<lambda>l. sd_log sd (log_record_of l)) (logs_after (db_rows (se_db s)) (chain_id_of c) ls v None) = map Ok vs"
proof -
  obtain rows where rd: "read_logs (db_rows (se_db s)) (chain_id_of c) ls v None n = Ok (rows, None)"
    and vs: "try_map (\<lambda>r. project (sd_log sd r) None) (map log_record_of rows) = Ok vs" and s': "s' = s"
    using assms by (auto simp: read_rows_def log_records_def map_err_def map_ok_def split: sum.splits prod.splits)
  from vs have "list_all2 (\<lambda>r y. project (sd_log sd r) None = Ok y) (map log_record_of rows) vs" by (simp only: try_map_Ok_iff)
  then have "map (\<lambda>r. sd_log sd r) (map log_record_of rows) = map Ok vs"
    by (induction rule: list_all2_induct) (auto simp: project_def split: sum.splits json.splits)
  with read_logs_whole [OF rd] s' show ?thesis by (simp add: comp_def)
qed

lemma log_pos_number: "log_pos a = log_pos b \<Longrightarrow> log_block_number a = log_block_number b"
  by (simp add: log_pos_def)

text \<open>A log that is held is stored as a row that matches what the log matches.\<close>

lemma held_log_matches:
  assumes "logs_held logs i ls (Some v) d" and "rows_real logs i (db_rows d)" and "l \<in> logs" and "range_contains v (log_block_number l)" and "sel_matches ls l"
  shows "\<exists>l'. (i, l') \<in> set (rs_logs (db_rows d)) \<and> sel_matches ls l' \<and> log_pos l' = log_pos l \<and> log_block_hash l' = log_block_hash l \<and> Safe \<le> log_finality l'"
proof -
  obtain l' where l': "(i, l') \<in> set (rs_logs (db_rows d))" "log_pos l' = log_pos l" "log_block_hash l' = log_block_hash l" "Safe \<le> log_finality l'"
    using assms(1,3-5) by (auto simp: logs_held_def log_stored_def)
  then have "with_finality Unsafe l' = with_finality Unsafe l" using assms(2,3) by (simp add: rows_real_def)
  then have "sel_matches ls l'" using assms(5) by (metis with_finality_simps(5))
  with l' show ?thesis by blast
qed

text \<open>What the durable part of a query counts as served is held.\<close>

lemma progress_held:
  assumes prog: "query_progress w cl c (SelLogs ls) sid DurableOnly r h deadline fo s3 = (Ok (dur, whole, hot_range, hot), s4)"
    and mrg: "merge_progress dur hot = Ok (Some v, block)" and polite: "polite sha256 logs (chain_id_of c) w"
    and ok: "sel_ok ls" "range_ok r" and g3: "store_good sha256 logs (chain_id_of c) (se_db s3)"
  shows "store_good sha256 logs (chain_id_of c) (se_db s4) \<and> logs_held logs (chain_id_of c) ls (Some v) (se_db s4)"
proof (cases "durable_part r (safe h)")
  case None
  then show ?thesis using prog mrg by (auto simp: query_progress_def query_hot_range_def merge_progress_def)
next
  case (Some dr)
  then obtain p where p: "fill_durable w cl c (SelLogs ls) sid dr h deadline fo s3 = (Ok p, s4)" and "dur = Some p" "hot = None"
    using prog by (auto simp: query_progress_def query_hot_range_def and_run_Ok_iff Let_def)
  then have "pr_served p = Some v" using mrg by (simp add: merge_progress_def)
  with fill_durable_held [OF p polite ok(1) _ g3] durable_part_cases(2) [OF ok(2) Some] show ?thesis by simp
qed


definition complete_demo_db :: db where
  "complete_demo_db = fill_demo_db\<lparr>db_rows := \<lparr>rs_logs = [(1, with_finality Safe (demo_log 5 0 11))], rs_blocks = [], rs_senders = []\<rparr>,
     db_heads := \<lparr>ht_heads = [1 \<mapsto> \<lparr>latest = 6000, latest_hash = 106, safe = 5000, finalized = 10\<rparr>], ht_notified = []\<rparr>,
     db_coverage := [\<lparr>cv_chain = 1, cv_dataset = ''evm.logs'', cv_selector = 1, cv_blocks = (0, 10), cv_finality = 2\<rparr>]\<rparr>"

definition complete_demo_request :: query_request where
  "complete_demo_request = \<lparr>rq_chain = ''dev'', rq_dataset = EvmLogs, rq_selector = Some sel_default, rq_range = rng 0 9, rq_finality = DurableOnly,
     rq_fields = None, rq_page = None, rq_wait_ms = None\<rparr>"

lemma complete_demo_candidates:
  "candidates_covering (db_selectors complete_demo_db) 1 sel_default = Ok [(1, sel_default)]"
  by (simp add: candidates_covering_def complete_demo_db_def fill_demo_db_def demo_db_def upsert_insert_def find_selector_def Let_def
      gin_prefilter_def sel_default_def candidate_of_row_def addresses_to_db_def addresses_from_db_def
      topics_to_db_def topics_from_db_def sel_covers_def numeral_eq_Suc)

lemma complete_demo_covered:
  "engine_covered complete_demo_db demo_chain (SelLogs sel_default) 1 (rng 0 9) = Ok [rng 0 9]"
proof -
  have "split_by_address sel_default = [sel_default]" by (simp add: split_by_address_def sel_default_def)
  moreover have "covered (db_coverage complete_demo_db) 1 EvmLogs [1] (rng 0 9) = Ok [rng 0 9]"
    by (simp add: complete_demo_db_def covered_def range_op_rows_def range_op_spans_def range_agg_def overlaps_def mr_clip_def
        row_range_def block_range_from_pg_def range_new_def MAX_END_value)
  moreover have "chain_id_of demo_chain = 1" by (simp add: chain_id_of_def demo_chain_def)
  ultimately show ?thesis
    by (simp add: engine_covered_def covered_for_query_def covered_part_def complete_demo_candidates map_ok_def map_err_def)
qed

definition demo_at :: "engine \<Rightarrow> nat \<Rightarrow> nat \<Rightarrow> session" where
  "demo_at en now waits = \<lparr>se_db = complete_demo_db, se_engine = en, se_now = now, se_calls = 0, se_waits = waits, se_budget = None\<rparr>"

lemma complete_demo_tables:
  "db_follow complete_demo_db = \<lparr>ft_rows = [], ft_chains = []\<rparr>" "ht_heads (db_heads complete_demo_db) 1 = Some \<lparr>latest = 6000, latest_hash = 106, safe = 5000, finalized = 10\<rparr>"
  "chain_id_of demo_chain = 1" "cs_name (ch_settings demo_chain) = ''dev''"
  by (simp_all add: complete_demo_db_def fill_demo_db_def chain_id_of_def demo_chain_def)

lemma complete_demo_intern: "intern_selector (\<lambda>_. []) demo_chain (SelLogs sel_default) (demo_at en 0 n) = (1, demo_at en 0 n)"
  by (simp add: intern_selector_def demo_at_def complete_demo_tables upsert_selector_def upsert_lookup_def find_selector_def selector_key_eq_def
      complete_demo_db_def fill_demo_db_def demo_db_def upsert_insert_def Let_def)

lemma complete_demo_fill:
  "fill_durable w cl demo_chain (SelLogs sel_default) 1 (rng 0 9) \<lparr>latest = 6000, latest_hash = 106, safe = 5000, finalized = 10\<rparr> deadline None (demo_at en now n) =
     (Ok \<lparr>pr_served = Some (rng 0 9), pr_blocker = None\<rparr>, demo_at en now n)"
  by (simp add: fill_durable_def demo_at_def complete_demo_tables get_follow_progress_def follow_row_def ok_or_def map_err_def fill_end_of_def
      fill_span_of_def grid_span_def demo_chain_def [THEN arg_cong [where f = ch_settings]] sat_add_def sat_mul_def u64_max_def range_new_def MAX_END_value
      complete_demo_covered longest_covered_prefix_def range_contains_def reaches_def Let_def)

lemma complete_demo_read:
  "read_rows query_demo_serde demo_chain (TargetLogs sel_default None False False) \<lparr>rp_served = rng 0 9, rp_cursor = None, rp_limit = 10000\<rparr> h (demo_at en now n) =
     (Ok ([JNull], None), demo_at en now n)"
  by (simp add: read_rows_def demo_at_def complete_demo_tables read_logs_def u64_to_i64_def i64_of_u64_def i64_max_def cursor_columns_def map_err_def
      logs_after_def complete_demo_db_def sql_selector_filter_def sel_default_def log_records_def project_def query_demo_serde_def map_ok_def Let_def
      with_finality_def demo_log_def numeral_eq_Suc nth_opt_def)

abbreviation demo_heads_high :: heads where
  "demo_heads_high \<equiv> \<lparr>latest = 6000, latest_hash = 106, safe = 5000, finalized = 10\<rparr>"

lemma complete_demo_heads:
  "\<exists>en'. query_heads demo_chain DurableOnly (rng 0 9) (demo_at (engine_new [demo_chain] engine_settings_default) 0 0) = (Ok demo_heads_high, demo_at en' 0 0) \<and>
     en_settings en' = engine_settings_default"
  by (simp add: query_heads_def run_heads_def engine_heads_def fresh_heads_def store_heads_def demo_at_def complete_demo_tables engine_new_def)

lemma complete_demo_progress:
  "query_progress w cl demo_chain (SelLogs sel_default) 1 DurableOnly (rng 0 9) demo_heads_high deadline None (demo_at en 0 0) =
     (Ok (Some \<lparr>pr_served = Some (rng 0 9), pr_blocker = None\<rparr>, True, None, None), demo_at en 0 0)"
  by (simp add: query_progress_def durable_part_def range_new_def MAX_END_value complete_demo_fill query_hot_range_def progress_reaches_def)

lemma complete_demo_answer:
  "\<exists>resp s'. query (\<lambda>_. []) query_demo_serde quiet 0 \<lparr>cl_application = ''app'', cl_max_subscriptions = None\<rparr> complete_demo_request
       (demo_at (engine_new [demo_chain] engine_settings_default) 0 0) = (Ok resp, s') \<and>
     rs_served resp = Some (rng 0 9) \<and> pi_next_cursor (rs_page resp) = None \<and> rs_rows resp = [JNull]"
proof -
  let ?s = "demo_at (engine_new [demo_chain] engine_settings_default) 0 0"
  obtain en' where h: "query_heads demo_chain DurableOnly (rng 0 9) ?s = (Ok demo_heads_high, demo_at en' 0 0)"
    and st: "en_settings en' = engine_settings_default" using complete_demo_heads by blast
  have chain: "engine_chain (se_engine ?s) ''dev'' = Ok demo_chain"
    by (simp add: engine_chain_def ok_or_def engine_new_def chain_name_of_def complete_demo_tables demo_at_def)
  have at: "query_attach cl demo_chain DurableOnly (rng 0 9) demo_heads_high EvmLogs 1 (demo_at en' 0 0) = (Ok None, demo_at en' 0 0)" for cl
    by (simp add: query_attach_def follows_def demo_at_def st engine_settings_default_def sat_add_def u64_max_def)
  have wt: "await quiet (demo_at en' 0 0) = demo_at en' 1 1" by (simp add: await_def quiet_def demo_at_def)
  have limit: "query_limit (en_settings (se_engine ?s)) \<lparr>pg_limit = None, pg_cursor = None\<rparr> = 10000"
    by (simp add: query_limit_def demo_at_def engine_new_def engine_settings_default_def)
  show ?thesis
    by (simp add: query_def complete_demo_request_def chain target_parse_def target_new_def h complete_demo_intern at complete_demo_progress
        merge_progress_def next_start_of_def incomplete_of_def wt limit complete_demo_read page_default_def Let_def)
qed

lemma complete_demo_good: "store_good (\<lambda>_. []) {demo_log 5 0 11} 1 complete_demo_db"
proof -
  have "db_safe complete_demo_db"
    by (simp add: db_safe_def complete_demo_db_def fill_demo_db_def rows_unique_def follow_inv_def coverage_ok_def i64_max_def cv_conflict_def)
  moreover have "selectors_ok (\<lambda>_. []) (db_selectors complete_demo_db)" using fill_demo_ok(2) by (simp add: complete_demo_db_def)
  moreover have "cover_honest {demo_log 5 0 11} 1 complete_demo_db"
    by (auto simp: cover_honest_def log_stored_def complete_demo_db_def)
  moreover have "cov_owned complete_demo_db"
    by (simp add: cov_owned_def complete_demo_db_def fill_demo_db_def upsert_insert_def find_selector_def Let_def)
  moreover have "rows_real {demo_log 5 0 11} 1 (db_rows complete_demo_db)"
    by (simp add: rows_real_def complete_demo_db_def) (simp add: with_finality_def)
  ultimately show ?thesis by (simp add: store_good_def)
qed


end
