(* ===== verification/Admin.thy ===== *)
theory Admin
  imports Complete
begin

text \<open>
  The operator's requests, \<open>crates/engine/src/admin.rs\<close>: a backfill, the end of a halt, the report on
  a selector's coverage, and the list of jobs. The wake-up of the workers that a backfill sends is
  left out: a worker also polls.
\<close>

definition above_safe :: "block_range \<Rightarrow> heads \<Rightarrow> error" where
  "above_safe r h = InvalidInput (''block range end '' @ dec (br_end r) @ '' is above the safe head '' @ dec (safe h))"

fun enqueue_backfill ::
  "string \<Rightarrow> chain \<Rightarrow> dataset \<Rightarrow> selector_id \<Rightarrow> block_range list \<Rightarrow> job_id list \<Rightarrow> session \<Rightarrow> (job_id list, error) result \<times> session" where
  "enqueue_backfill app c ds sid [] jobs s = (Ok jobs, s)"
| "enqueue_backfill app c ds sid (ch # chs) jobs s =
     (case enqueue (int (se_now s)) (db_coverage (se_db s)) (db_jobs (se_db s)) (chain_id_of c) ds sid ch JpBackfill app of
        (Inl e, t) \<Rightarrow> (Err (store_error_to_core e), s\<lparr>se_db := (se_db s)\<lparr>db_jobs := t\<rparr>\<rparr>)
      | (Inr i, t) \<Rightarrow> enqueue_backfill app c ds sid chs (jobs @ [i]) (s\<lparr>se_db := (se_db s)\<lparr>db_jobs := t\<rparr>\<rparr>))"

definition backfill :: "(string \<Rightarrow> bytes) \<Rightarrow> string \<Rightarrow> backfill_request \<Rightarrow> session \<Rightarrow> (backfill_response, error) result \<times> session" where
  "backfill sha256 app rq s =
     (case engine_chain (se_engine s) (bf_chain rq) of
        Inl e \<Rightarrow> (Err e, s)
      | Inr c \<Rightarrow>
          (case target_new (bf_dataset rq) (bf_selector rq) None of
             Inl e \<Rightarrow> (Err e, s)
           | Inr tg \<Rightarrow>
               and_run (run_heads c s) (\<lambda>h s1.
                 if safe h < br_end (bf_range rq) then (Err (above_safe (bf_range rq) h), s1)
                 else case intern_selector sha256 c (target_selector tg) s1 of (sid, s2) \<Rightarrow>
                   let chunk = settings_chunk (ch_settings c) (selector_dataset (target_selector tg));
                       span = (case grid_span (bf_range rq) chunk (safe h) of None \<Rightarrow> bf_range rq | Some g \<Rightarrow> g)
                   in case engine_covered (se_db s2) c (target_selector tg) sid span of
                        Inl e \<Rightarrow> (Err e, s2)
                      | Inr cov \<Rightarrow>
                          and_run (enqueue_backfill app c (bf_dataset rq) sid (fill_chunks span cov chunk (safe h)) [] s2) (\<lambda>jobs s3.
                            (Ok \<lparr>bf_selector_id = sid, bf_jobs = jobs\<rparr>, s3)))))"

definition engine_resume_follow :: "chain_name \<Rightarrow> session \<Rightarrow> (follow_resume_response, error) result \<times> session" where
  "engine_resume_follow name s =
     (case engine_chain (se_engine s) name of
        Inl e \<Rightarrow> (Err e, s)
      | Inr c \<Rightarrow>
          (case resume_follow (db_follow (se_db s)) (chain_id_of c) of
             (reason, t) \<Rightarrow> (Ok \<lparr>fr_chain = chain_name_of c, fr_halt_reason = reason\<rparr>, s\<lparr>se_db := (se_db s)\<lparr>db_follow := t\<rparr>\<rparr>)))"

definition coverage_report ::
  "(string \<Rightarrow> bytes) \<Rightarrow> chain_name \<Rightarrow> dataset \<Rightarrow> log_selector option \<Rightarrow> block_range option \<Rightarrow> session
     \<Rightarrow> (coverage_response, error) result \<times> session" where
  "coverage_report sha256 name ds lsel rg s =
     (case engine_chain (se_engine s) name of
        Inl e \<Rightarrow> (Err e, s)
      | Inr c \<Rightarrow>
          (case target_new ds lsel None of
             Inl e \<Rightarrow> (Err e, s)
           | Inr tg \<Rightarrow>
               (case intern_selector sha256 c (target_selector tg) s of (sid, s1) \<Rightarrow>
                 (case from_store (coverage_spans (db_coverage (se_db s1)) (chain_id_of c) ds sid) of
                    Inl e \<Rightarrow> (Err e, s1)
                  | Inr spans \<Rightarrow>
                      (case (case rg of
                               None \<Rightarrow> Ok ([], [])
                             | Some r \<Rightarrow> map_ok (\<lambda>cov. (cov, uncovered r cov)) (engine_covered (se_db s1) c (target_selector tg) sid r)) of
                         Inl e \<Rightarrow> (Err e, s1)
                       | Inr (cov, gaps) \<Rightarrow>
                           (Ok \<lparr>cr_chain_name = name, cr_dataset = ds, cr_selector_id = sid,
                                cr_spans = map (\<lambda>(r, f). \<lparr>cs_start = br_start r, cs_end = br_end r, cs_finality = f\<rparr>) spans,
                                cr_covered = cov, cr_missing = gaps,
                                cr_follow = map_option follow_info_of
                                  (find (\<lambda>p. fp_dataset p = ds \<and> fp_selector p = sid) (list_follow (db_follow (se_db s1)) (chain_id_of c)))\<rparr>, s1))))))"

definition job_info_of :: "job \<times> error_json option \<Rightarrow> error_json job_info" where
  "job_info_of je =
     (case je of (jb, err) \<Rightarrow>
        \<lparr>ji_id = j_id jb, ji_chain_id = j_chain jb, ji_dataset = j_dataset jb, ji_selector_id = j_selector jb, ji_range = j_blocks jb,
         ji_purpose = purpose_as_str (j_purpose jb), ji_application_id = j_application jb, ji_status = status_as_str (j_status jb),
         ji_attempts = j_attempts jb, ji_last_error = err\<rparr>)"

definition jobs_report :: "job_status option \<Rightarrow> u32 \<Rightarrow> session \<Rightarrow> error_json job_info list" where
  "jobs_report status limit s = map job_info_of (list_jobs (db_jobs (se_db s)) status limit)"

section \<open>A backfill leaves no gap\<close>

definition owns_chunk :: "db \<Rightarrow> chain_id \<Rightarrow> dataset \<Rightarrow> selector_id \<Rightarrow> job_row \<Rightarrow> bool" where
  "owns_chunk d i ds sid r = (job_key i ds sid (j_blocks r) r \<and>
     (active_status (j_status r) \<or> j_status r = JsDone \<and> (\<forall>b\<in>blocks (j_blocks r). cov_level (db_coverage d) i ds sid (int b) \<noteq> None)))"

definition queued :: "db \<Rightarrow> chain_id \<Rightarrow> dataset \<Rightarrow> selector_id \<Rightarrow> job_id \<Rightarrow> block_range \<Rightarrow> bool" where
  "queued d i ds sid n ch = (\<exists>r\<in>set (jt_rows (db_jobs d)). j_id r = n \<and> j_blocks r = ch \<and> owns_chunk d i ds sid r)"

lemma queued_more:
  "queued d i ds sid n ch \<Longrightarrow> set (jt_rows (db_jobs d)) \<subseteq> set (jt_rows t) \<Longrightarrow> queued (d\<lparr>db_jobs := t\<rparr>) i ds sid n ch"
  by (auto simp: queued_def owns_chunk_def)

lemma enqueue_queues:
  assumes "jobs_inv (db_jobs d)" and "coverage_ok (db_coverage d)" and "range_ok ch"
  shows "\<exists>n t. enqueue now (db_coverage d) (db_jobs d) i ds sid ch purpose app = (Ok n, t) \<and> jobs_inv t \<and>
    set (jt_rows (db_jobs d)) \<subseteq> set (jt_rows t) \<and> queued (d\<lparr>db_jobs := t\<rparr>) i ds sid n ch"
proof -
  obtain n t where r: "enqueue now (db_coverage d) (db_jobs d) i ds sid ch purpose app = (Ok n, t)" "jobs_inv t"
    and how: "case active_job (db_jobs d) i ds sid ch of
       Some j \<Rightarrow> n = j \<and> jt_rows t = jt_rows (db_jobs d) \<and> jt_notified t = jt_notified (db_jobs d)
     | None \<Rightarrow> n = jt_next_id (db_jobs d) \<and>
         (let row = new_job now n i ds sid ch purpose app in
          if \<forall>b\<in>blocks ch. cov_level (db_coverage d) i ds sid (int b) \<noteq> None
          then jt_rows t = jt_rows (db_jobs d) @ [row\<lparr>j_status := JsDone\<rparr>] \<and> jt_notified t = jt_notified (db_jobs d) @ [n]
          else jt_rows t = jt_rows (db_jobs d) @ [row] \<and> jt_notified t = jt_notified (db_jobs d))"
    using enqueue_joins_or_adds [OF assms, of now i ds sid purpose app] by blast
  have "set (jt_rows (db_jobs d)) \<subseteq> set (jt_rows t) \<and> queued (d\<lparr>db_jobs := t\<rparr>) i ds sid n ch"
  proof (cases "active_job (db_jobs d) i ds sid ch")
    case None
    then show ?thesis
      using how by (auto simp: queued_def owns_chunk_def new_job_def job_key_def Let_def split: if_splits)
  next
    case (Some j)
    then obtain r where "r \<in> set (jt_rows (db_jobs d))" "job_key i ds sid ch r" "active_status (j_status r)" "j_id r = j"
      by (auto simp: active_job_def find_Some_iff in_set_conv_nth)
    then show ?thesis using how Some by (auto simp: queued_def owns_chunk_def job_key_def)
  qed
  with r show ?thesis by blast
qed

lemma enqueue_backfill_queues:
  assumes "jobs_inv (db_jobs (se_db s))" and "coverage_ok (db_coverage (se_db s))" and "\<forall>ch\<in>set chs. range_ok ch"
  shows "\<exists>ids t. enqueue_backfill app c ds sid chs jobs s = (Ok (jobs @ ids), s\<lparr>se_db := (se_db s)\<lparr>db_jobs := t\<rparr>\<rparr>) \<and> jobs_inv t \<and>
    set (jt_rows (db_jobs (se_db s))) \<subseteq> set (jt_rows t) \<and>
    list_all2 (queued ((se_db s)\<lparr>db_jobs := t\<rparr>) (chain_id_of c) ds sid) ids chs"
  using assms
proof (induction chs arbitrary: jobs s)
  case Nil
  then show ?case by (auto intro!: exI [of _ "db_jobs (se_db s)"])
next
  case (Cons ch chs)
  obtain n t where one: "enqueue (int (se_now s)) (db_coverage (se_db s)) (db_jobs (se_db s)) (chain_id_of c) ds sid ch JpBackfill app = (Ok n, t)"
    "jobs_inv t" "set (jt_rows (db_jobs (se_db s))) \<subseteq> set (jt_rows t)" "queued ((se_db s)\<lparr>db_jobs := t\<rparr>) (chain_id_of c) ds sid n ch"
    using enqueue_queues [OF Cons.prems(1,2), of ch] Cons.prems(3) by (metis list.set_intros(1))
  obtain ids u where rest: "enqueue_backfill app c ds sid chs (jobs @ [n]) (s\<lparr>se_db := (se_db s)\<lparr>db_jobs := t\<rparr>\<rparr>) =
      (Ok ((jobs @ [n]) @ ids), s\<lparr>se_db := (se_db s)\<lparr>db_jobs := u\<rparr>\<rparr>)" "jobs_inv u"
    "set (jt_rows t) \<subseteq> set (jt_rows u)" "list_all2 (queued ((se_db s)\<lparr>db_jobs := u\<rparr>) (chain_id_of c) ds sid) ids chs"
    using Cons.IH [of "s\<lparr>se_db := (se_db s)\<lparr>db_jobs := t\<rparr>\<rparr>" "jobs @ [n]"] one(2) Cons.prems(2,3) by auto
  from queued_more [OF one(4), of u] rest(3) have "queued ((se_db s)\<lparr>db_jobs := u\<rparr>) (chain_id_of c) ds sid n ch" by simp
  with one rest show ?case
    by (intro exI [of _ "n # ids"] exI [of _ u]) auto
qed

lemma clipped_cell_ok:
  assumes "0 < chunk" and "b \<le> safe_head" and "safe_head \<le> MAX_END"
  shows "range_ok (clipped_cell chunk safe_head (b div chunk))" "br_end (clipped_cell chunk safe_head (b div chunk)) \<le> safe_head"
proof -
  have "b \<in> blocks (grid_cell chunk (b div chunk))" using assms by (intro grid_cell_iff [THEN iffD2]) auto
  moreover have "b div chunk * chunk \<le> safe_head" using div_mult_bounds(1) [OF assms(1), of b] assms(2) by linarith
  ultimately show "range_ok (clipped_cell chunk safe_head (b div chunk))"
    using assms by (auto simp: clipped_cell_def grid_cell_def range_ok_def)
qed (simp add: clipped_cell_def)

lemma fill_chunks_ok:
  assumes "range_ok sp" and "disjoint_ranges cov" and "0 < chunk" and "br_end sp \<le> safe_head" and "safe_head \<le> MAX_END"
    and "ch \<in> set (fill_chunks sp cov chunk safe_head)"
  shows "range_ok ch \<and> br_end ch \<le> safe_head"
proof -
  obtain b where "b \<in> blocks sp" "ch = clipped_cell chunk safe_head (b div chunk)"
  proof -
    have "finite ((\<lambda>b. b div chunk) ` (blocks sp - blocks_of cov))" by (simp add: blocks_def)
    with fill_chunks_cells [OF assms(1-5)] assms(6) that show thesis by auto
  qed
  then show ?thesis using clipped_cell_ok [OF assms(3) _ assms(5), of b] assms(4) by (auto simp: blocks_def)
qed

lemma backfill_span:
  assumes "range_ok r" and "0 < chunk" and "safe_head \<le> MAX_END" and "br_end r \<le> safe_head"
    and "span = (case grid_span r chunk safe_head of None \<Rightarrow> r | Some g \<Rightarrow> g)"
  shows "range_ok span \<and> br_end span \<le> safe_head \<and> blocks r \<subseteq> blocks span"
proof -
  have "blocks r \<inter> {..safe_head} = blocks r" using assms(4) by (auto simp: blocks_def)
  then show ?thesis
    using grid_span_widens [OF assms(1-3)] assms by (auto split: option.splits)
qed

lemma run_heads_db [simp]: "run_heads c s = (r, s') \<Longrightarrow> se_db s' = se_db s"
  by (auto simp: run_heads_def split: prod.splits)

lemma intern_selector_db:
  assumes "intern_selector sha256 c sel s = (sid, s')"
  shows "db_coverage (se_db s') = db_coverage (se_db s)" "db_jobs (se_db s') = db_jobs (se_db s)"
    "db_selectors (se_db s') = snd (upsert_selector sha256 (int (se_now s)) (db_selectors (se_db s)) (chain_id_of c) sel)"
  using assms by (auto simp: intern_selector_def split: prod.splits)

lemma sel_default_ok: "sel_ok sel_default"
  by (simp add: sel_ok_def sel_default_def btree_ok_def topic_ok_def numeral_eq_Suc)

lemma target_selector_ok:
  assumes "target_new ds lsel flds = Ok tg" and "\<forall>ls. lsel = Some ls \<longrightarrow> sel_ok ls"
  shows "selector_ok (target_selector tg)" "selector_dataset (target_selector tg) = ds"
  using assms sel_default_ok by (auto simp: target_new_def selector_ok_def Let_def split: dataset.splits option.splits if_splits)

text \<open>
  C7. A backfill leaves no gap of its range unscheduled. When it answers, its range ends at or below the
  safe head; no job was lost; and every block of the range is either covered for the selector
  already or lies in the chunk of a job it names: one of this chain, dataset and selector that is
  pending or running, or done because its whole chunk is covered. No named job reaches above the
  safe head.
\<close>

theorem backfill_schedules_gaps:
  assumes run: "backfill sha256 app rq s = (Ok resp, s')"
    and chain: "engine_chain (se_engine s) (bf_chain rq) = Ok c" and heads: "run_heads c s = (Ok h, s1)"
    and target: "target_new (bf_dataset rq) (bf_selector rq) None = Ok tg"
    and store: "jobs_inv (db_jobs (se_db s))" "coverage_ok (db_coverage (se_db s))" "selectors_ok sha256 (db_selectors (se_db s))"
    and input: "range_ok (bf_range rq)" "\<forall>ls. bf_selector rq = Some ls \<longrightarrow> sel_ok ls"
    and sane: "0 < settings_chunk (ch_settings c) (bf_dataset rq)" "safe h \<le> MAX_END"
  shows "br_end (bf_range rq) \<le> safe h \<and> jobs_inv (db_jobs (se_db s')) \<and>
    set (jt_rows (db_jobs (se_db s))) \<subseteq> set (jt_rows (db_jobs (se_db s'))) \<and>
    (\<exists>span cov chunks. blocks (bf_range rq) \<subseteq> blocks span \<and>
       engine_covered (se_db s') c (target_selector tg) (bf_selector_id resp) span = Ok cov \<and>
       blocks (bf_range rq) - blocks_of cov \<subseteq> blocks_of chunks \<and> (\<forall>ch\<in>set chunks. br_end ch \<le> safe h) \<and>
       list_all2 (queued (se_db s') (chain_id_of c) (bf_dataset rq) (bf_selector_id resp)) (bf_jobs resp) chunks)"
proof -
  let ?sel = "target_selector tg" and ?chunk = "settings_chunk (ch_settings c) (bf_dataset rq)"
  note tgt = target_selector_ok [OF target input(2)]
  define span where "span = (case grid_span (bf_range rq) ?chunk (safe h) of None \<Rightarrow> bf_range rq | Some g \<Rightarrow> g)"
  obtain sid s2 where sid: "intern_selector sha256 c ?sel s1 = (sid, s2)" by force
  obtain cov jobs where le: "br_end (bf_range rq) \<le> safe h" and cov: "engine_covered (se_db s2) c ?sel sid span = Ok cov"
    and enq: "enqueue_backfill app c (bf_dataset rq) sid (fill_chunks span cov ?chunk (safe h)) [] s2 = (Ok jobs, s')"
    and resp: "resp = \<lparr>bf_selector_id = sid, bf_jobs = jobs\<rparr>"
    using run by (auto simp: backfill_def chain heads target sid tgt(2) Let_def and_run_def span_def split: if_splits sum.splits prod.splits)
  note db = intern_selector_db [OF sid, unfolded run_heads_db [OF heads]]
  note sp = backfill_span [OF input(1) sane le span_def]
  have sel: "selectors_ok sha256 (db_selectors (se_db s2))" using upsert_selector_keeps [OF store(3) tgt(1) db(3)] by blast
  have "sel_ok ls" if "?sel = SelLogs ls" for ls using tgt(1) that by (simp add: selector_ok_def)
  then have disj: "disjoint_ranges cov"
    using engine_covered_spec [OF _ sel, of span ?sel c sid cov] store(2) db(1) sp cov coalesced_disjoint by metis
  note chunks = fill_chunks_cells [OF _ disj sane(1) _ sane(2), of span] fill_chunks_ok [OF _ disj sane(1) _ sane(2), of span]
  obtain ids t where queue: "enqueue_backfill app c (bf_dataset rq) sid (fill_chunks span cov ?chunk (safe h)) [] s2 =
      (Ok ([] @ ids), s2\<lparr>se_db := (se_db s2)\<lparr>db_jobs := t\<rparr>\<rparr>)" "jobs_inv t" "set (jt_rows (db_jobs (se_db s2))) \<subseteq> set (jt_rows t)"
    "list_all2 (queued ((se_db s2)\<lparr>db_jobs := t\<rparr>) (chain_id_of c) (bf_dataset rq) sid) ids (fill_chunks span cov ?chunk (safe h))"
    using enqueue_backfill_queues [of s2 "fill_chunks span cov ?chunk (safe h)" app c "bf_dataset rq" sid "[]"] store db sp chunks(2)
    by (metis (no_types, lifting))
  have same: "engine_covered ((se_db s2)\<lparr>db_jobs := t\<rparr>) c ?sel sid span = Ok cov"
    using cov by (simp add: engine_covered_def cong: selector.case_cong)
  have s': "se_db s' = (se_db s2)\<lparr>db_jobs := t\<rparr>" "resp = \<lparr>bf_selector_id = sid, bf_jobs = ids\<rparr>" using enq queue(1) resp by auto
  have "blocks (bf_range rq) - blocks_of cov \<subseteq> blocks_of (fill_chunks span cov ?chunk (safe h))" using chunks(1) sp by blast
  moreover have "\<forall>ch\<in>set (fill_chunks span cov ?chunk (safe h)). br_end ch \<le> safe h" using chunks(2) sp by blast
  ultimately show ?thesis
    unfolding s' using le queue(2-4) same sp db(2) by (simp add: s') blast
qed

definition backfill_demo_request :: backfill_request where
  "backfill_demo_request = \<lparr>bf_chain = ''dev'', bf_dataset = EvmBlocks, bf_selector = None, bf_range = rng 4 14\<rparr>"

lemma covered_nothing: "covered [] i ds ids r = Ok []"
  by (simp add: covered_def range_op_rows_def range_op_spans_def range_agg_def mr_clip_def)

lemma backfill_demo_chunks: "grid_span (rng 4 14) 10 20 = Some (rng 0 19)" "fill_chunks (rng 0 19) [] 10 20 = [rng 0 9, rng 10 19]"
  by (simp_all add: grid_span_def fill_chunks_def uncovered_def range_new_def MAX_END_value sat_add_def sat_mul_def u64_max_def align_chunks_def
      align_loop.simps cell_at_def)

lemmas backfill_demo_defs = backfill_demo_request_def query_demo_session_def demo_defs

lemma backfill_demo_app:
  "case backfill (\<lambda>_. []) app backfill_demo_request query_demo_session of (r, s') \<Rightarrow>
     r = Ok \<lparr>bf_selector_id = 1, bf_jobs = [1, 2]\<rparr> \<and> map j_blocks (jt_rows (db_jobs (se_db s'))) = [rng 0 9, rng 10 19]"
  by (simp add: backfill_def backfill_demo_defs query_eval engine_covered_def covered_nothing backfill_demo_chunks
      enqueue_def enqueue_try_def has_active_def chunk_covered_def new_job_def job_key_def range_agg_def numeral_3_eq_3)

lemmas backfill_demo_run = backfill_demo_app [of "''ops''"]

theorem backfill_schedules_gaps_witness:
  "\<exists>s'. backfill (\<lambda>_. []) ''ops'' backfill_demo_request query_demo_session = (Ok \<lparr>bf_selector_id = 1, bf_jobs = [1, 2]\<rparr>, s') \<and>
     jobs_inv (db_jobs (se_db s'))"
proof -
  obtain s' where run: "backfill (\<lambda>_. []) ''ops'' backfill_demo_request query_demo_session = (Ok \<lparr>bf_selector_id = 1, bf_jobs = [1, 2]\<rparr>, s')"
    using backfill_demo_run by (auto split: prod.splits)
  let ?h = "\<lparr>latest = 30, latest_hash = 106, safe = 20, finalized = 10\<rparr>"
  have chain: "engine_chain (se_engine query_demo_session) (bf_chain backfill_demo_request) = Ok demo_chain"
    by (simp add: engine_chain_def engine_new_def chain_name_of_def backfill_demo_defs ok_or_def)
  obtain s1 where heads: "run_heads demo_chain query_demo_session = (Ok ?h, s1)"
    by (simp add: backfill_demo_defs query_eval)
  have target: "target_new (bf_dataset backfill_demo_request) (bf_selector backfill_demo_request) None = Ok (TargetBlocks None)"
    by (simp add: backfill_demo_defs target_new_def)
  have store: "jobs_inv (db_jobs (se_db query_demo_session))" "coverage_ok (db_coverage (se_db query_demo_session))"
    "selectors_ok (\<lambda>_. []) (db_selectors (se_db query_demo_session))"
    by (simp_all add: backfill_demo_defs jobs_inv_def coverage_ok_def selectors_ok_def)
  have input: "range_ok (bf_range backfill_demo_request)" "\<forall>ls. bf_selector backfill_demo_request = Some ls \<longrightarrow> sel_ok ls"
    "0 < settings_chunk (ch_settings demo_chain) (bf_dataset backfill_demo_request)" "safe ?h \<le> MAX_END"
    by (simp_all add: backfill_demo_defs MAX_END_value)
  show ?thesis using backfill_schedules_gaps [OF run chain heads target store input] run by blast
qed

end
