(* ===== verification/Api.thy ===== *)
theory Api
  imports Admin
begin

text \<open>
  The HTTP interface, \<open>crates/api/src\<close>: applications with their tokens, permissions and quotas, admission
  of a query, and the handlers of the REST and operator routes. The body decoders of \<open>serde_json\<close>,
  the decoded query strings and the header texts are arguments. The minute bucket counts in
  exact sixtieths of a thousandth of a request where the code uses 64-bit floats. A handler runs
  as one step; that several requests hold slots at a time is the subject of the tenant's own
  step relation.
\<close>

unbundle bit_operations_syntax

section \<open>Applications and admission\<close>

definition APPLICATION_HEADER :: string where
  "APPLICATION_HEADER = ''x-datalens-application''"

record quota =
  qu_max_range_blocks :: u64
  qu_max_requests_per_minute :: u32
  qu_max_concurrent_requests :: u32
  qu_max_fill_blocks_per_minute :: "u64 option"
  qu_allow_unfiltered_logs :: bool
  qu_max_subscriptions :: "u32 option"

record application =
  ap_id :: string
  ap_token :: string
  ap_chains :: "chain_name list"
  ap_datasets :: "dataset list"
  ap_quota :: quota
  ap_admin :: bool

text \<open>One request is \<open>BUCKET_UNIT\<close> parts, so that a millisecond refills \<open>capacity\<close> parts.\<close>

definition BUCKET_UNIT :: nat where "BUCKET_UNIT = 60000"

record request_bucket =
  bk_capacity :: u32
  bk_parts :: nat
  bk_at :: nat

definition bucket_new :: "u32 \<Rightarrow> nat \<Rightarrow> request_bucket" where
  "bucket_new per_minute now = \<lparr>bk_capacity = per_minute, bk_parts = per_minute * BUCKET_UNIT, bk_at = now\<rparr>"

definition bucket_try_take :: "nat \<Rightarrow> request_bucket \<Rightarrow> bool \<times> request_bucket" where
  "bucket_try_take now b =
     (let parts = min (bk_parts b + (now - bk_at b) * bk_capacity b) (bk_capacity b * BUCKET_UNIT);
          b1 = b\<lparr>bk_parts := parts, bk_at := now\<rparr>
      in if BUCKET_UNIT \<le> parts then (True, b1\<lparr>bk_parts := parts - BUCKET_UNIT\<rparr>) else (False, b1))"

record tenant =
  tn_app :: application
  tn_requests :: request_bucket
  tn_slots :: u32
  tn_fill :: "fill_budget option"

definition tenant_caller :: "tenant \<Rightarrow> caller" where
  "tenant_caller tn = \<lparr>cl_application = ap_id (tn_app tn), cl_max_subscriptions = qu_max_subscriptions (ap_quota (tn_app tn))\<rparr>"

definition tenant_new :: "nat \<Rightarrow> application \<Rightarrow> tenant" where
  "tenant_new now app =
     \<lparr>tn_app = app, tn_requests = bucket_new (qu_max_requests_per_minute (ap_quota app)) now,
      tn_slots = qu_max_concurrent_requests (ap_quota app),
      tn_fill = map_option (\<lambda>n. fill_budget_new n now) (qu_max_fill_blocks_per_minute (ap_quota app))\<rparr>"

type_synonym tenants = "(string \<times> tenant) list"

definition tenants_new :: "nat \<Rightarrow> application list \<Rightarrow> tenants" where
  "tenants_new now apps = fold (\<lambda>app m. (ap_id app, tenant_new now app) # filter (\<lambda>(i, _). i \<noteq> ap_id app) m) apps []"

text \<open>A header's text is \<open>None\<close> when it is not visible ASCII.\<close>

type_synonym headers = "(string \<times> string option) list"

definition header_text :: "headers \<Rightarrow> string \<Rightarrow> string option" where
  "header_text hs name = (case map_of hs name of None \<Rightarrow> None | Some t \<Rightarrow> t)"

definition bearer :: "headers \<Rightarrow> string option" where
  "bearer hs = (case header_text hs ''authorization'' of None \<Rightarrow> None | Some v \<Rightarrow> strip_prefix ''Bearer '' v)"

definition as_bytes :: "string \<Rightarrow> 8 word list" where
  "as_bytes s = map of_char s"

definition constant_time_eq :: "8 word list \<Rightarrow> 8 word list \<Rightarrow> bool" where
  "constant_time_eq l r = (length l = length r \<and> fold (\<lambda>(a, b) acc. acc OR (a XOR b)) (zip l r) 0 = 0)"

definition unauthorized :: error where
  "unauthorized = Unauthorized ''unknown application or token''"

definition authenticate :: "tenants \<Rightarrow> headers \<Rightarrow> (tenant, error) result" where
  "authenticate ts hs =
     (case header_text hs APPLICATION_HEADER of
        None \<Rightarrow> Err unauthorized
      | Some i \<Rightarrow>
          (case bearer hs of
             None \<Rightarrow> Err unauthorized
           | Some token \<Rightarrow>
               (case map_of ts i of
                  None \<Rightarrow> Err unauthorized
                | Some tn \<Rightarrow>
                    if constant_time_eq (as_bytes token) (as_bytes (ap_token (tn_app tn))) then Ok tn else Err unauthorized)))"

definition allow_chain :: "tenant \<Rightarrow> chain_name \<Rightarrow> (unit, error) result" where
  "allow_chain tn chain =
     (if chain \<in> set (ap_chains (tn_app tn)) then Ok ()
      else Err (Forbidden (''application '' @ ap_id (tn_app tn) @ '' may not read chain '' @ chain)))"

definition require_admin :: "tenant \<Rightarrow> (unit, error) result" where
  "require_admin tn = (if ap_admin (tn_app tn) then Ok () else Err (Forbidden (''application '' @ ap_id (tn_app tn) @ '' is not an admin'')))"

definition unfiltered :: "dataset \<Rightarrow> log_selector option \<Rightarrow> bool" where
  "unfiltered ds sel = (ds = EvmLogs \<and> (case sel of None \<Rightarrow> True | Some s \<Rightarrow> sel_addresses s = []))"

definition allow_read :: "tenant \<Rightarrow> chain_name \<Rightarrow> dataset \<Rightarrow> log_selector option \<Rightarrow> (unit, error) result" where
  "allow_read tn chain ds sel =
     and_then (allow_chain tn chain) (\<lambda>_.
       if ds \<notin> set (ap_datasets (tn_app tn))
       then Err (Forbidden (''application '' @ ap_id (tn_app tn) @ '' may not read '' @ dataset_as_str ds))
       else if unfiltered ds sel \<and> \<not> qu_allow_unfiltered_logs (ap_quota (tn_app tn))
       then Err (Forbidden ''evm.logs queries must filter by address'')
       else Ok ())"

text \<open>A granted admission holds one slot until it is released.\<close>

definition admit :: "nat \<Rightarrow> tenant \<Rightarrow> query_request \<Rightarrow> (unit, error) result \<times> tenant" where
  "admit now tn rq =
     (let q = ap_quota (tn_app tn) in
      case allow_read tn (rq_chain rq) (rq_dataset rq) (rq_selector rq) of
        Inl e \<Rightarrow> (Err e, tn)
      | Inr _ \<Rightarrow>
          if qu_max_range_blocks q < range_len (rq_range rq)
          then (Err (InvalidInput (''range of '' @ dec (range_len (rq_range rq)) @ '' blocks exceeds max_range_blocks '' @ dec (qu_max_range_blocks q))), tn)
          else if tn_slots tn = 0
          then (Err (QuotaExceeded (''more than '' @ dec (qu_max_concurrent_requests q) @ '' concurrent requests'')), tn)
          else (case bucket_try_take now (tn_requests tn) of
                  (False, b) \<Rightarrow>
                    (Err (QuotaExceeded (''more than '' @ dec (qu_max_requests_per_minute q) @ '' requests per minute'')), tn\<lparr>tn_requests := b\<rparr>)
                | (True, b) \<Rightarrow> (Ok (), tn\<lparr>tn_requests := b, tn_slots := tn_slots tn - 1\<rparr>)))"

definition release :: "tenant \<Rightarrow> tenant" where
  "release tn = tn\<lparr>tn_slots := tn_slots tn + 1\<rparr>"

section \<open>Errors\<close>

fun status_of :: "error \<Rightarrow> nat" where
  "status_of (Unauthorized _) = 401"
| "status_of (Forbidden _) = 403"
| "status_of (InvalidInput _) = 400"
| "status_of (QuotaExceeded _) = 429"
| "status_of (Unsupported _) = 422"
| "status_of (Internal _) = 500"

definition RETRY_AFTER_S :: string where "RETRY_AFTER_S = ''1''"

record error_response =
  er_status :: nat
  er_body :: error_info
  er_retry_after :: "string option"

definition error_into_response :: "error \<Rightarrow> error_response" where
  "error_into_response e =
     \<lparr>er_status = status_of e, er_body = error_body e, er_retry_after = (case e of QuotaExceeded _ \<Rightarrow> Some RETRY_AFTER_S | _ \<Rightarrow> None)\<rparr>"

definition parse_json :: "(string \<Rightarrow> ('a, string) result) \<Rightarrow> string \<Rightarrow> ('a, error) result" where
  "parse_json parse body = map_err InvalidInput (parse body)"

section \<open>Handlers\<close>

record api_env =
  ae_sha256 :: "string \<Rightarrow> bytes"
  ae_serde :: serde
  ae_schedule :: schedule
  ae_today :: nat
  ae_query :: "string \<Rightarrow> (query_request, string) result"
  ae_watch :: "string \<Rightarrow> (watch_request, string) result"
  ae_backfill :: "string \<Rightarrow> (backfill_request, string) result"
  ae_resume :: "string \<Rightarrow> (chain_name, string) result"
  ae_selector :: "string \<Rightarrow> (log_selector, string) result"

record api =
  api_tenants :: tenants
  api_metrics_token :: string
  api_session :: session

definition put_tenant :: "tenant \<Rightarrow> api \<Rightarrow> api" where
  "put_tenant tn st = st\<lparr>api_tenants := map (\<lambda>(i, old). (i, if i = ap_id (tn_app tn) then tn else old)) (api_tenants st)\<rparr>"

text \<open>The handler's session carries the caller's fill allowance.\<close>

definition run_query :: "api_env \<Rightarrow> tenant \<Rightarrow> query_request \<Rightarrow> api \<Rightarrow> (json query_response, error) result \<times> api" where
  "run_query ev tn rq st =
     (case admit (se_now (api_session st)) tn rq of
        (Inl e, tn') \<Rightarrow> (Err e, put_tenant tn' st)
      | (Inr _, tn') \<Rightarrow>
          (case query (ae_sha256 ev) (ae_serde ev) (ae_schedule ev) (ae_today ev) (tenant_caller tn') rq
                  ((api_session st)\<lparr>se_budget := tn_fill tn'\<rparr>) of
             (r, s) \<Rightarrow> (r, put_tenant (release (tn'\<lparr>tn_fill := se_budget s\<rparr>)) (st\<lparr>api_session := s\<lparr>se_budget := None\<rparr>\<rparr>))))"

definition on_session :: "('a, error) result \<times> session \<Rightarrow> api \<Rightarrow> ('a, error) result \<times> api" where
  "on_session rs st = (case rs of (r, s) \<Rightarrow> (r, st\<lparr>api_session := s\<rparr>))"

definition rest_query :: "api_env \<Rightarrow> headers \<Rightarrow> string \<Rightarrow> api \<Rightarrow> (json query_response, error) result \<times> api" where
  "rest_query ev hs body st =
     (case authenticate (api_tenants st) hs of
        Inl e \<Rightarrow> (Err e, st)
      | Inr tn \<Rightarrow> (case parse_json (ae_query ev) body of Inl e \<Rightarrow> (Err e, st) | Inr rq \<Rightarrow> run_query ev tn rq st))"

definition rest_heads :: "headers \<Rightarrow> api \<Rightarrow> (chain_heads list, error) result" where
  "rest_heads hs st =
     and_then (authenticate (api_tenants st) hs) (\<lambda>tn.
       Ok (filter (\<lambda>h. ch_chain h \<in> set (ap_chains (tn_app tn))) (engine_all_heads (se_db (api_session st)) (se_engine (api_session st)))))"

definition rest_chain_heads :: "headers \<Rightarrow> string \<Rightarrow> api \<Rightarrow> (chain_heads, error) result" where
  "rest_chain_heads hs name st =
     and_then (authenticate (api_tenants st) hs) (\<lambda>tn.
     and_then (chain_name_new name) (\<lambda>chain.
     and_then (allow_chain tn chain) (\<lambda>_. engine_chain_heads (se_db (api_session st)) (se_engine (api_session st)) chain)))"

definition WAIT_DEFAULT_MS :: u64 where "WAIT_DEFAULT_MS = 30000"

definition WAIT_MAX_MS :: u64 where "WAIT_MAX_MS = 60000"

record wait_params =
  wp_after :: u64
  wp_kind :: "string option"
  wp_timeout_ms :: "u64 option"

definition wait_kind :: "string option \<Rightarrow> (head_kind, error) result" where
  "wait_kind k =
     (case k of
        None \<Rightarrow> Ok HkLatest
      | Some t \<Rightarrow>
          if t = ''latest'' then Ok HkLatest else if t = ''safe'' then Ok HkSafe else if t = ''finalized'' then Ok HkFinalized
          else Err (InvalidInput (''kind must be latest, safe, or finalized, not '' @ debug_str t)))"

definition wait_timeout_ms :: "wait_params \<Rightarrow> u64" where
  "wait_timeout_ms p = min (case wp_timeout_ms p of None \<Rightarrow> WAIT_DEFAULT_MS | Some t \<Rightarrow> t) WAIT_MAX_MS"

text \<open>The wait's outcome and length are those of the schedule; \<open>wait_timeout_ms\<close> is the limit the handler sets.\<close>

definition rest_wait_heads :: "api_env \<Rightarrow> headers \<Rightarrow> string \<Rightarrow> (wait_params, string) result \<Rightarrow> api \<Rightarrow> (chain_heads, error) result \<times> api" where
  "rest_wait_heads ev hs name params st =
     (case authenticate (api_tenants st) hs of
        Inl e \<Rightarrow> (Err e, st)
      | Inr tn \<Rightarrow>
          (case and_then (chain_name_new name) (\<lambda>chain. and_then (allow_chain tn chain) (\<lambda>_.
                  and_then (map_err InvalidInput params) (\<lambda>p. and_then (wait_kind (wp_kind p)) (\<lambda>k. Ok (chain, p, k))))) of
             Inl e \<Rightarrow> (Err e, st)
           | Inr (chain, p, k) \<Rightarrow> on_session (wait_heads (ae_schedule ev) chain (wp_after p) k (api_session st)) st))"

definition watched_request :: "api_env \<Rightarrow> tenant \<Rightarrow> string \<Rightarrow> (watch_request, error) result" where
  "watched_request ev tn body =
     and_then (parse_json (ae_watch ev) body) (\<lambda>rq.
       and_then (allow_read tn (wq_chain rq) (wq_dataset rq) (wq_selector rq)) (\<lambda>_. Ok rq))"

definition rest_watch :: "api_env \<Rightarrow> headers \<Rightarrow> string \<Rightarrow> api \<Rightarrow> (watch_response, error) result \<times> api" where
  "rest_watch ev hs body st =
     (case authenticate (api_tenants st) hs of
        Inl e \<Rightarrow> (Err e, st)
      | Inr tn \<Rightarrow>
          (case watched_request ev tn body of
             Inl e \<Rightarrow> (Err e, st)
           | Inr rq \<Rightarrow> on_session (watch (ae_sha256 ev) (tenant_caller tn) rq (api_session st)) st))"

definition rest_unwatch :: "api_env \<Rightarrow> headers \<Rightarrow> string \<Rightarrow> api \<Rightarrow> (unit, error) result \<times> api" where
  "rest_unwatch ev hs body st =
     (case authenticate (api_tenants st) hs of
        Inl e \<Rightarrow> (Err e, st)
      | Inr tn \<Rightarrow>
          (case watched_request ev tn body of
             Inl e \<Rightarrow> (Err e, st)
           | Inr rq \<Rightarrow> on_session (unwatch (ae_sha256 ev) (ap_id (tn_app tn)) rq (api_session st)) st))"

definition metrics_allowed :: "headers \<Rightarrow> api \<Rightarrow> bool" where
  "metrics_allowed hs st = (case bearer hs of None \<Rightarrow> False | Some token \<Rightarrow> constant_time_eq (as_bytes token) (as_bytes (api_metrics_token st)))"

section \<open>Operator routes\<close>

definition MAX_JOBS :: u32 where "MAX_JOBS = 1000"

definition admin_tenant :: "headers \<Rightarrow> api \<Rightarrow> (tenant, error) result" where
  "admin_tenant hs st = and_then (authenticate (api_tenants st) hs) (\<lambda>tn. and_then (require_admin tn) (\<lambda>_. Ok tn))"

definition api_backfill :: "api_env \<Rightarrow> headers \<Rightarrow> string \<Rightarrow> api \<Rightarrow> (backfill_response, error) result \<times> api" where
  "api_backfill ev hs body st =
     (case admin_tenant hs st of
        Inl e \<Rightarrow> (Err e, st)
      | Inr tn \<Rightarrow>
          (case parse_json (ae_backfill ev) body of
             Inl e \<Rightarrow> (Err e, st)
           | Inr rq \<Rightarrow> on_session (backfill (ae_sha256 ev) (ap_id (tn_app tn)) rq (api_session st)) st))"

definition api_resume_follow :: "api_env \<Rightarrow> headers \<Rightarrow> string \<Rightarrow> api \<Rightarrow> (follow_resume_response, error) result \<times> api" where
  "api_resume_follow ev hs body st =
     (case admin_tenant hs st of
        Inl e \<Rightarrow> (Err e, st)
      | Inr _ \<Rightarrow>
          (case parse_json (ae_resume ev) body of
             Inl e \<Rightarrow> (Err e, st)
           | Inr chain \<Rightarrow> on_session (engine_resume_follow chain (api_session st)) st))"

record coverage_params =
  cp_chain :: string
  cp_dataset :: string
  cp_selector :: "string option"
  cp_start :: "u64 option"
  cp_end :: "u64 option"

definition coverage_range :: "coverage_params \<Rightarrow> (block_range option, error) result" where
  "coverage_range p =
     (case (cp_start p, cp_end p) of
        (Some s, Some e) \<Rightarrow> map_ok Some (range_new s e)
      | (None, None) \<Rightarrow> Ok None
      | _ \<Rightarrow> Err (InvalidInput ''start and end go together''))"

definition coverage_query ::
  "api_env \<Rightarrow> (coverage_params, string) result \<Rightarrow> (chain_name \<times> dataset \<times> log_selector option \<times> block_range option, error) result" where
  "coverage_query ev params =
     and_then (map_err InvalidInput params) (\<lambda>p.
     and_then (chain_name_new (cp_chain p)) (\<lambda>chain.
     and_then (dataset_from_str (cp_dataset p)) (\<lambda>ds.
     and_then (case cp_selector p of None \<Rightarrow> Ok None | Some t \<Rightarrow> map_ok Some (parse_json (ae_selector ev) t)) (\<lambda>sel.
     and_then (coverage_range p) (\<lambda>r. Ok (chain, ds, sel, r))))))"

definition api_coverage :: "api_env \<Rightarrow> headers \<Rightarrow> (coverage_params, string) result \<Rightarrow> api \<Rightarrow> (coverage_response, error) result \<times> api" where
  "api_coverage ev hs params st =
     (case admin_tenant hs st of
        Inl e \<Rightarrow> (Err e, st)
      | Inr _ \<Rightarrow>
          (case coverage_query ev params of
             Inl e \<Rightarrow> (Err e, st)
           | Inr (chain, ds, sel, r) \<Rightarrow> on_session (coverage_report (ae_sha256 ev) chain ds sel r (api_session st)) st))"

record jobs_params =
  jp_status :: "string option"
  jp_limit :: "u32 option"

definition jobs_status :: "jobs_params \<Rightarrow> (job_status option, error) result" where
  "jobs_status p =
     (case jp_status p of
        None \<Rightarrow> Ok None
      | Some t \<Rightarrow> map_ok Some (ok_or (InvalidInput (''unknown job status '' @ debug_str t)) (find (\<lambda>s. status_as_str s = t) status_all)))"

definition jobs_limit :: "jobs_params \<Rightarrow> u32" where
  "jobs_limit p = max 1 (min (case jp_limit p of None \<Rightarrow> 100 | Some n \<Rightarrow> n) MAX_JOBS)"

definition api_jobs :: "headers \<Rightarrow> (jobs_params, string) result \<Rightarrow> api \<Rightarrow> (error_json job_info list, error) result" where
  "api_jobs hs params st =
     and_then (admin_tenant hs st) (\<lambda>_.
     and_then (map_err InvalidInput params) (\<lambda>p.
     and_then (jobs_status p) (\<lambda>status. Ok (jobs_report status (jobs_limit p) (api_session st)))))"

section \<open>Tokens\<close>

lemma xor_zero_iff: "a XOR b = 0 \<longleftrightarrow> a = (b :: 'a::len word)"
  by (auto simp: bit_eq_iff bit_simps)

lemma fold_or_zero: "fold (\<lambda>(a, b) acc. acc OR (a XOR b)) xs z = 0 \<longleftrightarrow> z = 0 \<and> (\<forall>(a, b)\<in>set xs. a = (b :: 'a::len word))"
  by (induction xs arbitrary: z) (auto simp: or_eq_0_iff xor_zero_iff)

lemma constant_time_eq_iff: "constant_time_eq l r \<longleftrightarrow> l = r"
  unfolding constant_time_eq_def fold_or_zero list_eq_iff_zip_eq [of l r] by simp

lemma of_char_inj_word: "(of_char c :: 8 word) = of_char d \<longleftrightarrow> c = d"
proof -
  have eq: "(of_char c :: 8 word) = word_of_nat (of_char c)" for c by (simp add: of_nat_of_char)
  have "unat (word_of_nat (of_char c) :: 8 word) = of_char c mod 256" for c by (simp add: unat_of_nat)
  then have "unat (of_char c :: 8 word) = of_char c" for c by (simp add: eq)
  then show ?thesis by (metis of_char_eq_iff)
qed

lemma as_bytes_inj: "as_bytes a = as_bytes b \<longleftrightarrow> a = b"
  unfolding as_bytes_def by (rule inj_map_eq_map) (simp add: inj_def of_char_inj_word)

lemma strip_prefix_iff: "strip_prefix p s = Some r \<longleftrightarrow> s = p @ r"
  by (auto simp: strip_prefix_def starts_with_iff)

lemma strip_bearer: "strip_prefix ''Bearer '' (''Bearer '' @ token) = Some token"
  by (simp add: strip_prefix_def)

lemma authenticate_cases:
  "authenticate ts hs =
     (case (header_text hs APPLICATION_HEADER, header_text hs ''authorization'') of
        (Some i, Some v) \<Rightarrow>
          (case (strip_prefix ''Bearer '' v, map_of ts i) of
             (Some token, Some tn) \<Rightarrow> if token = ap_token (tn_app tn) then Ok tn else Err unauthorized
           | _ \<Rightarrow> Err unauthorized)
      | _ \<Rightarrow> Err unauthorized)"
  by (simp add: authenticate_def bearer_def constant_time_eq_iff as_bytes_inj split: option.splits)

lemma authenticate_Ok:
  "authenticate ts hs = Ok tn \<longleftrightarrow>
     (\<exists>i. header_text hs APPLICATION_HEADER = Some i \<and> map_of ts i = Some tn \<and>
        header_text hs ''authorization'' = Some (''Bearer '' @ ap_token (tn_app tn)))"
  by (auto simp: authenticate_cases strip_prefix_iff strip_bearer [simplified] split: option.splits if_splits)

lemma authenticate_refuses: "authenticate ts hs = Err e \<Longrightarrow> e = unauthorized"
  by (auto simp: authenticate_cases split: option.splits if_splits)

text \<open>
  C21. A request is accepted exactly when it names a known application and carries that application's
  token after \<open>Bearer\<close>; every other request is refused with one and the same error, whatever is
  wrong with it. The comparison that takes the same time for every token of a length is equality.
\<close>

theorem authenticate_exact:
  "(authenticate ts hs = Ok tn \<longleftrightarrow>
     (\<exists>i. header_text hs APPLICATION_HEADER = Some i \<and> map_of ts i = Some tn \<and>
        header_text hs ''authorization'' = Some (''Bearer '' @ ap_token (tn_app tn)))) \<and>
   ((\<nexists>tn. authenticate ts hs = Ok tn) \<longleftrightarrow> authenticate ts hs = Err unauthorized)"
  using authenticate_Ok [of ts hs tn] authenticate_refuses [of ts hs] by (cases "authenticate ts hs") auto

section \<open>The routes that change state\<close>

datatype api_call =
    CallQuery string | CallWait string "(wait_params, string) result" | CallWatch string | CallUnwatch string
  | CallBackfill string | CallResume string | CallCoverage "(coverage_params, string) result"

fun route :: "api_env \<Rightarrow> headers \<Rightarrow> api_call \<Rightarrow> api \<Rightarrow> api" where
  "route ev hs (CallQuery body) st = snd (rest_query ev hs body st)"
| "route ev hs (CallWait name params) st = snd (rest_wait_heads ev hs name params st)"
| "route ev hs (CallWatch body) st = snd (rest_watch ev hs body st)"
| "route ev hs (CallUnwatch body) st = snd (rest_unwatch ev hs body st)"
| "route ev hs (CallBackfill body) st = snd (api_backfill ev hs body st)"
| "route ev hs (CallResume body) st = snd (api_resume_follow ev hs body st)"
| "route ev hs (CallCoverage params) st = snd (api_coverage ev hs params st)"

definition may_read :: "application \<Rightarrow> chain_name \<Rightarrow> dataset \<Rightarrow> log_selector option \<Rightarrow> bool" where
  "may_read app chain ds sel =
     (chain \<in> set (ap_chains app) \<and> ds \<in> set (ap_datasets app) \<and> (unfiltered ds sel \<longrightarrow> qu_allow_unfiltered_logs (ap_quota app)))"

fun permitted :: "api_env \<Rightarrow> application \<Rightarrow> api_call \<Rightarrow> bool" where
  "permitted ev app (CallQuery body) =
     (\<exists>rq. ae_query ev body = Ok rq \<and> may_read app (rq_chain rq) (rq_dataset rq) (rq_selector rq) \<and>
        range_len (rq_range rq) \<le> qu_max_range_blocks (ap_quota app))"
| "permitted ev app (CallWait name _) = (name \<in> set (ap_chains app))"
| "permitted ev app (CallWatch body) = (\<exists>rq. ae_watch ev body = Ok rq \<and> may_read app (wq_chain rq) (wq_dataset rq) (wq_selector rq))"
| "permitted ev app (CallUnwatch body) = (\<exists>rq. ae_watch ev body = Ok rq \<and> may_read app (wq_chain rq) (wq_dataset rq) (wq_selector rq))"
| "permitted ev app (CallBackfill _) = ap_admin app"
| "permitted ev app (CallResume _) = ap_admin app"
| "permitted ev app (CallCoverage _) = ap_admin app"

lemma allow_read_iff: "allow_read tn chain ds sel = Ok () \<longleftrightarrow> may_read (tn_app tn) chain ds sel"
  by (auto simp: allow_read_def allow_chain_def may_read_def)

lemma admit_refused: "admit now tn rq = (r, tn') \<Longrightarrow> tn' \<noteq> tn \<or> r = Ok () \<Longrightarrow>
    may_read (tn_app tn) (rq_chain rq) (rq_dataset rq) (rq_selector rq) \<and> range_len (rq_range rq) \<le> qu_max_range_blocks (ap_quota (tn_app tn))"
  by (auto simp: admit_def Let_def allow_read_iff split: sum.splits if_splits prod.splits bool.splits)

lemma put_same: "map_of (api_tenants st) (ap_id (tn_app tn)) = Some tn \<Longrightarrow> distinct (map fst (api_tenants st)) \<Longrightarrow> put_tenant tn st = st"
proof -
  assume a: "map_of (api_tenants st) (ap_id (tn_app tn)) = Some tn" "distinct (map fst (api_tenants st))"
  then have "map (\<lambda>(i, old). (i, if i = ap_id (tn_app tn) then tn else old)) (api_tenants st) = api_tenants st"
    by (intro map_idI) (auto dest!: map_of_SomeD dest: eq_key_imp_eq_value)
  then show ?thesis by (simp add: put_tenant_def)
qed

definition tenants_ok :: "tenants \<Rightarrow> bool" where
  "tenants_ok ts = (distinct (map fst ts) \<and> (\<forall>(i, tn)\<in>set ts. ap_id (tn_app tn) = i))"

lemma tenants_ok_put:
  assumes "tenants_ok ts"
  shows "tenants_ok ((ap_id app, tenant_new now app) # filter (\<lambda>(i, _). i \<noteq> ap_id app) ts)"
proof -
  have "distinct (map fst (filter (\<lambda>(i, _). i \<noteq> ap_id app) ts))" using assms by (simp add: tenants_ok_def distinct_map_filter)
  then show ?thesis using assms by (auto simp: tenants_ok_def tenant_new_def)
qed

lemma tenants_new_ok: "tenants_ok (tenants_new now apps)"
proof -
  have "tenants_ok (fold (\<lambda>app m. (ap_id app, tenant_new now app) # filter (\<lambda>(i, _). i \<noteq> ap_id app) m) apps ts)" if "tenants_ok ts" for ts
    using that by (induction apps arbitrary: ts) (simp_all add: tenants_ok_put)
  moreover have "tenants_ok []" by (simp add: tenants_ok_def)
  ultimately show ?thesis by (simp only: tenants_new_def)
qed

lemma authenticate_tenant: "tenants_ok ts \<Longrightarrow> authenticate ts hs = Ok tn \<Longrightarrow> map_of ts (ap_id (tn_app tn)) = Some tn"
  by (auto simp: authenticate_def tenants_ok_def split: option.splits if_splits dest!: map_of_SomeD intro: map_of_is_SomeI)

lemma run_query_permitted:
  assumes "map_of (api_tenants st) (ap_id (tn_app tn)) = Some tn" and "distinct (map fst (api_tenants st))" and "snd (run_query ev tn rq st) \<noteq> st"
  shows "may_read (tn_app tn) (rq_chain rq) (rq_dataset rq) (rq_selector rq) \<and> range_len (rq_range rq) \<le> qu_max_range_blocks (ap_quota (tn_app tn))"
proof -
  obtain r tn' where adm: "admit (se_now (api_session st)) tn rq = (r, tn')" by force
  have "tn' \<noteq> tn \<or> r = Ok ()"
    using assms(3) adm put_same [OF assms(1,2)] by (auto simp: run_query_def split: sum.splits)
  then show ?thesis using admit_refused [OF adm] by blast
qed


section \<open>Admission under load\<close>

text \<open>What happens at one application: requests ask for admission at the times they arrive, and admitted
  ones finish.\<close>

datatype tenant_event = Ask nat query_request | Finish

record tenant_load =
  tl_tenant :: tenant
  tl_running :: nat
  tl_granted :: nat

definition tenant_start :: "nat \<Rightarrow> application \<Rightarrow> tenant_load" where
  "tenant_start now app = \<lparr>tl_tenant = tenant_new now app, tl_running = 0, tl_granted = 0\<rparr>"

inductive tenant_step :: "tenant_load \<Rightarrow> tenant_event \<Rightarrow> tenant_load \<Rightarrow> bool" where
  t_granted: "bk_at (tn_requests (tl_tenant x)) \<le> now \<Longrightarrow> admit now (tl_tenant x) rq = (Ok (), tn) \<Longrightarrow>
     tenant_step x (Ask now rq) (x\<lparr>tl_tenant := tn, tl_running := tl_running x + 1, tl_granted := tl_granted x + 1\<rparr>)"
| t_refused: "bk_at (tn_requests (tl_tenant x)) \<le> now \<Longrightarrow> admit now (tl_tenant x) rq = (Err e, tn) \<Longrightarrow>
     tenant_step x (Ask now rq) (x\<lparr>tl_tenant := tn\<rparr>)"
| t_finish: "0 < tl_running x \<Longrightarrow> tenant_step x Finish (x\<lparr>tl_tenant := release (tl_tenant x), tl_running := tl_running x - 1\<rparr>)"

definition load_ok :: "nat \<Rightarrow> application \<Rightarrow> tenant_load \<Rightarrow> bool" where
  "load_ok t0 app x =
     (let b = tn_requests (tl_tenant x); q = ap_quota app in
      tn_app (tl_tenant x) = app \<and> bk_capacity b = qu_max_requests_per_minute q \<and> t0 \<le> bk_at b \<and>
      tn_slots (tl_tenant x) + tl_running x = qu_max_concurrent_requests q \<and>
      bk_parts b + tl_granted x * BUCKET_UNIT \<le> bk_capacity b * BUCKET_UNIT + bk_capacity b * (bk_at b - t0))"

lemma bucket_take_pays:
  assumes "bucket_try_take now b = (got, b')" and "bk_at b \<le> now"
  shows "bk_capacity b' = bk_capacity b \<and> bk_at b' = now \<and>
    bk_parts b' + (if got then BUCKET_UNIT else 0) \<le> bk_parts b + bk_capacity b * (now - bk_at b)"
  using assms by (auto simp: bucket_try_take_def Let_def mult.commute split: if_splits)

lemma load_paid:
  assumes "load_ok t0 app x" and "bucket_try_take now (tn_requests (tl_tenant x)) = (got, b')" and "bk_at (tn_requests (tl_tenant x)) \<le> now"
  shows "bk_capacity b' = qu_max_requests_per_minute (ap_quota app) \<and> t0 \<le> bk_at b' \<and>
    bk_parts b' + (tl_granted x + (if got then 1 else 0)) * BUCKET_UNIT \<le> bk_capacity b' * BUCKET_UNIT + bk_capacity b' * (bk_at b' - t0)"
proof -
  let ?b = "tn_requests (tl_tenant x)"
  note pay = bucket_take_pays [OF assms(2,3)]
  have ok: "bk_capacity ?b = qu_max_requests_per_minute (ap_quota app)" "t0 \<le> bk_at ?b"
    "bk_parts ?b + tl_granted x * BUCKET_UNIT \<le> bk_capacity ?b * BUCKET_UNIT + bk_capacity ?b * (bk_at ?b - t0)"
    using assms(1) unfolding load_ok_def Let_def by blast+
  have split: "bk_capacity ?b * (now - t0) = bk_capacity ?b * (bk_at ?b - t0) + bk_capacity ?b * (now - bk_at ?b)"
    using ok(2) assms(3) by (simp flip: distrib_left)
  have now: "bk_at b' = now" "bk_capacity b' = bk_capacity ?b" using pay by simp_all
  have "bk_parts b' + (tl_granted x + (if got then 1 else 0)) * BUCKET_UNIT \<le> bk_capacity ?b * BUCKET_UNIT + bk_capacity ?b * (now - t0)"
    unfolding split using pay ok(3) by (cases got) (simp_all add: distrib_right)
  then show ?thesis using now ok(1,2) assms(3) by simp
qed

lemma admit_refusal:
  "admit now tn rq = (Err e, tn') \<Longrightarrow> tn' = tn \<or> (\<exists>b. bucket_try_take now (tn_requests tn) = (False, b) \<and> tn' = tn\<lparr>tn_requests := b\<rparr>)"
  by (auto simp: admit_def Let_def split: sum.splits if_splits prod.splits bool.splits)

lemma tenant_step_ok:
  assumes "load_ok t0 app x" and "tenant_step x ev y"
  shows "load_ok t0 app y"
  using assms(2)
proof cases
  case (t_granted now rq tn)
  then obtain b' where b': "bucket_try_take now (tn_requests (tl_tenant x)) = (True, b')" "tn_slots (tl_tenant x) \<noteq> 0"
    "tn = (tl_tenant x)\<lparr>tn_requests := b', tn_slots := tn_slots (tl_tenant x) - 1\<rparr>"
    by (auto simp: admit_def Let_def split: sum.splits if_splits prod.splits bool.splits)
  show ?thesis using load_paid [OF assms(1) b'(1) t_granted(3)] assms(1) b'(2,3) t_granted(2) by (auto simp: load_ok_def Let_def)
next
  case (t_refused now rq e tn)
  then consider "tn = tl_tenant x" | b' where "bucket_try_take now (tn_requests (tl_tenant x)) = (False, b')" "tn = (tl_tenant x)\<lparr>tn_requests := b'\<rparr>"
    using admit_refusal [OF t_refused(4)] by blast
  then show ?thesis
  proof cases
    case 2
    show ?thesis using load_paid [OF assms(1) 2(1) t_refused(3)] assms(1) 2(2) t_refused(2) by (auto simp: load_ok_def Let_def)
  qed (use assms(1) t_refused(2) in simp)
next
  case t_finish
  then show ?thesis using assms(1) by (auto simp: load_ok_def release_def Let_def)
qed

inductive tenant_runs :: "nat \<Rightarrow> application \<Rightarrow> tenant_load \<Rightarrow> bool" for t0 app where
  starts: "tenant_runs t0 app (tenant_start t0 app)"
| steps: "tenant_runs t0 app x \<Longrightarrow> tenant_step x ev y \<Longrightarrow> tenant_runs t0 app y"

lemma tenant_runs_ok: "tenant_runs t0 app x \<Longrightarrow> load_ok t0 app x"
proof (induction rule: tenant_runs.induct)
  case starts
  show ?case by (simp add: load_ok_def tenant_start_def tenant_new_def bucket_new_def Let_def)
next
  case (steps x ev y)
  then show ?case using tenant_step_ok by blast
qed

text \<open>
  C23. The quotas of an application hold whatever arrives: at no time does it run more requests than
  \<open>max_concurrent_requests\<close>, and from its start to the last admission decision at time \<open>t\<close> it is
  granted at most one minute's worth of requests plus what refills in the elapsed time.
\<close>

theorem quotas_hold:
  assumes "tenant_runs t0 app x"
  shows "tl_running x \<le> qu_max_concurrent_requests (ap_quota app) \<and>
    tl_granted x * BUCKET_UNIT \<le> qu_max_requests_per_minute (ap_quota app) * (BUCKET_UNIT + (bk_at (tn_requests (tl_tenant x)) - t0))"
  using tenant_runs_ok [OF assms] unfolding load_ok_def Let_def distrib_left by auto

section \<open>Witnesses\<close>

definition api_demo_app :: application where
  "api_demo_app = \<lparr>ap_id = ''app'', ap_token = ''secret'', ap_chains = [''dev''], ap_datasets = [EvmLogs, EvmBlocks],
     ap_quota = \<lparr>qu_max_range_blocks = 100, qu_max_requests_per_minute = 2, qu_max_concurrent_requests = 1, qu_max_fill_blocks_per_minute = None,
       qu_allow_unfiltered_logs = True, qu_max_subscriptions = Some 3\<rparr>, ap_admin = True\<rparr>"

definition api_demo_headers :: headers where
  "api_demo_headers = [(APPLICATION_HEADER, Some ''app''), (''authorization'', Some ''Bearer secret'')]"

definition api_demo_env :: api_env where
  "api_demo_env = \<lparr>ae_sha256 = (\<lambda>_. []), ae_serde = query_demo_serde, ae_schedule = quiet, ae_today = 0, ae_query = (\<lambda>_. Ok query_demo_request),
     ae_watch = (\<lambda>_. Err ''no watch''), ae_backfill = (\<lambda>_. Ok backfill_demo_request), ae_resume = (\<lambda>_. Ok ''dev''), ae_selector = (\<lambda>_. Ok sel_default)\<rparr>"

definition api_demo :: api where
  "api_demo = \<lparr>api_tenants = tenants_new 0 [api_demo_app], api_metrics_token = ''m'', api_session = query_demo_session\<rparr>"

lemma api_demo_tenant: "authenticate (api_tenants api_demo) api_demo_headers = Ok (tenant_new 0 api_demo_app)"
  by (simp add: authenticate_def constant_time_eq_iff as_bytes_inj api_demo_def tenants_new_def api_demo_app_def api_demo_headers_def header_text_def
      bearer_def strip_prefix_def APPLICATION_HEADER_def tenant_new_def)


theorem quotas_hold_witness:
  "\<exists>x. tenant_runs 0 api_demo_app x \<and> tl_running x = 1 \<and> tl_running x \<le> qu_max_concurrent_requests (ap_quota api_demo_app)"
proof -
  let ?x = "tenant_start 0 api_demo_app"
  have "\<exists>tn. admit 0 (tl_tenant ?x) query_demo_request = (Ok (), tn)"
    by (simp add: admit_def allow_read_def allow_chain_def unfiltered_def tenant_start_def tenant_new_def bucket_new_def bucket_try_take_def BUCKET_UNIT_def
        api_demo_app_def query_demo_request_def range_len_def Let_def)
  then obtain tn where "admit 0 (tl_tenant ?x) query_demo_request = (Ok (), tn)" by blast
  then have "tenant_step ?x (Ask 0 query_demo_request) (?x\<lparr>tl_tenant := tn, tl_running := tl_running ?x + 1, tl_granted := tl_granted ?x + 1\<rparr>)"
    by (intro t_granted) (simp_all add: tenant_start_def tenant_new_def bucket_new_def)
  then have run: "tenant_runs 0 api_demo_app (?x\<lparr>tl_tenant := tn, tl_running := tl_running ?x + 1, tl_granted := tl_granted ?x + 1\<rparr>)" (is "tenant_runs _ _ ?y")
    by (rule tenant_runs.steps [OF tenant_runs.starts])
  have one: "tl_running ?y = 1" by (simp add: tenant_start_def)
  have "tl_running ?y \<le> qu_max_concurrent_requests (ap_quota api_demo_app)" using quotas_hold [OF run] by (rule conjunct1)
  with run one show ?thesis by blast
qed

end
