(* ===== verification/Server_Run.thy ===== *)
theory Server_Run
  imports Server_Config Api
begin

text \<open>
  The assembly of a server, \<open>crates/server/src/run.rs\<close>: the engine with its chains and settings, the
  applications, the tasks of the configured roles and the routes they serve. The clients that talk
  to the providers are arguments. Signals, sockets and the metrics registry are left out.
\<close>

section \<open>From the configuration to the parts\<close>

definition HEADER_BATCH :: usize where "HEADER_BATCH = 50"

datatype run_error = GatewayFailed build_error | HeaderBatchSize usize

fun head_mode_of :: "finality_config \<Rightarrow> head_mode" where
  "head_mode_of (LagBlocks safe_lag finalized_lag) = Lag safe_lag finalized_lag"
| "head_mode_of RpcTags = Tags"

definition provider_config_of :: "chain_config \<Rightarrow> provider_config" where
  "provider_config_of c =
     \<lparr>pc_url = cg_rpc_url c, pc_rps = sp_rps (cg_provider c), pc_burst = sp_burst (cg_provider c),
      pc_daily_calls = sp_daily_calls (cg_provider c), pc_max_in_flight = sp_max_in_flight (cg_provider c),
      pc_min_range_blocks = sp_min_range_blocks (cg_provider c), pc_max_get_logs_range_blocks = cg_max_get_logs_range_blocks c\<rparr>"

definition chain_settings_of :: "chain_name \<Rightarrow> chain_config \<Rightarrow> chain_settings" where
  "chain_settings_of name c =
     \<lparr>cs_name = name, cs_id = cg_chain_id c, cs_chunk_blocks = cg_chunk_blocks c, cs_header_chunk_blocks = cg_header_chunk_blocks c,
      cs_max_addresses = cg_max_addresses_per_query c, cs_head_mode = head_mode_of (cg_finality c), cs_tick = cg_tick_ms c,
      cs_reorg_window = cg_reorg_window_blocks c\<rparr>"

text \<open>\<open>http\<close> is what building the HTTP client of a chain gave, \<open>reach\<close> the calls through a gateway.\<close>

record wiring =
  wi_http :: "chain_name \<Rightarrow> (unit, string) result"
  wi_reach :: "Gateway.gateway \<Rightarrow> evm_client \<Rightarrow> evm"
  wi_started :: instant

definition build_chain :: "wiring \<Rightarrow> chain_name \<times> chain_config \<Rightarrow> (chain, run_error) result" where
  "build_chain wi = (\<lambda>(name, c).
     and_then (map_err GatewayFailed (gateway_new name (provider_config_of c) (wi_http wi name) (wi_started wi))) (\<lambda>gw.
     and_then (map_err HeaderBatchSize (evm_client_new (cg_max_addresses_per_query c) HEADER_BATCH)) (\<lambda>ec.
     Ok \<lparr>ch_settings = chain_settings_of name c, ch_evm = wi_reach wi gw ec\<rparr>)))"

definition engine_settings_of :: "config \<Rightarrow> engine_settings" where
  "engine_settings_of cf =
     engine_settings_default
       \<lparr>es_max_wait := qc_max_wait_ms (cf_query cf), es_page_limit := qc_page_limit (cf_query cf), es_lease := fi_lease_s (cf_fill cf) * 1000,
        es_follow_attach_blocks := qc_follow_attach_blocks (cf_query cf), es_subscription_ttl := fo_subscription_ttl_s (cf_follow cf) * 1000,
        es_unsafe_retention := fo_unsafe_retention_s (cf_follow cf) * 1000, es_job_retention := fi_job_retention_s (cf_fill cf) * 1000\<rparr>"

definition build_engine :: "wiring \<Rightarrow> config \<Rightarrow> (engine, run_error) result" where
  "build_engine wi cf =
     and_then (try_map (build_chain wi) (cf_chains cf)) (\<lambda>cs. Ok (engine_new cs (engine_settings_of cf)))"

definition quota_of :: "quota_config \<Rightarrow> quota" where
  "quota_of q =
     \<lparr>qu_max_range_blocks = qf_max_range_blocks q, qu_max_requests_per_minute = qf_max_requests_per_minute q,
      qu_max_concurrent_requests = qf_max_concurrent_requests q, qu_max_fill_blocks_per_minute = qf_max_fill_blocks_per_minute q,
      qu_allow_unfiltered_logs = qf_allow_unfiltered_logs q, qu_max_subscriptions = Some (qf_max_subscriptions q)\<rparr>"

definition application_of :: "application_config \<Rightarrow> application" where
  "application_of ac =
     \<lparr>ap_id = ac_id ac, ap_token = ac_token ac, ap_chains = ac_chains ac, ap_datasets = ac_datasets ac, ap_quota = quota_of (ac_quota ac),
      ap_admin = ac_admin ac\<rparr>"

record api_config =
  af_applications :: "application list"
  af_metrics_token :: string

definition api_config_of :: "config \<Rightarrow> api_config" where
  "api_config_of cf = \<lparr>af_applications = map application_of (cf_applications cf), af_metrics_token = mc_bearer_token (cf_metrics cf)\<rparr>"

section \<open>Starting\<close>

definition register_chains :: "config \<Rightarrow> follow_table \<Rightarrow> follow_table" where
  "register_chains cf t = fold (\<lambda>(name, c) t. ensure_chain t (cg_chain_id c) name) (cf_chains cf) t"

definition has_role :: "role \<Rightarrow> config \<Rightarrow> bool" where
  "has_role r cf = (r \<in> set (sv_roles (cf_server cf)))"

definition fill_workers :: "config \<Rightarrow> nat" where
  "fill_workers cf = (if has_role WorkerRole cf then fi_workers (cf_fill cf) else fi_inline_workers (cf_fill cf))"

text \<open>The tasks a process spawns, with the lease name of each fill worker.\<close>

datatype task = FillWorker string | ChainLeader chain_name | FlushUsage

definition worker_id :: "string \<Rightarrow> nat \<Rightarrow> string" where
  "worker_id prefix n = prefix @ ''-'' @ dec n"

definition spawned_tasks :: "string \<Rightarrow> config \<Rightarrow> engine \<Rightarrow> task list" where
  "spawned_tasks prefix cf en =
     map (\<lambda>n. FillWorker (worker_id prefix n)) [0..<fill_workers cf] @
     (if has_role WorkerRole cf then map ChainLeader (chain_names en) else []) @ [FlushUsage]"

definition app_state :: "nat \<Rightarrow> session \<Rightarrow> api_config \<Rightarrow> api" where
  "app_state now s af = \<lparr>api_tenants = tenants_new now (af_applications af), api_metrics_token = af_metrics_token af, api_session = s\<rparr>"

text \<open>A replica without the api role serves the metrics alone, with no application.\<close>

datatype routes = FullRouter api | MetricsRouter api

definition served_routes :: "nat \<Rightarrow> session \<Rightarrow> config \<Rightarrow> routes" where
  "served_routes now s cf =
     (if has_role ApiRole cf then FullRouter (app_state now s (api_config_of cf))
      else MetricsRouter (app_state now s \<lparr>af_applications = [], af_metrics_token = mc_bearer_token (cf_metrics cf)\<rparr>))"

section \<open>An accepted configuration is served\<close>

lemma build_chain_settings: "build_chain wi (name, c) = Ok ch \<Longrightarrow> ch_settings ch = chain_settings_of name c"
  by (auto simp: build_chain_def)

lemma built_chains:
  assumes "build_engine wi cf = Ok en"
  obtains cs where "en = engine_new cs (engine_settings_of cf)"
    and "map ch_settings cs = map (\<lambda>(name, c). chain_settings_of name c) (cf_chains cf)"
proof -
  obtain cs where cs: "try_map (build_chain wi) (cf_chains cf) = Ok cs" "en = engine_new cs (engine_settings_of cf)"
    using assms by (auto simp: build_engine_def)
  then have "list_all2 (\<lambda>e ch. build_chain wi e = Ok ch) (cf_chains cf) cs" by (simp add: try_map_Ok_iff)
  then have "map ch_settings cs = map (\<lambda>(name, c). chain_settings_of name c) (cf_chains cf)"
    by (induction rule: list_all2_induct) (auto dest: build_chain_settings)
  then show ?thesis using that cs(2) by blast
qed

lemma map_of_rev_distinct:
  assumes "distinct (map fst xs)"
  shows "map_of (rev xs) = map_of xs"
proof
  fix k
  have rev: "distinct (map fst (rev xs))" using assms by (simp flip: rev_map)
  have "map_of (rev xs) k = Some v \<longleftrightarrow> map_of xs k = Some v" for v
    using map_of_eq_Some_iff [OF rev] map_of_eq_Some_iff [OF assms] by simp
  then show "map_of (rev xs) k = map_of xs k" by (metis not_None_eq)
qed

lemma map_of_pairs: "distinct (map f xs) \<Longrightarrow> x \<in> set xs \<Longrightarrow> map_of (map (\<lambda>y. (f y, y)) xs) (f x) = Some x"
  by (intro map_of_is_SomeI) (auto simp: comp_def)

lemma engine_finds_chain:
  assumes "distinct (map chain_name_of cs)" and "distinct (map chain_id_of cs)" and "ch \<in> set cs"
  shows "engine_chain (engine_new cs st) (chain_name_of ch) = Ok ch \<and> chain_by_id (engine_new cs st) (chain_id_of ch) = Ok ch"
  using assms(1,2)
  by (simp add: engine_chain_def chain_by_id_def engine_new_def map_of_rev_distinct comp_def ok_or_def
      map_of_pairs [OF assms(1,3)] map_of_pairs [OF assms(2,3)])

lemma map_of_filter_other: "j \<noteq> i \<Longrightarrow> map_of (filter (\<lambda>(n, _). n \<noteq> i) m) j = map_of m j"
  by (induction m) auto

lemma tenants_new_lookup:
  "distinct (map ap_id apps) \<Longrightarrow> app \<in> set apps \<Longrightarrow> map_of (tenants_new now apps) (ap_id app) = Some (tenant_new now app)"
proof (induction apps rule: rev_induct)
  case (snoc a apps)
  have step: "tenants_new now (apps @ [a]) = (ap_id a, tenant_new now a) # filter (\<lambda>(i, _). i \<noteq> ap_id a) (tenants_new now apps)"
    by (simp add: tenants_new_def)
  show ?case
  proof (cases "app = a")
    case False
    then have "app \<in> set apps" "ap_id app \<noteq> ap_id a" using snoc.prems by (auto simp: image_iff)
    then show ?thesis using snoc step by (simp add: map_of_filter_other)
  qed (simp add: step)
qed simp

lemma configured_chains:
  assumes "validate cf = Ok ()" and "distinct (map fst (cf_chains cf))" and "build_engine wi cf = Ok en" and "e \<in> set (cf_chains cf)"
  shows "\<exists>ch. engine_chain en (fst e) = Ok ch \<and> chain_by_id en (cg_chain_id (snd e)) = Ok ch \<and> ch_settings ch = chain_settings_of (fst e) (snd e)"
proof -
  obtain cs where en: "en = engine_new cs (engine_settings_of cf)"
    and cs: "map ch_settings cs = map (\<lambda>(name, c). chain_settings_of name c) (cf_chains cf)"
    using built_chains [OF assms(3)] .
  have names: "map chain_name_of cs = map fst (cf_chains cf)"
    using arg_cong [OF cs, of "map cs_name"] by (simp add: chain_name_of_def [abs_def] chain_settings_of_def comp_def case_prod_beta)
  have ids: "map chain_id_of cs = map (\<lambda>e. cg_chain_id (snd e)) (cf_chains cf)"
    using arg_cong [OF cs, of "map cs_id"] by (simp add: chain_id_of_def [abs_def] chain_settings_of_def comp_def case_prod_beta)
  have "chain_settings_of (fst e) (snd e) \<in> set (map ch_settings cs)" using assms(4) unfolding cs by force
  then obtain ch where ch: "ch \<in> set cs" "ch_settings ch = chain_settings_of (fst e) (snd e)" by auto
  have "engine_chain en (chain_name_of ch) = Ok ch \<and> chain_by_id en (chain_id_of ch) = Ok ch"
    unfolding en by (rule engine_finds_chain) (use assms(1,2) ids names ch(1) in \<open>auto simp: validate_iff config_ok_def\<close>)
  then show ?thesis using ch(2) by (auto simp: chain_name_of_def chain_id_of_def chain_settings_of_def)
qed

definition login :: "string \<Rightarrow> string \<Rightarrow> headers" where
  "login i token = [(APPLICATION_HEADER, Some i), (''authorization'', Some (''Bearer '' @ token))]"

lemma login_Ok:
  "map_of ts i = Some tn \<Longrightarrow> ap_token (tn_app tn) = token \<Longrightarrow> authenticate ts (login i token) = Ok tn"
  by (simp add: authenticate_Ok login_def header_text_def APPLICATION_HEADER_def)


text \<open>
  Each fill worker of a process holds its leases under a name of its own, and a process with the
  worker role runs one leader for every chain it serves.
\<close>

theorem spawned_tasks_exact:
  "distinct (spawned_tasks prefix cf en) \<and> FlushUsage \<in> set (spawned_tasks prefix cf en) \<and>
   (ChainLeader name \<in> set (spawned_tasks prefix cf en) \<longleftrightarrow> has_role WorkerRole cf \<and> name \<in> fst ` set (en_chains en)) \<and>
   length (filter (\<lambda>t. \<exists>i. t = FillWorker i) (spawned_tasks prefix cf en)) = fill_workers cf"
  by (auto simp: spawned_tasks_def distinct_map inj_on_def worker_id_def chain_names_def collect_set_def filter_map comp_def dest: dec_inj)

definition demo_wiring :: wiring where
  "demo_wiring = \<lparr>wi_http = (\<lambda>_. Ok ()), wi_reach = (\<lambda>_ _. evm_of idle_env), wi_started = 0\<rparr>"


end
