(* ===== verification/Graphql.thy ===== *)
theory Graphql
  imports Api
begin

text \<open>
  The GraphQL route, \<open>crates/api/src/graphql.rs\<close>: the resolver of \<open>query\<close>, its result objects with block
  numbers as decimal texts, and its errors. Executing a GraphQL document is the library's work: the
  handler takes it as an argument that may call the resolver.
\<close>

section \<open>Result objects\<close>

datatype gql_value = GqlString string | GqlNumber int | GqlOther

datatype big_int = BigInt u64

fun big_int_parse :: "gql_value \<Rightarrow> big_int option" where
  "big_int_parse (GqlString s) = map_option BigInt (parse_uint u64_max s)"
| "big_int_parse (GqlNumber n) = (if 0 \<le> n \<and> n \<le> int u64_max then Some (BigInt (nat n)) else None)"
| "big_int_parse GqlOther = None"

fun big_int_to_value :: "big_int \<Rightarrow> gql_value" where
  "big_int_to_value (BigInt n) = GqlString (dec n)"

record gql_range =
  gr_start :: big_int
  gr_end :: big_int

record gql_anchor =
  ga_number :: big_int
  ga_hash :: string

record gql_segment =
  gs_start :: big_int
  gs_end :: big_int
  gs_source :: string
  gs_finality :: string
  gs_anchor :: "gql_anchor option"

record gql_page =
  gp_next_cursor :: "string option"

record query_result =
  qr_chain :: string
  qr_dataset :: string
  qr_requested :: gql_range
  qr_served :: "gql_range option"
  qr_next_start :: "big_int option"
  qr_incomplete_reason :: "string option"
  qr_incomplete_detail :: "string option"
  qr_segments :: "gql_segment list"
  qr_rows :: "json list"
  qr_page :: gql_page

text \<open>The wire names of the unit variants, as \<open>rename_all\<close> derives them.\<close>

fun source_name :: "segment_source \<Rightarrow> string" where
  "source_name Durable = ''durable''"
| "source_name Hot = ''hot''"

fun finality_name :: "finality \<Rightarrow> string" where
  "finality_name Unsafe = ''unsafe''"
| "finality_name Safe = ''safe''"
| "finality_name Finalized = ''finalized''"

definition gql_range_of :: "block_range \<Rightarrow> gql_range" where
  "gql_range_of r = \<lparr>gr_start = BigInt (br_start r), gr_end = BigInt (br_end r)\<rparr>"

definition gql_segment_of :: "segment \<Rightarrow> gql_segment" where
  "gql_segment_of sg =
     \<lparr>gs_start = BigInt (seg_start sg), gs_end = BigInt (seg_end sg), gs_source = source_name (seg_source sg),
      gs_finality = finality_name (seg_finality sg),
      gs_anchor = map_option (\<lambda>a. \<lparr>ga_number = BigInt (an_number a), ga_hash = ''0x'' @ hex_fixed 64 (unat (an_hash a))\<rparr>) (seg_anchor sg)\<rparr>"

definition query_result_of :: "json query_response \<Rightarrow> query_result" where
  "query_result_of rs =
     \<lparr>qr_chain = rs_chain rs, qr_dataset = dataset_as_str (rs_dataset rs), qr_requested = gql_range_of (rs_requested rs),
      qr_served = map_option gql_range_of (rs_served rs), qr_next_start = map_option BigInt (rs_next_start rs),
      qr_incomplete_reason = map_option incomplete_reason_as_str (rs_incomplete_reason rs), qr_incomplete_detail = rs_incomplete_detail rs,
      qr_segments = map gql_segment_of (rs_segments rs), qr_rows = rs_rows rs, qr_page = \<lparr>gp_next_cursor = pi_next_cursor (rs_page rs)\<rparr>\<rparr>"

section \<open>The resolver and the handler\<close>

record gql_error =
  ge_message :: string
  ge_kind :: string

definition gql_error_of :: "error \<Rightarrow> gql_error" where
  "gql_error_of e = \<lparr>ge_message = show_error e, ge_kind = error_kind e\<rparr>"

definition gql_query ::
  "api_env \<Rightarrow> ('i \<Rightarrow> (query_request, string) result) \<Rightarrow> tenant \<Rightarrow> 'i \<Rightarrow> api \<Rightarrow> (query_result, gql_error) result \<times> api" where
  "gql_query ev from_value tn input st =
     (case from_value input of
        Inl m \<Rightarrow> (Err (gql_error_of (InvalidInput m)), st)
      | Inr rq \<Rightarrow> (case run_query ev tn rq st of (r, st') \<Rightarrow> (map_err gql_error_of (map_ok query_result_of r), st')))"

text \<open>\<open>run_document\<close> runs a document with the resolver it is given.\<close>

definition gql_handle ::
  "api_env \<Rightarrow> ('i \<Rightarrow> (query_request, string) result) \<Rightarrow> (string \<Rightarrow> ('d, string) result) \<Rightarrow>
   (('i \<Rightarrow> api \<Rightarrow> (query_result, gql_error) result \<times> api) \<Rightarrow> 'd \<Rightarrow> api \<Rightarrow> 'o \<times> api) \<Rightarrow>
   headers \<Rightarrow> string \<Rightarrow> api \<Rightarrow> ('o, error) result \<times> api" where
  "gql_handle ev from_value parse_document run_document hs body st =
     (case authenticate (api_tenants st) hs of
        Inl e \<Rightarrow> (Err e, st)
      | Inr tn \<Rightarrow>
          (case parse_json parse_document body of
             Inl e \<Rightarrow> (Err e, st)
           | Inr d \<Rightarrow> (case run_document (gql_query ev from_value tn) d st of (o', st') \<Rightarrow> (Ok o', st'))))"

section \<open>GraphQL answers what REST answers\<close>

lemma source_name_inj: "source_name a = source_name b \<longleftrightarrow> a = b"
  by (cases a; cases b) auto

lemma finality_name_inj: "finality_name a = finality_name b \<longleftrightarrow> a = b"
  by (cases a; cases b) auto

lemma reason_name_inj: "incomplete_reason_as_str a = incomplete_reason_as_str b \<longleftrightarrow> a = b"
  by (cases a; cases b) auto

lemma hash_text_inj: "hex_fixed 64 (unat (a :: b256)) = hex_fixed 64 (unat b) \<longleftrightarrow> a = b"
proof -
  have bound: "unat w < 16 ^ 64" for w :: b256
  proof -
    have "unat w < 2 ^ LENGTH(256)" by (rule unsigned_less)
    then show ?thesis by simp
  qed
  show ?thesis using hex_fixed_inj [of "unat a" 64 "unat b"] bound [of a] bound [of b] by (auto simp: word_unat_eq_iff)
qed

lemma gql_range_of_inj: "gql_range_of a = gql_range_of b \<longleftrightarrow> a = b"
  by (cases a; cases b) (simp add: gql_range_of_def)

lemma gql_segment_of_inj: "inj gql_segment_of"
proof (rule injI)
  fix a b assume "gql_segment_of a = gql_segment_of b"
  then show "a = b"
    by (cases a; cases b; cases "seg_anchor a"; cases "seg_anchor b")
       (auto simp: gql_segment_of_def source_name_inj finality_name_inj hash_text_inj intro: anchor.equality)
qed

lemma page_info_inj: "pi_next_cursor (a :: page_info) = pi_next_cursor b \<longleftrightarrow> a = b"
  by (cases a; cases b) simp

lemmas result_injs = gql_range_of_inj inj_def reason_name_inj

lemma query_result_of_inj: "query_result_of a = query_result_of b \<Longrightarrow> a = b"
  using option.inj_map [of gql_range_of] option.inj_map [of BigInt] option.inj_map [of incomplete_reason_as_str]
    dataset_as_str_inj [of "rs_dataset a" "rs_dataset b"] inj_map_eq_map [OF gql_segment_of_inj]
  by (intro query_response.equality) (auto simp: query_result_of_def result_injs page_info_inj)

text \<open>
  A GraphQL \<open>query\<close> with the request of a REST call does what the REST call does: the same
  admission, the same effect on the server, an error of the same kind, and an answer
  from which the REST answer can be read back, block numbers included, since the text of a
  \<open>BigInt\<close> parses to its number.
\<close>

theorem graphql_answers_as_rest:
  assumes "authenticate (api_tenants st) hs = Ok tn" and "ae_query ev body = Ok rq" and "from_value input = Ok rq"
    and "rest_query ev hs body st = (r, st')"
  shows "gql_query ev from_value tn input st = (map_err gql_error_of (map_ok query_result_of r), st') \<and> inj query_result_of \<and>
    (\<forall>n\<le>u64_max. big_int_parse (big_int_to_value (BigInt n)) = Some (BigInt n))"
proof -
  have "run_query ev tn rq st = (r, st')" using assms by (simp add: rest_query_def parse_json_def map_err_def)
  then show ?thesis using assms(3) query_result_of_inj by (simp add: gql_query_def inj_def)
qed

theorem graphql_answers_as_rest_witness:
  "\<exists>r st'. rest_query api_demo_env api_demo_headers [] api_demo = (r, st') \<and>
     gql_query api_demo_env (\<lambda>_. Ok query_demo_request) (tenant_new 0 api_demo_app) () api_demo = (map_err gql_error_of (map_ok query_result_of r), st')"
proof -
  obtain r st' where run: "rest_query api_demo_env api_demo_headers [] api_demo = (r, st')" by force
  have body: "ae_query api_demo_env [] = Ok query_demo_request" by (simp add: api_demo_env_def)
  from graphql_answers_as_rest [where from_value = "\<lambda>_. Ok query_demo_request" and input = "()", OF api_demo_tenant body refl run] run show ?thesis by blast
qed

end
