(* ===== verification/Sdk_Cursor.thy ===== *)
theory Sdk_Cursor
  imports Complete
begin

text \<open>
  The client's cursors, \<open>sdks/rust/src/cursor.rs\<close>: a checkpoint that moves only over durable data, and
  the tracker of the hot tail that notices a reorganisation between two reads. The parser of a
  hash text is a parameter, as in the decoder of provider answers.
\<close>

type_synonym response = "json query_response"

section \<open>The durable checkpoint\<close>

record finalized_cursor =
  fc_next :: u64

definition finalized_new :: "u64 \<Rightarrow> finalized_cursor" where
  "finalized_new nxt = \<lparr>fc_next = nxt\<rparr>"

definition is_durable :: "segment \<Rightarrow> bool" where
  "is_durable sg = (seg_source sg = Durable \<and> Safe \<le> seg_finality sg)"

text \<open>\<open>segment.end + 1\<close> on 64 bits: the end comes from the wire and may be the largest value.\<close>

definition wrapping_succ :: "u64 \<Rightarrow> u64" where
  "wrapping_succ n = (n + 1) mod (u64_max + 1)"

fun advance_segments :: "u64 \<Rightarrow> segment list \<Rightarrow> u64" where
  "advance_segments nxt [] = nxt"
| "advance_segments nxt (sg # sgs) =
     (if \<not> is_durable sg \<or> nxt < seg_start sg then nxt
      else advance_segments (max nxt (wrapping_succ (seg_end sg))) sgs)"

definition finalized_advance :: "finalized_cursor \<Rightarrow> response \<Rightarrow> u64 \<times> finalized_cursor" where
  "finalized_advance fc resp =
     (let nxt = advance_segments (fc_next fc) (rs_segments resp) in (nxt, fc\<lparr>fc_next := nxt\<rparr>))"

section \<open>The hot tail\<close>

datatype observation = Consistent | Rollback u64

record seen =
  sn_hash :: b256
  sn_rows :: bool

record provisional_cursor =
  pc_settled :: u64
  pc_next :: u64
  pc_seen :: "(u64, seen) btree_map"

definition provisional_new :: "u64 \<Rightarrow> provisional_cursor" where
  "provisional_new start = \<lparr>pc_settled = start, pc_next = start, pc_seen = []\<rparr>"

definition in_hot :: "response \<Rightarrow> u64 \<Rightarrow> bool" where
  "in_hot resp n = list_ex (\<lambda>sg. seg_source sg = Hot \<and> seg_start sg \<le> n \<and> n \<le> seg_end sg) (rs_segments resp)"

fun json_as_u64 :: "json \<Rightarrow> u64 option" where
  "json_as_u64 (JInt i) = (if 0 \<le> i \<and> i \<le> int u64_max then Some (nat i) else None)"
| "json_as_u64 _ = None"

definition row_block :: "hex_codec \<Rightarrow> json \<Rightarrow> (u64 \<times> b256) option" where
  "row_block hx row =
     (case (case json_get row ''block_number'' of
              Some number \<Rightarrow> map_option (Pair number) (json_get row ''block_hash'')
            | None \<Rightarrow> (case json_get row ''number'' of None \<Rightarrow> None | Some number \<Rightarrow> map_option (Pair number) (json_get row ''hash''))) of
        None \<Rightarrow> None
      | Some (number, hash) \<Rightarrow>
          (case (json_as_u64 number, json_as_str hash) of
             (Some n, Some text) \<Rightarrow> map_option (Pair n) (hx_b256 hx text)
           | _ \<Rightarrow> None))"

text \<open>Anchors first, then the rows inside hot segments, a later entry replacing an earlier one.\<close>

definition hot_anchors :: "response \<Rightarrow> anchor list" where
  "hot_anchors resp = List.map_filter seg_anchor (filter (\<lambda>sg. seg_source sg = Hot) (rs_segments resp))"

definition hot_hashes :: "hex_codec \<Rightarrow> response \<Rightarrow> (u64, seen) btree_map" where
  "hot_hashes hx resp =
     fold (\<lambda>(n, k) m. if in_hot resp n then btree_insert n \<lparr>sn_hash = k, sn_rows = True\<rparr> m else m) (List.map_filter (row_block hx) (rs_rows resp))
       (fold (\<lambda>a. btree_insert (an_number a) \<lparr>sn_hash = an_hash a, sn_rows = False\<rparr>) (hot_anchors resp) [])"

definition block_hashes :: "hex_codec \<Rightarrow> response \<Rightarrow> (u64, b256) btree_map" where
  "block_hashes hx resp =
     fold (\<lambda>(n, k). btree_insert n k) (List.map_filter (row_block hx) (rs_rows resp))
       (fold (\<lambda>a. btree_insert (an_number a) (an_hash a)) (List.map_filter seg_anchor (rs_segments resp)) [])"

definition same_hash :: "(u64, seen) btree_map \<Rightarrow> u64 \<times> seen \<Rightarrow> bool option" where
  "same_hash known e = map_option (\<lambda>old. sn_hash old = sn_hash (snd e)) (map_of known (fst e))"

definition changed_blocks :: "provisional_cursor \<Rightarrow> (u64, seen) btree_map \<Rightarrow> u64 list" where
  "changed_blocks pc hashes = map fst (filter (\<lambda>e. same_hash (pc_seen pc) e = Some False) hashes)"

definition vanished_blocks :: "provisional_cursor \<Rightarrow> response \<Rightarrow> (u64, seen) btree_map \<Rightarrow> u64 list" where
  "vanished_blocks pc resp hashes =
     map fst (filter (\<lambda>(n, old). pi_next_cursor (rs_page resp) = None \<and> sn_rows old \<and> in_hot resp n \<and>
       \<not> (case map_of hashes n of None \<Rightarrow> False | Some new \<Rightarrow> sn_rows new)) (pc_seen pc))"

definition fork_point :: "provisional_cursor \<Rightarrow> response \<Rightarrow> (u64, seen) btree_map \<Rightarrow> u64 option" where
  "fork_point pc resp hashes =
     (case list_min (changed_blocks pc hashes @ vanished_blocks pc resp hashes) of
        None \<Rightarrow> None
      | Some mismatch \<Rightarrow>
          let matched = map_option (\<lambda>(n, _). n + 1)
                (find (\<lambda>e. same_hash (pc_seen pc) e = Some True) (rev (filter (\<lambda>(n, _). n < mismatch) hashes)))
          in Some (max (case matched of None \<Rightarrow> pc_settled pc | Some m \<Rightarrow> m) (pc_settled pc)))"

definition merge_seen :: "u64 \<times> seen \<Rightarrow> (u64, seen) btree_map \<Rightarrow> (u64, seen) btree_map" where
  "merge_seen e m =
     (let entry = (case map_of m (fst e) of None \<Rightarrow> snd e | Some old \<Rightarrow> old)
      in btree_insert (fst e) (entry\<lparr>sn_rows := (sn_rows entry \<or> sn_rows (snd e))\<rparr>) m)"

definition settled_floor :: "response \<Rightarrow> u64" where
  "settled_floor resp =
     (let start = br_start (rs_requested resp);
          floor = fst (finalized_advance (finalized_new start) resp)
      in if floor = start
         then (case find (\<lambda>sg. seg_source sg = Hot) (rs_segments resp) of None \<Rightarrow> floor | Some sg \<Rightarrow> max floor (seg_start sg))
         else floor)"

definition observe :: "hex_codec \<Rightarrow> provisional_cursor \<Rightarrow> response \<Rightarrow> observation \<times> provisional_cursor" where
  "observe hx pc resp =
     (let hashes = hot_hashes hx resp in
      case fork_point pc resp hashes of
        Some from \<Rightarrow> (Rollback from, pc\<lparr>pc_seen := filter (\<lambda>(n, _). n < from) (pc_seen pc), pc_next := from\<rparr>)
      | None \<Rightarrow>
          let pc1 = pc\<lparr>pc_seen := fold merge_seen hashes (pc_seen pc),
                       pc_next := (case rs_served resp of None \<Rightarrow> pc_next pc | Some v \<Rightarrow> max (pc_next pc) (br_end v + 1))\<rparr>;
              floor = settled_floor resp
          in (Consistent,
              if pc_settled pc < floor \<and> br_start (rs_requested resp) \<le> pc_settled pc
              then pc1\<lparr>pc_settled := floor, pc_seen := filter (\<lambda>(n, _). floor \<le> n) (pc_seen pc1)\<rparr> else pc1))"

section \<open>The checkpoint moves over durable blocks only\<close>

lemma wrapping_succ_le: "b < wrapping_succ n \<Longrightarrow> b \<le> n"
  by (simp add: wrapping_succ_def) (metis less_Suc_eq_le mod_less_eq_dividend order_less_le_trans)

lemma advance_segments_durable:
  "nxt \<le> advance_segments nxt sgs \<and>
   (\<forall>b. nxt \<le> b \<and> b < advance_segments nxt sgs \<longrightarrow> (\<exists>sg\<in>set sgs. is_durable sg \<and> seg_start sg \<le> b \<and> b \<le> seg_end sg))"
proof (induction nxt sgs rule: advance_segments.induct)
  case (2 nxt sg sgs)
  show ?case
  proof (cases "\<not> is_durable sg \<or> nxt < seg_start sg")
    case False
    let ?to = "max nxt (wrapping_succ (seg_end sg))"
    have "\<exists>g\<in>set (sg # sgs). is_durable g \<and> seg_start g \<le> b \<and> b \<le> seg_end g"
      if "nxt \<le> b" "b < advance_segments ?to sgs" for b
    proof (cases "b < ?to")
      case True
      then show ?thesis using False that wrapping_succ_le [of b "seg_end sg"] by (auto simp: max_def split: if_splits)
    next
      case False
      then show ?thesis using 2 that \<open>\<not> (\<not> is_durable sg \<or> nxt < seg_start sg)\<close> by (meson list.set_intros(2) not_less)
    qed
    then show ?thesis using 2 False by (auto simp: max_def split: if_splits)
  qed auto
qed simp

text \<open>Over the tiled segments of an answer the checkpoint takes every block up to the safe head.\<close>

lemma tiles_bound: "tiles lo sgs hi \<Longrightarrow> lo \<le> hi + 1"
  by (induction lo sgs hi rule: tiles.induct) auto

lemma advance_tiles:
  assumes "tiles lo sgs hi" and "\<forall>g\<in>set sgs. segment_right h g" and "lo \<le> nxt" and "hi \<le> MAX_END"
  shows "advance_segments nxt sgs = max nxt (if lo \<le> safe h then min hi (safe h) + 1 else nxt)"
  using assms
proof (induction sgs arbitrary: lo nxt)
  case (Cons sg sgs)
  from Cons.prems have sg: "seg_start sg = lo" "lo \<le> seg_end sg" "tiles (seg_end sg + 1) sgs hi" "segment_right h sg" by auto
  have end_le: "seg_end sg \<le> hi" using tiles_bound [OF sg(3)] by simp
  show ?case
  proof (cases "seg_source sg")
    case Durable
    then have "is_durable sg" "seg_end sg \<le> safe h" using sg(4) by (auto simp: segment_right_def is_durable_def)
    moreover have "wrapping_succ (seg_end sg) = seg_end sg + 1"
      using end_le Cons.prems(4) by (simp add: wrapping_succ_def MAX_END_value u64_max_def)
    moreover have "seg_end sg + 1 \<le> max nxt (seg_end sg + 1)" by simp
    note Cons.IH [OF sg(3) _ this Cons.prems(4)]
    ultimately show ?thesis using sg(1,2) end_le Cons.prems by (auto simp: max_def min_def)
  next
    case Hot
    then show ?thesis using sg by (auto simp: segment_right_def is_durable_def)
  qed
qed (auto simp: max_def min_def)

text \<open>
  The checkpoint over the server's answers. It never moves back; every block it moves over is
  served, at or below the safe head the answer was computed on, and in a durable segment; and
  when the served part starts at or below the checkpoint, it moves over all of the served
  durable part.
\<close>

theorem checkpoint_follows_safe_head:
  assumes "query sha256 sd w today cl rq s = (Ok resp, s')" and "range_ok (rq_range rq)" and run: "finalized_advance fc resp = (nxt, fc')"
  shows "\<exists>h::heads. nxt = fc_next fc' \<and> fc_next fc \<le> nxt \<and>
    (\<forall>b. fc_next fc \<le> b \<and> b < nxt \<longrightarrow> b \<le> safe h \<and> (\<exists>sg\<in>set (rs_segments resp). is_durable sg \<and> seg_start sg \<le> b \<and> b \<le> seg_end sg)) \<and>
    (\<forall>v. rs_served resp = Some v \<and> br_start v \<le> fc_next fc \<and> br_start v \<le> safe h \<longrightarrow> nxt = max (fc_next fc) (min (br_end v) (safe h) + 1))"
proof -
  obtain h where h: "answer_shape rq h resp"
    using query_answers [OF assms(1,2)] by (elim exE conjE) (rule that)
  have nxt: "nxt = advance_segments (fc_next fc) (rs_segments resp)" "nxt = fc_next fc'"
    using run by (auto simp: finalized_advance_def Let_def)
  have "b \<le> safe h" if "sg \<in> set (rs_segments resp)" "is_durable sg" "b \<le> seg_end sg" for b sg
    using that h by (auto simp: answer_shape_def is_durable_def segment_right_def Let_def split: segment_source.splits)
  moreover have "nxt = max (fc_next fc) (min (br_end v) (safe h) + 1)"
    if v: "rs_served resp = Some v" "br_start v \<le> fc_next fc" "br_start v \<le> safe h" for v
  proof -
    have "tiles (br_start v) (rs_segments resp) (br_end v)" "\<forall>g\<in>set (rs_segments resp). segment_right h g" "br_end v \<le> MAX_END"
      using h v(1) by (auto simp: answer_shape_def Let_def range_ok_def)
    from advance_tiles [OF this(1,2) v(2) this(3)] show ?thesis using v(3) nxt(1) by simp
  qed
  ultimately show ?thesis
    using advance_segments_durable [of "fc_next fc" "rs_segments resp", folded nxt(1)] nxt(2) by - (rule exI [of _ h], blast)
qed

theorem checkpoint_follows_safe_head_witness:
  "\<exists>resp s' nxt fc'. query (\<lambda>_. []) query_demo_serde quiet 0 \<lparr>cl_application = ''app'', cl_max_subscriptions = None\<rparr> complete_demo_request
       (demo_at (engine_new [demo_chain] engine_settings_default) 0 0) = (Ok resp, s') \<and>
     finalized_advance \<lparr>fc_next = 0\<rparr> resp = (nxt, fc') \<and> (\<exists>h::heads. nxt = min 9 (safe h) + 1)"
proof -
  obtain resp s' where run: "query (\<lambda>_. []) query_demo_serde quiet 0 \<lparr>cl_application = ''app'', cl_max_subscriptions = None\<rparr> complete_demo_request
       (demo_at (engine_new [demo_chain] engine_settings_default) 0 0) = (Ok resp, s')" and served: "rs_served resp = Some (rng 0 9)"
    using complete_demo_answer by blast
  have ok: "range_ok (rq_range complete_demo_request)" by (simp add: complete_demo_request_def MAX_END_value)
  obtain nxt fc' where adv: "finalized_advance \<lparr>fc_next = 0\<rparr> resp = (nxt, fc')" by force
  then show ?thesis using checkpoint_follows_safe_head [OF run ok adv] run served by fastforce
qed

section \<open>A rollback reaches the fork\<close>

lemma same_hash_Some:
  assumes "\<forall>(n, e)\<in>set known. sn_hash e = A n" and "same_hash known e = Some v"
  shows "v \<longleftrightarrow> A (fst e) = sn_hash (snd e)"
  using assms by (fastforce simp: same_hash_def dest: map_of_SomeD)

lemma fork_point_bounds:
  assumes fork: "\<forall>n\<ge>f. A n \<noteq> B n"
    and seen: "\<forall>(n, e)\<in>set (pc_seen pc). sn_hash e = A n" and new: "\<forall>(n, e)\<in>set hashes. sn_hash e = B n"
    and fp: "fork_point pc resp hashes = Some from"
  shows "pc_settled pc \<le> from \<and> from \<le> max f (pc_settled pc)"
proof -
  obtain m where m: "list_min (changed_blocks pc hashes @ vanished_blocks pc resp hashes) = Some m"
    using fp by (auto simp: fork_point_def split: option.splits)
  let ?matched = "find (\<lambda>e. same_hash (pc_seen pc) e = Some True) (rev (filter (\<lambda>(n, _). n < m) hashes))"
  have eq: "from = max (case ?matched of None \<Rightarrow> pc_settled pc | Some e \<Rightarrow> fst e + 1) (pc_settled pc)"
    using fp m by (auto simp: fork_point_def Let_def split: option.splits)
  have "fst e < f" if "?matched = Some e" for e
  proof -
    from find_Some_in [OF that] have "e \<in> set hashes" "same_hash (pc_seen pc) e = Some True" by auto
    with same_hash_Some [OF seen] new have "A (fst e) = B (fst e)" by fastforce
    then show ?thesis using fork not_le by blast
  qed
  then show ?thesis by (auto simp: eq split: option.splits)
qed

lemma no_fork_agrees:
  assumes "fork_point pc resp hashes = None" and "(n, e) \<in> set hashes" and "map_of (pc_seen pc) n = Some old"
  shows "sn_hash old = sn_hash e"
proof -
  have "changed_blocks pc hashes = []" using assms(1) by (simp add: fork_point_def Let_def split: option.splits)
  then have "same_hash (pc_seen pc) (n, e) \<noteq> Some False" using assms(2) by (auto simp: changed_blocks_def filter_empty_conv)
  then show ?thesis using assms(3) by (simp add: same_hash_def)
qed

lemma no_fork_rows:
  assumes "fork_point pc resp hashes = None" and "(n, old) \<in> set (pc_seen pc)" and "sn_rows old" and "in_hot resp n"
    and "pi_next_cursor (rs_page resp) = None"
  shows "\<exists>new. map_of hashes n = Some new \<and> sn_rows new"
proof -
  have "vanished_blocks pc resp hashes = []" using assms(1) by (simp add: fork_point_def Let_def split: option.splits)
  then show ?thesis using assms(2-5) by (fastforce simp: vanished_blocks_def filter_empty_conv split: option.splits)
qed

text \<open>
  C12. The tail tracker rolls back far enough. Let the blocks remembered so far be of a chain \<open>A\<close> and
  the hot blocks of a new answer of a chain \<open>B\<close> that leaves \<open>A\<close> at height \<open>f\<close>. When the tracker reports a
  rollback from a block, that block is not below what is settled and not above the fork (or what
  is settled, if that is higher), it forgets exactly the heights from there on, and every
  unsettled block it keeps is the same on both chains. When it reports no rollback, no height it
  remembered is named by the answer at or above the fork, and on a complete page every remembered
  row inside a hot segment is still there.
\<close>

theorem observe_rolls_back_to_fork:
  assumes fork: "\<forall>n<f. A n = B n" "\<forall>n\<ge>f. A n \<noteq> B n"
    and seen: "\<forall>(n, e)\<in>set (pc_seen pc). sn_hash e = A n" and new: "\<forall>(n, e)\<in>set (hot_hashes hx resp). sn_hash e = B n"
    and run: "observe hx pc resp = (ob, pc')"
  shows "case ob of
      Rollback from \<Rightarrow> pc_settled pc \<le> from \<and> from \<le> max f (pc_settled pc) \<and> pc_next pc' = from \<and> pc_settled pc' = pc_settled pc \<and>
        pc_seen pc' = filter (\<lambda>(n, _). n < from) (pc_seen pc) \<and> (\<forall>n. pc_settled pc \<le> n \<and> n < from \<longrightarrow> A n = B n)
    | Consistent \<Rightarrow> pc_settled pc \<le> pc_settled pc' \<and> pc_next pc \<le> pc_next pc' \<and>
        (\<forall>n. n \<in> fst ` set (pc_seen pc) \<and> n \<in> fst ` set (hot_hashes hx resp) \<longrightarrow> n < f) \<and>
        (pi_next_cursor (rs_page resp) = None \<longrightarrow> (\<forall>(n, old)\<in>set (pc_seen pc). sn_rows old \<and> in_hot resp n \<longrightarrow>
           (\<exists>e. map_of (hot_hashes hx resp) n = Some e \<and> sn_rows e)))"
proof (cases "fork_point pc resp (hot_hashes hx resp)")
  case (Some frm)
  then have "ob = Rollback frm" "pc' = pc\<lparr>pc_seen := filter (\<lambda>(n, _). n < frm) (pc_seen pc), pc_next := frm\<rparr>"
    using run by (auto simp: observe_def Let_def)
  then show ?thesis using fork_point_bounds [OF fork(2) seen new Some] fork(1) by auto
next
  case None
  have "n < f" if known: "n \<in> fst ` set (pc_seen pc)" and named: "(n, e) \<in> set (hot_hashes hx resp)" for n e
  proof -
    obtain old where old: "map_of (pc_seen pc) n = Some old" using known map_of_eq_None_iff [of "pc_seen pc" n] by (cases "map_of (pc_seen pc) n") simp_all
    then have "(n, old) \<in> set (pc_seen pc)" by (rule map_of_SomeD)
    then have "sn_hash old = A n" using seen by blast
    moreover have "sn_hash e = B n" using new named by blast
    ultimately have "A n = B n" using no_fork_agrees [OF None named old] by simp
    then show ?thesis using fork(2) not_le by blast
  qed
  moreover have "ob = Consistent" "pc_settled pc \<le> pc_settled pc'" "pc_next pc \<le> pc_next pc'"
    using run None by (auto simp: observe_def Let_def split: option.splits if_splits)
  ultimately show ?thesis using no_fork_rows [OF None] by (simp add: case_prod_unfold) (metis (no_types, lifting) imageE prod.collapse)
qed

definition cursor_demo_old :: "nat \<Rightarrow> b256" where "cursor_demo_old n = of_nat n"

definition cursor_demo_new :: "nat \<Rightarrow> b256" where "cursor_demo_new n = (if n < 11 then of_nat n else of_nat n + 1000)"

definition cursor_demo_response :: response where
  "cursor_demo_response = \<lparr>rs_chain = ''dev'', rs_dataset = EvmLogs, rs_requested = rng 6 12, rs_served = Some (rng 6 12), rs_next_start = None,
     rs_incomplete_reason = None, rs_incomplete_detail = None,
     rs_segments = [\<lparr>seg_start = 6, seg_end = 10, seg_source = Hot, seg_finality = Unsafe, seg_anchor = Some \<lparr>an_number = 10, an_hash = 10\<rparr>\<rparr>,
       \<lparr>seg_start = 11, seg_end = 12, seg_source = Hot, seg_finality = Unsafe, seg_anchor = Some \<lparr>an_number = 12, an_hash = 1012\<rparr>\<rparr>],
     rs_rows = [], rs_page = \<lparr>pi_next_cursor = None\<rparr>\<rparr>"

definition cursor_demo :: provisional_cursor where
  "cursor_demo = \<lparr>pc_settled = 6, pc_next = 13, pc_seen = [(10, \<lparr>sn_hash = 10, sn_rows = True\<rparr>), (12, \<lparr>sn_hash = 12, sn_rows = False\<rparr>)]\<rparr>"

lemma cursor_demo_hashes:
  "hot_hashes demo_hex cursor_demo_response = [(10, \<lparr>sn_hash = 10, sn_rows = False\<rparr>), (12, \<lparr>sn_hash = 1012, sn_rows = False\<rparr>)]"
  by (simp add: hot_hashes_def hot_anchors_def cursor_demo_response_def map_filter_simps)

lemma cursor_demo_run: "fst (observe demo_hex cursor_demo cursor_demo_response) = Rollback 6"
  by (simp add: observe_def cursor_demo_hashes)
     (simp add: fork_point_def changed_blocks_def vanished_blocks_def same_hash_def cursor_demo_def cursor_demo_response_def in_hot_def list_min_def)

theorem observe_rolls_back_to_fork_witness:
  "\<exists>pc'. observe demo_hex cursor_demo cursor_demo_response = (Rollback 6, pc') \<and> 6 \<le> max 11 (pc_settled cursor_demo) \<and> pc_seen pc' = []"
proof -
  obtain pc' where run: "observe demo_hex cursor_demo cursor_demo_response = (Rollback 6, pc')"
    using cursor_demo_run by (cases "observe demo_hex cursor_demo cursor_demo_response") simp
  have fork: "\<forall>n<11. cursor_demo_old n = cursor_demo_new n" "\<forall>n\<ge>11. cursor_demo_old n \<noteq> cursor_demo_new n"
    by (simp_all add: cursor_demo_old_def cursor_demo_new_def)
  have told: "\<forall>(n, e)\<in>set (pc_seen cursor_demo). sn_hash e = cursor_demo_old n"
    "\<forall>(n, e)\<in>set (hot_hashes demo_hex cursor_demo_response). sn_hash e = cursor_demo_new n"
    by (simp_all add: cursor_demo_hashes) (simp_all add: cursor_demo_def cursor_demo_old_def cursor_demo_new_def)
  show ?thesis using observe_rolls_back_to_fork [OF fork told run] run by (simp add: cursor_demo_def)
qed

section \<open>What is settled is durable\<close>

lemma settled_floor_bound:
  assumes "answer_shape rq h resp"
  shows "settled_floor resp \<le> max (br_start (rq_range rq)) (safe h + 1)"
proof (cases "rs_served resp")
  case None
  then show ?thesis using assms by (simp add: settled_floor_def finalized_advance_def finalized_new_def answer_shape_def Let_def)
next
  case (Some v)
  let ?lo = "first_block (rq_finality rq) (rq_range rq) h" and ?start = "br_start (rq_range rq)"
  from assms Some have shape: "tiles ?lo (rs_segments resp) (br_end v)" "\<forall>g\<in>set (rs_segments resp). segment_right h g" "br_end v \<le> MAX_END"
    "?start \<le> ?lo" "rs_requested resp = rq_range rq" "?lo = ?start \<or> ?lo = safe h + 1"
    by (auto simp: answer_shape_def range_ok_def first_block_def Let_def)
  show ?thesis
  proof (cases "?lo = ?start")
    case True
    then have floor: "advance_segments ?start (rs_segments resp) = max ?start (if ?start \<le> safe h then min (br_end v) (safe h) + 1 else ?start)"
      using advance_tiles [OF shape(1,2) _ shape(3), of ?start] by simp
    show ?thesis
    proof (cases "rs_segments resp")
      case (Cons g gs)
      then have g: "seg_start g = ?start" "?start \<le> seg_end g" "segment_right h g" "seg_end g \<le> br_end v"
        using shape(1,2) True tiles_bound [of "seg_end g + 1" gs "br_end v"] by auto
      then show ?thesis using floor Cons shape(5)
        by (cases "seg_source g") (auto simp: settled_floor_def finalized_advance_def finalized_new_def segment_right_def max_def min_def Let_def split: if_splits)
    qed (use floor shape(5) in \<open>simp add: settled_floor_def finalized_advance_def finalized_new_def Let_def\<close>)
  next
    case False
    then have lo: "?lo = safe h + 1" "?start < ?lo" using shape(4,6) by auto
    have "advance_segments ?start (rs_segments resp) = ?start" using shape(1) lo(2) by (cases "rs_segments resp") auto
    moreover have "case rs_segments resp of [] \<Rightarrow> True | g # _ \<Rightarrow> seg_source g = Hot \<and> seg_start g = ?lo"
    proof (cases "rs_segments resp")
      case (Cons g gs)
      then show ?thesis using shape(1,2) lo(1) by (cases "seg_source g") (auto simp: segment_right_def)
    qed simp
    ultimately show ?thesis using lo shape(5)
      by (auto simp: settled_floor_def finalized_advance_def finalized_new_def Let_def split: list.splits)
  qed
qed

theorem settled_stays_below_safe:
  assumes "answer_shape rq h resp" and "observe hx pc resp = (ob, pc')" and "pc_settled pc \<le> b" and "b < pc_settled pc'"
  shows "b \<le> safe h"
proof -
  have "pc_settled pc' = settled_floor resp" "br_start (rs_requested resp) \<le> pc_settled pc"
    using assms(2-4) by (auto simp: observe_def Let_def split: option.splits if_splits)
  moreover have "rs_requested resp = rq_range rq" using assms(1) by (simp add: answer_shape_def Let_def)
  ultimately show ?thesis using settled_floor_bound [OF assms(1)] assms(3,4) by auto
qed

end
