(* ===== verification/Sdk_Client.thy ===== *)
theory Sdk_Client
  imports Sdk_Cursor
begin

text \<open>
  The client library, \<open>sdks/rust/src/client.rs\<close> and \<open>error.rs\<close>: requests with their retries, and the
  reading of every page of a query. The HTTP library, the JSON codec and the random jitter of a
  delay are parameters in the client record; the \<open>n\<close>-th request sent is answered by entry \<open>n\<close> of
  the transport.
\<close>

section \<open>Errors\<close>

datatype api_error_kind =
  KUnauthorized | KForbidden | KInvalidInput | KQuotaExceeded | KUnsupported | KInternal | KOther string

definition kind_parse :: "string \<Rightarrow> api_error_kind" where
  "kind_parse k =
     (if k = ''unauthorized'' then KUnauthorized else if k = ''forbidden'' then KForbidden
      else if k = ''invalid_input'' then KInvalidInput else if k = ''quota_exceeded'' then KQuotaExceeded
      else if k = ''unsupported'' then KUnsupported else if k = ''internal'' then KInternal else KOther k)"

fun kind_as_str :: "api_error_kind \<Rightarrow> string" where
  "kind_as_str KUnauthorized = ''unauthorized''"
| "kind_as_str KForbidden = ''forbidden''"
| "kind_as_str KInvalidInput = ''invalid_input''"
| "kind_as_str KQuotaExceeded = ''quota_exceeded''"
| "kind_as_str KUnsupported = ''unsupported''"
| "kind_as_str KInternal = ''internal''"
| "kind_as_str (KOther k) = k"

text \<open>What the library asks of a failed transfer.\<close>

record http_failure =
  hf_builder :: bool
  hf_redirect :: bool
  hf_status :: "nat option"

datatype sdk_error =
    SdkApi (api_kind: api_error_kind) (api_message: string) (api_status: nat) (api_retry_after: "nat option")
  | SdkHttp http_failure
  | SdkDecode string
  | SdkInconsistent string

fun is_retryable :: "sdk_error \<Rightarrow> bool" where
  "is_retryable (SdkApi _ _ status _) = (status = 429 \<or> 500 \<le> status)"
| "is_retryable (SdkHttp f) = (\<not> hf_builder f \<and> \<not> hf_redirect f)"
| "is_retryable (SdkDecode _) = False"
| "is_retryable (SdkInconsistent _) = True"

fun sdk_retry_after :: "sdk_error \<Rightarrow> nat option" where
  "sdk_retry_after (SdkApi _ _ _ after) = after"
| "sdk_retry_after _ = None"

fun sdk_kind :: "sdk_error \<Rightarrow> api_error_kind option" where
  "sdk_kind (SdkApi k _ _ _) = Some k"
| "sdk_kind _ = None"

fun sdk_status :: "sdk_error \<Rightarrow> nat option" where
  "sdk_status (SdkApi _ _ status _) = Some status"
| "sdk_status (SdkHttp f) = hf_status f"
| "sdk_status _ = None"

section \<open>Configuration\<close>

record retry_config =
  rc_max_attempts :: u32
  rc_initial_backoff :: nat
  rc_max_backoff :: nat

definition retry_config_default :: retry_config where
  "retry_config_default = \<lparr>rc_max_attempts = 4, rc_initial_backoff = 250, rc_max_backoff = 10000\<rparr>"

text \<open>The delay in milliseconds before the jitter scales it.\<close>

definition doubled_delay :: "retry_config \<Rightarrow> u32 \<Rightarrow> nat" where
  "doubled_delay rc failures = min (rc_initial_backoff rc * 2 ^ min (failures - 1) 20) (rc_max_backoff rc)"

record http_call =
  hc_method :: string
  hc_url :: string
  hc_application :: string
  hc_token :: string
  hc_params :: "(string \<times> string) list"
  hc_body :: "string option"
  hc_timeout :: nat

record http_reply =
  rp_status :: nat
  rp_retry_after :: "string option"
  rp_text :: "(string, http_failure) result"

record json_codec =
  jc_query :: "query_request \<Rightarrow> string"
  jc_watch :: "watch_request \<Rightarrow> string"
  jc_resume :: "chain_name \<Rightarrow> string"
  jc_response :: "string \<Rightarrow> (response, string) result"
  jc_heads :: "string \<Rightarrow> (chain_heads, string) result"
  jc_all_heads :: "string \<Rightarrow> (chain_heads list, string) result"
  jc_watched :: "string \<Rightarrow> (watch_response, string) result"
  jc_resumed :: "string \<Rightarrow> (follow_resume_response, string) result"
  jc_error :: "string \<Rightarrow> error_info option"

record client_config =
  cc_endpoint :: string
  cc_application :: string
  cc_token :: string
  cc_timeout :: nat
  cc_retry :: retry_config

definition client_config_new :: "string \<Rightarrow> string \<Rightarrow> string \<Rightarrow> client_config" where
  "client_config_new endpoint app token =
     \<lparr>cc_endpoint = endpoint, cc_application = app, cc_token = token, cc_timeout = 30000, cc_retry = retry_config_default\<rparr>"

record client =
  ct_endpoint :: string
  ct_application :: string
  ct_token :: string
  ct_timeout :: nat
  ct_retry :: retry_config
  ct_send :: "nat \<Rightarrow> http_call \<Rightarrow> (http_reply, http_failure) result"
  ct_json :: json_codec
  ct_hex :: hex_codec
  ct_jitter :: "nat \<Rightarrow> nat \<Rightarrow> nat"

definition trim_end_slashes :: "string \<Rightarrow> string" where
  "trim_end_slashes s = rev (dropWhile (\<lambda>c. c = CHR ''/'') (rev s))"

definition client_new ::
  "client_config \<Rightarrow> (nat \<Rightarrow> http_call \<Rightarrow> (http_reply, http_failure) result) \<Rightarrow> json_codec \<Rightarrow> hex_codec \<Rightarrow> (nat \<Rightarrow> nat \<Rightarrow> nat) \<Rightarrow> client" where
  "client_new cfg send jc hx jit =
     \<lparr>ct_endpoint = trim_end_slashes (cc_endpoint cfg), ct_application = cc_application cfg, ct_token = cc_token cfg, ct_timeout = cc_timeout cfg,
      ct_retry = cc_retry cfg, ct_send = send, ct_json = jc, ct_hex = hx, ct_jitter = jit\<rparr>"

definition client_backoff :: "client \<Rightarrow> u32 \<Rightarrow> nat \<Rightarrow> nat" where
  "client_backoff ct failures t = ct_jitter ct t (doubled_delay (ct_retry ct) failures)"

fun sdk_head_kind_as_str :: "head_kind \<Rightarrow> string" where
  "sdk_head_kind_as_str HkLatest = ''latest''"
| "sdk_head_kind_as_str HkSafe = ''safe''"
| "sdk_head_kind_as_str HkFinalized = ''finalized''"

fun head_of :: "head_kind \<Rightarrow> chain_heads \<Rightarrow> u64" where
  "head_of HkLatest h = ch_latest h"
| "head_of HkSafe h = ch_safe h"
| "head_of HkFinalized h = ch_finalized h"

section \<open>One request\<close>

definition authed :: "client \<Rightarrow> string \<Rightarrow> string \<Rightarrow> http_call" where
  "authed ct verb path =
     \<lparr>hc_method = verb, hc_url = ct_endpoint ct @ path, hc_application = ct_application ct, hc_token = ct_token ct, hc_params = [],
      hc_body = None, hc_timeout = ct_timeout ct\<rparr>"

definition http_get :: "client \<Rightarrow> string \<Rightarrow> http_call" where
  "http_get ct path = authed ct ''GET'' path"

definition http_post :: "client \<Rightarrow> string \<Rightarrow> string \<Rightarrow> http_call" where
  "http_post ct path body = (authed ct ''POST'' path)\<lparr>hc_body := Some body\<rparr>"

definition reply_retry_after :: "http_reply \<Rightarrow> nat option" where
  "reply_retry_after rp =
     (case rp_retry_after rp of None \<Rightarrow> None | Some v \<Rightarrow> map_option (\<lambda>secs. secs * 1000) (parse_uint u64_max (trim v)))"

definition checked :: "json_codec \<Rightarrow> http_reply \<Rightarrow> (string, sdk_error) result" where
  "checked jc rp =
     (case rp_text rp of
        Inl f \<Rightarrow> Err (SdkHttp f)
      | Inr text \<Rightarrow>
          if 200 \<le> rp_status rp \<and> rp_status rp < 300 then Ok text
          else (case jc_error jc text of
                  Some body \<Rightarrow> Err (SdkApi (kind_parse (ei_kind body)) (ei_message body) (rp_status rp) (reply_retry_after rp))
                | None \<Rightarrow> Err (SdkApi (KOther ''http'') text (rp_status rp) (reply_retry_after rp))))"

definition send_once :: "client \<Rightarrow> http_call \<Rightarrow> nat \<Rightarrow> (string, sdk_error) result" where
  "send_once ct hc t = (case ct_send ct t hc of Inl f \<Rightarrow> Err (SdkHttp f) | Inr rp \<Rightarrow> checked (ct_json ct) rp)"

text \<open>The delay before the next try takes time only; a request is counted when it is sent.\<close>

function call_text_loop :: "client \<Rightarrow> http_call \<Rightarrow> u32 \<Rightarrow> nat \<Rightarrow> (string, sdk_error) result \<times> nat" where
  "call_text_loop ct hc failures t =
     (case send_once ct hc t of
        Inr text \<Rightarrow> (Ok text, t + 1)
      | Inl e \<Rightarrow>
          if \<not> is_retryable e \<or> rc_max_attempts (ct_retry ct) \<le> failures + 1 then (Err e, t + 1)
          else call_text_loop ct hc (failures + 1) (t + 1))"
  by pat_completeness auto

termination
  by (relation "measure (\<lambda>(ct, hc, failures, t). rc_max_attempts (ct_retry ct) - failures)") auto

declare call_text_loop.simps [simp del]

definition call_text :: "client \<Rightarrow> http_call \<Rightarrow> nat \<Rightarrow> (string, sdk_error) result \<times> nat" where
  "call_text ct hc t = call_text_loop ct hc 0 t"

definition sdk_call :: "(string \<Rightarrow> ('a, string) result) \<Rightarrow> client \<Rightarrow> http_call \<Rightarrow> nat \<Rightarrow> ('a, sdk_error) result \<times> nat" where
  "sdk_call parse ct hc t = and_run (call_text ct hc t) (\<lambda>text t'. (map_err SdkDecode (parse text), t'))"

section \<open>The operations\<close>

definition client_query :: "client \<Rightarrow> query_request \<Rightarrow> nat \<Rightarrow> (response, sdk_error) result \<times> nat" where
  "client_query ct rq t = sdk_call (jc_response (ct_json ct)) ct (http_post ct ''/v1/query'' (jc_query (ct_json ct) rq)) t"

definition client_heads :: "client \<Rightarrow> chain_name \<Rightarrow> nat \<Rightarrow> (chain_heads, sdk_error) result \<times> nat" where
  "client_heads ct chain t = sdk_call (jc_heads (ct_json ct)) ct (http_get ct (''/v1/heads/'' @ chain)) t"

definition client_all_heads :: "client \<Rightarrow> nat \<Rightarrow> (chain_heads list, sdk_error) result \<times> nat" where
  "client_all_heads ct t = sdk_call (jc_all_heads (ct_json ct)) ct (http_get ct ''/v1/heads'') t"

definition client_wait_heads ::
  "client \<Rightarrow> chain_name \<Rightarrow> u64 \<Rightarrow> head_kind \<Rightarrow> nat \<Rightarrow> nat \<Rightarrow> (chain_heads, sdk_error) result \<times> nat" where
  "client_wait_heads ct chain after kind timeout t =
     sdk_call (jc_heads (ct_json ct)) ct
       ((http_get ct (''/v1/heads/'' @ chain @ ''/wait''))
          \<lparr>hc_params := [(''after'', dec after), (''kind'', sdk_head_kind_as_str kind), (''timeout_ms'', dec timeout)],
           hc_timeout := ct_timeout ct + timeout\<rparr>) t"

definition client_watch :: "client \<Rightarrow> watch_request \<Rightarrow> nat \<Rightarrow> (watch_response, sdk_error) result \<times> nat" where
  "client_watch ct rq t = sdk_call (jc_watched (ct_json ct)) ct (http_post ct ''/v1/watch'' (jc_watch (ct_json ct) rq)) t"

definition client_unwatch :: "client \<Rightarrow> watch_request \<Rightarrow> nat \<Rightarrow> (unit, sdk_error) result \<times> nat" where
  "client_unwatch ct rq t =
     and_run (call_text ct ((authed ct ''DELETE'' ''/v1/watch'')\<lparr>hc_body := Some (jc_watch (ct_json ct) rq)\<rparr>) t) (\<lambda>_ t'. (Ok (), t'))"

definition client_resume_follow :: "client \<Rightarrow> chain_name \<Rightarrow> nat \<Rightarrow> (follow_resume_response, sdk_error) result \<times> nat" where
  "client_resume_follow ct chain t =
     sdk_call (jc_resumed (ct_json ct)) ct (http_post ct ''/v1/admin/follow/resume'' (jc_resume (ct_json ct) chain)) t"

section \<open>Every page of a query\<close>

definition with_cursor :: "query_request \<Rightarrow> string \<Rightarrow> query_request" where
  "with_cursor rq cursor =
     rq\<lparr>rq_page := Some \<lparr>pg_limit = (case rq_page rq of None \<Rightarrow> None | Some p \<Rightarrow> pg_limit p), pg_cursor = Some cursor\<rparr>\<rparr>"

definition pages_disagree :: "(u64, b256) btree_map \<Rightarrow> (u64, b256) btree_map \<Rightarrow> bool" where
  "pages_disagree known hashes = list_ex (\<lambda>(n, k). case map_of known n of None \<Rightarrow> False | Some old \<Rightarrow> old \<noteq> k) hashes"

definition extend_hashes :: "(u64, b256) btree_map \<Rightarrow> (u64, b256) btree_map \<Rightarrow> (u64, b256) btree_map" where
  "extend_hashes known hashes = fold (\<lambda>(n, k). btree_insert n k) hashes known"

text \<open>\<open>None\<close>: the server kept handing out cursors. \<open>Ok None\<close>: two pages disagree on a block hash.\<close>

partial_function (option) pages_loop ::
  "client \<Rightarrow> query_request \<Rightarrow> (u64, b256) btree_map \<Rightarrow> response \<Rightarrow> nat \<Rightarrow> ((response option, sdk_error) result \<times> nat) option" where
  "pages_loop ct rq known merged t =
     (case pi_next_cursor (rs_page merged) of
        None \<Rightarrow> Some (Ok (Some merged), t)
      | Some cursor \<Rightarrow>
          (case client_query ct (with_cursor rq cursor) t of
             (r, t') \<Rightarrow>
               (case r of
                  Inl e \<Rightarrow> Some (Err e, t')
                | Inr page \<Rightarrow>
                    if pages_disagree known (block_hashes (ct_hex ct) page) then Some (Ok None, t')
                    else pages_loop ct rq (extend_hashes known (block_hashes (ct_hex ct) page))
                           (page\<lparr>rs_rows := rs_rows merged @ rs_rows page\<rparr>) t')))"

definition read_pages :: "client \<Rightarrow> query_request \<Rightarrow> nat \<Rightarrow> ((response option, sdk_error) result \<times> nat) option" where
  "read_pages ct rq t =
     (case client_query ct rq t of
        (Inl e, t') \<Rightarrow> Some (Err e, t')
      | (Inr page, t') \<Rightarrow> pages_loop ct rq (block_hashes (ct_hex ct) page) page t')"

definition disagreed :: "query_request \<Rightarrow> u32 \<Rightarrow> sdk_error" where
  "disagreed rq failures =
     SdkInconsistent (''pages of '' @ dec (br_start (rq_range rq)) @ ''..='' @ dec (br_end (rq_range rq)) @
       '' disagreed on block hashes '' @ dec failures @ '' times'')"

function query_all_loop :: "client \<Rightarrow> query_request \<Rightarrow> u32 \<Rightarrow> nat \<Rightarrow> ((response, sdk_error) result \<times> nat) option" where
  "query_all_loop ct rq failures t =
     (case read_pages ct rq t of
        None \<Rightarrow> None
      | Some (Inl e, t') \<Rightarrow> Some (Err e, t')
      | Some (Inr (Some merged), t') \<Rightarrow> Some (Ok merged, t')
      | Some (Inr None, t') \<Rightarrow>
          if rc_max_attempts (ct_retry ct) \<le> failures + 1 then Some (Err (disagreed rq (failures + 1)), t')
          else query_all_loop ct rq (failures + 1) t')"
  by pat_completeness auto

termination
  by (relation "measure (\<lambda>(ct, rq, failures, t). rc_max_attempts (ct_retry ct) - failures)") auto

declare query_all_loop.simps [simp del]

definition query_all :: "client \<Rightarrow> query_request \<Rightarrow> nat \<Rightarrow> ((response, sdk_error) result \<times> nat) option" where
  "query_all ct rq t = query_all_loop ct rq 0 t"

section \<open>Retries\<close>

lemma kind_parse_as_str: "kind_as_str (kind_parse k) = k"
  by (simp add: kind_parse_def)

lemma kind_parse_known: "\<nexists>k. kind_parse (error_kind e) = KOther k"
  by (cases e) (simp_all add: kind_parse_def)

lemma call_text_loop_outcome:
  assumes "call_text_loop ct hc failures t = (r, t')" and "failures < max 1 (rc_max_attempts (ct_retry ct))"
  shows "t < t' \<and> t' - t \<le> max 1 (rc_max_attempts (ct_retry ct)) - failures \<and> send_once ct hc (t' - 1) = r \<and>
    (\<forall>i. t \<le> i \<and> i + 1 < t' \<longrightarrow> (\<exists>e. send_once ct hc i = Err e \<and> is_retryable e)) \<and>
    (\<forall>e. r = Err e \<longrightarrow> \<not> is_retryable e \<or> t' - t = max 1 (rc_max_attempts (ct_retry ct)) - failures)"
  using assms
proof (induction ct hc failures t rule: call_text_loop.induct)
  case (1 ct hc failures t)
  show ?case
  proof (cases "\<exists>e. send_once ct hc t = Err e \<and> is_retryable e \<and> failures + 1 < rc_max_attempts (ct_retry ct)")
    case True
    then obtain e where e: "send_once ct hc t = Err e" "is_retryable e" "failures + 1 < rc_max_attempts (ct_retry ct)" by blast
    then have "call_text_loop ct hc (failures + 1) (t + 1) = (r, t')" using "1.prems"(1) by (subst (asm) call_text_loop.simps) simp
    from "1.IH" [OF e(1) _ this] e(2,3) have IH: "t + 1 < t'" "t' - (t + 1) \<le> max 1 (rc_max_attempts (ct_retry ct)) - (failures + 1)"
      "send_once ct hc (t' - 1) = r" "\<forall>i. t + 1 \<le> i \<and> i + 1 < t' \<longrightarrow> (\<exists>e. send_once ct hc i = Err e \<and> is_retryable e)"
      "\<forall>e. r = Err e \<longrightarrow> \<not> is_retryable e \<or> t' - (t + 1) = max 1 (rc_max_attempts (ct_retry ct)) - (failures + 1)" by auto
    have "\<exists>e. send_once ct hc i = Err e \<and> is_retryable e" if "t \<le> i" "i + 1 < t'" for i
      using that IH(4) e(1,2) by (cases "i = t") auto
    then show ?thesis using IH e(3) by auto
  next
    case False
    then have "r = send_once ct hc t \<and> t' = t + 1"
      using "1.prems"(1) by (subst (asm) call_text_loop.simps) (auto split: sum.splits if_splits)
    then show ?thesis using False "1.prems"(2) by auto
  qed
qed

text \<open>
  A call of the client tries until it succeeds, fails for good or has used its attempts: it sends at
  least one and at most \<open>max_attempts\<close> requests, each one before the last failed with a
  retryable error, its result is that of the last, and an error it returns is not retryable or
  the attempts are used up.
\<close>

theorem call_text_outcome:
  assumes "call_text ct hc t = (r, t')"
  shows "t < t' \<and> t' - t \<le> max 1 (rc_max_attempts (ct_retry ct)) \<and> send_once ct hc (t' - 1) = r \<and>
    (\<forall>i. t \<le> i \<and> i + 1 < t' \<longrightarrow> (\<exists>e. send_once ct hc i = Err e \<and> is_retryable e)) \<and>
    (\<forall>e. r = Err e \<longrightarrow> \<not> is_retryable e \<or> t' - t = max 1 (rc_max_attempts (ct_retry ct)))"
  using call_text_loop_outcome [of ct hc 0 t r t'] assms by (simp add: call_text_def)

section \<open>Pages\<close>

lemma client_query_later: "client_query ct rq t = (r, t') \<Longrightarrow> t < t'"
  using call_text_loop_outcome [of ct _ 0 t]
  by (fastforce simp: client_query_def sdk_call_def call_text_def and_run_def split: sum.splits prod.splits)

text \<open>A run of pages: each request but the first carries the cursor of the page before it.\<close>

fun page_run :: "client \<Rightarrow> query_request \<Rightarrow> query_request \<Rightarrow> nat \<Rightarrow> response list \<Rightarrow> nat \<Rightarrow> bool" where
  "page_run ct rq ask t [] t' = False"
| "page_run ct rq ask t (p # ps) t' =
     (\<exists>t1. client_query ct ask t = (Ok p, t1) \<and>
        (if ps = [] then t' = t1
         else \<exists>cursor. pi_next_cursor (rs_page p) = Some cursor \<and> page_run ct rq (with_cursor rq cursor) t1 ps t'))"

definition agree :: "hex_codec \<Rightarrow> response list \<Rightarrow> bool" where
  "agree hx ps = (\<exists>H. \<forall>p\<in>set ps. \<forall>n k. map_of (block_hashes hx p) n = Some k \<longrightarrow> H n = Some k)"

definition joined :: "response list \<Rightarrow> response" where
  "joined ps = (last ps)\<lparr>rs_rows := concat (map rs_rows ps)\<rparr>"

lemma sorted_fold_insert: "sorted_wrt (<) (map fst m) \<Longrightarrow> sorted_wrt (<) (map fst (fold (\<lambda>x. btree_insert (f x) (g x)) xs m))"
  by (induction xs arbitrary: m) auto

lemma block_hashes_sorted: "sorted_wrt (<) (map fst (block_hashes hx p))"
  unfolding block_hashes_def case_prod_unfold by (intro sorted_fold_insert) simp

lemma map_of_extend:
  assumes "sorted_wrt (<) (map fst hashes)"
  shows "map_of (extend_hashes known hashes) = map_of known ++ map_of hashes"
  using assms
proof (induction hashes arbitrary: known)
  case (Cons e hashes)
  then have "fst e \<notin> fst ` set hashes" by auto
  then have "map_of known ++ map_of (e # hashes) = map_of (btree_insert (fst e) (snd e) known) ++ map_of hashes"
    by (auto simp: map_of_btree_insert map_add_def fun_eq_iff map_of_eq_None_iff split: option.splits dest!: map_of_SomeD)
       (metis image_eqI fst_conv)+
  moreover have "map_of (extend_hashes (btree_insert (fst e) (snd e) known) hashes) = map_of (btree_insert (fst e) (snd e) known) ++ map_of hashes"
    using Cons by simp
  moreover have "extend_hashes known (e # hashes) = extend_hashes (btree_insert (fst e) (snd e) known) hashes"
    by (simp add: extend_hashes_def case_prod_unfold)
  ultimately show ?case by (simp only:)
qed (simp add: extend_hashes_def)

lemma agree_extend:
  assumes "\<not> pages_disagree known hashes" and "sorted_wrt (<) (map fst hashes)"
  shows "map_of known \<subseteq>\<^sub>m map_of (extend_hashes known hashes)" "map_of hashes \<subseteq>\<^sub>m map_of (extend_hashes known hashes)"
proof -
  have "k = old" if "map_of hashes n = Some k" "map_of known n = Some old" for n k old
    using assms(1) map_of_SomeD [OF that(1)] that(2) by (fastforce simp: pages_disagree_def list_ex_iff)
  then show "map_of known \<subseteq>\<^sub>m map_of (extend_hashes known hashes)"
    by (auto simp: map_of_extend [OF assms(2)] map_le_def map_add_def split: option.splits)
  show "map_of hashes \<subseteq>\<^sub>m map_of (extend_hashes known hashes)"
    by (auto simp: map_of_extend [OF assms(2)] map_le_def map_add_def)
qed

lemma page_run_snoc:
  assumes "page_run ct rq ask t ps t1" and "pi_next_cursor (rs_page (last ps)) = Some cursor" and "client_query ct (with_cursor rq cursor) t1 = (Ok p, t2)"
  shows "page_run ct rq ask t (ps @ [p]) t2"
  using assms by (induction ct rq ask t ps t1 rule: page_run.induct) (auto split: if_splits)

definition pages_joined :: "client \<Rightarrow> query_request \<Rightarrow> (u64, b256) btree_map \<Rightarrow> response \<Rightarrow> nat \<Rightarrow> (response option, sdk_error) result \<times> nat \<Rightarrow> bool" where
  "pages_joined ct rq known merged t y =
     (\<forall>resp t0 ps. fst y = Ok (Some resp) \<and> page_run ct rq rq t0 ps t \<and> merged = joined ps \<and>
        (\<forall>p\<in>set ps. map_of (block_hashes (ct_hex ct) p) \<subseteq>\<^sub>m map_of known) \<longrightarrow>
        (\<exists>qs. page_run ct rq rq t0 qs (snd y) \<and> resp = joined qs \<and> pi_next_cursor (rs_page resp) = None \<and> agree (ct_hex ct) qs))"

lemma pages_loop_joins:
  assumes "pages_loop ct rq known merged t = Some y"
  shows "pages_joined ct rq known merged t y"
proof (rule pages_loop.raw_induct [where P = pages_joined, OF _ assms], goal_cases)
  case (1 loop ct rq known merged t y)
  show ?case
  proof (cases "pi_next_cursor (rs_page merged)")
    case None
    then show ?thesis using 1(2) by (auto simp: pages_joined_def agree_def map_le_def dom_def) metis
  next
    case (Some cursor)
    obtain r t1 where q: "client_query ct (with_cursor rq cursor) t = (r, t1)" by force
    show ?thesis
      unfolding pages_joined_def
    proof (intro allI impI, elim conjE)
      fix resp t0 ps
      assume y: "fst y = Ok (Some resp)" and run: "page_run ct rq rq t0 ps t" "merged = joined ps"
        and known: "\<forall>p\<in>set ps. map_of (block_hashes (ct_hex ct) p) \<subseteq>\<^sub>m map_of known"
      let ?more = "\<lambda>page. extend_hashes known (block_hashes (ct_hex ct) page)"
      obtain page where page: "r = Ok page" "\<not> pages_disagree known (block_hashes (ct_hex ct) page)"
        "loop ct rq (?more page) (page\<lparr>rs_rows := rs_rows merged @ rs_rows page\<rparr>) t1 = Some y"
        using 1(2) Some q y by (cases r) (auto split: if_splits)
      have ne: "ps \<noteq> []" using run(1) by auto
      have "page_run ct rq rq t0 (ps @ [page]) t1" using page_run_snoc [OF run(1) _ q [unfolded page(1)]] Some run(2) by (simp add: joined_def)
      moreover have "page\<lparr>rs_rows := rs_rows merged @ rs_rows page\<rparr> = joined (ps @ [page])" using run(2) by (simp add: joined_def)
      moreover have "\<forall>p\<in>set (ps @ [page]). map_of (block_hashes (ct_hex ct) p) \<subseteq>\<^sub>m map_of (?more page)"
        using agree_extend [OF page(2) block_hashes_sorted] known map_le_trans by auto
      ultimately show "\<exists>qs. page_run ct rq rq t0 qs (snd y) \<and> resp = joined qs \<and> pi_next_cursor (rs_page resp) = None \<and> agree (ct_hex ct) qs"
        using 1(1) [OF page(3)] y unfolding pages_joined_def by blast
    qed
  qed
qed

lemma read_pages_joins:
  assumes "read_pages ct rq t = Some (Ok (Some resp), t')"
  shows "\<exists>qs. page_run ct rq rq t qs t' \<and> resp = joined qs \<and> pi_next_cursor (rs_page resp) = None \<and> agree (ct_hex ct) qs"
proof -
  obtain page t1 where page: "client_query ct rq t = (Ok page, t1)"
    "pages_loop ct rq (block_hashes (ct_hex ct) page) page t1 = Some (Ok (Some resp), t')"
    using assms by (auto simp: read_pages_def split: prod.splits sum.splits)
  have "page_run ct rq rq t [page] t1" "page = joined [page]" using page(1) by (simp_all add: joined_def)
  then show ?thesis using pages_loop_joins [OF page(2)] unfolding pages_joined_def by fastforce
qed

lemma query_all_loop_joins:
  assumes "query_all_loop ct rq failures t = Some (Ok resp, t')"
  shows "\<exists>qs t0. page_run ct rq rq t0 qs t' \<and> resp = joined qs \<and> pi_next_cursor (rs_page resp) = None \<and> agree (ct_hex ct) qs"
  using assms
proof (induction ct rq failures t rule: query_all_loop.induct)
  case (1 ct rq failures t)
  from "1.prems" consider page where "read_pages ct rq t = Some (Ok (Some page), t')" "resp = page"
    | t1 where "read_pages ct rq t = Some (Ok None, t1)" "failures + 1 < rc_max_attempts (ct_retry ct)"
        "query_all_loop ct rq (failures + 1) t1 = Some (Ok resp, t')"
    by (subst (asm) query_all_loop.simps) (auto split: option.splits sum.splits if_splits)
  then show ?case
  proof cases
    case 1
    then show ?thesis using read_pages_joins by blast
  next
    case 2
    show ?thesis by (rule "1.IH" [OF 2(1) refl refl refl _ 2(3)]) (use 2(2) in simp)
  qed
qed

text \<open>
  C14. A query over several pages reads one consistent state. When it returns an answer, that is the
  answer of the last page of a run in which every request but the first carries the cursor of
  the page before it and the last page has none, with the rows of all pages in order; and no
  two pages of the run name different hashes for one block.
\<close>

theorem query_all_joins_pages:
  assumes "query_all ct rq t = Some (Ok resp, t')"
  shows "\<exists>ps t0. page_run ct rq rq t0 ps t' \<and> resp = (last ps)\<lparr>rs_rows := concat (map rs_rows ps)\<rparr> \<and>
    pi_next_cursor (rs_page resp) = None \<and> agree (ct_hex ct) ps"
  using query_all_loop_joins assms unfolding query_all_def joined_def by blast

definition cursors_end :: "client \<Rightarrow> nat \<Rightarrow> bool" where
  "cursors_end ct N = (\<forall>rq i page i'. client_query ct rq i = (Ok page, i') \<and> N \<le> i \<longrightarrow> pi_next_cursor (rs_page page) = None)"

lemma pages_loop_last: "pi_next_cursor (rs_page merged) = None \<Longrightarrow> pages_loop ct rq known merged t = Some (Ok (Some merged), t)"
  by (subst pages_loop.simps) simp

lemma pages_loop_returns:
  assumes "cursors_end ct N"
  shows "pages_loop ct rq known merged t \<noteq> None"
proof (induction "N - t" arbitrary: known merged t rule: less_induct)
  case less
  show ?case
  proof (cases "pi_next_cursor (rs_page merged)")
    case (Some cursor)
    obtain r t1 where q: "client_query ct (with_cursor rq cursor) t = (r, t1)" by force
    have "pages_loop ct rq known' (page\<lparr>rs_rows := rows\<rparr>) t1 \<noteq> None" if "r = Ok page" for known' page rows
    proof (cases "N \<le> t")
      case True
      then have "pi_next_cursor (rs_page page) = None" using assms q that unfolding cursors_end_def by blast
      then show ?thesis by (simp add: pages_loop_last)
    next
      case False
      then show ?thesis using client_query_later [OF q] by (intro less) simp
    qed
    then show ?thesis using Some q by (subst pages_loop.simps) (auto split: sum.splits)
  qed (simp add: pages_loop_last)
qed


section \<open>Witnesses\<close>

definition client_demo_send :: "nat \<Rightarrow> http_call \<Rightarrow> (http_reply, http_failure) result" where
  "client_demo_send t _ =
     Ok (if t = 0 then \<lparr>rp_status = 503, rp_retry_after = None, rp_text = Ok ''busy''\<rparr>
         else \<lparr>rp_status = 200, rp_retry_after = None, rp_text = Ok (if t = 1 then ''first'' else ''second'')\<rparr>)"

definition client_demo_page :: "string \<Rightarrow> response" where
  "client_demo_page text =
     (if text = ''first'' then cursor_demo_response\<lparr>rs_page := \<lparr>pi_next_cursor = Some ''l:1:0''\<rparr>, rs_rows := [JInt 1]\<rparr>
      else cursor_demo_response\<lparr>rs_rows := [JInt 2]\<rparr>)"

definition client_demo :: client where
  "client_demo = client_new (client_config_new ''http://localhost/'' ''app'' ''secret'') client_demo_send
     \<lparr>jc_query = (\<lambda>_. ''query''), jc_watch = (\<lambda>_. ''watch''), jc_resume = (\<lambda>_. ''resume''), jc_response = (\<lambda>text. Ok (client_demo_page text)),
      jc_heads = (\<lambda>_. Err ''no heads''), jc_all_heads = (\<lambda>_. Err ''no heads''), jc_watched = (\<lambda>_. Err ''no watch''), jc_resumed = (\<lambda>_. Err ''no resume''),
      jc_error = (\<lambda>_. None)\<rparr> demo_hex (\<lambda>_ d. d)"

lemma client_demo_fields:
  "ct_retry client_demo = retry_config_default" "ct_hex client_demo = demo_hex" "jc_response (ct_json client_demo) = (\<lambda>text. Ok (client_demo_page text))"
  by (simp_all add: client_demo_def client_new_def client_config_new_def)

lemma client_demo_send_once:
  "send_once client_demo hc t = (if t = 0 then Err (SdkApi (KOther ''http'') ''busy'' 503 None) else Ok (if t = 1 then ''first'' else ''second''))"
  by (simp add: send_once_def client_demo_def client_new_def client_demo_send_def checked_def reply_retry_after_def)

lemma client_demo_call:
  "call_text client_demo hc 0 = (Ok ''first'', 2)" "2 \<le> t \<Longrightarrow> call_text client_demo hc t = (Ok ''second'', t + 1)"
  by (simp_all add: call_text_def call_text_loop.simps client_demo_send_once client_demo_fields retry_config_default_def)

lemma client_demo_pages:
  "client_query client_demo rq 0 = (Ok (client_demo_page ''first''), 2)"
  "2 \<le> t \<Longrightarrow> client_query client_demo rq t = (Ok (client_demo_page ''second''), t + 1)"
  by (simp_all add: client_query_def sdk_call_def client_demo_call client_demo_fields map_err_def)

lemma client_demo_hashes: "block_hashes demo_hex (client_demo_page text) = [(10, 10), (12, 1012)]"
  by (simp add: block_hashes_def client_demo_page_def cursor_demo_response_def row_block_def map_filter_simps)

lemma client_demo_all:
  "query_all client_demo rq 0 = Some (Ok (cursor_demo_response\<lparr>rs_rows := [JInt 1, JInt 2]\<rparr>), 3)"
proof -
  have cursors: "pi_next_cursor (rs_page (client_demo_page ''first'')) = Some ''l:1:0''" "pi_next_cursor (rs_page (client_demo_page ''second'')) = None"
    by (simp_all add: client_demo_page_def cursor_demo_response_def)
  have "pages_loop client_demo rq [(10, 10), (12, 1012)] (client_demo_page ''first'') 2 =
      Some (Ok (Some (cursor_demo_response\<lparr>rs_rows := [JInt 1, JInt 2]\<rparr>)), 3)"
    by (subst pages_loop.simps) (simp add: cursors client_demo_pages client_demo_fields client_demo_hashes pages_disagree_def pages_loop_last
        del: One_nat_def, simp add: client_demo_page_def cursor_demo_response_def)
  then show ?thesis
    by (simp add: query_all_def query_all_loop.simps read_pages_def client_demo_pages client_demo_fields client_demo_hashes)
qed

theorem call_text_outcome_witness:
  "call_text client_demo (http_get client_demo ''/v1/heads'') 0 = (Ok ''first'', 2) \<and>
   (\<forall>i. i + 1 < 2 \<longrightarrow> (\<exists>e. send_once client_demo (http_get client_demo ''/v1/heads'') i = Err e \<and> is_retryable e))"
  using call_text_outcome [OF client_demo_call(1)] client_demo_call(1) by auto

theorem query_all_joins_pages_witness:
  "query_all client_demo complete_demo_request 0 = Some (Ok (cursor_demo_response\<lparr>rs_rows := [JInt 1, JInt 2]\<rparr>), 3) \<and>
   (\<exists>ps t0. page_run client_demo complete_demo_request complete_demo_request t0 ps 3 \<and> concat (map rs_rows ps) = [JInt 1, JInt 2] \<and> agree demo_hex ps)"
proof -
  note run = client_demo_all [of complete_demo_request]
  obtain ps t0 where ps: "page_run client_demo complete_demo_request complete_demo_request t0 ps 3" "agree demo_hex ps"
    "cursor_demo_response\<lparr>rs_rows := [JInt 1, JInt 2]\<rparr> = (last ps)\<lparr>rs_rows := concat (map rs_rows ps)\<rparr>"
    using query_all_joins_pages [OF run] by (auto simp: client_demo_fields)
  from arg_cong [OF ps(3), of rs_rows] have "concat (map rs_rows ps) = [JInt 1, JInt 2]" by simp
  with ps run show ?thesis by blast
qed


end
