(* ===== verification/Rest_Client.thy ===== *)
theory Rest_Client
  imports Graphql Sdk_Client
begin

text \<open>
  The plain REST client, \<open>crates/client/src/lib.rs\<close>: one request per call, no retries. The HTTP library is
  the argument \<open>rl_send\<close>, the JSON codec the record \<open>rest_codec\<close>. The last section joins both client
  libraries with the server's error responses.
\<close>

section \<open>Client\<close>

datatype client_error =
    RestApi (ce_status: nat) (ce_kind: string) (ce_message: string)
  | RestHttp http_failure

fun client_error_kind :: "client_error \<Rightarrow> string option" where
  "client_error_kind (RestApi _ k _) = Some k"
| "client_error_kind (RestHttp _) = None"

fun client_error_status :: "client_error \<Rightarrow> nat option" where
  "client_error_status (RestApi status _ _) = Some status"
| "client_error_status (RestHttp f) = hf_status f"

record rest_call =
  ra_method :: string
  ra_url :: string
  ra_application :: "string option"
  ra_token :: string
  ra_params :: "(string \<times> string) list"
  ra_body :: "string option"

record rest_codec =
  rj_query :: "query_request \<Rightarrow> string"
  rj_query_value :: "query_request \<Rightarrow> json"
  rj_json :: "json \<Rightarrow> string"
  rj_watch :: "watch_request \<Rightarrow> string"
  rj_backfill :: "backfill_request \<Rightarrow> string"
  rj_resume :: "chain_name \<Rightarrow> string"
  rj_selector :: "log_selector \<Rightarrow> string"
  rj_response :: "string \<Rightarrow> (response, http_failure) result"
  rj_value :: "string \<Rightarrow> (json, http_failure) result"
  rj_heads :: "string \<Rightarrow> (chain_heads, http_failure) result"
  rj_all_heads :: "string \<Rightarrow> (chain_heads list, http_failure) result"
  rj_watched :: "string \<Rightarrow> (watch_response, http_failure) result"
  rj_coverage :: "string \<Rightarrow> (coverage_response, http_failure) result"
  rj_backfilled :: "string \<Rightarrow> (backfill_response, http_failure) result"
  rj_resumed :: "string \<Rightarrow> (follow_resume_response, http_failure) result"
  rj_jobs :: "string \<Rightarrow> (error_json job_info list, http_failure) result"
  rj_error :: "string \<Rightarrow> error_info option"

record rest_client =
  rl_base :: string
  rl_application :: string
  rl_token :: string
  rl_send :: "rest_call \<Rightarrow> (http_reply, http_failure) result"
  rl_codec :: rest_codec

definition rest_client_new ::
  "string \<Rightarrow> string \<Rightarrow> string \<Rightarrow> (rest_call \<Rightarrow> (http_reply, http_failure) result) \<Rightarrow> rest_codec \<Rightarrow> rest_client" where
  "rest_client_new base_url app token send rj =
     \<lparr>rl_base = trim_end_slashes base_url, rl_application = app, rl_token = token, rl_send = send, rl_codec = rj\<rparr>"

definition rest_authed :: "rest_client \<Rightarrow> string \<Rightarrow> string \<Rightarrow> rest_call" where
  "rest_authed rl verb path =
     \<lparr>ra_method = verb, ra_url = rl_base rl @ path, ra_application = Some (rl_application rl), ra_token = rl_token rl, ra_params = [], ra_body = None\<rparr>"

definition rest_get :: "rest_client \<Rightarrow> string \<Rightarrow> rest_call" where
  "rest_get rl path = rest_authed rl ''GET'' path"

definition rest_post :: "rest_client \<Rightarrow> string \<Rightarrow> string \<Rightarrow> rest_call" where
  "rest_post rl path body = (rest_authed rl ''POST'' path)\<lparr>ra_body := Some body\<rparr>"

text \<open>A success answer keeps its body, which is read later; any other is an error.\<close>

definition rest_checked :: "rest_codec \<Rightarrow> http_reply \<Rightarrow> (http_reply, client_error) result" where
  "rest_checked rj rp =
     (if 200 \<le> rp_status rp \<and> rp_status rp < 300 then Ok rp
      else case rp_text rp of
        Inl f \<Rightarrow> Err (RestHttp f)
      | Inr body \<Rightarrow>
          (case rj_error rj body of
             Some info \<Rightarrow> Err (RestApi (rp_status rp) (ei_kind info) (ei_message info))
           | None \<Rightarrow> Err (RestApi (rp_status rp) ''http'' body)))"

definition rest_reply :: "rest_client \<Rightarrow> rest_call \<Rightarrow> (http_reply, client_error) result" where
  "rest_reply rl rc = and_then (map_err RestHttp (rl_send rl rc)) (rest_checked (rl_codec rl))"

definition rest_send :: "(string \<Rightarrow> ('a, http_failure) result) \<Rightarrow> rest_client \<Rightarrow> rest_call \<Rightarrow> ('a, client_error) result" where
  "rest_send decode rl rc =
     and_then (rest_reply rl rc) (\<lambda>rp. map_err RestHttp (and_then (rp_text rp) decode))"

section \<open>Operations\<close>

definition rest_client_query :: "rest_client \<Rightarrow> query_request \<Rightarrow> (response, client_error) result" where
  "rest_client_query rl rq = rest_send (rj_response (rl_codec rl)) rl (rest_post rl ''/v1/query'' (rj_query (rl_codec rl) rq))"

definition json_at :: "json \<Rightarrow> string \<Rightarrow> json" where
  "json_at v k = (case json_get v k of None \<Rightarrow> JNull | Some w \<Rightarrow> w)"

fun json_first :: "json \<Rightarrow> json option" where
  "json_first (JArray (v # _)) = Some v"
| "json_first _ = None"

definition str_or :: "string \<Rightarrow> json \<Rightarrow> string" where
  "str_or d v = (case json_as_str v of None \<Rightarrow> d | Some s \<Rightarrow> s)"

definition graphql_body :: "rest_codec \<Rightarrow> query_request \<Rightarrow> string \<Rightarrow> json" where
  "graphql_body rj rq selection =
     JObject [(''query'', JString (''query Q($input: JSON!) { query(input: $input) { '' @ selection @ '' } }'')),
              (''variables'', JObject [(''input'', rj_query_value rj rq)])]"

definition rest_graphql_query :: "rest_client \<Rightarrow> query_request \<Rightarrow> string \<Rightarrow> (json, client_error) result" where
  "rest_graphql_query rl rq selection =
     and_then (rest_send (rj_value (rl_codec rl)) rl (rest_post rl ''/graphql'' (rj_json (rl_codec rl) (graphql_body (rl_codec rl) rq selection)))) (\<lambda>v.
       case json_first (json_at v ''errors'') of
         Some e \<Rightarrow> Err (RestApi 200 (str_or ''internal'' (json_at (json_at e ''extensions'') ''kind'')) (str_or [] (json_at e ''message'')))
       | None \<Rightarrow> Ok (json_at v ''data''))"

definition rest_client_heads :: "rest_client \<Rightarrow> (chain_heads list, client_error) result" where
  "rest_client_heads rl = rest_send (rj_all_heads (rl_codec rl)) rl (rest_get rl ''/v1/heads'')"

definition rest_client_chain_heads :: "rest_client \<Rightarrow> chain_name \<Rightarrow> (chain_heads, client_error) result" where
  "rest_client_chain_heads rl chain = rest_send (rj_heads (rl_codec rl)) rl (rest_get rl (''/v1/heads/'' @ chain))"

definition rest_client_wait_heads :: "rest_client \<Rightarrow> chain_name \<Rightarrow> u64 \<Rightarrow> string \<Rightarrow> u64 \<Rightarrow> (chain_heads, client_error) result" where
  "rest_client_wait_heads rl chain after kind timeout_ms =
     rest_send (rj_heads (rl_codec rl)) rl
       ((rest_get rl (''/v1/heads/'' @ chain @ ''/wait''))
          \<lparr>ra_params := [(''after'', dec after), (''kind'', kind), (''timeout_ms'', dec timeout_ms)]\<rparr>)"

definition rest_client_watch :: "rest_client \<Rightarrow> watch_request \<Rightarrow> (watch_response, client_error) result" where
  "rest_client_watch rl rq = rest_send (rj_watched (rl_codec rl)) rl (rest_post rl ''/v1/watch'' (rj_watch (rl_codec rl) rq))"

definition rest_client_unwatch :: "rest_client \<Rightarrow> watch_request \<Rightarrow> (unit, client_error) result" where
  "rest_client_unwatch rl rq =
     and_then (rest_reply rl ((rest_authed rl ''DELETE'' ''/v1/watch'')\<lparr>ra_body := Some (rj_watch (rl_codec rl) rq)\<rparr>)) (\<lambda>_. Ok ())"

definition rest_client_coverage ::
  "rest_client \<Rightarrow> chain_name \<Rightarrow> dataset \<Rightarrow> log_selector option \<Rightarrow> block_range option \<Rightarrow> (coverage_response, client_error) result" where
  "rest_client_coverage rl chain ds sel r =
     rest_send (rj_coverage (rl_codec rl)) rl
       ((rest_get rl ''/v1/admin/coverage'')
          \<lparr>ra_params := [(''chain'', chain), (''dataset'', dataset_as_str ds)] @
             (case sel of None \<Rightarrow> [] | Some s \<Rightarrow> [(''selector'', rj_selector (rl_codec rl) s)]) @
             (case r of None \<Rightarrow> [] | Some b \<Rightarrow> [(''start'', dec (br_start b)), (''end'', dec (br_end b))])\<rparr>)"

definition rest_client_backfill :: "rest_client \<Rightarrow> backfill_request \<Rightarrow> (backfill_response, client_error) result" where
  "rest_client_backfill rl rq = rest_send (rj_backfilled (rl_codec rl)) rl (rest_post rl ''/v1/admin/backfill'' (rj_backfill (rl_codec rl) rq))"

definition rest_client_resume_follow :: "rest_client \<Rightarrow> chain_name \<Rightarrow> (follow_resume_response, client_error) result" where
  "rest_client_resume_follow rl chain =
     rest_send (rj_resumed (rl_codec rl)) rl (rest_post rl ''/v1/admin/follow/resume'' (rj_resume (rl_codec rl) chain))"

definition rest_client_jobs :: "rest_client \<Rightarrow> string option \<Rightarrow> (error_json job_info list, client_error) result" where
  "rest_client_jobs rl status =
     rest_send (rj_jobs (rl_codec rl)) rl
       (rest_get rl (case status of Some s \<Rightarrow> ''/v1/admin/jobs?status='' @ s | None \<Rightarrow> ''/v1/admin/jobs''))"

definition rest_client_metrics :: "rest_client \<Rightarrow> string \<Rightarrow> (string, client_error) result" where
  "rest_client_metrics rl metrics_token =
     and_then (rest_reply rl \<lparr>ra_method = ''GET'', ra_url = rl_base rl @ ''/metrics'', ra_application = None, ra_token = metrics_token, ra_params = [], ra_body = None\<rparr>)
       (\<lambda>rp. map_err RestHttp (rp_text rp))"

section \<open>Errors from the server to the clients\<close>

definition error_reply :: "(error_info \<Rightarrow> string) \<Rightarrow> error \<Rightarrow> http_reply" where
  "error_reply encode e =
     (let r = error_into_response e in \<lparr>rp_status = er_status r, rp_retry_after = er_retry_after r, rp_text = Ok (encode (er_body r))\<rparr>)"

fun kind_of :: "error \<Rightarrow> api_error_kind" where
  "kind_of (Unauthorized _) = KUnauthorized"
| "kind_of (Forbidden _) = KForbidden"
| "kind_of (InvalidInput _) = KInvalidInput"
| "kind_of (QuotaExceeded _) = KQuotaExceeded"
| "kind_of (Unsupported _) = KUnsupported"
| "kind_of (Internal _) = KInternal"

lemma kind_parse_error_kind: "kind_parse (error_kind e) = kind_of e"
  by (cases e) (simp_all add: kind_parse_def)

text \<open>
  C24. An error of the server arrives at both clients as what it was: the Rust SDK gets the variant of
  its kind, with the server's message and status, the plain client the kind's name. The SDK takes
  it as retryable exactly for a quota and for an internal error, and a quota error alone tells it
  to come back after a second.
\<close>

theorem server_errors_reach_clients:
  assumes "jc_error jc (encode (error_body e)) = Some (error_body e)" and "rj_error rj (encode (error_body e)) = Some (error_body e)"
  shows "checked jc (error_reply encode e) =
      Err (SdkApi (kind_of e) (ei_message (error_body e)) (status_of e) (if kind_of e = KQuotaExceeded then Some 1000 else None)) \<and>
    rest_checked rj (error_reply encode e) = Err (RestApi (status_of e) (error_kind e) (ei_message (error_body e))) \<and>
    (\<forall>f. checked jc (error_reply encode e) = Err f \<longrightarrow> is_retryable f = (kind_of e \<in> {KQuotaExceeded, KInternal}) \<and> sdk_kind f = Some (kind_of e))"
proof -
  have kind: "kind_parse (ei_kind (error_body e)) = kind_of e" "ei_kind (error_body e) = error_kind e"
    by (simp_all add: error_body_def kind_parse_error_kind)
  have "reply_retry_after (error_reply encode e) = (if kind_of e = KQuotaExceeded then Some 1000 else None)"
    by (cases e) (simp_all add: error_reply_def error_into_response_def reply_retry_after_def RETRY_AFTER_S_def Let_def trim_def parse_uint_def digit_value_def u64_max_def)
  moreover have "\<not> (200 \<le> status_of e \<and> status_of e < 300)" by (cases e) simp_all
  ultimately have sdk: "checked jc (error_reply encode e) =
      Err (SdkApi (kind_of e) (ei_message (error_body e)) (status_of e) (if kind_of e = KQuotaExceeded then Some 1000 else None))"
    and rest: "rest_checked rj (error_reply encode e) = Err (RestApi (status_of e) (error_kind e) (ei_message (error_body e)))"
    using assms kind by (simp_all add: checked_def rest_checked_def error_reply_def error_into_response_def Let_def)
  have "(status_of e = 429 \<or> 500 \<le> status_of e) = (kind_of e \<in> {KQuotaExceeded, KInternal})" by (cases e) simp_all
  then show ?thesis using sdk rest by simp
qed

definition rest_demo_failure :: http_failure where
  "rest_demo_failure = \<lparr>hf_builder = False, hf_redirect = False, hf_status = None\<rparr>"

definition rest_demo_codec :: rest_codec where
  "rest_demo_codec =
     \<lparr>rj_query = (\<lambda>_. []), rj_query_value = (\<lambda>_. JNull), rj_json = (\<lambda>_. []), rj_watch = (\<lambda>_. []), rj_backfill = (\<lambda>_. []), rj_resume = (\<lambda>c. c),
      rj_selector = (\<lambda>_. []), rj_response = (\<lambda>_. Err rest_demo_failure), rj_value = (\<lambda>_. Ok JNull), rj_heads = (\<lambda>_. Err rest_demo_failure),
      rj_all_heads = (\<lambda>_. Ok []), rj_watched = (\<lambda>_. Err rest_demo_failure), rj_coverage = (\<lambda>_. Err rest_demo_failure),
      rj_backfilled = (\<lambda>_. Err rest_demo_failure), rj_resumed = (\<lambda>_. Err rest_demo_failure), rj_jobs = (\<lambda>_. Ok []),
      rj_error = (\<lambda>s. Some \<lparr>ei_kind = ''quota_exceeded'', ei_message = s\<rparr>)\<rparr>"

theorem server_errors_reach_clients_witness:
  "\<exists>jc. checked jc (error_reply ei_message (QuotaExceeded ''slow'')) = Err (SdkApi KQuotaExceeded ''slow'' 429 (Some 1000)) \<and>
     rest_checked rest_demo_codec (error_reply ei_message (QuotaExceeded ''slow'')) = Err (RestApi 429 ''quota_exceeded'' ''slow'')"
proof -
  let ?jc = "(ct_json client_demo)\<lparr>jc_error := (\<lambda>s. Some \<lparr>ei_kind = ''quota_exceeded'', ei_message = s\<rparr>)\<rparr>"
  have "jc_error ?jc (ei_message (error_body (QuotaExceeded ''slow''))) = Some (error_body (QuotaExceeded ''slow''))"
    "rj_error rest_demo_codec (ei_message (error_body (QuotaExceeded ''slow''))) = Some (error_body (QuotaExceeded ''slow''))"
    by (simp_all add: error_body_def rest_demo_codec_def)
  from server_errors_reach_clients [where encode = ei_message, OF this] show ?thesis by (intro exI [of _ ?jc]) (simp add: error_body_def)
qed

end
