(* ===== verification/Sdk_Follow.thy ===== *)
theory Sdk_Follow
  imports Sdk_Client
begin

text \<open>
  The follower of the client library, \<open>sdks/rust/src/follow.rs\<close>: a stream that reads a selector chunk by
  chunk up to the head and then waits for the head to pass. A pause takes time only and is kept
  as the delay the stream asks for.
\<close>

record follow_request =
  fq_chain :: chain_name
  fq_dataset :: dataset
  fq_selector :: "log_selector option"
  fq_finality :: query_finality
  fq_fields :: "string list option"
  fq_start :: u64
  fq_end :: "u64 option"
  fq_chunk_blocks :: u64
  fq_page_limit :: "u32 option"
  fq_wait_ms :: "u64 option"
  fq_heads_wait :: nat
  fq_poll_interval :: nat

definition follow_request_new :: "chain_name \<Rightarrow> dataset \<Rightarrow> log_selector option \<Rightarrow> u64 \<Rightarrow> follow_request" where
  "follow_request_new chain ds sel start =
     \<lparr>fq_chain = chain, fq_dataset = ds, fq_selector = sel, fq_finality = DurableOnly, fq_fields = None, fq_start = start, fq_end = None,
      fq_chunk_blocks = 1000, fq_page_limit = None, fq_wait_ms = None, fq_heads_wait = 30000, fq_poll_interval = 1000\<rparr>"

definition follow_request_logs :: "chain_name \<Rightarrow> log_selector \<Rightarrow> u64 \<Rightarrow> follow_request" where
  "follow_request_logs chain sel start = follow_request_new chain EvmLogs (Some sel) start"

definition follow_request_blocks :: "chain_name \<Rightarrow> u64 \<Rightarrow> follow_request" where
  "follow_request_blocks chain start = follow_request_new chain EvmBlocks None start"

definition follow_head_kind :: "follow_request \<Rightarrow> head_kind" where
  "follow_head_kind fq = (case fq_finality fq of DurableOnly \<Rightarrow> HkSafe | SafeToLatest \<Rightarrow> HkLatest | LatestOnly \<Rightarrow> HkLatest)"

datatype follow_event =
    Batch response
  | Skipped block_range
  | CaughtUp u64
  | Stalled u64 incomplete_reason "string option" nat

record follower =
  fl_next :: u64
  fl_heads :: "chain_heads option"
  fl_caught_up :: bool
  fl_failures :: u32
  fl_pause :: "nat option"
  fl_events :: "follow_event list"
  fl_done :: bool
  fl_calls :: nat

definition follower_new :: "follow_request \<Rightarrow> nat \<Rightarrow> follower" where
  "follower_new fq t =
     \<lparr>fl_next = fq_start fq, fl_heads = None, fl_caught_up = False, fl_failures = 0, fl_pause = None, fl_events = [], fl_done = False, fl_calls = t\<rparr>"

section \<open>One step\<close>

definition emit :: "follow_event \<Rightarrow> follower \<Rightarrow> follower" where
  "emit ev fl = fl\<lparr>fl_events := fl_events fl @ [ev]\<rparr>"

definition follower_skip :: "u64 \<Rightarrow> follower \<Rightarrow> follower" where
  "follower_skip lst fl =
     (case range_new (fl_next fl) lst of
        Inl _ \<Rightarrow> fl
      | Inr blks \<Rightarrow> (emit (Skipped blks) fl)\<lparr>fl_next := lst + 1\<rparr>)"

definition up_to_end :: "follow_request \<Rightarrow> u64 \<Rightarrow> u64" where
  "up_to_end fq tip = (case fq_end fq of None \<Rightarrow> tip | Some e \<Rightarrow> min e tip)"

definition chunk_request :: "follow_request \<Rightarrow> block_range \<Rightarrow> query_request" where
  "chunk_request fq r =
     \<lparr>rq_chain = fq_chain fq, rq_dataset = fq_dataset fq, rq_selector = fq_selector fq, rq_range = r, rq_finality = fq_finality fq,
      rq_fields = fq_fields fq, rq_page = map_option (\<lambda>lim. \<lparr>pg_limit = Some lim, pg_cursor = None\<rparr>) (fq_page_limit fq),
      rq_wait_ms = fq_wait_ms fq\<rparr>"

definition resume_at :: "block_range \<Rightarrow> response \<Rightarrow> u64" where
  "resume_at r resp = (case rs_next_start resp of None \<Rightarrow> br_end r + 1 | Some n \<Rightarrow> n)"

definition unserved_to :: "u64 \<Rightarrow> response \<Rightarrow> u64 option" where
  "unserved_to resume resp =
     (let first = (case rs_served resp of Some v \<Rightarrow> br_start v | None \<Rightarrow> resume) in if first = 0 then None else Some (first - 1))"

definition stall :: "client \<Rightarrow> follow_request \<Rightarrow> u64 \<Rightarrow> incomplete_reason \<Rightarrow> string option \<Rightarrow> follower \<Rightarrow> follower" where
  "stall ct fq resume reason detail fl =
     (if reason = ProviderError \<or> reason = BudgetExhausted
      then let n = fl_failures fl + 1; wait = client_backoff ct n (fl_calls fl)
           in emit (Stalled resume reason detail wait) (fl\<lparr>fl_failures := n, fl_pause := Some wait\<rparr>)
      else emit (Stalled resume reason detail (fq_poll_interval fq)) (fl\<lparr>fl_pause := Some (fq_poll_interval fq)\<rparr>))"

definition take_answer :: "client \<Rightarrow> follow_request \<Rightarrow> block_range \<Rightarrow> response \<Rightarrow> follower \<Rightarrow> follower" where
  "take_answer ct fq r resp fl =
     (let resume = resume_at r resp;
          fl1 = (if fl_next fl < resume then fl\<lparr>fl_failures := 0\<rparr> else fl);
          fl2 = (case unserved_to resume resp of None \<Rightarrow> fl1 | Some lst \<Rightarrow> follower_skip lst fl1);
          fl3 = fl2\<lparr>fl_next := resume\<rparr>;
          fl4 = (if rs_served resp \<noteq> None then emit (Batch resp) fl3 else fl3)
      in case rs_incomplete_reason resp of
           None \<Rightarrow> fl4
         | Some reason \<Rightarrow> if reason = BelowSafe then fl4 else stall ct fq resume reason (rs_incomplete_detail resp) fl4)"

definition read_chunk :: "client \<Rightarrow> follow_request \<Rightarrow> u64 \<Rightarrow> follower \<Rightarrow> ((unit, sdk_error) result \<times> follower) option" where
  "read_chunk ct fq lst fl =
     (let e = min (min lst (sat_add (fl_next fl) (max (fq_chunk_blocks fq) 1 - 1))) MAX_END in
      case range_new (fl_next fl) e of
        Inl err \<Rightarrow> Some (Err (SdkDecode (show_error err)), fl)
      | Inr r \<Rightarrow>
          (case query_all ct (chunk_request fq r) (fl_calls fl) of
             None \<Rightarrow> None
           | Some (Inl err, t) \<Rightarrow> Some (Err err, fl\<lparr>fl_calls := t\<rparr>)
           | Some (Inr resp, t) \<Rightarrow> Some (Ok (), take_answer ct fq r resp (fl\<lparr>fl_calls := t\<rparr>))))"

definition at_head :: "client \<Rightarrow> follow_request \<Rightarrow> chain_heads \<Rightarrow> follower \<Rightarrow> (unit, sdk_error) result \<times> follower" where
  "at_head ct fq h fl =
     (let kind = follow_head_kind fq in
      if \<not> fl_caught_up fl then (Ok (), (emit (CaughtUp (head_of kind h)) fl)\<lparr>fl_caught_up := True, fl_heads := Some h\<rparr>)
      else (case client_wait_heads ct (fq_chain fq) (fl_next fl - 1) kind (fq_heads_wait fq) (fl_calls fl) of
              (Inl e, t) \<Rightarrow> (Err e, fl\<lparr>fl_calls := t\<rparr>)
            | (Inr h', t) \<Rightarrow> (Ok (), fl\<lparr>fl_heads := Some h', fl_calls := t\<rparr>)))"

definition with_heads :: "client \<Rightarrow> follow_request \<Rightarrow> chain_heads \<Rightarrow> follower \<Rightarrow> ((unit, sdk_error) result \<times> follower) option" where
  "with_heads ct fq h fl =
     (if fq_finality fq = LatestOnly \<and> fl_next fl \<le> ch_safe h
      then Some (Ok (), (follower_skip (up_to_end fq (ch_safe h)) fl)\<lparr>fl_heads := Some h\<rparr>)
      else
        let lst = up_to_end fq (head_of (follow_head_kind fq) h) in
        if lst < fl_next fl then Some (at_head ct fq h fl)
        else read_chunk ct fq lst (fl\<lparr>fl_caught_up := False\<rparr>))"

definition follower_step :: "client \<Rightarrow> follow_request \<Rightarrow> follower \<Rightarrow> ((unit, sdk_error) result \<times> follower) option" where
  "follower_step ct fq fl =
     (if (case fq_end fq of None \<Rightarrow> False | Some e \<Rightarrow> e < fl_next fl) then Some (Ok (), fl\<lparr>fl_done := True\<rparr>)
      else case fl_heads fl of
        Some h \<Rightarrow> with_heads ct fq h (fl\<lparr>fl_heads := None\<rparr>)
      | None \<Rightarrow>
          (case client_heads ct (fq_chain fq) (fl_calls fl) of
             (Inl e, t) \<Rightarrow> Some (Err e, fl\<lparr>fl_calls := t\<rparr>)
           | (Inr h, t) \<Rightarrow> with_heads ct fq h (fl\<lparr>fl_calls := t\<rparr>)))"

section \<open>The stream\<close>

definition after_error :: "client \<Rightarrow> sdk_error \<Rightarrow> follower \<Rightarrow> follower" where
  "after_error ct e fl =
     (let n = fl_failures fl + 1; fl1 = fl\<lparr>fl_failures := n\<rparr> in
      if is_retryable e
      then fl1\<lparr>fl_pause := Some (case sdk_retry_after e of None \<Rightarrow> client_backoff ct n (fl_calls fl) | Some d \<Rightarrow> d)\<rparr>
      else fl1\<lparr>fl_done := True\<rparr>)"

text \<open>\<open>None\<close>: the stream never yields another item. \<open>Some (None, _)\<close>: the stream has ended.\<close>

partial_function (option) follower_next_item ::
  "client \<Rightarrow> follow_request \<Rightarrow> follower \<Rightarrow> ((follow_event, sdk_error) result option \<times> follower) option" where
  "follower_next_item ct fq fl =
     (case fl_events fl of
        ev # evs \<Rightarrow> Some (Some (Ok ev), fl\<lparr>fl_events := evs\<rparr>)
      | [] \<Rightarrow>
          if fl_done fl then Some (None, fl)
          else (case follower_step ct fq (fl\<lparr>fl_pause := None\<rparr>) of
                  None \<Rightarrow> None
                | Some rf \<Rightarrow>
                    (case fst rf of
                       Inl e \<Rightarrow> Some (Some (Err e), after_error ct e (snd rf))
                     | Inr _ \<Rightarrow> follower_next_item ct fq (snd rf))))"

text \<open>The first items of the stream.\<close>

fun items :: "client \<Rightarrow> follow_request \<Rightarrow> nat \<Rightarrow> follower \<Rightarrow> ((follow_event, sdk_error) result list \<times> follower) option" where
  "items ct fq 0 fl = Some ([], fl)"
| "items ct fq (Suc n) fl =
     (case follower_next_item ct fq fl of
        None \<Rightarrow> None
      | Some (None, fl') \<Rightarrow> Some ([], fl')
      | Some (Some it, fl') \<Rightarrow> map_option (\<lambda>(its, fl''). (it # its, fl'')) (items ct fq n fl'))"

section \<open>The stream leaves no gap\<close>

lemma answer_shape_rows [simp]: "answer_shape rq h (resp\<lparr>rs_rows := rows\<rparr>) = answer_shape rq h resp"
  by (simp add: answer_shape_def cong: option.case_cong)

lemma page_run_shape:
  assumes "query_source (client_query ct)" and "range_ok (rq_range rq)" and "page_run ct rq ask t ps t'"
    and "ask = rq \<or> (\<exists>cursor. ask = with_cursor rq cursor)"
  shows "\<exists>h. answer_shape rq h (joined ps)"
  using assms
proof (induction ct rq ask t ps t' rule: page_run.induct)
  case (2 ct rq ask t p ps t')
  show ?case
  proof (cases "ps = []")
    case True
    then have "client_query ct ask t = (Ok p, t')" using "2.prems"(3) by auto
    then have "\<exists>h. answer_shape rq h p"
      using "2.prems"(2,4) query_source.shape [OF "2.prems"(1)] query_source.page_shape [OF "2.prems"(1), where rq = rq] by (auto simp: with_cursor_def)
    then show ?thesis using True by (simp add: joined_def)
  next
    case False
    then obtain t1 cursor where "page_run ct rq (with_cursor rq cursor) t1 ps t'" using "2.prems"(3) by auto
    then have "\<exists>h. answer_shape rq h (joined ps)" using "2.IH" [OF False] "2.prems"(1,2) by blast
    then show ?thesis using False by (simp add: joined_def)
  qed
qed simp

lemma query_all_shape:
  assumes "query_source (client_query ct)" and "range_ok (rq_range rq)" and "query_all ct rq t = Some (Ok resp, t')"
  shows "\<exists>h. answer_shape rq h resp"
  using query_all_loop_joins [of ct rq 0 t resp t'] page_run_shape [OF assms(1,2)] assms(3) by (auto simp: query_all_def)

text \<open>What a run of events reports, block by block from a position on: the next position, and \<open>None\<close> when an
  event does not start where the one before it ended.\<close>

fun reports :: "u64 \<Rightarrow> follow_event list \<Rightarrow> u64 option" where
  "reports pos [] = Some pos"
| "reports pos (Batch resp # evs) =
     (case rs_served resp of Some v \<Rightarrow> if br_start v = pos \<and> pos \<le> br_end v then reports (br_end v + 1) evs else None | None \<Rightarrow> None)"
| "reports pos (Skipped r # evs) = (if br_start r = pos \<and> pos \<le> br_end r then reports (br_end r + 1) evs else None)"
| "reports pos (CaughtUp _ # evs) = reports pos evs"
| "reports pos (Stalled n _ _ _ # evs) = (if n = pos then reports pos evs else None)"

lemma reports_append: "reports pos (xs @ ys) = (case reports pos xs of None \<Rightarrow> None | Some p \<Rightarrow> reports p ys)"
  by (induction pos xs rule: reports.induct) (auto split: option.splits)

definition within_end :: "follow_request \<Rightarrow> u64 \<Rightarrow> bool" where
  "within_end fq n = (case fq_end fq of None \<Rightarrow> True | Some e \<Rightarrow> n \<le> e + 1)"

text \<open>What a piece of the follower's work adds to the queue.\<close>

definition adds :: "follow_request \<Rightarrow> follower \<Rightarrow> follower \<Rightarrow> bool" where
  "adds fq fl fl' = (\<exists>evs. fl_events fl' = fl_events fl @ evs \<and> reports (fl_next fl) evs = Some (fl_next fl') \<and>
     (within_end fq (fl_next fl) \<longrightarrow> within_end fq (fl_next fl')) \<and> (\<forall>r. Skipped r \<in> set evs \<longrightarrow> fq_finality fq = LatestOnly))"

lemma adds_refl: "fl_events fl' = fl_events fl \<Longrightarrow> fl_next fl' = fl_next fl \<Longrightarrow> adds fq fl fl'"
  by (simp add: adds_def)

lemma adds_trans: "adds fq a b \<Longrightarrow> adds fq b c \<Longrightarrow> adds fq a c"
  unfolding adds_def by (elim exE conjE, rule_tac x = "evs @ evsa" in exI) (auto simp: reports_append)

lemma skip_adds:
  assumes "fq_finality fq = LatestOnly \<or> lst < fl_next fl" and "within_end fq (lst + 1) \<or> lst < fl_next fl"
  shows "adds fq fl (follower_skip lst fl)"
  using assms by (auto simp: follower_skip_def emit_def adds_def range_new_def split: sum.splits if_splits)

lemma stall_adds: "adds fq fl (stall ct fq (fl_next fl) reason detail fl)"
  by (simp add: adds_def stall_def emit_def Let_def)

lemma skip_next:
  assumes "fl_next fl \<le> first" and "first \<le> MAX_END + 1"
    and "fl' = (if first = 0 then fl else follower_skip (first - 1) fl)"
  shows "fl_next fl' = first"
  using assms by (auto simp: follower_skip_def emit_def range_new_def split: sum.splits if_splits)

lemma take_answer_adds:
  assumes shape: "answer_shape (chunk_request fq r) h resp" and r: "range_ok r" "br_start r = fl_next fl" "within_end fq (br_end r + 1)"
  shows "adds fq fl (take_answer ct fq r resp fl)"
proof -
  define resume where "resume = resume_at r resp"
  define first where "first = (case rs_served resp of None \<Rightarrow> resume | Some v \<Rightarrow> br_start v)"
  define fl1 where "fl1 = (if fl_next fl < resume then fl\<lparr>fl_failures := 0\<rparr> else fl)"
  define fl2 where "fl2 = (if first = 0 then fl1 else follower_skip (first - 1) fl1)"
  define fl4 where "fl4 = (if rs_served resp \<noteq> None then emit (Batch resp) (fl2\<lparr>fl_next := resume\<rparr>) else fl2\<lparr>fl_next := resume\<rparr>)"
  have req: "rq_range (chunk_request fq r) = r" "rq_finality (chunk_request fq r) = fq_finality fq" by (simp_all add: chunk_request_def)
  have spec: "br_start r \<le> first" "first \<le> resume" "resume \<le> br_end r + 1" "br_start r < first \<Longrightarrow> fq_finality fq = LatestOnly"
    "\<And>v. rs_served resp = Some v \<Longrightarrow> resume = br_end v + 1 \<and> br_start v \<le> br_end v"
    using answer_resume [OF shape, unfolded req, OF r(1) refl refl] unfolding first_def resume_def resume_at_def by auto
  have fl1: "fl_next fl1 = fl_next fl" "fl_events fl1 = fl_events fl" by (simp_all add: fl1_def)
  have in_end: "within_end fq first" "within_end fq resume"
    using r(3) spec(2,3) by (auto simp: within_end_def split: option.splits)
  have "first \<le> MAX_END + 1" using spec(2,3) r(1) by (simp add: range_ok_def)
  with skip_next [OF _ this fl2_def] have n2: "fl_next fl2 = first" using spec(1) r(2) fl1(1) by simp
  have "adds fq fl fl1" using fl1 by (intro adds_refl)
  moreover have "adds fq fl1 fl2"
  proof (cases "first = 0")
    case False
    have "fq_finality fq = LatestOnly \<or> first - 1 < fl_next fl1"
      using False spec(1,4) r(2) fl1(1) by (cases "br_start r < first") auto
    moreover have "within_end fq (first - 1 + 1)" using in_end(1) False by simp
    ultimately have "adds fq fl1 (follower_skip (first - 1) fl1)" by (rule skip_adds [OF _ disjI1])
    then show ?thesis using False by (simp add: fl2_def)
  qed (simp add: fl2_def adds_refl)
  moreover have "adds fq fl2 fl4"
    using spec(5) n2 in_end(2) first_def by (auto simp: fl4_def adds_def emit_def split: option.splits)
  moreover have "adds fq fl4 (stall ct fq resume reason detail fl4)" for reason detail
  proof -
    have "fl_next fl4 = resume" by (simp add: fl4_def emit_def)
    with stall_adds [of fq fl4 ct reason detail] show ?thesis by simp
  qed
  moreover have "take_answer ct fq r resp fl =
      (case rs_incomplete_reason resp of None \<Rightarrow> fl4
       | Some reason \<Rightarrow> if reason = BelowSafe then fl4 else stall ct fq resume reason (rs_incomplete_detail resp) fl4)"
  proof -
    have "(case unserved_to resume resp of None \<Rightarrow> fl1 | Some lst \<Rightarrow> follower_skip lst fl1) = fl2"
      by (cases "first = 0") (simp_all add: unserved_to_def fl2_def flip: first_def)
    then show ?thesis unfolding take_answer_def Let_def resume_def [symmetric] fl1_def [symmetric] by (simp only: fl4_def)
  qed
  ultimately show ?thesis using adds_trans by (auto split: option.splits)
qed

lemma up_to_end_within: "within_end fq (up_to_end fq n + 1)"
  by (auto simp: within_end_def up_to_end_def split: option.splits)

lemma read_chunk_adds:
  assumes "query_source (client_query ct)" and "read_chunk ct fq (up_to_end fq n) fl = Some (r, fl')"
  shows "adds fq fl fl'"
proof -
  define e where "e = min (min (up_to_end fq n) (sat_add (fl_next fl) (max (fq_chunk_blocks fq) 1 - 1))) MAX_END"
  note run = assms(2) [unfolded read_chunk_def Let_def, folded e_def]
  show ?thesis
  proof (cases "range_new (fl_next fl) e")
    case (Inr rg)
    then have rg: "range_ok rg" "br_start rg = fl_next fl" "br_end rg = e" by (auto simp: range_new_def range_ok_def split: if_splits)
    have within: "within_end fq (br_end rg + 1)"
      using up_to_end_within [of fq n] unfolding rg(3) e_def by (auto simp: within_end_def split: option.splits)
    from run Inr obtain out t where q: "query_all ct (chunk_request fq rg) (fl_calls fl) = Some (out, t)"
      and fl': "fl' = (case out of Inl _ \<Rightarrow> fl\<lparr>fl_calls := t\<rparr> | Inr resp \<Rightarrow> take_answer ct fq rg resp (fl\<lparr>fl_calls := t\<rparr>))"
      by (auto split: option.splits sum.splits)
    show ?thesis
    proof (cases out)
      case (Inl err)
      then show ?thesis using fl' by (intro adds_refl) simp_all
    next
      case (Inr resp)
      have "rq_range (chunk_request fq rg) = rg" by (simp add: chunk_request_def)
      then obtain h where "answer_shape (chunk_request fq rg) h resp"
        using query_all_shape [OF assms(1)] rg(1) q Inr by fastforce
      from take_answer_adds [OF this rg(1), of "fl\<lparr>fl_calls := t\<rparr>" ct] rg(2) within
      have "adds fq (fl\<lparr>fl_calls := t\<rparr>) fl'" using fl' Inr by simp
      then show ?thesis by (simp add: adds_def)
    qed
  qed (use run in \<open>auto intro: adds_refl\<close>)
qed

lemma at_head_adds: "adds fq fl (snd (at_head ct fq h fl))"
  by (auto simp: at_head_def adds_def emit_def Let_def split: prod.splits sum.splits)

lemma with_heads_adds:
  assumes "query_source (client_query ct)" and "with_heads ct fq h fl = Some (r, fl')"
  shows "adds fq fl fl'"
proof -
  consider (skip) "fq_finality fq = LatestOnly" "fl' = (follower_skip (up_to_end fq (ch_safe h)) fl)\<lparr>fl_heads := Some h\<rparr>"
    | (head) "fl' = snd (at_head ct fq h fl)"
    | (chunk) n where "read_chunk ct fq (up_to_end fq n) (fl\<lparr>fl_caught_up := False\<rparr>) = Some (r, fl')"
    using assms(2) by (auto simp: with_heads_def Let_def split: if_splits)
  then show ?thesis
  proof cases
    case skip
    then show ?thesis using skip_adds [of fq "up_to_end fq (ch_safe h)" fl] up_to_end_within [of fq "ch_safe h"] by (simp add: adds_def)
  next
    case head
    then show ?thesis using at_head_adds by simp
  next
    case chunk
    from read_chunk_adds [OF assms(1) this] show ?thesis by (simp add: adds_def)
  qed
qed

lemma follower_step_adds:
  assumes "query_source (client_query ct)" and "follower_step ct fq fl = Some (r, fl')"
  shows "adds fq fl fl'"
proof -
  have "adds fq fl fl'" if "with_heads ct fq h fl1 = Some (r, fl')" "fl_events fl1 = fl_events fl" "fl_next fl1 = fl_next fl" for h fl1
    using with_heads_adds [OF assms(1) that(1)] that(2,3) by (simp add: adds_def)
  then show ?thesis using assms(2)
    by (auto simp: follower_step_def intro!: adds_refl split: if_splits option.splits prod.splits sum.splits)
qed

definition stream_ok :: "follow_request \<Rightarrow> follower \<Rightarrow> (follow_event, sdk_error) result option \<times> follower \<Rightarrow> bool" where
  "stream_ok fq fl out =
     (let emitted = (case fst out of Some (Inr ev) \<Rightarrow> [ev] | _ \<Rightarrow> []); fl' = snd out in
      \<forall>pos. reports pos (fl_events fl) = Some (fl_next fl) \<longrightarrow>
        reports pos (emitted @ fl_events fl') = Some (fl_next fl') \<and>
        (within_end fq (fl_next fl) \<longrightarrow> within_end fq (fl_next fl')) \<and>
        (\<forall>r. Skipped r \<in> set (emitted @ fl_events fl') \<longrightarrow> Skipped r \<in> set (fl_events fl) \<or> fq_finality fq = LatestOnly))"

lemma stream_ok_step:
  assumes "adds fq fl fl1" and "stream_ok fq fl1 out"
  shows "stream_ok fq fl out"
proof -
  obtain evs where evs: "fl_events fl1 = fl_events fl @ evs" "reports (fl_next fl) evs = Some (fl_next fl1)"
    "within_end fq (fl_next fl) \<longrightarrow> within_end fq (fl_next fl1)" "\<forall>r. Skipped r \<in> set evs \<longrightarrow> fq_finality fq = LatestOnly"
    using assms(1) unfolding adds_def by blast
  have "reports pos (fl_events fl1) = Some (fl_next fl1)" if "reports pos (fl_events fl) = Some (fl_next fl)" for pos
    using evs(1,2) that by (simp add: reports_append)
  moreover have "Skipped r \<in> set (fl_events fl1) \<Longrightarrow> Skipped r \<in> set (fl_events fl) \<or> fq_finality fq = LatestOnly" for r
    using evs(1,4) by auto
  ultimately show ?thesis using assms(2) evs(3) unfolding stream_ok_def Let_def by blast
qed

lemma next_item_ok:
  assumes "query_source (client_query ct0)" and "follower_next_item ct0 fq0 fl0 = Some out"
  shows "stream_ok fq0 fl0 out"
proof (rule follower_next_item.raw_induct [where P = "\<lambda>ct fq fl out. ct = ct0 \<longrightarrow> stream_ok fq fl out", OF _ assms(2), rule_format, OF _ refl], goal_cases)
  case (1 loop ct fq fl out)
  show ?case
  proof (cases "fl_events fl")
    case Nil
    show ?thesis
    proof (cases "fl_done fl")
      case True
      then show ?thesis using 1(2) Nil by (auto simp: stream_ok_def)
    next
      case False
      with 1(2) Nil obtain r fl1 where step: "follower_step ct fq (fl\<lparr>fl_pause := None\<rparr>) = Some (r, fl1)" and
        rest: "case r of Inl e \<Rightarrow> out = (Some (Err e), after_error ct e fl1) | Inr _ \<Rightarrow> loop ct fq fl1 = Some out"
        by (auto split: option.splits sum.splits)
      have "adds fq (fl\<lparr>fl_pause := None\<rparr>) fl1" using follower_step_adds [OF _ step] assms(1) 1(3) by simp
      then have adds: "adds fq fl fl1" by (simp add: adds_def)
      moreover have "stream_ok fq fl1 out"
        using rest 1(1,3) by (cases r) (auto simp: stream_ok_def after_error_def Let_def)
      ultimately show ?thesis by (rule stream_ok_step)
    qed
  next
    case (Cons ev evs)
    then show ?thesis using 1(2) by (auto simp: stream_ok_def)
  qed
qed

definition reported :: "(follow_event, sdk_error) result list \<Rightarrow> follow_event list" where
  "reported its = List.map_filter (\<lambda>it. case it of Inr ev \<Rightarrow> Some ev | Inl _ \<Rightarrow> None) its"

lemma reported_Cons: "reported (it # its) = (case it of Inr ev \<Rightarrow> [ev] | Inl _ \<Rightarrow> []) @ reported its"
  by (simp add: reported_def map_filter_simps split: sum.splits)

lemma reported_Nil [simp]: "reported [] = []"
  by (simp add: reported_def map_filter_simps)

lemma items_report:
  assumes "query_source (client_query ct)" and "items ct fq n fl = Some (its, fl')" and "reports pos (evs @ fl_events fl) = Some (fl_next fl)"
    and "\<forall>r. Skipped r \<in> set (evs @ fl_events fl) \<longrightarrow> fq_finality fq = LatestOnly"
  shows "reports pos (evs @ reported its @ fl_events fl') = Some (fl_next fl') \<and> (within_end fq (fl_next fl) \<longrightarrow> within_end fq (fl_next fl')) \<and>
    (\<forall>r. Skipped r \<in> set (evs @ reported its @ fl_events fl') \<longrightarrow> fq_finality fq = LatestOnly)"
  using assms(2-)
proof (induction n arbitrary: fl evs its)
  case (Suc n)
  obtain it fl1 where item: "follower_next_item ct fq fl = Some (it, fl1)" using Suc.prems(1) by (auto split: option.splits)
  let ?new = "case it of Some (Inr ev) \<Rightarrow> [ev] | _ \<Rightarrow> []"
  obtain p where p: "reports pos evs = Some p" "reports p (fl_events fl) = Some (fl_next fl)"
    using Suc.prems(2) by (auto simp: reports_append split: option.splits)
  have ok: "reports p (?new @ fl_events fl1) = Some (fl_next fl1)" "within_end fq (fl_next fl) \<longrightarrow> within_end fq (fl_next fl1)"
    "\<forall>r. Skipped r \<in> set (?new @ fl_events fl1) \<longrightarrow> fq_finality fq = LatestOnly"
    using next_item_ok [OF assms(1) item] p(2) Suc.prems(3) unfolding stream_ok_def Let_def fst_conv snd_conv by auto
  then have pre: "reports pos ((evs @ ?new) @ fl_events fl1) = Some (fl_next fl1)"
    "\<forall>r. Skipped r \<in> set ((evs @ ?new) @ fl_events fl1) \<longrightarrow> fq_finality fq = LatestOnly"
    using p(1) Suc.prems(3) by (auto simp: reports_append)
  show ?case
  proof (cases it)
    case None
    then show ?thesis using Suc.prems(1) item ok pre by simp
  next
    case (Some x)
    then obtain rest where rest: "items ct fq n fl1 = Some (rest, fl')" "its = x # rest" using Suc.prems(1) item by auto
    from Suc.IH [OF rest(1) pre] show ?thesis using Some rest(2) ok(2) by (auto simp: reported_Cons split: sum.splits)
  qed
qed simp

text \<open>
  C11. A followed stream leaves no gap and repeats nothing. Against a server whose answers have the shape of
  the engine's, the events the stream has yielded and queued so far report, in order, each block
  from the requested start up to the follower's next block exactly once, as part of a served
  batch or as skipped; a stall names the block the stream goes on from; blocks are skipped by
  \<open>latest_only\<close> streams only; and nothing above the requested end is reported.
\<close>

theorem follow_stream_has_no_gap:
  assumes "query_source (client_query ct)" and "items ct fq n (follower_new fq t) = Some (its, fl)"
  shows "reports (fq_start fq) (reported its @ fl_events fl) = Some (fl_next fl) \<and>
    (\<forall>r. Skipped r \<in> set (reported its @ fl_events fl) \<longrightarrow> fq_finality fq = LatestOnly) \<and>
    (\<forall>e. fq_end fq = Some e \<and> fq_start fq \<le> e + 1 \<longrightarrow> fl_next fl \<le> e + 1)"
  using items_report [OF assms, of "fq_start fq" "[]"] by (auto simp: follower_new_def within_end_def)

section \<open>Witness\<close>

text \<open>A server that has every block as durable and finalized: requests are written in unary, and the answer is
  computed from the text.\<close>

definition echo_query :: "query_request \<Rightarrow> string" where
  "echo_query rq = (if rq_finality rq = LatestOnly then CHR ''l'' else CHR ''d'') #
     replicate (br_start (rq_range rq)) (CHR ''a'') @ replicate (br_end (rq_range rq) + 1 - br_start (rq_range rq)) (CHR ''b'')"

definition echo_range :: "string \<Rightarrow> block_range" where
  "echo_range text = rng (length (takeWhile (\<lambda>c. c = CHR ''a'') (tl text))) (length (tl text) - 1)"

definition echo_answer :: "string \<Rightarrow> response" where
  "echo_answer text =
     (let r = echo_range text; latest_only = (hd text = CHR ''l'')
      in \<lparr>rs_chain = ''dev'', rs_dataset = EvmBlocks, rs_requested = r, rs_served = (if latest_only then None else Some r), rs_next_start = None,
          rs_incomplete_reason = (if latest_only then Some BelowSafe else None), rs_incomplete_detail = None,
          rs_segments = (if latest_only then [] else [\<lparr>seg_start = br_start r, seg_end = br_end r, seg_source = Durable, seg_finality = Finalized, seg_anchor = None\<rparr>]),
          rs_rows = [], rs_page = \<lparr>pi_next_cursor = None\<rparr>\<rparr>)"

definition echo_client :: client where
  "echo_client = client_new (client_config_new ''http://localhost/'' ''app'' ''secret'')
     (\<lambda>_ hc. Ok \<lparr>rp_status = 200, rp_retry_after = None, rp_text = Ok (case hc_body hc of None \<Rightarrow> [] | Some b \<Rightarrow> b)\<rparr>)
     \<lparr>jc_query = echo_query, jc_watch = (\<lambda>_. ''watch''), jc_resume = (\<lambda>_. ''resume''), jc_response = (\<lambda>text. Ok (echo_answer text)),
      jc_heads = (\<lambda>_. Ok \<lparr>ch_chain = ''dev'', ch_latest = 9, ch_latest_hash = 0, ch_safe = 9, ch_finalized = 9\<rparr>), jc_all_heads = (\<lambda>_. Err ''no heads''),
      jc_watched = (\<lambda>_. Err ''no watch''), jc_resumed = (\<lambda>_. Err ''no resume''), jc_error = (\<lambda>_. None)\<rparr> demo_hex (\<lambda>_ d. d)"

lemma echo_call: "call_text echo_client hc t = (Ok (case hc_body hc of None \<Rightarrow> [] | Some b \<Rightarrow> b), t + 1)"
  by (simp add: call_text_def call_text_loop.simps send_once_def echo_client_def client_new_def checked_def)

lemma echo_client_query: "client_query echo_client rq t = (Ok (echo_answer (echo_query rq)), t + 1)"
  by (simp add: client_query_def sdk_call_def echo_call http_post_def map_err_def) (simp add: echo_client_def client_new_def)

lemma echo_range_query:
  assumes "range_ok (rq_range rq)"
  shows "echo_range (echo_query rq) = rq_range rq"
proof -
  have "takeWhile (\<lambda>c. c = CHR ''a'') (replicate n (CHR ''a'') @ replicate m (CHR ''b'')) = replicate n (CHR ''a'')" for n m
    by (induction n) (cases m; simp)+
  then show ?thesis using assms by (simp add: echo_range_def echo_query_def range_ok_def)
qed

lemma echo_source: "query_source (client_query echo_client)"
proof
  fix rq s resp s'
  assume "client_query echo_client rq s = (Ok resp, s')" and ok: "range_ok (rq_range rq)"
  then have resp: "resp = echo_answer (echo_query rq)" by (simp add: echo_client_query)
  have hd: "(hd (echo_query rq) = CHR ''l'') = (rq_finality rq = LatestOnly)" by (simp add: echo_query_def)
  have "answer_shape rq \<lparr>latest = br_end (rq_range rq), latest_hash = 0, safe = br_end (rq_range rq), finalized = br_end (rq_range rq)\<rparr> resp"
    using ok by (auto simp: answer_shape_def resp echo_answer_def Let_def echo_range_query hd first_block_def segment_right_def range_ok_def)
  then show "\<exists>h. answer_shape rq h resp" by blast
qed

definition echo_request :: follow_request where
  "echo_request = (follow_request_blocks ''dev'' 3)\<lparr>fq_end := Some 4\<rparr>"

lemma echo_items: "\<exists>fl. items echo_client echo_request 2 (follower_new echo_request 0) = Some ([Ok (Batch (echo_answer ''daaabb''))], fl)"
proof -
  have enc: "echo_query (chunk_request echo_request (rng 3 4)) = ''daaabb''"
    by (simp add: echo_query_def chunk_request_def echo_request_def follow_request_blocks_def follow_request_new_def numeral_eq_Suc)
  have ans: "rs_served (echo_answer ''daaabb'') = Some (rng 3 4)" "rs_next_start (echo_answer ''daaabb'') = None"
    "rs_incomplete_reason (echo_answer ''daaabb'') = None" "pi_next_cursor (rs_page (echo_answer ''daaabb'')) = None"
    by (simp_all add: echo_answer_def echo_range_def Let_def numeral_eq_Suc)
  have all: "query_all echo_client (chunk_request echo_request (rng 3 4)) t = Some (Ok (echo_answer ''daaabb''), t + 1)" for t
    by (simp add: query_all_def query_all_loop.simps read_pages_def echo_client_query enc pages_loop_last ans)
  have heads: "client_heads echo_client chain t = (Ok \<lparr>ch_chain = ''dev'', ch_latest = 9, ch_latest_hash = 0, ch_safe = 9, ch_finalized = 9\<rparr>, t + 1)" for chain t
    by (simp add: client_heads_def sdk_call_def echo_call http_get_def authed_def map_err_def) (simp add: echo_client_def client_new_def)
  note fields = echo_request_def follow_request_blocks_def follow_request_new_def
  have kind: "follow_head_kind echo_request = HkSafe" "fq_finality echo_request = DurableOnly" "up_to_end echo_request 9 = 4"
    "fq_chunk_blocks echo_request = 1000" "fq_end echo_request = Some 4" "fq_start echo_request = 3"
    by (simp_all add: follow_head_kind_def fields up_to_end_def)
  obtain fl1 where step: "follower_step echo_client echo_request (follower_new echo_request 0) = Some (Ok (), fl1)"
    and fl1: "fl_events fl1 = [Batch (echo_answer ''daaabb'')]" "fl_next fl1 = 5" "fl_done fl1 = False" "fl_heads fl1 = None"
    by (simp add: follower_step_def follower_new_def kind heads with_heads_def read_chunk_def sat_add_def u64_max_def MAX_END_value range_new_def all
        take_answer_def resume_at_def unserved_to_def ans follower_skip_def emit_def Let_def)
  have pause: "(follower_new echo_request 0)\<lparr>fl_pause := None\<rparr> = follower_new echo_request 0" by (simp add: follower_new_def)
  have start: "fl_events (follower_new echo_request 0) = []" "\<not> fl_done (follower_new echo_request 0)" by (simp_all add: follower_new_def)
  have "follower_next_item echo_client echo_request (follower_new echo_request 0) = follower_next_item echo_client echo_request fl1"
    by (subst follower_next_item.simps) (simp add: start pause step)
  also have "\<dots> = Some (Some (Ok (Batch (echo_answer ''daaabb''))), fl1\<lparr>fl_events := []\<rparr>)" by (subst follower_next_item.simps) (simp add: fl1)
  finally have one: "follower_next_item echo_client echo_request (follower_new echo_request 0) = \<dots>" .
  have "\<exists>fl. follower_next_item echo_client echo_request (fl1\<lparr>fl_events := []\<rparr>) = Some (None, fl)"
    by (subst follower_next_item.simps) (simp add: fl1 follower_step_def kind, subst follower_next_item.simps, simp)
  then show ?thesis by (auto simp: numeral_2_eq_2 one)
qed

theorem follow_stream_has_no_gap_witness:
  "\<exists>fl. items echo_client echo_request 2 (follower_new echo_request 0) = Some ([Ok (Batch (echo_answer ''daaabb''))], fl) \<and>
     reports 3 (reported [Ok (Batch (echo_answer ''daaabb''))] @ fl_events fl) = Some (fl_next fl) \<and> fl_next fl \<le> 5"
proof -
  obtain fl where run: "items echo_client echo_request 2 (follower_new echo_request 0) = Some ([Ok (Batch (echo_answer ''daaabb''))], fl)"
    using echo_items by blast
  have "fq_start echo_request = 3" "fq_end echo_request = Some 4"
    by (simp_all add: echo_request_def follow_request_blocks_def follow_request_new_def)
  then show ?thesis using follow_stream_has_no_gap [OF echo_source run] run by auto
qed

end
