(* ===== verification/Notify.thy ===== *)
theory Notify
  imports Jobs Heads_Store
begin

text \<open>
  Waiting for a change, \<open>crates/store/src/notify.rs\<close>: a check is repeated on each notification it cares
  about and at least once per \<open>RECHECK\<close>. Time is in milliseconds. The receiver is the list of what it
  will yield, each with the time from which it is there; a closed receiver stays closed. A check
  reads the state at its moment and takes no time. The listener connection and its task are
  arguments: they decide which wakes arrive.
\<close>

section \<open>The wait\<close>

definition FILL_DONE :: string where "FILL_DONE = ''fill_done''"
definition HEADS :: string where "HEADS = ''heads''"
definition RECHECK :: nat where "RECHECK = 1000"

datatype recv = Note string string | Resync | Lagged | RecvClosed

type_synonym receiver = "(nat \<times> recv) list"

text \<open>One slice: until a wake that counts, or its end.\<close>

fun wait_slice :: "(string \<Rightarrow> string \<Rightarrow> bool) \<Rightarrow> nat \<Rightarrow> nat \<Rightarrow> receiver \<Rightarrow> nat \<times> receiver" where
  "wait_slice relevant slice_end now [] = (slice_end, [])"
| "wait_slice relevant slice_end now ((at, w) # ws) =
     (if slice_end < at then (slice_end, (at, w) # ws)
      else case w of
        Note channel payload \<Rightarrow>
          if relevant channel payload then (max now at, ws) else wait_slice relevant slice_end (max now at) ws
      | Resync \<Rightarrow> (max now at, ws)
      | Lagged \<Rightarrow> (max now at, ws)
      | RecvClosed \<Rightarrow> (slice_end, (at, w) # ws))"

lemma wait_slice_bounds:
  "wait_slice relevant e now ws = (now', ws') \<Longrightarrow> now \<le> e \<Longrightarrow> now \<le> now' \<and> now' \<le> e \<and> length ws' \<le> length ws \<and> (now' = e \<or> length ws' < length ws)"
proof (induction relevant e now ws arbitrary: now' ws' rule: wait_slice.induct)
  case (2 relevant e now at w ws)
  show ?case
  proof (cases "e < at")
    case in_time: False
    have rest: "now' \<ge> max now at \<and> now' \<le> e \<and> length ws' \<le> length ws"
      if "wait_slice relevant e (max now at) ws = (now', ws')" "w = Note c p" "\<not> relevant c p" for c p
      using 2(1) [OF in_time that(2,3,1)] 2(3) in_time by simp
    show ?thesis
    proof (cases w)
      case (Note c p)
      then show ?thesis using 2(2,3) in_time rest [of c p] by (cases "relevant c p") auto
    qed (use 2(2,3) in_time in auto)
  qed (use 2 in auto)
qed simp

function wait_loop ::
  "(nat \<Rightarrow> ('a option, 'e) result) \<Rightarrow> (string \<Rightarrow> string \<Rightarrow> bool) \<Rightarrow> nat \<Rightarrow> nat \<Rightarrow> receiver \<Rightarrow> ('a option, 'e) result \<times> nat" where
  "wait_loop check relevant deadline now ws =
     (case check now of
        Inl e \<Rightarrow> (Err e, now)
      | Inr (Some v) \<Rightarrow> (Ok (Some v), now)
      | Inr None \<Rightarrow>
          if deadline \<le> now then (Ok None, now)
          else (case wait_slice relevant (min deadline (now + RECHECK)) now ws of
                  (now', ws') \<Rightarrow> wait_loop check relevant deadline now' ws'))"
  by pat_completeness auto

termination
proof (relation "measure (\<lambda>(check, relevant, deadline, now, ws). (deadline - now) + length ws)", goal_cases)
  case (2 check relevant deadline now ws x now' ws')
  then have "now \<le> now' \<and> now' \<le> min deadline (now + RECHECK) \<and> length ws' \<le> length ws \<and>
      (now' = min deadline (now + RECHECK) \<or> length ws' < length ws)"
    by (intro wait_slice_bounds) auto
  then show ?case using 2(3) by (auto simp: RECHECK_def)
qed simp

declare wait_loop.simps [simp del]

definition wait_until ::
  "(nat \<Rightarrow> ('a option, 'e) result) \<Rightarrow> (string \<Rightarrow> string \<Rightarrow> bool) \<Rightarrow> nat \<Rightarrow> nat \<Rightarrow> receiver \<Rightarrow> ('a option, 'e) result \<times> nat" where
  "wait_until check relevant timeout now ws = wait_loop check relevant (now + timeout) now ws"

section \<open>The two waits of the store\<close>

fun debug_items :: "string list \<Rightarrow> string" where
  "debug_items [] = []"
| "debug_items [x] = x"
| "debug_items (x # y # zs) = x @ '', '' @ debug_items (y # zs)"

definition debug_ids :: "job_id list \<Rightarrow> string" where
  "debug_ids ids = ''['' @ debug_items (map (\<lambda>i. ''JobId('' @ show_int i @ '')'') ids) @ '']''"

text \<open>The tables are read as they are at each moment.\<close>

definition wait_done ::
  "(nat \<Rightarrow> jobs_table) \<Rightarrow> job_id list \<Rightarrow> nat \<Rightarrow> nat \<Rightarrow> receiver \<Rightarrow> (job_state list, store_error) result \<times> nat" where
  "wait_done hist ids timeout now ws =
     (if ids = [] then (Ok [], now)
      else case wait_until (\<lambda>t. wait_done_check (hist t) ids)
               (\<lambda>channel payload. channel = FILL_DONE \<and> payload \<in> show_int ` set ids) timeout now ws of
             (r, t) \<Rightarrow> (and_then r (ok_or (StTimeout (''fill jobs '' @ debug_ids ids @ '' not done''))), t))"

definition wait_head_change ::
  "(nat \<Rightarrow> heads_table) \<Rightarrow> chain_id \<Rightarrow> u64 \<Rightarrow> head_kind \<Rightarrow> nat \<Rightarrow> nat \<Rightarrow> receiver \<Rightarrow> (heads, store_error) result \<times> nat" where
  "wait_head_change hist chain after kind timeout now ws =
     (case wait_until (\<lambda>t. Ok (head_change_check (hist t) chain after kind))
             (\<lambda>channel payload. channel = HEADS \<and> payload = show_int chain) timeout now ws of
        (r, t) \<Rightarrow> (and_then r (ok_or (StTimeout (''chain '' @ show_int chain @ '' head''))), t))"

section \<open>A wait ends in time\<close>

lemma wait_loop_outcome:
  assumes "wait_loop check relevant deadline now ws = (r, t)" and "now \<le> deadline"
  shows "check t = r \<and> now \<le> t \<and> t \<le> deadline \<and> (r = Ok None \<longrightarrow> t = deadline) \<and>
    ((\<forall>u\<ge>t1. check u \<noteq> Ok None) \<longrightarrow> t = now \<or> t < t1 + RECHECK)"
  using assms
proof (induction check relevant deadline now ws rule: wait_loop.induct)
  case (1 check relevant deadline now ws)
  show ?case
  proof (cases "check now = Ok None \<and> now < deadline")
    case False
    then show ?thesis using 1(2,3) by (auto simp: wait_loop.simps [of check relevant deadline now ws] split: sum.splits option.splits if_splits)
  next
    case True
    let ?e = "min deadline (now + RECHECK)"
    obtain now' ws' where slice: "wait_slice relevant ?e now ws = (now', ws')" by force
    have bounds: "now \<le> now'" "now' \<le> ?e" using wait_slice_bounds [OF slice] True by (auto simp: RECHECK_def)
    have "wait_loop check relevant deadline now' ws' = (r, t)"
      using 1(2) True slice by (simp add: wait_loop.simps [of check relevant deadline now ws])
    with 1(1) [OF _ refl _ slice [symmetric]] True bounds
    have ih: "check t = r \<and> now' \<le> t \<and> t \<le> deadline \<and> (r = Ok None \<longrightarrow> t = deadline) \<and>
        ((\<forall>u\<ge>t1. check u \<noteq> Ok None) \<longrightarrow> t = now' \<or> t < t1 + RECHECK)" by auto
    have "now < t1" if "\<forall>u\<ge>t1. check u \<noteq> Ok None" using that True by (metis leI)
    then show ?thesis using ih bounds by fastforce
  qed
qed

text \<open>
  C16. A wait ends by its deadline with what the check says at that moment, and with nothing only at
  the deadline itself. Whatever notifications are lost, delayed or about something else, a result
  that is there from some moment on is returned less than \<open>RECHECK\<close> after it.
\<close>

theorem wait_until_prompt:
  assumes "wait_until check relevant timeout now ws = (r, t)"
  shows "check t = r \<and> now \<le> t \<and> t \<le> now + timeout \<and> (r = Ok None \<longrightarrow> t = now + timeout) \<and>
    (\<forall>t1. (\<forall>u\<ge>t1. check u \<noteq> Ok None) \<longrightarrow> t = now \<or> t < t1 + RECHECK)"
  using wait_loop_outcome [of check relevant "now + timeout" now ws r t] assms by (auto simp: wait_until_def)

theorem wait_until_prompt_witness:
  "\<exists>r t. wait_until (\<lambda>u. Ok (if u < 1500 then None else Some ()) :: (unit option, store_error) result) (\<lambda>_ _. False) 5000 0 [(700, Note HEADS ''1'')] = (r, t) \<and>
     1500 \<le> t \<and> t < 1500 + RECHECK"
proof -
  let ?check = "\<lambda>u::nat. Ok (if u < 1500 then None else Some ()) :: (unit option, store_error) result"
  obtain r t where out: "wait_until ?check (\<lambda>_ _. False) 5000 0 [(700, Note HEADS ''1'')] = (r, t)" by force
  note w = wait_until_prompt [OF out]
  have "t = 0 \<or> t < 1500 + RECHECK" using w by auto
  moreover have "1500 \<le> t"
  proof (rule ccontr)
    assume "\<not> 1500 \<le> t"
    moreover from this have "r = Ok None" using w by auto
    ultimately show False using w by auto
  qed
  ultimately show ?thesis using out by auto
qed

end
