(* ===== verification/Election.thy ===== *)
theory Election
  imports Transition
begin

text \<open>
  How the replicas of a deployment elect the leader of one chain, \<open>run_chain_leader\<close> and \<open>lead\<close> of
  \<open>crates/engine/src/leader.rs\<close>. Each replica works through its own session of the database; the
  advisory lock is held by a session and goes with it when the session ends, which may happen at any
  moment, before or after the replica notices. What a tick does is the subject of \<open>Leader\<close>; here a
  tick begins and ends.
\<close>

section \<open>State\<close>

type_synonym replica = nat

text \<open>
  \<open>Away\<close>: outside \<open>lead\<close>, about to call it or asleep after an error. \<open>Asking\<close>: in the loop around
  \<open>pg_try_advisory_lock\<close>. \<open>Elected\<close>: waiting for the interval. \<open>Ticking\<close>: inside \<open>tick\<close>. \<open>Probing\<close>: before
  \<open>select 1\<close>. \<open>Stopped\<close>: returned.
\<close>

datatype phase = Away | Asking | Elected | Ticking | Probing | Stopped

record election =
  el_phase :: "replica \<Rightarrow> phase"
  el_session :: "replica \<Rightarrow> nat"
  el_open :: "nat \<Rightarrow> bool"
  el_lock :: "nat option"
  el_fresh :: nat
  el_stale :: "replica \<Rightarrow> nat"

text \<open>\<open>el_stale\<close> counts the ticks a replica began after its session had ended.\<close>

definition election_start :: election where
  "election_start = \<lparr>el_phase = (\<lambda>_. Away), el_session = (\<lambda>_. 0), el_open = (\<lambda>_. False), el_lock = None, el_fresh = 0, el_stale = (\<lambda>_. 0)\<rparr>"

definition enter :: "replica \<Rightarrow> phase \<Rightarrow> election \<Rightarrow> election" where
  "enter i p x = x\<lparr>el_phase := (el_phase x)(i := p)\<rparr>"

definition own_open :: "election \<Rightarrow> replica \<Rightarrow> bool" where
  "own_open x i = el_open x (el_session x i)"

section \<open>The sections of \<open>lead\<close>\<close>

text \<open>\<open>pool().acquire()\<close>: a session of its own.\<close>

definition acquire :: "replica \<Rightarrow> election \<Rightarrow> election" where
  "acquire i x =
     enter i Asking (x\<lparr>el_session := (el_session x)(i := el_fresh x), el_open := (el_open x)(el_fresh x := True),
       el_fresh := el_fresh x + 1, el_stale := (el_stale x)(i := 0)\<rparr>)"

definition end_session :: "nat \<Rightarrow> election \<Rightarrow> election" where
  "end_session s x = x\<lparr>el_open := (el_open x)(s := False), el_lock := (if el_lock x = Some s then None else el_lock x)\<rparr>"

definition try_lock :: "replica \<Rightarrow> election \<Rightarrow> election" where
  "try_lock i x =
     (if el_lock x = None \<or> el_lock x = Some (el_session x i)
      then enter i Elected (x\<lparr>el_lock := Some (el_session x i)\<rparr>) else x)"

definition begin_tick :: "replica \<Rightarrow> election \<Rightarrow> election" where
  "begin_tick i x =
     enter i Ticking (x\<lparr>el_stale := (el_stale x)(i := el_stale x i + (if own_open x i then 0 else 1))\<rparr>)"

definition unlock_and_close :: "replica \<Rightarrow> election \<Rightarrow> election" where
  "unlock_and_close i x = enter i Stopped (end_session (el_session x i) x)"

inductive leader_step :: "election \<Rightarrow> election \<Rightarrow> bool" where
  acquired: "el_phase x i = Away \<Longrightarrow> leader_step x (acquire i x)"
| asked: "el_phase x i = Asking \<Longrightarrow> own_open x i \<Longrightarrow> leader_step x (try_lock i x)"
| ask_failed: "el_phase x i = Asking \<Longrightarrow> leader_step x (enter i Away x)"
| gave_up: "el_phase x i = Asking \<Longrightarrow> leader_step x (enter i Stopped (end_session (el_session x i) x))"
| ticks: "el_phase x i = Elected \<Longrightarrow> leader_step x (begin_tick i x)"
| ticked: "el_phase x i = Ticking \<Longrightarrow> leader_step x (enter i Probing x)"
| probed: "el_phase x i = Probing \<Longrightarrow> own_open x i \<Longrightarrow> leader_step x (enter i Elected x)"
| lost: "el_phase x i = Probing \<Longrightarrow> leader_step x (enter i Away x)"
| stops: "el_phase x i = Elected \<Longrightarrow> leader_step x (unlock_and_close i x)"
| quits: "el_phase x i = Away \<Longrightarrow> leader_step x (enter i Stopped x)"
| session_ends: "leader_step x (end_session s x)"

inductive_cases leader_stepE: "leader_step x y"

section \<open>One leader\<close>

definition leads :: "election \<Rightarrow> replica \<Rightarrow> bool" where
  "leads x i = (el_phase x i \<in> {Elected, Ticking, Probing})"

definition connected :: "election \<Rightarrow> replica \<Rightarrow> bool" where
  "connected x i = (leads x i \<or> el_phase x i = Asking)"

definition replica_ok :: "election \<Rightarrow> replica \<Rightarrow> bool" where
  "replica_ok x i =
     ((leads x i \<and> own_open x i \<longrightarrow> el_lock x = Some (el_session x i)) \<and> (connected x i \<longrightarrow> el_session x i < el_fresh x) \<and>
      (connected x i \<and> own_open x i \<longrightarrow> el_stale x i = 0) \<and> (el_phase x i \<in> {Asking, Elected} \<longrightarrow> el_stale x i = 0) \<and> el_stale x i \<le> 1)"

definition election_inv :: "election \<Rightarrow> bool" where
  "election_inv x =
     ((\<forall>i. replica_ok x i) \<and> (\<forall>s. el_open x s \<longrightarrow> s < el_fresh x) \<and>
      (\<forall>i j. connected x i \<and> connected x j \<and> el_session x i = el_session x j \<longrightarrow> i = j))"

lemma election_invI:
  assumes "\<And>j. replica_ok y j" and "\<And>s. el_open y s \<Longrightarrow> s < el_fresh y"
    and "\<And>j k. connected y j \<Longrightarrow> connected y k \<Longrightarrow> el_session y j = el_session y k \<Longrightarrow> j = k"
  shows "election_inv y"
  using assms by (simp add: election_inv_def)

lemma election_invD:
  assumes "election_inv x"
  shows "replica_ok x j" and "el_open x s \<Longrightarrow> s < el_fresh x"
    and "connected x j \<Longrightarrow> connected x k \<Longrightarrow> el_session x j = el_session x k \<Longrightarrow> j = k"
  using assms by (simp_all add: election_inv_def)

text \<open>What the step of another replica leaves of a replica's own state.\<close>

lemma replica_ok_frame:
  assumes "replica_ok x j" and "el_phase y j = el_phase x j" and "el_session y j = el_session x j" and "el_stale y j = el_stale x j"
    and "el_fresh x \<le> el_fresh y" and "connected x j \<Longrightarrow> own_open y j \<Longrightarrow> own_open x j"
    and "leads x j \<Longrightarrow> own_open y j \<Longrightarrow> el_lock x = Some (el_session x j) \<Longrightarrow> el_lock y = Some (el_session x j)"
  shows "replica_ok y j"
proof -
  have same: "leads y j = leads x j" "connected y j = connected x j" "own_open y j \<Longrightarrow> connected x j \<Longrightarrow> own_open x j"
    using assms(2,6) by (simp_all add: leads_def connected_def)
  have x: "leads x j \<Longrightarrow> own_open x j \<Longrightarrow> el_lock x = Some (el_session x j)" "connected x j \<Longrightarrow> el_session x j < el_fresh x"
    "connected x j \<Longrightarrow> own_open x j \<Longrightarrow> el_stale x j = 0" "el_phase x j \<in> {Asking, Elected} \<Longrightarrow> el_stale x j = 0" "el_stale x j \<le> 1"
    using assms(1) by (simp_all add: replica_ok_def)
  have "leads x j \<Longrightarrow> connected x j" by (simp add: connected_def)
  then show ?thesis unfolding replica_ok_def same(1,2) assms(2-4) using x same(3) assms(5,7) by (meson order_less_le_trans)
qed

lemma enter_fields [simp]:
  "el_phase (enter i p x) = (el_phase x)(i := p)" "el_session (enter i p x) = el_session x" "el_open (enter i p x) = el_open x"
  "el_lock (enter i p x) = el_lock x" "el_fresh (enter i p x) = el_fresh x" "el_stale (enter i p x) = el_stale x"
  "own_open (enter i p x) j = own_open x j"
  by (simp_all add: enter_def own_open_def)

lemma connected_enter: "connected (enter i p x) j = (if j = i then p \<in> {Asking, Elected, Ticking, Probing} else connected x j)"
  by (auto simp: connected_def leads_def)

text \<open>A step that only moves the phase of one replica.\<close>

lemma enter_inv:
  assumes inv: "election_inv x" and own: "replica_ok (enter i p x) i" and conn: "p \<in> {Away, Stopped} \<or> connected x i"
  shows "election_inv (enter i p x)"
proof (rule election_invI)
  fix j show "replica_ok (enter i p x) j"
    by (cases "j = i") (use own replica_ok_frame [OF election_invD(1) [OF inv], where y = "enter i p x"] in auto)
next
  fix j k assume "connected (enter i p x) j" "connected (enter i p x) k" "el_session (enter i p x) j = el_session (enter i p x) k"
  then show "j = k" using election_invD(3) [OF inv] conn by (auto simp: connected_enter split: if_splits)
qed (use election_invD(2) [OF inv] in simp)

lemma end_session_inv:
  assumes inv: "election_inv x"
  shows "election_inv (end_session s x)"
proof (rule election_invI)
  fix j show "replica_ok (end_session s x) j"
    by (rule replica_ok_frame [OF election_invD(1) [OF inv]]) (auto simp: end_session_def own_open_def split: if_splits)
qed (use election_invD(2,3) [OF inv] in \<open>auto simp: end_session_def connected_def leads_def split: if_splits\<close>)

lemma acquire_inv:
  assumes inv: "election_inv x" and away: "el_phase x i = Away"
  shows "election_inv (acquire i x)"
proof (rule election_invI)
  fix j show "replica_ok (acquire i x) j"
  proof (cases "j = i")
    case False
    show ?thesis
      by (rule replica_ok_frame [OF election_invD(1) [OF inv]])
         (use False election_invD(1) [OF inv, of j] in \<open>auto simp: acquire_def own_open_def replica_ok_def split: if_splits\<close>)
  qed (simp add: acquire_def replica_ok_def leads_def connected_def)
next
  fix s assume "el_open (acquire i x) s"
  then show "s < el_fresh (acquire i x)" using election_invD(2) [OF inv, of s] by (auto simp: acquire_def split: if_splits)
next
  fix j k assume jk: "connected (acquire i x) j" "connected (acquire i x) k" "el_session (acquire i x) j = el_session (acquire i x) k"
  have below: "el_session x m < el_fresh x" if "connected x m" for m using election_invD(1) [OF inv, of m] that by (simp add: replica_ok_def)
  have conn: "connected x m" "el_session (acquire i x) m = el_session x m" if "m \<noteq> i" "connected (acquire i x) m" for m
    using that by (auto simp: acquire_def connected_def leads_def)
  have new: "el_session (acquire i x) i = el_fresh x" by (simp add: acquire_def)
  show "j = k" using jk conn [of j] conn [of k] below [of j] below [of k] new election_invD(3) [OF inv, of j k]
    by (cases "j = i"; cases "k = i") auto
qed

lemma try_lock_inv:
  assumes inv: "election_inv x" and asking: "el_phase x i = Asking" "own_open x i"
  shows "election_inv (try_lock i x)"
proof (cases "el_lock x = None \<or> el_lock x = Some (el_session x i)")
  case True
  let ?y = "enter i Elected (x\<lparr>el_lock := Some (el_session x i)\<rparr>)"
  have conn: "connected ?y j = connected x j" for j using asking(1) by (auto simp: connected_def leads_def)
  have "election_inv ?y"
  proof (rule election_invI)
    fix j show "replica_ok ?y j"
    proof (cases "j = i")
      case False
      show ?thesis
        by (rule replica_ok_frame [OF election_invD(1) [OF inv]])
           (use False True election_invD(3) [OF inv, of j i] asking in \<open>auto simp: own_open_def connected_def\<close>)
    qed (use election_invD(1) [OF inv, of i] asking in \<open>auto simp: replica_ok_def connected_def leads_def own_open_def\<close>)
  next
    fix j k assume "connected ?y j" "connected ?y k" "el_session ?y j = el_session ?y k"
    then show "j = k" using election_invD(3) [OF inv, of j k] conn by simp
  qed (use election_invD(2) [OF inv] in simp)
  then show ?thesis unfolding try_lock_def if_P [OF True] .
next
  case False
  then show ?thesis unfolding try_lock_def if_not_P [OF False] using inv by simp
qed

lemma begin_tick_inv:
  assumes inv: "election_inv x" and elected: "el_phase x i = Elected"
  shows "election_inv (begin_tick i x)"
proof (rule election_invI)
  fix j show "replica_ok (begin_tick i x) j"
  proof (cases "j = i")
    case False
    show ?thesis
      by (rule replica_ok_frame [OF election_invD(1) [OF inv]]) (use False in \<open>auto simp: begin_tick_def own_open_def\<close>)
  qed (use election_invD(1) [OF inv, of i] elected in \<open>auto simp: begin_tick_def replica_ok_def connected_def leads_def own_open_def\<close>)
next
  fix j k assume jk: "connected (begin_tick i x) j" "connected (begin_tick i x) k" "el_session (begin_tick i x) j = el_session (begin_tick i x) k"
  have "connected (begin_tick i x) m = connected x m" for m using elected by (auto simp: begin_tick_def connected_def leads_def)
  then show "j = k" using jk election_invD(3) [OF inv, of j k] by (simp add: begin_tick_def)
qed (use election_invD(2) [OF inv] in \<open>simp add: begin_tick_def\<close>)

lemma leader_step_inv:
  assumes inv: "election_inv x" and "leader_step x y"
  shows "election_inv y"
proof -
  have own: "replica_ok x i" for i by (rule election_invD(1) [OF inv])
  have idle: "replica_ok (enter i p z) i" if "p \<in> {Away, Stopped}" "el_stale z i = el_stale x i" for i p z
    using own [of i] that by (auto simp: replica_ok_def leads_def connected_def)
  show ?thesis
    using assms(2)
  proof cases
    case (acquired i) then show ?thesis using acquire_inv [OF inv] by simp
  next
    case (asked i) then show ?thesis using try_lock_inv [OF inv] by simp
  next
    case (ask_failed i) then show ?thesis using enter_inv [OF inv idle] by simp
  next
    case (gave_up i) then show ?thesis using enter_inv [OF end_session_inv [OF inv] idle] by (simp add: end_session_def)
  next
    case (ticks i) then show ?thesis using begin_tick_inv [OF inv] by simp
  next
    case (ticked i)
    then have "replica_ok (enter i Probing x) i" using own [of i] by (auto simp: replica_ok_def leads_def connected_def)
    then show ?thesis using enter_inv [OF inv] ticked by (simp add: connected_def leads_def)
  next
    case (probed i)
    then have "replica_ok (enter i Elected x) i" using own [of i] by (auto simp: replica_ok_def leads_def connected_def)
    then show ?thesis using enter_inv [OF inv] probed by (simp add: connected_def leads_def)
  next
    case (lost i) then show ?thesis using enter_inv [OF inv idle] by simp
  next
    case (stops i) then show ?thesis using enter_inv [OF end_session_inv [OF inv] idle] by (simp add: unlock_and_close_def end_session_def)
  next
    case (quits i) then show ?thesis using enter_inv [OF inv idle] by simp
  next
    case (session_ends s) then show ?thesis using end_session_inv [OF inv] by simp
  qed
qed

interpretation chain_election: invariant_system "\<lambda>x. x = election_start" leader_step election_inv
proof unfold_locales
  show "election_inv x" if "x = election_start" for x
    unfolding that by (simp add: election_inv_def replica_ok_def leads_def connected_def election_start_def)
qed (rule leader_step_inv)

text \<open>
  C13. Of any number of replicas at most one leads a chain through a session that is still open, and
  that session holds the chain's lock. A replica whose session has ended, and whose lock another
  replica may already have, begins at most one more tick before it steps down.
\<close>

theorem one_leader_per_chain:
  assumes "leader_step\<^sup>*\<^sup>* election_start x"
  shows "(leads x i \<and> own_open x i \<longrightarrow> el_lock x = Some (el_session x i)) \<and>
    (leads x i \<and> own_open x i \<and> leads x j \<and> own_open x j \<longrightarrow> i = j) \<and> el_stale x i \<le> 1"
proof -
  have inv: "election_inv x" using chain_election.reachable_inv [OF refl assms] .
  have lock: "el_lock x = Some (el_session x k)" if "leads x k" "own_open x k" for k
    using election_invD(1) [OF inv, of k] that by (simp add: replica_ok_def)
  have "i = j" if "leads x i" "own_open x i" "leads x j" "own_open x j"
    using election_invD(3) [OF inv, of i j] lock [OF that(1,2)] lock [OF that(3,4)] that by (simp add: connected_def)
  then show ?thesis using lock election_invD(1) [OF inv, of i] by (auto simp: replica_ok_def)
qed

section \<open>Two ticks may overlap\<close>

text \<open>
  Replica 0 is elected, its session ends while it waits for the interval, replica 1 is elected,
  and both begin a tick.
\<close>

definition overtaken :: election where
  "overtaken = try_lock 1 (acquire 1 (end_session 0 (try_lock 0 (acquire 0 election_start))))"

definition overlap :: election where
  "overlap = begin_tick 1 (begin_tick 0 overtaken)"

lemmas election_defs = own_open_def enter_def end_session_def acquire_def try_lock_def begin_tick_def election_start_def

lemma overtaken_fields:
  "el_phase overtaken 0 = Elected" "el_phase overtaken 1 = Elected" "el_open overtaken 0 = False" "el_open overtaken 1 = True"
  "el_session overtaken 0 = 0" "el_session overtaken 1 = 1" "el_stale overtaken 0 = 0"
  by (simp_all add: overtaken_def election_defs)

lemma overtaken_reachable: "leader_step\<^sup>*\<^sup>* election_start overtaken"
proof -
  let ?a = "acquire 0 election_start" let ?b = "try_lock 0 ?a" let ?c = "end_session 0 ?b" let ?d = "acquire 1 ?c"
  have "leader_step election_start ?a" by (rule leader_step.acquired) (simp add: election_defs)
  moreover have "leader_step ?a ?b" by (rule leader_step.asked) (simp_all add: election_defs)
  moreover have "leader_step ?b ?c" by (rule leader_step.session_ends)
  moreover have "leader_step ?c ?d" by (rule leader_step.acquired) (simp add: election_defs)
  moreover have "leader_step ?d overtaken" unfolding overtaken_def by (rule leader_step.asked) (simp_all add: election_defs)
  ultimately show ?thesis by (meson r_into_rtranclp rtranclp.rtrancl_into_rtrancl)
qed

lemma overlap_reachable: "leader_step\<^sup>*\<^sup>* election_start overlap"
proof -
  have "leader_step overtaken (begin_tick 0 overtaken)" by (rule leader_step.ticks) (rule overtaken_fields)
  moreover have "leader_step (begin_tick 0 overtaken) overlap"
    unfolding overlap_def by (rule leader_step.ticks) (simp add: begin_tick_def overtaken_fields overtaken_fields [simplified])
  ultimately show ?thesis using overtaken_reachable by (meson rtranclp.rtrancl_into_rtrancl)
qed

text \<open>The lock does not keep two replicas from being inside a tick at one time.\<close>

theorem ticks_may_overlap:
  "\<exists>x. leader_step\<^sup>*\<^sup>* election_start x \<and> el_phase x 0 = Ticking \<and> el_phase x 1 = Ticking"
  using overlap_reachable by (intro exI [of _ overlap]) (simp add: overlap_def begin_tick_def overtaken_fields overtaken_fields [simplified])

theorem one_leader_per_chain_witness:
  "leads overlap 1 \<and> own_open overlap 1 \<and> el_lock overlap = Some 1 \<and> el_stale overlap 0 = 1 \<and> el_stale overlap 0 \<le> 1"
proof -
  have "leads overlap 1" "own_open overlap 1" "el_session overlap 1 = 1" "el_stale overlap 0 = 1"
    by (simp_all add: overlap_def begin_tick_def overtaken_fields overtaken_fields [simplified] leads_def own_open_def)
  moreover have "leads overlap 1 \<and> own_open overlap 1 \<longrightarrow> el_lock overlap = Some (el_session overlap 1)"
    using one_leader_per_chain [OF overlap_reachable, of 1 1] by (rule conjunct1)
  moreover have "el_stale overlap 0 \<le> 1" using one_leader_per_chain [OF overlap_reachable, of 0 0] by blast
  ultimately show ?thesis by metis
qed

end
