(* ===== verification/Worker_Loop.thy ===== *)
theory Worker_Loop
  imports Fill
begin

text \<open>
  The loop of a fill worker, \<open>run_fill_worker\<close> of \<open>crates/engine/src/worker.rs\<close>, turn by turn. Where the
  shutdown signal falls is an argument; one that falls into a batch cuts the work short at whatever
  state the database has then. The waits between turns take time only.
\<close>

section \<open>One turn\<close>

datatype shutdown = NoShutdown | BeforeClaim | WhileIdle | InBatch "db \<Rightarrow> db"

definition worker_turn ::
  "int \<Rightarrow> nat \<Rightarrow> nat \<Rightarrow> job_id list \<Rightarrow> engine \<Rightarrow> db \<Rightarrow> (db \<Rightarrow> db) \<Rightarrow> string \<Rightarrow> shutdown \<Rightarrow> bool \<times> db \<times> engine" where
  "worker_turn now today t locked en d others worker stop =
     (if stop = BeforeClaim then (False, d, en)
      else case claim_batch now locked en d worker of
        (Inr (Some jobs), d') \<Rightarrow>
          (case stop of
             InBatch halted_at \<Rightarrow>
               (False, (halted_at d')\<lparr>db_jobs := release_jobs now (db_jobs (halted_at d')) worker (map j_id jobs)\<rparr>, en)
           | _ \<Rightarrow> (case execute now today t en d' (others d') worker jobs of (d'', en') \<Rightarrow> (True, d'', en')))
      | (_, d') \<Rightarrow> (stop \<noteq> WhileIdle, d', en))"

section \<open>A batch cut short is free again\<close>

definition released :: "int \<Rightarrow> job_row \<Rightarrow> job_row" where
  "released now r =
     r\<lparr>j_status := JsPending, j_last_error := Some (failure_body ''shutdown'' ''worker stopped''), j_worker := None, j_lease_until := None,
       j_next_run_at := now, j_updated_at := now\<rparr>"

lemma released_fields [simp]: "j_id (released now r) = j_id r" "\<not> held_by worker (released now r)" "j_status (released now r) = JsPending"
  "j_next_run_at (released now r) = now" "j_chain (released now r) = j_chain r"
  by (simp_all add: released_def held_by_def)

lemma fail_job_releases:
  assumes "distinct (map j_id (jt_rows t))"
  shows "jt_rows (snd (fail_job now t i worker (failure_body ''shutdown'' ''worker stopped'') True 0)) =
    map (\<lambda>r. if j_id r = i \<and> held_by worker r then released now r else r) (jt_rows t)"
proof -
  have zero: "duration_millis 0 = Ok 0" by (simp add: duration_millis_def i64_max_def)
  have own: "j_id r \<in> set (held_ids worker [i] t) \<longleftrightarrow> j_id r = i \<and> held_by worker r" if "r \<in> set (jt_rows t)" for r
    using that assms by (auto simp: held_ids_def distinct_map inj_on_def)
  show ?thesis
  proof (cases "held_ids worker [i] t = []")
    case True
    then have "\<not> (j_id r = i \<and> held_by worker r)" if "r \<in> set (jt_rows t)" for r using own [OF that] by simp
    then show ?thesis using True zero by (auto simp: fail_job_def Let_def intro!: map_idI [symmetric])
  next
    case False
    then show ?thesis using zero own by (auto simp: fail_job_def Let_def update_ids_def set_rows_def released_def)
  qed
qed

lemma release_jobs_rows:
  "distinct (map j_id (jt_rows t)) \<Longrightarrow>
   jt_rows (release_jobs now t worker ids) = map (\<lambda>r. if j_id r \<in> set ids \<and> held_by worker r then released now r else r) (jt_rows t)"
proof (induction ids arbitrary: t)
  case (Cons i ids)
  let ?t = "snd (fail_job now t i worker (failure_body ''shutdown'' ''worker stopped'') True 0)"
  note rows = fail_job_releases [OF Cons.prems, of now i worker]
  have "map j_id (jt_rows ?t) = map j_id (jt_rows t)" unfolding rows by auto
  then have "distinct (map j_id (jt_rows ?t))" using Cons.prems by simp
  from Cons.IH [OF this] show ?case unfolding rows by auto
qed simp

text \<open>
  C17. A worker stopped in the middle of a batch leaves none of the batch's jobs to its lease: every
  job it still held when the work was cut is pending, ready to be claimed by any worker at once,
  and no other job is touched.
\<close>

theorem shutdown_releases_batch:
  assumes "claim_batch now locked en d worker = (Ok (Some jobs), d')" and "distinct (map j_id (jt_rows (db_jobs (halted_at d'))))"
    and "worker_turn now today t locked en d others worker (InBatch halted_at) = (goes, d'', en')"
  shows "\<not> goes \<and> jt_rows (db_jobs d'') =
      map (\<lambda>r. if j_id r \<in> j_id ` set jobs \<and> held_by worker r then released now r else r) (jt_rows (db_jobs (halted_at d'))) \<and>
    (\<forall>r\<in>set (jt_rows (db_jobs d'')). j_id r \<in> j_id ` set jobs \<longrightarrow> \<not> held_by worker r) \<and>
    (\<forall>r. claimable now None (released now r))"
  using assms release_jobs_rows [OF assms(2), of now worker "map j_id jobs"]
  by (auto simp: worker_turn_def claimable_def)

definition worker_demo_db :: db where
  "worker_demo_db = fill_demo_db\<lparr>db_jobs := \<lparr>jt_rows = [new_job 0 1 1 EvmBlocks 1 (rng 0 9) JpQuery ''a''], jt_next_id = 2, jt_notified = []\<rparr>\<rparr>"

lemma worker_demo_claim:
  "\<exists>jb d'. claim_batch 5 [] (engine_new [] engine_settings_default) worker_demo_db ''w'' = (Ok (Some [jb]), d') \<and> j_id jb = 1 \<and>
     (\<exists>r. jt_rows (db_jobs d') = [r] \<and> j_id r = 1 \<and> held_by ''w'' r)"
  by (simp add: claim_batch_def worker_demo_db_def claim_def duration_millis_def i64_max_def engine_new_def engine_settings_default_def claim_ids_def
      claim_pool_def new_job_def claimable_def update_ids_def set_rows_def rows_with_ids_def mark_running_def job.truncate_def held_by_def)

theorem shutdown_releases_batch_witness:
  "\<exists>d'' en'. worker_turn 5 0 0 [] (engine_new [] engine_settings_default) worker_demo_db id ''w'' (InBatch id) = (False, d'', en') \<and>
     (\<exists>r. jt_rows (db_jobs d'') = [released 5 r] \<and> claimable 5 None (released 5 r))"
proof -
  obtain jb d' r where claim: "claim_batch 5 [] (engine_new [] engine_settings_default) worker_demo_db ''w'' = (Ok (Some [jb]), d')"
    and row: "j_id jb = 1" "jt_rows (db_jobs d') = [r]" "j_id r = 1" "held_by ''w'' r"
    using worker_demo_claim by blast
  obtain goes d'' en' where turn: "worker_turn 5 0 0 [] (engine_new [] engine_settings_default) worker_demo_db id ''w'' (InBatch id) = (goes, d'', en')"
    by (cases "worker_turn 5 0 0 [] (engine_new [] engine_settings_default) worker_demo_db id ''w'' (InBatch id)") auto
  have "distinct (map j_id (jt_rows (db_jobs (id d'))))" using row by simp
  from shutdown_releases_batch [OF claim this turn] turn row show ?thesis by auto
qed

end
