(* ===== verification/Dispatch.thy ===== *)
theory Dispatch
  imports Gateway Transition
begin

text \<open>
  The rest of the gateway, \<open>crates/provider/src/gateway.rs\<close>: its range book behind the lock, the day of the
  daily limit, and the requests in flight. The semaphore of \<open>tokio\<close> hands its permits out in the order
  the requests came. A request whose caller goes away gives its permit back.
\<close>

section \<open>Range book and day\<close>

definition gateway_range_blocks :: "gateway \<Rightarrow> dataset \<Rightarrow> u64 \<Rightarrow> u64 \<times> gateway" where
  "gateway_range_blocks gw ds now = (case book_current (gw_ranges gw) ds now of (n, b) \<Rightarrow> (n, gw\<lparr>gw_ranges := b\<rparr>))"

definition gateway_record_success :: "gateway \<Rightarrow> dataset \<Rightarrow> u64 \<Rightarrow> gateway" where
  "gateway_record_success gw ds now = gw\<lparr>gw_ranges := record_success (gw_ranges gw) ds now\<rparr>"

definition gateway_record_limit :: "gateway \<Rightarrow> dataset \<Rightarrow> u64 \<Rightarrow> u64 \<Rightarrow> (u64, provider_error) result \<times> gateway" where
  "gateway_record_limit gw ds failed_blocks now =
     (case record_limit (gw_ranges gw) ds failed_blocks now of (r, b) \<Rightarrow> (r, gw\<lparr>gw_ranges := b\<rparr>))"

definition gateway_today :: "u64 \<Rightarrow> u64" where
  "gateway_today now_ms = now_ms div 86400000"

section \<open>Requests in flight\<close>

text \<open>\<open>gw_in_flight\<close> counts the free permits.\<close>

record flights =
  fg_gateway :: gateway
  fg_waiting :: "nat list"
  fg_posting :: "nat list"
  fg_granted :: "nat list"
  fg_gone :: "nat list"

definition flights_start :: "gateway \<Rightarrow> flights" where
  "flights_start gw = \<lparr>fg_gateway = gw, fg_waiting = [], fg_posting = [], fg_granted = [], fg_gone = []\<rparr>"

definition free_permits :: "flights \<Rightarrow> nat" where
  "free_permits x = gw_in_flight (fg_gateway x)"

definition set_permits :: "nat \<Rightarrow> flights \<Rightarrow> flights" where
  "set_permits n x = x\<lparr>fg_gateway := (fg_gateway x)\<lparr>gw_in_flight := n\<rparr>\<rparr>"

definition permit_asked :: "nat \<Rightarrow> flights \<Rightarrow> flights" where
  "permit_asked i x = x\<lparr>fg_waiting := fg_waiting x @ [i]\<rparr>"

definition permit_granted :: "flights \<Rightarrow> flights" where
  "permit_granted x =
     (case fg_waiting x of
        [] \<Rightarrow> x
      | i # rest \<Rightarrow>
          if free_permits x = 0 then x
          else (set_permits (free_permits x - 1) x)\<lparr>fg_waiting := rest, fg_posting := fg_posting x @ [i], fg_granted := fg_granted x @ [i]\<rparr>)"

definition permit_dropped :: "nat \<Rightarrow> flights \<Rightarrow> flights" where
  "permit_dropped i x =
     (if i \<in> set (fg_posting x)
      then (set_permits (free_permits x + 1) x)\<lparr>fg_posting := remove1 i (fg_posting x)\<rparr> else x)"

text \<open>The caller is dropped while it waits.\<close>

definition wait_dropped :: "nat \<Rightarrow> flights \<Rightarrow> flights" where
  "wait_dropped i x =
     (if i \<in> set (fg_waiting x) then x\<lparr>fg_waiting := remove1 i (fg_waiting x), fg_gone := fg_gone x @ [i]\<rparr> else x)"

inductive flight_step :: "flights \<Rightarrow> flights \<Rightarrow> bool" where
  asks: "i \<notin> set (fg_waiting x) \<union> set (fg_granted x) \<union> set (fg_gone x) \<Longrightarrow> flight_step x (permit_asked i x)"
| granted: "flight_step x (permit_granted x)"
| finished: "flight_step x (permit_dropped i x)"
| abandoned: "flight_step x (wait_dropped i x)"

inductive_cases flight_stepE: "flight_step x y"

definition flights_inv :: "nat \<Rightarrow> flights \<Rightarrow> bool" where
  "flights_inv mx x = (free_permits x + length (fg_posting x) = mx)"

lemma set_permits_fields [simp]:
  "free_permits (set_permits n x) = n" "fg_posting (set_permits n x) = fg_posting x" "fg_waiting (set_permits n x) = fg_waiting x"
  by (simp_all add: set_permits_def free_permits_def)

lemma flight_step_inv: "flights_inv mx x \<Longrightarrow> flight_step x y \<Longrightarrow> flights_inv mx y"
proof (elim flight_stepE)
  assume inv: "flights_inv mx x" and "y = permit_granted x"
  then show ?thesis by (cases "fg_waiting x") (auto simp: permit_granted_def flights_inv_def free_permits_def set_permits_def)
next
  fix i assume inv: "flights_inv mx x" and y: "y = permit_dropped i x"
  show ?thesis
  proof (cases "i \<in> set (fg_posting x)")
    case True
    then have "0 < length (fg_posting x)" by (auto intro: length_pos_if_in_set)
    then show ?thesis using inv y True by (auto simp: permit_dropped_def flights_inv_def free_permits_def set_permits_def length_remove1)
  qed (use inv y in \<open>simp add: permit_dropped_def\<close>)
qed (auto simp: flights_inv_def permit_asked_def wait_dropped_def free_permits_def)

interpretation in_flight: invariant_system "\<lambda>x. x = flights_start gw" flight_step "flights_inv (gw_in_flight gw)" for gw
  by unfold_locales (simp add: flights_inv_def flights_start_def free_permits_def, rule flight_step_inv)

text \<open>
  A gateway built with \<open>max_in_flight\<close> never has more requests at the provider than that, whatever
  requests come, finish or are abandoned; when none is out every permit is back, and a waiting
  request is then granted by the next step.
\<close>

theorem in_flight_bounded:
  assumes "gateway_new chain c client now = Ok gw" and "flight_step\<^sup>*\<^sup>* (flights_start gw) x"
  shows "length (fg_posting x) \<le> pc_max_in_flight c \<and> (fg_posting x = [] \<longrightarrow> free_permits x = pc_max_in_flight c) \<and>
    (0 < pc_max_in_flight c \<and> fg_posting x = [] \<and> fg_waiting x = i # rest \<longrightarrow> fg_posting (permit_granted x) = [i])"
proof -
  have "gw_in_flight gw = pc_max_in_flight c"
    using assms(1) by (auto simp: gateway_new_def Let_def split: if_splits sum.splits)
  then have "free_permits x + length (fg_posting x) = pc_max_in_flight c"
    using in_flight.reachable_inv [OF refl assms(2)] by (simp add: flights_inv_def)
  then show ?thesis by (auto simp: permit_granted_def)
qed

end
